(* ===== verification/Prelude.thy ===== *)
theory Prelude
  imports "HOL-Library.Word" "HOL-Library.Sublist"
begin

text \<open>The development's shared vocabulary: names for the machine integers and
byte strings of the Rust sources, the collections the component proofs draw on,
big-endian encodings with their round trips, finite-map lemmas, and the locale
of a deterministic state machine with an invariant, interpreted by every
component whose operations share one.\<close>

unbundle bit_operations_syntax

named_theorems model_defs \<open>definitions a component proof unfolds by default\<close>
named_theorems wf_intros \<open>introduction rules for the well-formedness predicates\<close>
named_theorems codec_simps \<open>encode/decode round trips\<close>

type_synonym u8 = "8 word"
type_synonym u16 = "16 word"
type_synonym u32 = "32 word"
type_synonym u64 = "64 word"
type_synonym u128 = "128 word"
type_synonym bytes = "u8 list"

text \<open>Rust's \<open>Result\<close>: \<open>Inl\<close> carries the error.\<close>

type_synonym ('e, 'a) result = "'e + 'a"

fun is_ok :: "('e, 'a) result \<Rightarrow> bool" where
  "is_ok (Inl _) = False"
| "is_ok (Inr _) = True"

definition bind_result :: "('e, 'a) result \<Rightarrow> ('a \<Rightarrow> ('e, 'b) result) \<Rightarrow> ('e, 'b) result" where
  "bind_result r f = (case r of Inl e \<Rightarrow> Inl e | Inr a \<Rightarrow> f a)"

lemma bind_result_simps [simp]:
  "bind_result (Inl e) f = Inl e"
  "bind_result (Inr a) f = f a"
  by (simp_all add: bind_result_def)

lemma bind_result_Inr_iff:
  "bind_result r f = Inr b \<longleftrightarrow> (\<exists>a. r = Inr a \<and> f a = Inr b)"
  by (cases r) simp_all

definition opt_result :: "'e \<Rightarrow> 'a option \<Rightarrow> ('e, 'a) result" where
  "opt_result e x = (case x of None \<Rightarrow> Inl e | Some a \<Rightarrow> Inr a)"

lemma opt_result_simps [simp]:
  "opt_result e None = Inl e"
  "opt_result e (Some a) = Inr a"
  by (simp_all add: opt_result_def)

lemma opt_result_Inr_iff [simp]: "opt_result e x = Inr a \<longleftrightarrow> x = Some a"
  by (cases x) simp_all

subsection \<open>Big-endian encodings\<close>

definition be16 :: "u16 \<Rightarrow> bytes" where
  "be16 w = [ucast (drop_bit 8 w), ucast w]"

definition be24 :: "u32 \<Rightarrow> bytes" where
  "be24 w = [ucast (drop_bit 16 w), ucast (drop_bit 8 w), ucast w]"

definition be32 :: "u32 \<Rightarrow> bytes" where
  "be32 w = [ucast (drop_bit 24 w), ucast (drop_bit 16 w), ucast (drop_bit 8 w), ucast w]"

definition be64 :: "u64 \<Rightarrow> bytes" where
  "be64 w = [ucast (drop_bit 56 w), ucast (drop_bit 48 w), ucast (drop_bit 40 w),
     ucast (drop_bit 32 w), ucast (drop_bit 24 w), ucast (drop_bit 16 w),
     ucast (drop_bit 8 w), ucast w]"

definition of_be16 :: "u8 \<Rightarrow> u8 \<Rightarrow> u16" where
  "of_be16 a b = push_bit 8 (ucast a) OR ucast b"

definition of_be32 :: "u8 \<Rightarrow> u8 \<Rightarrow> u8 \<Rightarrow> u8 \<Rightarrow> u32" where
  "of_be32 a b c d = push_bit 24 (ucast a) OR push_bit 16 (ucast b)
     OR push_bit 8 (ucast c) OR ucast d"

lemma length_be [simp]:
  "length (be16 w) = 2" "length (be24 v) = 3" "length (be32 v) = 4" "length (be64 x) = 8"
  by (simp_all add: be16_def be24_def be32_def be64_def)

lemma of_be16_be16 [codec_simps]:
  "of_be16 (ucast (drop_bit 8 w)) (ucast w) = w"
  by (rule bit_word_eqI)
    (auto simp: of_be16_def bit_simps)

lemma of_be32_be32 [codec_simps]:
  "of_be32 (ucast (drop_bit 24 w)) (ucast (drop_bit 16 w)) (ucast (drop_bit 8 w)) (ucast w) = w"
  apply (rule bit_word_eqI)
  subgoal for n
    by (cases "n < 8"; cases "n < 16"; cases "n < 24") (auto simp: of_be32_def bit_simps)
  done

text \<open>\<open>saturating_add(1)\<close>.\<close>

definition saturating_succ :: "'a::len word \<Rightarrow> 'a word" where
  "saturating_succ w = (if w = - 1 then - 1 else w + 1)"

lemma unat_max_word: "unat (- 1 :: 'a::len word) = 2 ^ LENGTH('a) - 1"
  by (simp add: unsigned_minus_1_eq_mask mask_eq_exp_minus_1)

lemma unat_succ: "w \<noteq> - 1 \<Longrightarrow> unat (w + 1) = Suc (unat w)" for w :: "'a::len word"
  by (metis Suc_eq_plus1 unatSuc add.commute add_eq_0_iff2 eq_neg_iff_add_eq_0)

lemma unat_less_max: "w \<noteq> - 1 \<Longrightarrow> Suc (unat w) < 2 ^ LENGTH('a)" for w :: "'a::len word"
  by (metis unat_succ unsigned_less)

lemma unat_saturating_succ:
  "unat (saturating_succ w) = (if w = - 1 then unat w else Suc (unat w))" for w :: "'a::len word"
  by (simp add: saturating_succ_def unat_succ)

definition saturating_add :: "'a::len word \<Rightarrow> 'a word \<Rightarrow> 'a word" where
  "saturating_add a b = (if unat a + unat b < 2 ^ LENGTH('a) then a + b else - 1)"

definition saturating_sub :: "'a::len word \<Rightarrow> 'a word \<Rightarrow> 'a word" where
  "saturating_sub a b = (if b \<le> a then a - b else 0)"

lemma unat_saturating_add:
  "unat (saturating_add a b) = min (unat a + unat b) (2 ^ LENGTH('a) - 1)" for a :: "'a::len word"
  by (auto simp: saturating_add_def unat_max_word unat_word_ariths min_def)

lemma unat_saturating_sub: "unat (saturating_sub a b) = unat a - unat b"
  by (auto simp: saturating_sub_def unat_sub word_le_nat_alt)

subsection \<open>Masks as division and remainder\<close>

lemma and_not_mask_push_drop:
  fixes w :: "'a::len word"
  shows "w AND NOT (mask n) = push_bit n (drop_bit n w)"
  by (rule bit_word_eqI) (auto simp: bit_simps)

lemma unat_drop_bit:
  fixes w :: "'a::len word"
  shows "unat (drop_bit n w) = unat w div 2 ^ n"
proof -
  have "unat (drop_bit n w) = drop_bit n (take_bit LENGTH('a) (unat w))"
    by (rule unsigned_drop_bit_eq)
  also have "take_bit LENGTH('a) (unat w) = unat w"
    by (rule take_bit_nat_eq_self) (rule unsigned_less)
  finally show ?thesis by (simp only: drop_bit_eq_div)
qed

lemma drop_bit_eq_iff:
  fixes w v :: "'a::len word"
  shows "drop_bit n w = drop_bit n v \<longleftrightarrow> unat w div 2 ^ n = unat v div 2 ^ n"
  unfolding unat_drop_bit [symmetric] by (metis unsigned_word_eqI)

lemma and_not_mask_eq_iff:
  fixes w v :: "'a::len word"
  shows "w AND NOT (mask n) = v AND NOT (mask n) \<longleftrightarrow> unat w div 2 ^ n = unat v div 2 ^ n"
proof -
  have "push_bit n (drop_bit n w) = push_bit n (drop_bit n v) \<longleftrightarrow> drop_bit n w = drop_bit n v"
  proof
    assume a: "push_bit n (drop_bit n w) = push_bit n (drop_bit n v)"
    have "drop_bit n (push_bit n (drop_bit n x)) = drop_bit n x" for x :: "'a word"
      by (rule bit_word_eqI) (auto simp: bit_simps dest: bit_imp_le_length)
    with a show "drop_bit n w = drop_bit n v" by metis
  qed simp
  then show ?thesis
    by (simp add: and_not_mask_push_drop drop_bit_eq_iff)
qed

lemma unat_and_mask:
  fixes w :: "'a::len word"
  shows "unat (w AND mask n) = unat w mod 2 ^ n"
  unfolding take_bit_eq_mask [symmetric] unsigned_take_bit_eq by (rule take_bit_eq_mod)

lemma unat_mask:
  assumes "n \<le> LENGTH('a)"
  shows "unat (mask n :: 'a::len word) = 2 ^ n - 1"
proof -
  have "(mask n :: 'a word) = of_nat (2 ^ n - 1)"
    by (simp add: mask_eq_exp_minus_1)
  moreover have "(2 :: nat) ^ n - 1 < 2 ^ LENGTH('a)"
  proof (rule less_le_trans)
    show "(2 :: nat) ^ n - 1 < 2 ^ n" by simp
    show "(2 :: nat) ^ n \<le> 2 ^ LENGTH('a)" using assms by (simp add: power_increasing)
  qed
  ultimately show ?thesis by (metis unat_of_nat mod_less)
qed

lemma and_mask_full_iff:
  fixes w :: "'a::len word"
  shows "n \<le> LENGTH('a) \<Longrightarrow> w AND mask n = mask n \<longleftrightarrow> unat w mod 2 ^ n = 2 ^ n - 1"
  by (metis unat_and_mask unat_mask unsigned_word_eqI)

subsection \<open>Finite maps\<close>

lemma option_eqI: "(\<And>x. a = Some x \<longleftrightarrow> b = Some x) \<Longrightarrow> a = b"
  by (cases a; cases b) auto

lemma fold_map_upd:
  "distinct (map fst es) \<Longrightarrow> fold (\<lambda>(d, ip) m. m(d \<mapsto> ip)) es m = m ++ map_of es"
proof (induction es arbitrary: m)
  case (Cons e es)
  obtain d ip where e: "e = (d, ip)" by (cases e)
  have "map_of es d = None" using Cons.prems by (simp add: e map_of_eq_None_iff)
  then have "m(d \<mapsto> ip) ++ map_of es = m ++ (map_of es)(d \<mapsto> ip)"
    by (auto simp: fun_eq_iff map_add_def split: option.splits)
  moreover have "fold (\<lambda>(d, ip) m. m(d \<mapsto> ip)) es (m(d \<mapsto> ip)) = m(d \<mapsto> ip) ++ map_of es"
    using Cons.prems by (intro Cons.IH) simp
  ultimately show ?case by (simp only: e fold_simps case_prod_conv o_apply map_of.simps fst_conv snd_conv)
qed simp

lemma card_dom_upd_le:
  "finite (dom m) \<Longrightarrow> card (dom (m(k \<mapsto> v))) \<le> Suc (card (dom m))"
  by (simp add: card_insert_if)

subsection \<open>Deterministic state machines with an invariant\<close>

text \<open>\<open>step\<close> applies one operation of a component to its state. The component's
theory interprets the locale with its own dispatcher and discharges the law that
every operation keeps the invariant; every run then keeps it.\<close>

locale invariant_machine =
  fixes step :: "'op \<Rightarrow> 's \<Rightarrow> 's"
    and inv :: "'s \<Rightarrow> bool"
  assumes step_inv: "inv s \<Longrightarrow> inv (step op s)"
begin

lemma run_inv: "inv s \<Longrightarrow> inv (fold step ops s)"
  by (induction ops arbitrary: s) (simp_all add: step_inv)

lemma run_prefix_inv: "inv s \<Longrightarrow> inv (fold step (take n ops) s)"
  by (rule run_inv)

end

end
