(* ===== verification/RustParse.thy ===== *)
theory RustParse
  imports RustStr
begin

text \<open>Rust's text conversions: trimming (Unicode white space, as its UTF-8
encodings), \<open>lines\<close>, UTF-8 validity, \<open>from_str_radix\<close>, decimal printing and the
\<open>Ipv4Addr\<close> parser and printer, with the print/parse round trips.\<close>

subsection \<open>Trimming and lines\<close>

text \<open>The 25 code points with the \<open>White_Space\<close> property.\<close>

definition ws_seqs :: "string list" where
  "ws_seqs =
     [[CHR 0x09], [CHR 0x0A], [CHR 0x0B], [CHR 0x0C], [CHR 0x0D], [CHR 0x20],
      [CHR 0xC2, CHR 0x85], [CHR 0xC2, CHR 0xA0], [CHR 0xE1, CHR 0x9A, CHR 0x80],
      [CHR 0xE2, CHR 0x80, CHR 0x80], [CHR 0xE2, CHR 0x80, CHR 0x81],
      [CHR 0xE2, CHR 0x80, CHR 0x82], [CHR 0xE2, CHR 0x80, CHR 0x83],
      [CHR 0xE2, CHR 0x80, CHR 0x84], [CHR 0xE2, CHR 0x80, CHR 0x85],
      [CHR 0xE2, CHR 0x80, CHR 0x86], [CHR 0xE2, CHR 0x80, CHR 0x87],
      [CHR 0xE2, CHR 0x80, CHR 0x88], [CHR 0xE2, CHR 0x80, CHR 0x89],
      [CHR 0xE2, CHR 0x80, CHR 0x8A], [CHR 0xE2, CHR 0x80, CHR 0xA8],
      [CHR 0xE2, CHR 0x80, CHR 0xA9], [CHR 0xE2, CHR 0x80, CHR 0xAF],
      [CHR 0xE2, CHR 0x81, CHR 0x9F], [CHR 0xE3, CHR 0x80, CHR 0x80]]"

lemma ws_seqs_nonempty: "w \<in> set ws_seqs \<Longrightarrow> 0 < length w"
  by (auto simp: ws_seqs_def)

function trim_start :: "string \<Rightarrow> string" where
  "trim_start s =
     (case find (\<lambda>w. starts_with w s) ws_seqs of
        None \<Rightarrow> s
      | Some w \<Rightarrow> trim_start (drop (length w) s))"
  by pat_completeness auto
termination
  by (relation "measure length")
    (auto simp: find_Some_iff starts_with_iff dest: ws_seqs_nonempty [OF nth_mem])

function trim_end :: "string \<Rightarrow> string" where
  "trim_end s =
     (case find (\<lambda>w. ends_with w s) ws_seqs of
        None \<Rightarrow> s
      | Some w \<Rightarrow> trim_end (take (length s - length w) s))"
  by pat_completeness auto
termination
  by (relation "measure length")
    (auto simp: find_Some_iff ends_with_iff dest: ws_seqs_nonempty [OF nth_mem])

declare trim_start.simps [simp del] trim_end.simps [simp del]

definition trim :: "string \<Rightarrow> string" where
  "trim s = trim_end (trim_start s)"

fun trim_end_matches :: "char \<Rightarrow> string \<Rightarrow> string" where
  "trim_end_matches d s = rev (dropWhile (\<lambda>c. c = d) (rev s))"

definition strip_cr :: "string \<Rightarrow> string" where
  "strip_cr s = (if s \<noteq> [] \<and> last s = CHR 0x0D then butlast s else s)"

text \<open>\<open>str::lines\<close>: every line but an unterminated last one loses one trailing
carriage return; an empty last line is dropped.\<close>

definition str_lines :: "string \<Rightarrow> string list" where
  "str_lines s =
     (let ps = split_char (CHR 0x0A) s
      in map strip_cr (butlast ps) @ (if last ps = [] then [] else [last ps]))"

lemma trim_end_fix_iff: "trim_end s = s \<longleftrightarrow> (\<forall>w\<in>set ws_seqs. \<not> ends_with w s)"
proof
  assume "trim_end s = s"
  show "\<forall>w\<in>set ws_seqs. \<not> ends_with w s"
  proof (rule ccontr)
    assume "\<not> ?thesis"
    then obtain w where w: "find (\<lambda>w. ends_with w s) ws_seqs = Some w"
      by (auto simp: find_None_iff2 dest: sym split: option.splits)
        (metis find_None_iff not_Some_eq)
    then have "w \<in> set ws_seqs" "ends_with w s" by (auto simp: find_Some_iff)
    then have l: "0 < length w" "length w \<le> length s"
      by (auto simp: ends_with_iff dest: ws_seqs_nonempty)
    have len: "length (trim_end t) \<le> length t" for t
    proof (induction t rule: trim_end.induct)
      case (1 t)
      then show ?case
        by (subst trim_end.simps) (auto split: option.splits intro: order_trans)
    qed
    have "trim_end s = trim_end (take (length s - length w) s)"
      using w by (subst trim_end.simps) simp
    then have "length (trim_end s) \<le> length s - length w"
      using len [of "take (length s - length w) s"] by simp
    then have "length s \<le> length s - length w" using \<open>trim_end s = s\<close> by simp
    with l show False by linarith
  qed
next
  assume "\<forall>w\<in>set ws_seqs. \<not> ends_with w s"
  then have "find (\<lambda>w. ends_with w s) ws_seqs = None" by (simp add: find_None_iff)
  then show "trim_end s = s" by (subst trim_end.simps) simp
qed

lemma trim_start_fix: "\<forall>w\<in>set ws_seqs. \<not> starts_with w s \<Longrightarrow> trim_start s = s"
proof -
  assume "\<forall>w\<in>set ws_seqs. \<not> starts_with w s"
  then have "find (\<lambda>w. starts_with w s) ws_seqs = None" by (simp add: find_None_iff)
  then show "trim_start s = s" by (subst trim_start.simps) simp
qed

lemma ws_seq_hd_tl:
  assumes "w \<in> set ws_seqs"
  shows "code (hd w) < 33 \<or> 127 < code (hd w)" "CHR '' '' \<notin> set (tl w)"
    "w = '' '' \<or> CHR '' '' \<notin> set w"
  using assms by (auto simp: ws_seqs_def)

lemma trim_start_graphic: "33 \<le> code c \<Longrightarrow> code c \<le> 127 \<Longrightarrow> trim_start (c # s) = c # s"
proof (rule trim_start_fix, rule ballI, rule notI)
  fix w
  assume c: "33 \<le> code c" "code c \<le> 127" and w: "w \<in> set ws_seqs" "starts_with w (c # s)"
  from w have "w \<noteq> []" using ws_seqs_nonempty by fastforce
  with w(2) have "hd w = c" by (cases w) (auto simp: starts_with_iff)
  with ws_seq_hd_tl(1) [OF w(1)] c show False by auto
qed

lemma trim_end_after_space:
  assumes "trim_end d = d" "d \<noteq> []"
  shows "trim_end (a @ CHR '' '' # d) = a @ CHR '' '' # d"
  unfolding trim_end_fix_iff
proof (rule ballI, rule notI)
  fix w
  assume w: "w \<in> set ws_seqs" "ends_with w (a @ CHR '' '' # d)"
  then obtain t where t: "a @ CHR '' '' # d = t @ w" by (auto simp: ends_with_iff)
  show False
  proof (cases "length w \<le> length d")
    case True
    have "drop (length t) (a @ CHR '' '' # d) = w" using t by simp
    moreover have "length t = length a + 1 + (length d - length w)"
      using arg_cong [OF t, of length] True by simp
    ultimately have "drop (length d - length w) d = w" by simp
    then have "d = take (length d - length w) d @ w" by (metis append_take_drop_id)
    then have "ends_with w d" unfolding ends_with_iff by blast
    with assms(1) w(1) show False by (simp add: trim_end_fix_iff)
  next
    case False
    then have "\<exists>p. w = p @ CHR '' '' # d" 
      using t by (auto simp: append_eq_append_conv2 Cons_eq_append_conv)
    then obtain p where "w = p @ CHR '' '' # d" by blast
    with ws_seq_hd_tl(3) [OF w(1)] assms(2) show False by (cases p) auto
  qed
qed

lemma trim_graphic:
  assumes "s \<noteq> []" "\<forall>c\<in>{hd s, last s}. 33 \<le> code c \<and> code c \<le> 127"
  shows "trim s = s" "strip_cr s = s"
proof -
  obtain c t where s: "s = c # t" using assms(1) by (cases s) auto
  have e: "trim_end s = s"
    unfolding trim_end_fix_iff
  proof (rule ballI, rule notI)
    fix w assume w: "w \<in> set ws_seqs" "ends_with w s"
    then have "w \<noteq> []" using ws_seqs_nonempty by fastforce
    then have "last w = last s" using w(2) by (auto simp: ends_with_iff)
    moreover have "code (last w) < 33 \<or> 127 < code (last w)"
      using w(1) by (auto simp: ws_seqs_def)
    ultimately show False using assms(2) by auto
  qed
  then show "trim s = s"
    using trim_start_graphic [of c t] assms(2) by (simp add: trim_def s)
  show "strip_cr s = s" using assms by (auto simp: strip_cr_def)
qed

lemma str_lines_cons:
  assumes "CHR 0x0A \<notin> set l"
  shows "str_lines (l @ CHR 0x0A # rest) = strip_cr l # str_lines rest"
proof -
  obtain q qs where "split_char (CHR 0x0A) rest = q # qs"
    by (cases "split_char (CHR 0x0A) rest") auto
  then show ?thesis
    unfolding str_lines_def Let_def split_char_append [OF assms] by simp
qed

lemma str_lines_Nil [simp]: "str_lines [] = []"
  by (simp add: str_lines_def)

subsection \<open>UTF-8 validity\<close>

definition utf8_cont :: "char \<Rightarrow> bool" where
  "utf8_cont c \<longleftrightarrow> 0x80 \<le> code c \<and> code c \<le> 0xBF"

definition utf8_second :: "nat \<Rightarrow> nat \<Rightarrow> bool" where
  "utf8_second a b \<longleftrightarrow>
     (if a = 0xE0 then 0xA0 \<le> b \<and> b \<le> 0xBF
      else if a = 0xED then 0x80 \<le> b \<and> b \<le> 0x9F
      else if a = 0xF0 then 0x90 \<le> b \<and> b \<le> 0xBF
      else if a = 0xF4 then 0x80 \<le> b \<and> b \<le> 0x8F
      else 0x80 \<le> b \<and> b \<le> 0xBF)"

fun utf8_ok :: "string \<Rightarrow> bool" where
  "utf8_ok [] \<longleftrightarrow> True"
| "utf8_ok (a # s) \<longleftrightarrow>
     (if code a < 0x80 then utf8_ok s
      else if 0xC2 \<le> code a \<and> code a \<le> 0xDF then
        (case s of b # s1 \<Rightarrow> utf8_cont b \<and> utf8_ok s1 | _ \<Rightarrow> False)
      else if 0xE0 \<le> code a \<and> code a \<le> 0xEF then
        (case s of b # c # s1 \<Rightarrow> utf8_second (code a) (code b) \<and> utf8_cont c \<and> utf8_ok s1
         | _ \<Rightarrow> False)
      else if 0xF0 \<le> code a \<and> code a \<le> 0xF4 then
        (case s of b # c # d # s1 \<Rightarrow>
            utf8_second (code a) (code b) \<and> utf8_cont c \<and> utf8_cont d \<and> utf8_ok s1
         | _ \<Rightarrow> False)
      else False)"

text \<open>\<open>String::from_utf8_lossy\<close>: every maximal invalid prefix becomes U+FFFD.\<close>

definition fffd :: string where "fffd = [CHR 0xEF, CHR 0xBF, CHR 0xBD]"

text \<open>\<open>utf8_head s\<close> is the number of bytes of the character at the head of \<open>s\<close>, and whether
it is valid; an invalid one is the longest prefix that could still have become valid.\<close>

definition utf8_head :: "string \<Rightarrow> nat \<times> bool" where
  "utf8_head s =
     (case s of
        [] \<Rightarrow> (1, False)
      | a # t \<Rightarrow>
          if code a < 0x80 then (1, True)
          else if 0xC2 \<le> code a \<and> code a \<le> 0xDF then
            (case t of b # _ \<Rightarrow> if utf8_cont b then (2, True) else (1, False) | _ \<Rightarrow> (1, False))
          else if 0xE0 \<le> code a \<and> code a \<le> 0xEF then
            (case t of
               b # u \<Rightarrow> if \<not> utf8_second (code a) (code b) then (1, False)
                        else (case u of c # _ \<Rightarrow> if utf8_cont c then (3, True) else (2, False)
                              | _ \<Rightarrow> (2, False))
             | _ \<Rightarrow> (1, False))
          else if 0xF0 \<le> code a \<and> code a \<le> 0xF4 then
            (case t of
               b # u \<Rightarrow> if \<not> utf8_second (code a) (code b) then (1, False)
                        else (case u of
                            c # v \<Rightarrow> if \<not> utf8_cont c then (2, False)
                                     else (case v of d # _ \<Rightarrow> if utf8_cont d then (4, True) else (3, False)
                                           | _ \<Rightarrow> (3, False))
                          | _ \<Rightarrow> (2, False))
             | _ \<Rightarrow> (1, False))
          else (1, False))"

lemma utf8_head_pos: "0 < fst (utf8_head s)"
  by (auto simp: utf8_head_def split: list.splits)

function utf8_lossy :: "string \<Rightarrow> string" where
  "utf8_lossy s =
     (if s = [] then []
      else case utf8_head s of
        (n, ok) \<Rightarrow> (if ok then take n s else fffd) @ utf8_lossy (drop n s))"
  by pat_completeness auto
termination
proof (relation "measure length", simp_all)
  fix s :: string and n ok
  assume "s \<noteq> []" "(n, ok) = utf8_head s"
  then show "length s - n < length s"
    using utf8_head_pos [of s] by (metis diff_less fst_conv length_greater_0_conv)
qed

declare utf8_lossy.simps [simp del]

lemma utf8_lossy_Nil [simp]: "utf8_lossy [] = []"
  by (subst utf8_lossy.simps) simp

lemma utf8_lossy_ascii: "\<forall>c\<in>set s. code c < 128 \<Longrightarrow> utf8_lossy s = s"
proof (induction s)
  case (Cons a s)
  then show ?case by (subst utf8_lossy.simps) (simp add: utf8_head_def)
qed simp

subsection \<open>Unsigned integers\<close>

definition to_digit :: "nat \<Rightarrow> char \<Rightarrow> nat option" where
  "to_digit radix c =
     (let n = code c;
          v = (if 48 \<le> n \<and> n \<le> 57 then Some (n - 48)
               else if 97 \<le> n \<and> n \<le> 122 then Some (n - 87)
               else if 65 \<le> n \<and> n \<le> 90 then Some (n - 55) else None)
      in case v of None \<Rightarrow> None | Some d \<Rightarrow> if d < radix then Some d else None)"

fun digits_val :: "nat \<Rightarrow> nat \<Rightarrow> string \<Rightarrow> nat option" where
  "digits_val radix acc [] = Some acc"
| "digits_val radix acc (c # s) =
     (case to_digit radix c of None \<Rightarrow> None | Some d \<Rightarrow> digits_val radix (acc * radix + d) s)"

text \<open>\<open>from_str_radix\<close> of an unsigned type with largest value \<open>mx\<close>: one leading plus
sign is accepted, the empty string and a lone sign are not, overflow is an error.\<close>

definition parse_radix :: "nat \<Rightarrow> nat \<Rightarrow> string \<Rightarrow> nat option" where
  "parse_radix radix mx s =
     (if s = [] \<or> s = ''+'' \<or> s = ''-'' then None
      else case digits_val radix 0 (if hd s = CHR ''+'' then tl s else s) of
             None \<Rightarrow> None
           | Some n \<Rightarrow> if n \<le> mx then Some n else None)"

abbreviation parse_u8 :: "string \<Rightarrow> nat option" where "parse_u8 \<equiv> parse_radix 10 255"
abbreviation parse_u16 :: "string \<Rightarrow> nat option" where "parse_u16 \<equiv> parse_radix 10 65535"
abbreviation parse_u32 :: "string \<Rightarrow> nat option" where "parse_u32 \<equiv> parse_radix 10 4294967295"
abbreviation parse_u64 :: "string \<Rightarrow> nat option" where
  "parse_u64 \<equiv> parse_radix 10 18446744073709551615"

lemma parse_radix_le: "parse_radix r mx s = Some n \<Longrightarrow> n \<le> mx"
  by (auto simp: parse_radix_def split: if_splits option.splits)

definition digit_char :: "nat \<Rightarrow> char" where
  "digit_char d = char_of (48 + d)"

fun show_nat :: "nat \<Rightarrow> string" where
  "show_nat n = (if n < 10 then [digit_char n] else show_nat (n div 10) @ [digit_char (n mod 10)])"

declare show_nat.simps [simp del]

lemma code_digit_char [simp]: "d < 10 \<Longrightarrow> code (digit_char d) = 48 + d"
  by (simp add: digit_char_def)

lemma to_digit_digit_char [simp]: "d < 10 \<Longrightarrow> to_digit 10 (digit_char d) = Some d"
  by (simp add: to_digit_def)

lemma digits_val_append:
  "digits_val r acc (s @ t) =
     (case digits_val r acc s of None \<Rightarrow> None | Some v \<Rightarrow> digits_val r v t)"
  by (induction s arbitrary: acc) (auto split: option.splits)

lemma digits_val_show_nat [codec_simps]: "digits_val 10 0 (show_nat n) = Some n"
proof (induction n rule: show_nat.induct)
  case (1 n)
  then show ?case
    by (cases "n < 10") (subst show_nat.simps, simp add: digits_val_append)+
qed

lemma show_nat_nonempty [simp]: "show_nat n \<noteq> []"
  by (subst show_nat.simps) simp

lemma show_nat_digits: "c \<in> set (show_nat n) \<Longrightarrow> \<exists>d<10. c = digit_char d"
proof (induction n rule: show_nat.induct)
  case (1 n)
  show ?case
  proof (cases "n < 10")
    case True
    with 1 show ?thesis by (auto simp: show_nat.simps [of n])
  next
    case False
    with 1 consider "c \<in> set (show_nat (n div 10))" | "c = digit_char (n mod 10)"
      by (auto simp: show_nat.simps [of n])
    then show ?thesis
    proof cases
      case 2
      then show ?thesis by (intro exI [of _ "n mod 10"]) simp
    qed (use 1 False in blast)
  qed
qed

lemma digit_char_neq:
  assumes "d < 10" and "code c < 48 \<or> 57 < code c"
  shows "digit_char d \<noteq> c"
proof
  assume "digit_char d = c"
  then have "code c = 48 + d" using assms(1) by auto
  with assms show False by linarith
qed

lemma show_nat_notin: "code c < 48 \<or> 57 < code c \<Longrightarrow> c \<notin> set (show_nat n)"
  using show_nat_digits digit_char_neq by metis

lemma parse_show_nat [codec_simps]: "n \<le> mx \<Longrightarrow> parse_radix 10 mx (show_nat n) = Some n"
proof -
  assume n: "n \<le> mx"
  have "CHR ''+'' \<notin> set (show_nat n)" "CHR ''-'' \<notin> set (show_nat n)"
    by (rule show_nat_notin, simp)+
  moreover have "hd (show_nat n) \<in> set (show_nat n)" by simp
  ultimately have "hd (show_nat n) \<noteq> CHR ''+''" "show_nat n \<noteq> ''+''" "show_nat n \<noteq> ''-''"
    by (metis, auto)
  then show ?thesis
    using n by (simp add: parse_radix_def digits_val_show_nat)
qed

end
