(* ===== verification/NetTypes.thy ===== *)
theory NetTypes
  imports RustParse
begin

text \<open>IP addresses and CIDR masks. \<open>Ipv4Addr\<close> and \<open>Ipv6Addr\<close> are words of 32 and
128 bits (\<open>u32::from\<close> and \<open>u128::from\<close> of the source are the identity); the parsers
are the ones of \<open>std::net\<close>, as functions that return the unread rest.\<close>

datatype ip_addr = V4 (the_v4: u32) | V6 (the_v6: u128)

definition ipv4_octets :: "u32 \<Rightarrow> u8 \<times> u8 \<times> u8 \<times> u8" where
  "ipv4_octets w = (ucast (drop_bit 24 w), ucast (drop_bit 16 w), ucast (drop_bit 8 w), ucast w)"

lemma ipv4_octets_inverse [codec_simps]:
  "(case ipv4_octets w of (a, b, c, d) \<Rightarrow> of_be32 a b c d) = w"
  by (simp add: ipv4_octets_def of_be32_be32)

subsection \<open>Parsers\<close>

definition is_radix_digit :: "nat \<Rightarrow> char \<Rightarrow> bool" where
  "is_radix_digit r c \<longleftrightarrow> to_digit r c \<noteq> None"

definition read_number ::
    "nat \<Rightarrow> nat \<Rightarrow> nat \<Rightarrow> bool \<Rightarrow> string \<Rightarrow> (nat \<times> string) option" where
  "read_number radix max_digits mx allow_zero_prefix s =
     (let ds = takeWhile (is_radix_digit radix) s;
          rest = dropWhile (is_radix_digit radix) s
      in if ds = [] \<or> max_digits < length ds
            \<or> (\<not> allow_zero_prefix \<and> hd ds = CHR ''0'' \<and> 1 < length ds) then None
         else case digits_val radix 0 ds of
                None \<Rightarrow> None
              | Some v \<Rightarrow> if v \<le> mx then Some (v, rest) else None)"

definition read_given_char :: "char \<Rightarrow> string \<Rightarrow> string option" where
  "read_given_char c s = (case s of [] \<Rightarrow> None | x # r \<Rightarrow> if x = c then Some r else None)"

definition read_octet :: "string \<Rightarrow> (nat \<times> string) option" where
  "read_octet = read_number 10 3 255 False"

definition read_sep_octet :: "string \<Rightarrow> (nat \<times> string) option" where
  "read_sep_octet s = Option.bind (read_given_char (CHR ''.'') s) read_octet"

definition read_ipv4_addr :: "string \<Rightarrow> (u32 \<times> string) option" where
  "read_ipv4_addr s =
     Option.bind (read_octet s) (\<lambda>(a, s1).
     Option.bind (read_sep_octet s1) (\<lambda>(b, s2).
     Option.bind (read_sep_octet s2) (\<lambda>(c, s3).
     Option.bind (read_sep_octet s3) (\<lambda>(d, s4).
       Some (of_be32 (of_nat a) (of_nat b) (of_nat c) (of_nat d), s4)))))"

definition parse_ipv4 :: "string \<Rightarrow> u32 option" where
  "parse_ipv4 s =
     (if 15 < length s then None
      else case read_ipv4_addr s of Some (w, []) \<Rightarrow> Some w | _ \<Rightarrow> None)"

text \<open>\<open>read_groups\<close> of the IPv6 parser: up to \<open>limit\<close> sixteen-bit groups, the last
two of which may be a dotted IPv4 address; also whether one was read.\<close>

function read_groups ::
    "nat \<Rightarrow> nat \<Rightarrow> u16 list \<Rightarrow> string \<Rightarrow> u16 list \<times> bool \<times> string" where
  "read_groups limit i gs s =
     (if limit \<le> i then (gs, False, s)
      else
        let s0 = (if 0 < i then read_given_char (CHR '':'') s else Some s);
            v4 = (if i < limit - 1 then Option.bind s0 read_ipv4_addr else None)
        in case v4 of
             Some (w, r) \<Rightarrow> (gs @ [ucast (drop_bit 16 w), ucast w], True, r)
           | None \<Rightarrow>
               (case Option.bind s0 (read_number 16 4 65535 True) of
                  Some (g, r) \<Rightarrow> read_groups limit (Suc i) (gs @ [of_nat g]) r
                | None \<Rightarrow> (gs, False, s)))"
  by pat_completeness auto
termination
  by (relation "measure (\<lambda>(limit, i, _). limit - i)") auto

declare read_groups.simps [simp del]

definition ipv6_of_groups :: "u16 list \<Rightarrow> u128" where
  "ipv6_of_groups gs = foldl (\<lambda>acc g. push_bit 16 acc OR ucast g) 0 gs"

definition read_ipv6_addr :: "string \<Rightarrow> (u128 \<times> string) option" where
  "read_ipv6_addr s =
     (case read_groups 8 0 [] s of
        (hd_gs, hd_v4, s1) \<Rightarrow>
          if length hd_gs = 8 then Some (ipv6_of_groups hd_gs, s1)
          else if hd_v4 then None
          else case Option.bind (read_given_char (CHR '':'') s1) (read_given_char (CHR '':'')) of
                 None \<Rightarrow> None
               | Some s2 \<Rightarrow>
                   (case read_groups (8 - (length hd_gs + 1)) 0 [] s2 of
                      (tl_gs, _, s3) \<Rightarrow>
                        Some (ipv6_of_groups
                          (hd_gs @ replicate (8 - length hd_gs - length tl_gs) 0 @ tl_gs), s3)))"

definition parse_ipv6 :: "string \<Rightarrow> u128 option" where
  "parse_ipv6 s = (case read_ipv6_addr s of Some (w, []) \<Rightarrow> Some w | _ \<Rightarrow> None)"

text \<open>\<open>IpAddr::from_str\<close> tries the IPv4 reader and then the IPv6 reader, and the one
that succeeds must have read the whole input.\<close>

definition parse_ip :: "string \<Rightarrow> ip_addr option" where
  "parse_ip s =
     (case read_ipv4_addr s of
        Some (w, r) \<Rightarrow> if r = [] then Some (V4 w) else None
      | None \<Rightarrow> map_option V6 (parse_ipv6 s))"

definition show_ipv4 :: "u32 \<Rightarrow> string" where
  "show_ipv4 w =
     (case ipv4_octets w of (a, b, c, d) \<Rightarrow>
        show_nat (unat a) @ ''.'' @ show_nat (unat b) @ ''.'' @
        show_nat (unat c) @ ''.'' @ show_nat (unat d))"

subsection \<open>Printing and parsing an IPv4 address\<close>

lemma is_radix_digit_show_nat: "c \<in> set (show_nat n) \<Longrightarrow> is_radix_digit 10 c"
  using show_nat_digits by (fastforce simp: is_radix_digit_def)

lemma show_nat_length_le3: "n < 1000 \<Longrightarrow> length (show_nat n) \<le> 3"
proof -
  assume n: "n < 1000"
  have 1: "length (show_nat m) = 1" if "m < 10" for m
    using that by (simp add: show_nat.simps [of m])
  have 2: "length (show_nat m) \<le> 2" if "m < 100" for m
    using that 1 [of "m div 10"] by (cases "m < 10") (simp_all add: show_nat.simps [of m])
  show ?thesis
    using n 2 [of "n div 10"] by (cases "n < 10") (simp_all add: show_nat.simps [of n])
qed

lemma hd_show_nat: "10 \<le> n \<Longrightarrow> hd (show_nat n) \<noteq> CHR ''0''"
proof (induction n rule: show_nat.induct)
  case (1 n)
  show ?case
  proof (cases "n div 10 < 10")
    case True
    then have "hd (show_nat n) = digit_char (n div 10)"
      using 1(2) by (simp add: show_nat.simps [of n] show_nat.simps [of "n div 10"])
    moreover have "code (digit_char (n div 10)) \<noteq> code (CHR ''0'')"
      using True 1(2) by (simp add: div_greater_zero_iff) 
    ultimately show ?thesis by metis
  next
    case False
    then show ?thesis
      using 1 by (simp add: show_nat.simps [of n] hd_append)
  qed
qed

lemma read_octet_show:
  assumes n: "n < 256" and r: "r = [] \<or> \<not> is_radix_digit 10 (hd r)"
  shows "read_octet (show_nat n @ r) = Some (n, r)"
proof -
  have all: "\<forall>c\<in>set (show_nat n). is_radix_digit 10 c"
    using is_radix_digit_show_nat by blast
  have tw: "takeWhile (is_radix_digit 10) (show_nat n @ r) = show_nat n"
    and dw: "dropWhile (is_radix_digit 10) (show_nat n @ r) = r"
    using all r by (cases r; simp add: takeWhile_append dropWhile_append)+
  have "\<not> (hd (show_nat n) = CHR ''0'' \<and> 1 < length (show_nat n))"
    using hd_show_nat [of n] by (cases "n < 10") (simp_all add: show_nat.simps [of n])
  moreover have "length (show_nat n) \<le> 3" using n by (simp add: show_nat_length_le3)
  ultimately show ?thesis
    using n by (auto simp: read_octet_def read_number_def tw dw Let_def digits_val_show_nat)
qed

lemma not_radix_dot: "\<not> is_radix_digit 10 (CHR ''.'')"
  by (simp add: is_radix_digit_def to_digit_def)

lemma read_sep_octet_show:
  assumes "n < 256" and "r = [] \<or> \<not> is_radix_digit 10 (hd r)"
  shows "read_sep_octet (CHR ''.'' # show_nat n @ r) = Some (n, r)"
  using read_octet_show [OF assms] by (simp add: read_sep_octet_def read_given_char_def)

lemma unat_u8_less [simp]: "unat (w :: u8) < 256"
  using unsigned_less [of w] by simp

lemma parse_show_ipv4 [codec_simps]: "parse_ipv4 (show_ipv4 w) = Some w"
proof -
  obtain a b c d where o: "ipv4_octets w = (a, b, c, d)" by (cases "ipv4_octets w")
  have len: "length (show_ipv4 w) \<le> 15"
    using show_nat_length_le3 [of "unat a"] show_nat_length_le3 [of "unat b"]
      show_nat_length_le3 [of "unat c"] show_nat_length_le3 [of "unat d"]
      unat_u8_less [of a] unat_u8_less [of b] unat_u8_less [of c] unat_u8_less [of d]
    by (simp add: show_ipv4_def o)
  have "read_ipv4_addr (show_ipv4 w) = Some (of_be32 a b c d, [])"
    using read_octet_show [of "unat a" "CHR ''.'' # show_nat (unat b) @ CHR ''.'' #
        show_nat (unat c) @ CHR ''.'' # show_nat (unat d)"]
      read_sep_octet_show [of "unat b" "CHR ''.'' # show_nat (unat c) @ CHR ''.'' #
        show_nat (unat d)"]
      read_sep_octet_show [of "unat c" "CHR ''.'' # show_nat (unat d)"]
      read_sep_octet_show [of "unat d" "[]"]
    by (simp add: read_ipv4_addr_def show_ipv4_def o not_radix_dot)
  moreover have "of_be32 a b c d = w"
    using ipv4_octets_inverse [of w] by (simp add: o)
  ultimately show ?thesis
    using len by (simp add: parse_ipv4_def)
qed

lemma show_ipv4_chars: "c \<in> set (show_ipv4 w) \<Longrightarrow> is_radix_digit 10 c \<or> c = CHR ''.''"
  by (auto simp: show_ipv4_def split: prod.splits dest: is_radix_digit_show_nat)

lemma unat_u32_less: "unat (w :: u32) < 4294967296"
  using unsigned_less [of w, where ?'a = nat] by simp

subsection \<open>Prefix masks\<close>

text \<open>\<open>!0u32 << (32 - prefix)\<close>, with the zero prefix apart, as the code writes it.\<close>

definition mask4 :: "nat \<Rightarrow> u32" where
  "mask4 p = (if p = 0 then 0 else push_bit (32 - p) (- 1))"

lemma bit_mask4: "p \<le> 32 \<Longrightarrow> bit (mask4 p) n \<longleftrightarrow> 32 - p \<le> n \<and> n < 32"
  by (auto simp: mask4_def bit_simps)

lemma mask4_conv: "p \<le> 32 \<Longrightarrow> mask4 p = NOT (mask (32 - p))"
  by (rule bit_word_eqI) (auto simp: bit_mask4 bit_simps)

lemma not_mask4: "p \<le> 32 \<Longrightarrow> NOT (mask4 p) = mask (32 - p)"
  by (simp add: mask4_conv)

end
