(* ===== verification/FakeIp.thy ===== *)
theory FakeIp
  imports NetTypes
begin

text \<open>\<open>dns/fake_ip.rs\<close>: the fake-IP mapper. A domain asked for over DNS is handed an
address of a reserved range; the address is later mapped back to the domain.
Allocation is round robin over the range, so both maps stay bounded and the oldest
domain loses its address first. The mapper is persisted to a text file.
The two locked maps are one state; each public operation is one step (the code
takes the write lock on \<open>domain_to_ip\<close> for the whole allocation). Unicode lower-casing
is the parameter \<open>lc\<close>; the file system's answers are arguments of \<open>flush\<close> and
\<open>with_persist\<close>.\<close>

record fake_ip_mapper =
  fi_network :: u32
  fi_mask :: u32
  fi_prefix_len :: nat
  next_ip :: u32
  domain_to_ip :: "string \<rightharpoonup> u32"
  ip_to_domain :: "u32 \<rightharpoonup> string"
  persist_path :: "string option"
  dirty :: bool

datatype fake_ip_error = InvalidCidrFormat | BadAddress | BadPrefix | PrefixTooLong nat

subsection \<open>The persisted file\<close>

text \<open>One line of the file, as \<open>load\<close> reads it: the state and the last \<open>next_ip\<close> value.\<close>

definition splitn2_space :: "string \<Rightarrow> (string \<times> string) option" where
  "splitn2_space l = split_once (CHR '' '') l"

definition load_line ::
    "(string \<Rightarrow> string) \<Rightarrow> string \<Rightarrow> fake_ip_mapper \<times> u32 option \<Rightarrow> fake_ip_mapper \<times> u32 option" where
  "load_line lc raw st =
     (let line = trim raw in
      case st of (s, loaded_next) \<Rightarrow>
      if line = [] \<or> starts_with ''#'' line then (s, loaded_next)
      else case strip_prefix ''next_ip='' line of
        Some v \<Rightarrow> (s, map_option of_nat (parse_u32 (trim v)))
      | None \<Rightarrow>
          (case splitn2_space line of
             None \<Rightarrow> (s, loaded_next)
           | Some (ip_s, dname) \<Rightarrow>
               if dname = [] then (s, loaded_next)
               else case parse_ipv4 ip_s of
                 None \<Rightarrow> (s, loaded_next)
               | Some ip \<Rightarrow>
                   if ip AND fi_mask s \<noteq> fi_network s then (s, loaded_next)
                   else
                     let host = ip AND NOT (fi_mask s) in
                     if host < 2 \<or> host = NOT (fi_mask s) then (s, loaded_next)
                     else
                       let d = lc dname in
                       (s\<lparr>domain_to_ip := (domain_to_ip s)(d \<mapsto> ip),
                          ip_to_domain := (ip_to_domain s)(ip \<mapsto> d)\<rparr>, loaded_next)))"

definition load :: "(string \<Rightarrow> string) \<Rightarrow> string \<Rightarrow> fake_ip_mapper \<Rightarrow> fake_ip_mapper" where
  "load lc content s =
     (case fold (load_line lc) (str_lines content) (s, None) of
        (s1, None) \<Rightarrow> s1
      | (s1, Some n) \<Rightarrow>
          if n AND fi_mask s1 = fi_network s1 \<and> n AND NOT (fi_mask s1) \<noteq> NOT (fi_mask s1)
          then s1\<lparr>next_ip := n\<rparr> else s1)"

subsection \<open>Construction\<close>

text \<open>\<open>file\<close> is what \<open>read_to_string\<close> of the persisted file returns, \<open>None\<close> when it is
missing or unreadable (the code then starts empty).\<close>

definition with_persist ::
    "(string \<Rightarrow> string) \<Rightarrow> string \<Rightarrow> string option \<Rightarrow> string option
      \<Rightarrow> (fake_ip_error, fake_ip_mapper) result" where
  "with_persist lc cidr path file =
     (case split_char (CHR ''/'') cidr of
        [ip_s, prefix_s] \<Rightarrow>
          bind_result (opt_result BadAddress (parse_ipv4 ip_s)) (\<lambda>ip.
          bind_result (opt_result BadPrefix (parse_u32 prefix_s)) (\<lambda>p.
            if 29 < p then Inl (PrefixTooLong p)
            else
              let m = mask4 p;
                  network = ip AND m;
                  mapper = \<lparr>fi_network = network, fi_mask = m, fi_prefix_len = p,
                     next_ip = network + 2, domain_to_ip = Map.empty, ip_to_domain = Map.empty,
                     persist_path = path, dirty = False\<rparr>
              in Inr (case path of
                        None \<Rightarrow> mapper
                      | Some _ \<Rightarrow> (case file of None \<Rightarrow> mapper | Some c \<Rightarrow> load lc c mapper))))
      | _ \<Rightarrow> Inl InvalidCidrFormat)"

definition fake_ip_new :: "string \<Rightarrow> (fake_ip_error, fake_ip_mapper) result" where
  "fake_ip_new cidr = with_persist (\<lambda>s. s) cidr None None"

subsection \<open>Operations\<close>

definition advance_next :: "fake_ip_mapper \<Rightarrow> u32" where
  "advance_next s =
     (let n = next_ip s + 1
      in if n AND NOT (fi_mask s) = NOT (fi_mask s) then fi_network s + 2 else n)"

definition lookup_or_assign ::
    "(string \<Rightarrow> string) \<Rightarrow> string \<Rightarrow> fake_ip_mapper \<Rightarrow> u32 \<times> fake_ip_mapper" where
  "lookup_or_assign lc dname s =
     (let d = lc dname in
      case domain_to_ip s d of
        Some ip \<Rightarrow> (ip, s)
      | None \<Rightarrow>
          let ip = next_ip s;
              d2i = (case ip_to_domain s ip of
                       Some old \<Rightarrow> if old \<noteq> d then (domain_to_ip s)(old := None)
                                   else domain_to_ip s
                     | None \<Rightarrow> domain_to_ip s)
          in (ip, s\<lparr>next_ip := advance_next s,
                   ip_to_domain := (ip_to_domain s)(ip \<mapsto> d),
                   domain_to_ip := d2i(d \<mapsto> ip),
                   dirty := True\<rparr>))"

definition lookup_domain :: "u32 \<Rightarrow> fake_ip_mapper \<Rightarrow> string option" where
  "lookup_domain ip s = ip_to_domain s ip"

definition is_fake_ip :: "u32 \<Rightarrow> fake_ip_mapper \<Rightarrow> bool" where
  "is_fake_ip ip s \<longleftrightarrow> ip AND fi_mask s = fi_network s"

definition fi_clear :: "fake_ip_mapper \<Rightarrow> fake_ip_mapper" where
  "fi_clear s = s\<lparr>domain_to_ip := Map.empty, ip_to_domain := Map.empty,
     next_ip := fi_network s + 2, dirty := False\<rparr>"

definition entry_line :: "string \<times> u32 \<Rightarrow> string" where
  "entry_line e = (case e of (d, ip) \<Rightarrow> show_ipv4 ip @ '' '' @ d @ [CHR 0x0A])"

definition flush_contents :: "(string \<times> u32) list \<Rightarrow> u32 \<Rightarrow> string" where
  "flush_contents snapshot next =
     ''# mirage-rs fake-ip persist v1'' @ [CHR 0x0A] @
     ''next_ip='' @ show_nat (unat next) @ [CHR 0x0A] @ concat (map entry_line snapshot)"

text \<open>\<open>flush\<close>: \<open>snapshot\<close> is the map in the hash map's iteration order, \<open>write_ok\<close> and
\<open>rename_ok\<close> the answers of the file system; the result carries the new contents of
the file when it was replaced.\<close>

definition flush ::
    "(string \<times> u32) list \<Rightarrow> bool \<Rightarrow> bool \<Rightarrow> fake_ip_mapper \<Rightarrow> fake_ip_mapper \<times> string option" where
  "flush snapshot write_ok rename_ok s =
     (if persist_path s = None \<or> \<not> dirty s then (s, None)
      else if \<not> write_ok \<or> \<not> rename_ok then (s\<lparr>dirty := True\<rparr>, None)
      else (s\<lparr>dirty := False\<rparr>, Some (flush_contents snapshot (next_ip s))))"

datatype fake_ip_op =
  Assign string | Clear | Flush "(string \<times> u32) list" bool bool

fun fake_ip_step :: "(string \<Rightarrow> string) \<Rightarrow> fake_ip_op \<Rightarrow> fake_ip_mapper \<Rightarrow> fake_ip_mapper" where
  "fake_ip_step lc (Assign d) s = snd (lookup_or_assign lc d s)"
| "fake_ip_step lc Clear s = fi_clear s"
| "fake_ip_step lc (Flush snap w r) s = fst (flush snap w r s)"

subsection \<open>The invariant\<close>

definition host_bits :: "fake_ip_mapper \<Rightarrow> nat" where
  "host_bits s = 32 - fi_prefix_len s"

definition capacity :: "fake_ip_mapper \<Rightarrow> nat" where
  "capacity s = 2 ^ host_bits s - 3"

definition net_wf :: "fake_ip_mapper \<Rightarrow> bool" where
  "net_wf s \<longleftrightarrow> fi_prefix_len s \<le> 29 \<and> fi_mask s = mask4 (fi_prefix_len s)
     \<and> fi_network s AND fi_mask s = fi_network s"

definition usable :: "fake_ip_mapper \<Rightarrow> u32 \<Rightarrow> bool" where
  "usable s w \<longleftrightarrow> w AND fi_mask s = fi_network s \<and> 2 \<le> w AND NOT (fi_mask s)
     \<and> w AND NOT (fi_mask s) \<noteq> NOT (fi_mask s)"

definition fi_inv :: "fake_ip_mapper \<Rightarrow> bool" where
  "fi_inv s \<longleftrightarrow> net_wf s
     \<and> (\<forall>d ip. domain_to_ip s d = Some ip \<longleftrightarrow> ip_to_domain s ip = Some d)
     \<and> (\<forall>ip\<in>dom (ip_to_domain s). usable s ip)
     \<and> usable s (next_ip s)"

definition slot :: "fake_ip_mapper \<Rightarrow> u32 \<Rightarrow> nat" where
  "slot s w = unat w mod 2 ^ host_bits s - 2"

lemma host_bits_bounds: "net_wf s \<Longrightarrow> 3 \<le> host_bits s \<and> host_bits s \<le> 32"
  by (auto simp: net_wf_def host_bits_def)

lemma pow_host_bits: "net_wf s \<Longrightarrow> (8 :: nat) \<le> 2 ^ host_bits s"
  using power_increasing [of 3 "host_bits s" "2 :: nat"] host_bits_bounds by fastforce

lemma capacity_pos: "net_wf s \<Longrightarrow> 5 \<le> capacity s"
  using pow_host_bits by (fastforce simp: capacity_def)

lemma fi_mask_conv:
  assumes "net_wf s"
  shows "fi_mask s = NOT (mask (host_bits s))" "NOT (fi_mask s) = mask (host_bits s)"
  using assms by (simp_all add: net_wf_def mask4_conv host_bits_def)

lemma usable_iff:
  assumes wf: "net_wf s"
  shows "usable s w \<longleftrightarrow> unat w div 2 ^ host_bits s = unat (fi_network s) div 2 ^ host_bits s
     \<and> 2 \<le> unat w mod 2 ^ host_bits s \<and> unat w mod 2 ^ host_bits s < 2 ^ host_bits s - 1"
proof -
  let ?n = "host_bits s"
  have net: "fi_network s = fi_network s AND NOT (mask ?n)"
    using wf fi_mask_conv(1) [OF wf] unfolding net_wf_def by metis
  have le: "?n \<le> LENGTH(32)" using host_bits_bounds [OF wf] by simp
  have "w AND NOT (mask ?n) = fi_network s
      \<longleftrightarrow> unat w div 2 ^ ?n = unat (fi_network s) div 2 ^ ?n"
    by (subst net) (rule and_not_mask_eq_iff)
  moreover have "2 \<le> w AND mask ?n \<longleftrightarrow> 2 \<le> unat w mod 2 ^ ?n"
    by (simp add: word_le_nat_alt unat_and_mask)
  moreover have "unat w mod 2 ^ ?n < 2 ^ ?n" by simp
  ultimately show ?thesis
    using and_mask_full_iff [OF le, of w] unfolding usable_def fi_mask_conv(1) [OF wf] bit.double_compl by linarith
qed

lemma network_mod: "net_wf s \<Longrightarrow> unat (fi_network s) mod 2 ^ host_bits s = 0"
proof -
  assume wf: "net_wf s"
  have "fi_network s AND mask (host_bits s) = 0"
  proof -
    have "fi_network s = fi_network s AND NOT (mask (host_bits s))"
      using wf fi_mask_conv(1) [OF wf] unfolding net_wf_def by metis
    then show ?thesis
      by (metis and.assoc and.commute and.right_neutral bit.conj_cancel_left bit.conj_zero_right)
  qed
  then show ?thesis by (metis unat_and_mask unsigned_0)
qed

lemma usable_slot_inj:
  assumes "net_wf s" "usable s v" "usable s w" "slot s v = slot s w"
  shows "v = w"
proof -
  have "unat v mod 2 ^ host_bits s = unat w mod 2 ^ host_bits s"
    using assms by (auto simp: usable_iff slot_def)
  then have "unat v = unat w"
    using assms by (metis div_mult_mod_eq usable_iff)
  then show ?thesis by (rule unsigned_word_eqI)
qed

lemma slot_less: "net_wf s \<Longrightarrow> usable s w \<Longrightarrow> slot s w < capacity s"
  by (auto simp: usable_iff slot_def capacity_def)

lemma network_plus2:
  assumes wf: "net_wf s"
  shows "usable s (fi_network s + 2)" "slot s (fi_network s + 2) = 0"
proof -
  let ?N = "2 ^ host_bits s :: nat"
  have m: "unat (fi_network s) mod ?N = 0" by (rule network_mod [OF wf])
  have p: "8 \<le> ?N" by (rule pow_host_bits [OF wf])
  have dvd: "?N dvd 2 ^ 32"
    using host_bits_bounds [OF wf] le_imp_power_dvd by blast
  have "unat (fi_network s) + 2 < 2 ^ 32"
  proof -
    obtain k where k: "unat (fi_network s) = ?N * k" using m by (auto elim: dvdE)
    obtain j where j: "(2 ^ 32 :: nat) = ?N * j" using dvd by (auto elim: dvdE)
    have "?N * k < ?N * j" using unat_u32_less [of "fi_network s"] k j by simp
    then have "k < j" by simp
    then have "?N * (k + 1) \<le> ?N * j" by (intro mult_le_mono2) simp
    then show ?thesis using k j p by simp
  qed
  then have u: "unat (fi_network s + 2) = unat (fi_network s) + 2"
    by (simp add: unat_word_ariths)
  have md: "unat (fi_network s + 2) mod ?N = 2"
    using m p unfolding u by (metis add_0 mod_add_left_eq mod_less numeral_le_iff le_less_trans
        less_le_trans numeral_less_iff semiring_norm(76) semiring_norm(78) semiring_norm(75))
  have "unat (fi_network s + 2) div ?N = unat (fi_network s) div ?N"
    using m p unfolding u by (metis div_add_self1 div_less add_0 div_plus_div_distrib_dvd_left
       dvd_eq_mod_eq_0 add.right_neutral less_le_trans numeral_less_iff semiring_norm(76) semiring_norm(78))
  with md p show "usable s (fi_network s + 2)" "slot s (fi_network s + 2) = 0"
    by (auto simp: usable_iff [OF wf] slot_def)
qed

lemma advance_props:
  assumes wf: "net_wf s" and us: "usable s (next_ip s)"
  shows "usable s (advance_next s)"
    and "slot s (advance_next s) = (slot s (next_ip s) + 1) mod capacity s"
proof -
  let ?N = "2 ^ host_bits s :: nat" and ?w = "next_ip s"
  have p: "8 \<le> ?N" by (rule pow_host_bits [OF wf])
  have le: "host_bits s \<le> LENGTH(32)" using host_bits_bounds [OF wf] by simp
  have u: "2 \<le> unat ?w mod ?N" "unat ?w mod ?N < ?N - 1"
    "unat ?w div ?N = unat (fi_network s) div ?N"
    using us by (simp_all add: usable_iff [OF wf])
  have "unat ?w + 1 < 2 ^ 32"
  proof (rule ccontr)
    assume "\<not> unat ?w + 1 < 2 ^ 32"
    then have "unat ?w + 1 = 2 ^ 32" using unat_u32_less [of ?w] by simp
    moreover have "?N dvd 2 ^ 32" using host_bits_bounds [OF wf] le_imp_power_dvd by blast
    ultimately have "(unat ?w + 1) mod ?N = 0" by simp
    moreover have "(unat ?w + 1) mod ?N = unat ?w mod ?N + 1" using u(2) p
      by (metis Suc_eq_plus1 add.commute less_diff_conv mod_Suc nat_neq_iff)
    ultimately show False by simp
  qed
  then have u1: "unat (?w + 1) = unat ?w + 1"
    by (simp add: unat_word_ariths)
  have m1: "(unat ?w + 1) mod ?N = unat ?w mod ?N + 1" using u(2) p
    by (metis Suc_eq_plus1 add.commute less_diff_conv mod_Suc nat_neq_iff)
  have d1: "(unat ?w + 1) div ?N = unat ?w div ?N" using u(2) p m1
    by (metis Suc_eq_plus1 add_eq_0_iff_both_eq_0 div_Suc one_neq_zero)
  have full: "(?w + 1) AND NOT (fi_mask s) = NOT (fi_mask s) \<longleftrightarrow> unat ?w mod ?N + 1 = ?N - 1"
    unfolding fi_mask_conv(1) [OF wf] bit.double_compl and_mask_full_iff [OF le] u1 m1 ..
  show "usable s (advance_next s)"
    "slot s (advance_next s) = (slot s (next_ip s) + 1) mod capacity s"
  proof (atomize (full), cases "unat ?w mod ?N + 1 = ?N - 1")
    case True
    then have "advance_next s = fi_network s + 2"
      using full by (simp add: advance_next_def)
    moreover have "slot s ?w + 1 = capacity s"
      using True u by (simp add: slot_def capacity_def)
    ultimately show "usable s (advance_next s)
        \<and> slot s (advance_next s) = (slot s ?w + 1) mod capacity s"
      using network_plus2 [OF wf] by simp
  next
    case False
    then have a: "advance_next s = ?w + 1"
      using full by (simp add: advance_next_def)
    have "slot s ?w + 1 < capacity s"
      using False u by (simp add: slot_def capacity_def)
    then show "usable s (advance_next s)
        \<and> slot s (advance_next s) = (slot s ?w + 1) mod capacity s"
      using False u unfolding a usable_iff [OF wf] slot_def u1 m1 d1 by auto
  qed
qed
lemma same_net:
  assumes "fi_prefix_len s' = fi_prefix_len s" "fi_mask s' = fi_mask s" "fi_network s' = fi_network s"
  shows "net_wf s' = net_wf s" "usable s' = usable s" "slot s' = slot s" "capacity s' = capacity s"
    "host_bits s' = host_bits s"
  using assms by (auto simp: net_wf_def usable_def slot_def capacity_def host_bits_def fun_eq_iff)

lemma fi_invD:
  assumes "fi_inv s"
  shows "net_wf s" "usable s (next_ip s)"
    "domain_to_ip s d = Some ip \<longleftrightarrow> ip_to_domain s ip = Some d"
    "ip_to_domain s ip = Some d \<Longrightarrow> usable s ip"
  using assms by (auto simp: fi_inv_def)

lemma fi_invI [wf_intros]:
  assumes "net_wf s" "usable s (next_ip s)"
    "\<And>d ip. domain_to_ip s d = Some ip \<longleftrightarrow> ip_to_domain s ip = Some d"
    "\<And>d ip. ip_to_domain s ip = Some d \<Longrightarrow> usable s ip"
  shows "fi_inv s"
  using assms by (auto simp: fi_inv_def)

text \<open>An allocation, as one update of the two maps.\<close>

lemma lookup_or_assign_hit:
  "domain_to_ip s (lc d) = Some ip \<Longrightarrow> lookup_or_assign lc d s = (ip, s)"
  by (simp add: lookup_or_assign_def Let_def)

definition allocated :: "string \<Rightarrow> fake_ip_mapper \<Rightarrow> fake_ip_mapper" where
  "allocated d s =
     s\<lparr>next_ip := advance_next s,
       ip_to_domain := (ip_to_domain s)(next_ip s \<mapsto> d),
       domain_to_ip := (\<lambda>k. if k = d then Some (next_ip s)
         else if ip_to_domain s (next_ip s) = Some k then None else domain_to_ip s k),
       dirty := True\<rparr>"

lemma lookup_or_assign_miss:
  assumes "domain_to_ip s (lc d) = None"
  shows "lookup_or_assign lc d s = (next_ip s, allocated (lc d) s)"
  using assms
  by (auto simp: lookup_or_assign_def Let_def allocated_def fun_eq_iff split: option.splits)

lemma allocated_net [simp]:
  "fi_prefix_len (allocated d s) = fi_prefix_len s" "fi_mask (allocated d s) = fi_mask s"
  "fi_network (allocated d s) = fi_network s"
  by (simp_all add: allocated_def)

lemma allocated_inv:
  assumes inv: "fi_inv s" and new: "domain_to_ip s d = None"
  shows "fi_inv (allocated d s)"
proof (rule fi_invI)
  note net = same_net [of "allocated d s" s]
  note D = fi_invD [OF inv]
  show "net_wf (allocated d s)" using D(1) net by simp
  show "usable (allocated d s) (next_ip (allocated d s))"
    using advance_props(1) [OF D(1,2)] net by (simp add: allocated_def)
  have nd: "ip_to_domain s ip \<noteq> Some d" for ip using D(3) new by (metis option.distinct(1))
  have inj: "ip = ip'" if "ip_to_domain s ip = Some k" "ip_to_domain s ip' = Some k" for ip ip' k
    using that D(3) by (metis option.inject)
  fix k ip
  show "domain_to_ip (allocated d s) k = Some ip \<longleftrightarrow> ip_to_domain (allocated d s) ip = Some k"
    using D(3) nd inj by (auto simp: allocated_def)
  show "ip_to_domain (allocated d s) ip = Some k \<Longrightarrow> usable (allocated d s) ip"
    using D net by (auto simp: allocated_def split: if_splits)
qed

lemma lookup_or_assign_inv: "fi_inv s \<Longrightarrow> fi_inv (snd (lookup_or_assign lc d s))"
  by (cases "domain_to_ip s (lc d)")
    (simp_all add: lookup_or_assign_hit lookup_or_assign_miss allocated_inv)

lemma fi_clear_inv: "fi_inv s \<Longrightarrow> fi_inv (fi_clear s)"
  using network_plus2(1) [of s]
  by (auto simp: fi_inv_def fi_clear_def net_wf_def usable_def)

lemma flush_inv: "fi_inv s \<Longrightarrow> fi_inv (fst (flush snap w r s))"
  by (auto simp: fi_inv_def flush_def net_wf_def usable_def)

lemma fake_ip_step_inv: "fi_inv s \<Longrightarrow> fi_inv (fake_ip_step lc op s)"
  by (cases op) (simp_all add: lookup_or_assign_inv fi_clear_inv flush_inv)

interpretation fake_ip: invariant_machine "fake_ip_step lc" fi_inv for lc
  by unfold_locales (rule fake_ip_step_inv)

text \<open>The empty mapper of a range, as the constructor builds it.\<close>

definition empty_mapper :: "u32 \<Rightarrow> nat \<Rightarrow> string option \<Rightarrow> fake_ip_mapper" where
  "empty_mapper ip p path =
     \<lparr>fi_network = ip AND mask4 p, fi_mask = mask4 p, fi_prefix_len = p,
      next_ip = (ip AND mask4 p) + 2, domain_to_ip = Map.empty, ip_to_domain = Map.empty,
      persist_path = path, dirty = False\<rparr>"

lemma empty_mapper_inv: "p \<le> 29 \<Longrightarrow> fi_inv (empty_mapper ip p path)"
proof -
  assume p: "p \<le> 29"
  have "net_wf (empty_mapper ip p path)" using p by (simp add: empty_mapper_def net_wf_def and.assoc)
  then show ?thesis
    using network_plus2(1) [of "empty_mapper ip p path"]
    by (intro fi_invI) (simp_all add: empty_mapper_def)
qed

lemma with_persist_Inr:
  assumes "with_persist lc cidr path file = Inr s"
  obtains ip p where "p \<le> 29"
    "s = (if path = None then empty_mapper ip p path
          else case file of None \<Rightarrow> empty_mapper ip p path
               | Some c \<Rightarrow> load lc c (empty_mapper ip p path))"
proof -
  from assms obtain ip_s prefix_s where "split_char (CHR ''/'') cidr = [ip_s, prefix_s]"
    by (auto simp: with_persist_def split: list.splits)
  moreover obtain ip where "parse_ipv4 ip_s = Some ip"
    using assms calculation by (cases "parse_ipv4 ip_s") (auto simp: with_persist_def)
  moreover obtain p where "parse_u32 prefix_s = Some p"
    using assms calculation by (cases "parse_u32 prefix_s") (auto simp: with_persist_def)
  ultimately have "p \<le> 29 \<and> s = (if path = None then empty_mapper ip p path
          else case file of None \<Rightarrow> empty_mapper ip p path
               | Some c \<Rightarrow> load lc c (empty_mapper ip p path))"
    using assms
    by (auto simp: with_persist_def empty_mapper_def Let_def split: if_splits option.splits)
  then show thesis using that by blast
qed

lemma fake_ip_new_inv: "fake_ip_new cidr = Inr s \<Longrightarrow> fi_inv s"
  unfolding fake_ip_new_def by (erule with_persist_Inr) (simp add: empty_mapper_inv)

subsection \<open>Retention\<close>

definition assign_all :: "(string \<Rightarrow> string) \<Rightarrow> string list \<Rightarrow> fake_ip_mapper \<Rightarrow> fake_ip_mapper" where
  "assign_all lc ds s = fold (\<lambda>d s. snd (lookup_or_assign lc d s)) ds s"

lemma assign_all_simps [simp]:
  "assign_all lc [] s = s"
  "assign_all lc (d # ds) s = assign_all lc ds (snd (lookup_or_assign lc d s))"
  by (simp_all add: assign_all_def)

lemma retained:
  assumes "fi_inv s" "ip_to_domain s ip = Some d"
    and "slot s (next_ip s) = (slot s ip + 1 + k) mod capacity s"
    and "k + length ds < capacity s"
  shows "ip_to_domain (assign_all lc ds s) ip = Some d \<and> fi_inv (assign_all lc ds s)"
  using assms
proof (induction ds arbitrary: s k)
  case (Cons e ds)
  note D = fi_invD [OF Cons.prems(1)]
  show ?case
  proof (cases "domain_to_ip s (lc e)")
    case (Some ip')
    with Cons.IH [OF Cons.prems(1,2,3)] Cons.prems(4) show ?thesis
      by (simp add: lookup_or_assign_hit)
  next
    case None
    let ?s = "allocated (lc e) s"
    have sl: "slot s ip < capacity s" using slot_less [OF D(1)] D(4) Cons.prems(2) by blast
    have ne: "next_ip s \<noteq> ip"
    proof
      assume "next_ip s = ip"
      with Cons.prems(3) have "slot s ip = (slot s ip + 1 + k) mod capacity s" by simp
      then have "capacity s dvd slot s ip + (1 + k) - slot s ip"
        using sl by (metis add.assoc le_add1 mod_eq_dvd_iff_nat mod_less)
      then have "capacity s dvd 1 + k" by simp
      then have "capacity s \<le> 1 + k" by (rule dvd_imp_le) simp
      with Cons.prems(4) show False by simp
    qed
    have "slot s (advance_next s) = (slot s ip + 1 + Suc k) mod capacity s"
      unfolding advance_props(2) [OF D(1,2)] Cons.prems(3) by (simp add: mod_simps)
    then have "slot ?s (next_ip ?s) = (slot ?s ip + 1 + Suc k) mod capacity ?s"
      using same_net [of ?s s] by (simp add: allocated_def)
    moreover have "ip_to_domain ?s ip = Some d"
      using ne Cons.prems(2) by (simp add: allocated_def)
    moreover have "Suc k + length ds < capacity ?s"
      using Cons.prems(4) same_net [of ?s s] by simp
    ultimately show ?thesis
      using Cons.IH [OF allocated_inv [OF Cons.prems(1) None], of "Suc k"] None
      by (simp add: lookup_or_assign_miss)
  qed
qed simp
subsection \<open>Persistence\<close>

definition plain_domain :: "(string \<Rightarrow> string) \<Rightarrow> string \<Rightarrow> bool" where
  "plain_domain lc d \<longleftrightarrow> d \<noteq> [] \<and> CHR 0x0A \<notin> set d \<and> trim_end d = d \<and> lc d = d"

lemma show_ipv4_notin:
  "c = CHR '' '' \<or> c = CHR 0x0A \<or> c = CHR ''#'' \<or> c = CHR ''n'' \<Longrightarrow> c \<notin> set (show_ipv4 w)"
  using show_ipv4_chars [of c w] by (auto simp: is_radix_digit_def to_digit_def)

lemma show_ipv4_nonempty [simp]: "show_ipv4 w \<noteq> []"
  by (simp add: show_ipv4_def split: prod.splits)

lemma hd_show_ipv4: "33 \<le> code (hd (show_ipv4 w)) \<and> code (hd (show_ipv4 w)) \<le> 127"
proof -
  have "is_radix_digit 10 (hd (show_ipv4 w)) \<or> hd (show_ipv4 w) = CHR ''.''"
    using show_ipv4_chars [of "hd (show_ipv4 w)" w] by simp
  then show ?thesis
    by (auto simp: is_radix_digit_def to_digit_def Let_def split: if_splits)
qed

lemma load_line_entry:
  assumes ok: "plain_domain lc d" and us: "usable s ip"
  shows "load_line lc (strip_cr (show_ipv4 ip @ '' '' @ d)) (s, n) =
    (s\<lparr>domain_to_ip := (domain_to_ip s)(d \<mapsto> ip),
       ip_to_domain := (ip_to_domain s)(ip \<mapsto> d)\<rparr>, n)"
proof -
  let ?l = "show_ipv4 ip @ '' '' @ d"
  have d: "d \<noteq> []" "CHR 0x0A \<notin> set d" "trim_end d = d" "lc d = d"
    using ok by (simp_all add: plain_domain_def)
  obtain c s' where sh: "show_ipv4 ip = c # s'" by (cases "show_ipv4 ip") auto
  have "\<not> ends_with [CHR 0x0D] d"
    using d(3) unfolding trim_end_fix_iff by (simp add: ws_seqs_def)
  then have "last d \<noteq> CHR 0x0D"
    using d(1) by (auto simp: ends_with_iff) (metis append_butlast_last_id)
  then have cr: "strip_cr ?l = ?l" using d(1) by (simp add: strip_cr_def)
  have tr: "trim ?l = ?l"
    using trim_start_graphic [of c "s' @ '' '' @ d"] hd_show_ipv4 [of ip] sh
      trim_end_after_space [OF d(3,1), of "show_ipv4 ip"] by (simp add: trim_def)
  have "c \<in> set (show_ipv4 ip)" using sh by simp
  then have "\<not> starts_with ''#'' ?l" "strip_prefix ''next_ip='' ?l = None"
    using show_ipv4_notin [of "CHR ''#''" ip] show_ipv4_notin [of "CHR ''n''" ip] sh
    by (auto simp: starts_with_iff)
  moreover have "splitn2_space ?l = Some (show_ipv4 ip, d)"
    using show_ipv4_notin [of "CHR '' ''" ip]
    by (simp add: splitn2_space_def split_once_append)
  moreover have "\<not> ip AND NOT (fi_mask s) < 2"
    using us by (simp add: usable_def linorder_not_less)
  ultimately show ?thesis
    using us d unfolding load_line_def cr tr
    by (simp add: parse_show_ipv4 usable_def)
qed

definition snapshot_of :: "(string \<times> u32) list \<Rightarrow> fake_ip_mapper \<Rightarrow> bool" where
  "snapshot_of snap s \<longleftrightarrow> distinct (map fst snap) \<and> map_of snap = domain_to_ip s"

lemma load_entries:
  assumes "\<forall>(d, ip)\<in>set es. plain_domain lc d \<and> usable s ip"
  shows "fold (load_line lc) (str_lines (concat (map entry_line es))) (s, n) =
    (s\<lparr>domain_to_ip := fold (\<lambda>(d, ip) m. m(d \<mapsto> ip)) es (domain_to_ip s),
       ip_to_domain := fold (\<lambda>(d, ip) m. m(ip \<mapsto> d)) es (ip_to_domain s)\<rparr>, n)"
  using assms
proof (induction es arbitrary: s)
  case (Cons e es)
  obtain d ip where e: "e = (d, ip)" by (cases e)
  have nl: "CHR 0x0A \<notin> set (show_ipv4 ip @ '' '' @ d)"
    using Cons.prems show_ipv4_notin [of "CHR 0x0A" ip] by (auto simp: e plain_domain_def)
  let ?s = "s\<lparr>domain_to_ip := (domain_to_ip s)(d \<mapsto> ip),
       ip_to_domain := (ip_to_domain s)(ip \<mapsto> d)\<rparr>"
  have u: "usable ?s = usable s" by (rule same_net) simp_all
  have ll: "load_line lc (strip_cr (show_ipv4 ip @ '' '' @ d)) (s, n) = (?s, n)"
    using load_line_entry [of lc d s ip n] Cons.prems by (simp add: e)
  have sl: "str_lines (concat (map entry_line (e # es))) =
      strip_cr (show_ipv4 ip @ '' '' @ d) # str_lines (concat (map entry_line es))"
    using str_lines_cons [OF nl] by (simp add: e entry_line_def)
  show ?case
    unfolding sl using Cons.IH [of ?s] Cons.prems u ll by (simp add: e)
qed simp

lemma fold_map_upd_inv:
  "fold (\<lambda>(d, ip) m. m(ip \<mapsto> d)) es m = fold (\<lambda>(ip, d) m. m(ip \<mapsto> d)) (map prod.swap es) m"
  by (induction es arbitrary: m) auto

lemma load_line_hdr: "load_line lc (strip_cr ''# mirage-rs fake-ip persist v1'') st = st"
  by (cases st) (simp add: load_line_def trim_graphic starts_with_def)

lemma load_line_next:
  "load_line lc (strip_cr (''next_ip='' @ show_nat (unat w))) (s, n) = (s, Some w)"
proof -
  have g: "33 \<le> code c \<and> code c \<le> 127" if "c \<in> set (show_nat m)" for c m
    using show_nat_digits [OF that] by auto
  have t: "trim (show_nat (unat w)) = show_nat (unat w)"
    using g [OF hd_in_set] g [OF last_in_set] by (intro trim_graphic) auto
  have "last (''next_ip='' @ show_nat (unat w)) = last (show_nat (unat w))" by simp
  moreover have "last (show_nat (unat w)) \<in> set (show_nat (unat w))" by simp
  ultimately have l: "trim (''next_ip='' @ show_nat (unat w)) = ''next_ip='' @ show_nat (unat w)"
    "strip_cr (''next_ip='' @ show_nat (unat w)) = ''next_ip='' @ show_nat (unat w)"
    using g [of "last (show_nat (unat w))" "unat w"] by (intro trim_graphic; simp)+
  have p: "parse_u32 (show_nat (unat w)) = Some (unat w)"
    using unat_u32_less [of w] by (intro parse_show_nat) simp
  show ?thesis
    unfolding load_line_def l(2) l(1) Let_def
    by (simp add: starts_with_def t p)
qed

lemma flush_contents_load:
  assumes inv: "fi_inv s" and snap: "snapshot_of snap s"
    and ok: "\<forall>d\<in>dom (domain_to_ip s). plain_domain lc d"
  shows "load lc (flush_contents snap (next_ip s)) (fi_clear s) = s\<lparr>dirty := False\<rparr>"
proof -
  note D = fi_invD [OF inv]
  let ?c = "fi_clear s"
  let ?hdr = "''# mirage-rs fake-ip persist v1''"
  let ?nl = "''next_ip='' @ show_nat (unat (next_ip s))"
  have mo: "map_of snap = domain_to_ip s" and di: "distinct (map fst snap)"
    using snap by (simp_all add: snapshot_of_def)
  have u: "usable ?c = usable s" by (rule same_net) (simp_all add: fi_clear_def)
  have mem: "(d, ip) \<in> set snap \<longleftrightarrow> domain_to_ip s d = Some ip" for d ip
    using mo di by (metis map_of_eq_Some_iff)
  have es: "\<forall>(d, ip)\<in>set snap. plain_domain lc d \<and> usable ?c ip"
  proof clarify
    fix d ip assume "(d, ip) \<in> set snap"
    then have "domain_to_ip s d = Some ip" using mem by blast
    then show "plain_domain lc d \<and> usable ?c ip" using ok D(3,4) u by (metis domI)
  qed
  have "inj_on snd (set snap)"
    using mem D(3) by (auto simp: inj_on_def)
  then have di2: "distinct (map fst (map prod.swap snap))"
    using di by (auto simp: distinct_map inj_on_def comp_def)
  have d2i: "fold (\<lambda>(d, ip) m. m(d \<mapsto> ip)) snap Map.empty = domain_to_ip s"
    using fold_map_upd [OF di, of Map.empty] mo by simp
  have "map_of (map prod.swap snap) ip = ip_to_domain s ip" for ip
  proof (rule option_eqI)
    fix d
    have "map_of (map prod.swap snap) ip = Some d \<longleftrightarrow> (ip, d) \<in> set (map prod.swap snap)"
      by (rule map_of_eq_Some_iff [OF di2])
    also have "\<dots> \<longleftrightarrow> (d, ip) \<in> set snap" by force
    also have "\<dots> \<longleftrightarrow> ip_to_domain s ip = Some d" using mem D(3) by simp
    finally show "map_of (map prod.swap snap) ip = Some d \<longleftrightarrow> ip_to_domain s ip = Some d" .
  qed
  then have i2d: "fold (\<lambda>(d, ip) m. m(ip \<mapsto> d)) snap Map.empty = ip_to_domain s"
    using fold_map_upd [OF di2, of Map.empty] by (auto simp: fold_map_upd_inv)
  have nlh: "CHR 0x0A \<notin> set ?hdr" "CHR 0x0A \<notin> set ?nl"
    using show_nat_notin [of "CHR 0x0A"] by auto
  have lines: "str_lines (flush_contents snap (next_ip s)) =
      strip_cr ?hdr # strip_cr ?nl # str_lines (concat (map entry_line snap))"
    using str_lines_cons [OF nlh(1)] str_lines_cons [OF nlh(2)]
    by (simp add: flush_contents_def)
  have l1: "load_line lc (strip_cr ?hdr) (?c, None) = (?c, None)"
    by (simp add: load_line_hdr)
  have l2: "load_line lc (strip_cr ?nl) (?c, None) = (?c, Some (next_ip s))"
    by (rule load_line_next)
  have nx: "next_ip s AND fi_mask s = fi_network s"
    "next_ip s AND NOT (fi_mask s) \<noteq> NOT (fi_mask s)"
    using D(2) by (simp_all add: usable_def)
  have run: "fold (load_line lc) (str_lines (flush_contents snap (next_ip s))) (?c, None)
      = (?c\<lparr>domain_to_ip := domain_to_ip s, ip_to_domain := ip_to_domain s\<rparr>, Some (next_ip s))"
    unfolding lines fold_simps l1 l2 load_entries [OF es]
    by (simp add: fi_clear_def d2i i2d)
  show ?thesis
    unfolding load_def run using nx by (simp add: fi_clear_def)
qed

lemma dom_card_capacity:
  assumes "fi_inv s"
  shows "finite (dom (domain_to_ip s)) \<and> card (dom (domain_to_ip s)) \<le> capacity s"
proof -
  note D = fi_invD [OF assms]
  let ?f = "\<lambda>d. slot s (the (domain_to_ip s d))"
  have us: "usable s (the (domain_to_ip s d))" if "d \<in> dom (domain_to_ip s)" for d
    using that D(3,4) by (metis domIff option.collapse)
  have inj: "inj_on ?f (dom (domain_to_ip s))"
  proof (rule inj_onI)
    fix d e
    assume d: "d \<in> dom (domain_to_ip s)" and e: "e \<in> dom (domain_to_ip s)"
      and eq: "?f d = ?f e"
    have "the (domain_to_ip s d) = the (domain_to_ip s e)"
      using usable_slot_inj [OF D(1) us [OF d] us [OF e] eq] .
    with d e show "d = e" using D(3) by (metis domIff option.collapse option.inject)
  qed
  have img: "?f ` dom (domain_to_ip s) \<subseteq> {..<capacity s}"
    using us slot_less [OF D(1)] by auto
  show ?thesis
    using inj_on_finite [OF inj img] card_inj_on_le [OF inj img] by simp
qed

subsection \<open>Properties\<close>

text \<open>C1. From a mapper built for any accepted CIDR, every sequence of allocations,
flushes and resets leaves the two maps mutually inverse, every address handed out
inside the range and never the network address, the address after it or the
broadcast address, and the next address to hand out usable.\<close>
theorem fake_ip_run_inv:
  assumes "fake_ip_new cidr = Inr s"
  shows "fi_inv (fold (fake_ip_step lc) ops s)"
  using fake_ip.run_inv [OF fake_ip_new_inv [OF assms]] .

definition demo_mapper :: fake_ip_mapper where
  "demo_mapper = empty_mapper 0x0A000000 29 None"

lemma empty_mapper_demo:
  "empty_mapper 0x0A000000 29 path =
     \<lparr>fi_network = 0x0A000000, fi_mask = 0xFFFFFFF8, fi_prefix_len = 29,
      next_ip = 0x0A000002, domain_to_ip = Map.empty, ip_to_domain = Map.empty,
      persist_path = path, dirty = False\<rparr>"
proof -
  have m: "mask4 29 = 0xFFFFFFF8" by code_simp
  have "(0x0A000000 :: u32) AND 0xFFFFFFF8 = 0x0A000000"
    "((0x0A000000 :: u32) AND 0xFFFFFFF8) + 2 = 0x0A000002" by code_simp+
  then show ?thesis by (simp only: empty_mapper_def m)
qed

lemma demo_new: "fake_ip_new ''10.0.0.0/29'' = Inr demo_mapper"
proof -
  have p: "parse_ipv4 ''10.0.0.0'' = Some 0x0A000000" "parse_u32 ''29'' = Some 29"
    "split_char (CHR ''/'') ''10.0.0.0/29'' = [''10.0.0.0'', ''29'']"
    by (simp_all add: parse_ipv4_def read_ipv4_addr_def read_octet_def read_sep_octet_def
        read_number_def is_radix_digit_def to_digit_def read_given_char_def of_be32_def
        parse_radix_def)
  show ?thesis
    by (simp only: fake_ip_new_def with_persist_def p list.case opt_result_simps
        bind_result_simps demo_mapper_def empty_mapper_def Let_def option.case) simp
qed

lemma demo_lower:
  "ascii_lower ''A.com'' = ''a.com''" "ascii_lower ''a'' = ''a''" "ascii_lower ''a.com'' = ''a.com''"
  by code_simp+

lemma demo_assign:
  "lookup_or_assign lc d demo_mapper = (0x0A000002, snd (lookup_or_assign lc d demo_mapper))"
  by (simp add: lookup_or_assign_def demo_mapper_def empty_mapper_demo Let_def)

theorem fake_ip_run_inv_witness:
  "fi_inv (fold (fake_ip_step ascii_lower) [Assign ''A.com'', Clear, Assign ''b.com''] demo_mapper)"
  by (rule fake_ip_run_inv [OF demo_new])

lemma assign_readback:
  assumes "fi_inv s" and "lookup_or_assign lc d s = (ip, s')" and "lc d' = lc d"
  shows "lookup_domain ip s' = Some (lc d) \<and> is_fake_ip ip s'
    \<and> lookup_or_assign lc d' s' = (ip, s')"
proof -
  have inv: "fi_inv s'" using lookup_or_assign_inv [OF assms(1), of lc d] assms(2) by simp
  have "domain_to_ip s' (lc d) = Some ip"
    using assms(2)
    by (cases "domain_to_ip s (lc d)")
      (auto simp: lookup_or_assign_hit lookup_or_assign_miss allocated_def)
  with fi_invD [OF inv] show ?thesis
    using assms(3) by (auto simp: lookup_domain_def is_fake_ip_def usable_def lookup_or_assign_hit)
qed

text \<open>An allocation can be read back: the address returned for a domain is a fake
address, maps back to the (lower-cased) domain, and asking again, in any case that
lower-cases to the same name, returns the same address and changes nothing.\<close>
theorem lookup_or_assign_readback:
  assumes "fi_inv s" and "lookup_or_assign lc d s = (ip, s')" and "lc d' = lc d"
  shows "lookup_domain ip s' = Some (lc d) \<and> is_fake_ip ip s'
    \<and> lookup_or_assign lc d' s' = (ip, s')"
  by (rule assign_readback [OF assms])

theorem lookup_or_assign_readback_witness:
  "lookup_domain 0x0A000002 (snd (lookup_or_assign ascii_lower ''A.com'' demo_mapper)) = Some ''a.com''"
proof -
  from lookup_or_assign_readback [OF fake_ip_new_inv [OF demo_new]
      demo_assign [of ascii_lower "''A.com''"] refl]
  show ?thesis by (simp add: demo_lower)
qed

text \<open>C2. Round robin retains: an address just handed out keeps mapping back to its
domain through any further allocations, as long as fewer of them follow than the
range has usable addresses.\<close>
theorem assignment_retained:
  assumes "fi_inv s" and "domain_to_ip s (lc d) = None"
    and "lookup_or_assign lc d s = (ip, s')" and "length ds < capacity s"
  shows "lookup_domain ip (assign_all lc ds s') = Some (lc d)"
proof -
  have s': "ip = next_ip s" "s' = allocated (lc d) s"
    using assms(2,3) by (simp_all add: lookup_or_assign_miss)
  note D = fi_invD [OF assms(1)]
  have "slot s' (next_ip s') = (slot s' ip + 1 + 0) mod capacity s'"
    using advance_props(2) [OF D(1,2)] same_net [of s' s] s' by (simp add: allocated_def)
  moreover have "ip_to_domain s' ip = Some (lc d)" using s' by (simp add: allocated_def)
  moreover have "0 + length ds < capacity s'" using assms(4) same_net [of s' s] s' by simp
  ultimately show ?thesis
    using retained allocated_inv [OF assms(1,2)] s' by (metis lookup_domain_def)
qed

theorem assignment_retained_witness:
  "lookup_domain 0x0A000002
     (assign_all ascii_lower [''b'', ''c'', ''b'', ''d'']
        (snd (lookup_or_assign ascii_lower ''a'' demo_mapper))) = Some ''a''"
proof -
  have "domain_to_ip demo_mapper (ascii_lower ''a'') = None"
    "length [''b'', ''c'', ''b'', ''d''] < capacity demo_mapper"
    by (simp_all add: demo_mapper_def empty_mapper_demo capacity_def host_bits_def)
  from assignment_retained [OF fake_ip_new_inv [OF demo_new] this(1)
      demo_assign [of ascii_lower "''a''"] this(2)]
  show ?thesis by (simp add: demo_lower)
qed

text \<open>The maps are bounded: a mapper in the invariant never holds more domains than
its range has usable addresses.\<close>
theorem fake_ip_bounded:
  assumes "fi_inv s"
  shows "card (dom (domain_to_ip s)) \<le> capacity s"
  using dom_card_capacity [OF assms] by simp

theorem fake_ip_bounded_witness:
  "card (dom (domain_to_ip demo_mapper)) \<le> capacity demo_mapper"
  by (rule fake_ip_bounded [OF fake_ip_new_inv [OF demo_new]])

text \<open>Persistence is a round trip: the file a successful flush writes, in whatever
order the hash map lists its entries, loads into an empty mapper of the same range as
the same two maps and the same next address, when every stored name is a lower-case
line without a trailing blank.\<close>
theorem flush_load_roundtrip:
  assumes "fi_inv s" and "snapshot_of snap s"
    and "\<forall>d\<in>dom (domain_to_ip s). plain_domain lc d"
    and "flush snap True True s = (s', Some contents)"
  shows "load lc contents (fi_clear s) = s\<lparr>dirty := False\<rparr> \<and> s' = s\<lparr>dirty := False\<rparr>"
  using flush_contents_load [OF assms(1-3)] assms(4) by (auto simp: flush_def split: if_splits)

definition persist_demo :: fake_ip_mapper where
  "persist_demo = snd (lookup_or_assign ascii_lower ''a.com'' (empty_mapper 0x0A000000 29 (Some ''f'')))"

theorem flush_load_roundtrip_witness:
  "load ascii_lower (flush_contents [(''a.com'', 0x0A000002)] (next_ip persist_demo))
     (fi_clear persist_demo) = persist_demo\<lparr>dirty := False\<rparr>"
proof -
  have inv: "fi_inv persist_demo"
    unfolding persist_demo_def by (intro lookup_or_assign_inv empty_mapper_inv) simp
  have d2i: "domain_to_ip persist_demo = [''a.com'' \<mapsto> 0x0A000002]"
    by (simp add: persist_demo_def lookup_or_assign_def empty_mapper_demo Let_def demo_lower)
  have snap: "snapshot_of [(''a.com'', 0x0A000002)] persist_demo"
    by (simp add: snapshot_of_def d2i)
  have "plain_domain ascii_lower ''a.com''"
    by (simp add: plain_domain_def trim_end_fix_iff ws_seqs_def ends_with_def strip_suffix_def
        demo_lower)
  then have ok: "\<forall>d\<in>dom (domain_to_ip persist_demo). plain_domain ascii_lower d"
    by (simp add: d2i)
  have fl: "flush [(''a.com'', 0x0A000002)] True True persist_demo
      = (persist_demo\<lparr>dirty := False\<rparr>,
         Some (flush_contents [(''a.com'', 0x0A000002)] (next_ip persist_demo)))"
    by (simp add: flush_def persist_demo_def lookup_or_assign_def empty_mapper_demo Let_def)
  show ?thesis using flush_load_roundtrip [OF inv snap ok fl] by simp
qed
end
