(* ===== verification/NodeUri.thy ===== *)
theory NodeUri
  imports RustParse
begin

text \<open>\<open>node_uri.rs\<close>: parsing of \<open>mirage://password@host:port?sni=...\<close> node URIs,
percent decoding included. A \<open>usize\<close> is 64 bits wide. Unicode lower-casing of the
\<open>udp_mux\<close> value is the parameter \<open>lc\<close>.\<close>

record node_uri =
  nu_password :: string
  nu_host :: string
  nu_port :: nat
  nu_sni :: string
  nu_pool_size :: "nat option"
  nu_udp_mux :: "bool option"

datatype node_uri_error =
    NotMirageScheme | MissingAt | BadIpv6Literal | MissingPort | BadPort | PortZero
  | IncompleteEscape | BadEscape | NotUtf8 | EmptyPassword | EmptyHost | MissingSni

subsection \<open>Percent decoding\<close>

fun percent_decode_bytes :: "string \<Rightarrow> (node_uri_error, string) result" where
  "percent_decode_bytes [] = Inr []"
| "percent_decode_bytes (c # s) =
     (if c = CHR ''%'' then
        (case s of
           a # b # r \<Rightarrow>
             if \<not> utf8_ok [a, b] then Inl NotUtf8
             else (case parse_radix 16 255 [a, b] of
                     None \<Rightarrow> Inl BadEscape
                   | Some v \<Rightarrow>
                       bind_result (percent_decode_bytes r) (\<lambda>out. Inr (char_of v # out)))
         | _ \<Rightarrow> Inl IncompleteEscape)
      else bind_result (percent_decode_bytes s) (\<lambda>out. Inr (c # out)))"

definition percent_decode :: "string \<Rightarrow> (node_uri_error, string) result" where
  "percent_decode s =
     bind_result (percent_decode_bytes s) (\<lambda>out. if utf8_ok out then Inr out else Inl NotUtf8)"

subsection \<open>The query\<close>

type_synonym query_acc = "string \<times> nat option \<times> bool option"

definition parse_pair ::
    "(string \<Rightarrow> string) \<Rightarrow> string \<Rightarrow> query_acc \<Rightarrow> (node_uri_error, query_acc) result" where
  "parse_pair lc pair acc =
     (case acc of (sni, pool_size, udp_mux) \<Rightarrow>
      case split_once (CHR ''='') pair of
        None \<Rightarrow> Inr acc
      | Some (k, v) \<Rightarrow>
          if k = ''sni'' then
            bind_result (percent_decode v) (\<lambda>sni'. Inr (sni', pool_size, udp_mux))
          else if k = ''pool_size'' \<or> k = ''pool'' then
            (case parse_u64 v of
               Some n \<Rightarrow> Inr (sni, if 0 < n then Some n else pool_size, udp_mux)
             | None \<Rightarrow> Inr acc)
          else if k = ''udp_mux'' \<or> k = ''mux'' then
            (let v_lower = lc v
             in if v_lower = ''1'' \<or> v_lower = ''true'' \<or> v_lower = ''yes''
                then Inr (sni, pool_size, Some True)
                else if v_lower = ''0'' \<or> v_lower = ''false'' \<or> v_lower = ''no''
                then Inr (sni, pool_size, Some False)
                else Inr acc)
          else Inr acc)"

fun parse_pairs ::
    "(string \<Rightarrow> string) \<Rightarrow> string list \<Rightarrow> query_acc \<Rightarrow> (node_uri_error, query_acc) result" where
  "parse_pairs lc [] acc = Inr acc"
| "parse_pairs lc (p # ps) acc = bind_result (parse_pair lc p acc) (parse_pairs lc ps)"

definition split_hostport ::
    "string \<Rightarrow> (node_uri_error, string \<times> string) result" where
  "split_hostport hostport =
     (case strip_prefix ''['' hostport of
        Some rest6 \<Rightarrow> opt_result BadIpv6Literal (split_once_str '']:'' rest6)
      | None \<Rightarrow> opt_result MissingPort (rsplit_once (CHR '':'') hostport))"

definition node_uri_parse ::
    "(string \<Rightarrow> string) \<Rightarrow> string \<Rightarrow> (node_uri_error, node_uri) result" where
  "node_uri_parse lc uri0 =
     (let uri = trim uri0 in
      bind_result (opt_result NotMirageScheme (strip_prefix ''mirage://'' uri)) (\<lambda>rest.
      bind_result (opt_result MissingAt (rsplit_once (CHR ''@'') rest)) (\<lambda>(pwd_enc, hostport_query).
      let (hostport, query) =
            (case split_once (CHR ''?'') hostport_query of
               Some (hp, q) \<Rightarrow> (hp, q) | None \<Rightarrow> (hostport_query, []))
      in
      bind_result (split_hostport hostport) (\<lambda>(host, port_str0).
      let port_str = trim_end_matches (CHR ''/'') port_str0 in
      bind_result (opt_result BadPort (parse_u16 port_str)) (\<lambda>port.
      if port = 0 then Inl PortZero
      else
      bind_result (parse_pairs lc [p \<leftarrow> split_char (CHR ''&'') query. p \<noteq> []] ([], None, None))
        (\<lambda>(sni, pool_size, udp_mux).
      bind_result (percent_decode pwd_enc) (\<lambda>password.
      if password = [] then Inl EmptyPassword
      else if host = [] then Inl EmptyHost
      else if sni = [] then Inl MissingSni
      else Inr \<lparr>nu_password = password, nu_host = host, nu_port = port, nu_sni = sni,
                 nu_pool_size = pool_size, nu_udp_mux = udp_mux\<rparr>)))))))"

subsection \<open>What a parsed URI promises\<close>

definition node_uri_wf :: "node_uri \<Rightarrow> bool" where
  "node_uri_wf u \<longleftrightarrow> nu_password u \<noteq> [] \<and> utf8_ok (nu_password u) \<and> nu_host u \<noteq> []
     \<and> 1 \<le> nu_port u \<and> nu_port u \<le> 65535 \<and> nu_sni u \<noteq> [] \<and> utf8_ok (nu_sni u)
     \<and> (\<forall>n. nu_pool_size u = Some n \<longrightarrow> 1 \<le> n \<and> n < 2 ^ 64)"

lemma percent_decode_utf8: "percent_decode s = Inr t \<Longrightarrow> utf8_ok t"
  by (auto simp: percent_decode_def bind_result_Inr_iff split: if_splits)

definition query_ok :: "query_acc \<Rightarrow> bool" where
  "query_ok acc \<longleftrightarrow> (case acc of (sni, pool_size, udp_mux) \<Rightarrow>
     utf8_ok sni \<and> (\<forall>n. pool_size = Some n \<longrightarrow> 1 \<le> n \<and> n < 2 ^ 64))"

lemma parse_u64_less: "parse_u64 v = Some n \<Longrightarrow> n < 18446744073709551616"
  using parse_radix_le by fastforce

lemma parse_pair_ok: "parse_pair lc p acc = Inr acc' \<Longrightarrow> query_ok acc \<Longrightarrow> query_ok acc'"
  by (cases acc)
    (auto simp: parse_pair_def query_ok_def bind_result_Inr_iff Let_def percent_decode_utf8
      parse_u64_less split: option.splits if_splits)

lemma parse_pairs_ok: "parse_pairs lc ps acc = Inr acc' \<Longrightarrow> query_ok acc \<Longrightarrow> query_ok acc'"
  by (induction ps arbitrary: acc) (auto simp: bind_result_Inr_iff dest: parse_pair_ok)

lemma node_uri_parse_cases:
  assumes "node_uri_parse lc uri = Inr u"
  obtains rest pwd_enc hq hostport query host port_str port sni pool mux password where
    "strip_prefix ''mirage://'' (trim uri) = Some rest"
    "rsplit_once (CHR ''@'') rest = Some (pwd_enc, hq)"
    "split_hostport hostport = Inr (host, port_str)"
    "parse_u16 (trim_end_matches (CHR ''/'') port_str) = Some port" "port \<noteq> 0"
    "parse_pairs lc [p \<leftarrow> split_char (CHR ''&'') query. p \<noteq> []] ([], None, None) = Inr (sni, pool, mux)"
    "percent_decode pwd_enc = Inr password" "password \<noteq> []" "host \<noteq> []" "sni \<noteq> []"
    "u = \<lparr>nu_password = password, nu_host = host, nu_port = port, nu_sni = sni,
          nu_pool_size = pool, nu_udp_mux = mux\<rparr>"
  using assms unfolding node_uri_parse_def Let_def
  by (auto simp: bind_result_Inr_iff simp del: trim_end_matches.simps
      split: prod.splits if_splits option.splits)

lemma node_uri_parse_wf: "node_uri_parse lc uri = Inr u \<Longrightarrow> node_uri_wf u"
  by (erule node_uri_parse_cases)
    (auto simp: node_uri_wf_def percent_decode_utf8 query_ok_def
      dest!: parse_pairs_ok dest: parse_radix_le)

subsection \<open>The encoder of the Android side\<close>

text \<open>\<open>NodeStore.Node.percentEncode\<close> and \<open>uriOf\<close> build the URIs this parser reads. They are
modelled on ASCII text, where a UTF-16 unit is one byte.\<close>

definition hex_char :: "nat \<Rightarrow> char" where
  "hex_char d = char_of (if d < 10 then 48 + d else 55 + d)"

definition unreserved :: "char \<Rightarrow> bool" where
  "unreserved c \<longleftrightarrow> (let n = code c in
     48 \<le> n \<and> n \<le> 57 \<or> 65 \<le> n \<and> n \<le> 90 \<or> 97 \<le> n \<and> n \<le> 122
     \<or> c \<in> set ''-_.~'')"

fun percent_encode :: "string \<Rightarrow> string" where
  "percent_encode [] = []"
| "percent_encode (c # s) =
     (if unreserved c then [c] else [CHR ''%'', hex_char (code c div 16), hex_char (code c mod 16)])
     @ percent_encode s"

definition kotlin_ws :: "char \<Rightarrow> bool" where
  "kotlin_ws c \<longleftrightarrow> (let n = code c in 9 \<le> n \<and> n \<le> 13 \<or> 28 \<le> n \<and> n \<le> 32)"

definition kotlin_trim :: "string \<Rightarrow> string" where
  "kotlin_trim s = rev (dropWhile kotlin_ws (rev (dropWhile kotlin_ws s)))"

definition uri_of :: "string \<Rightarrow> string \<Rightarrow> string \<Rightarrow> string \<Rightarrow> string" where
  "uri_of server port password sni =
     (let host = (if CHR '':'' \<in> set server then ''['' @ server @ '']'' else server);
          p = (if kotlin_trim port = [] then ''443'' else kotlin_trim port)
      in ''mirage://'' @ percent_encode password @ ''@'' @ host @ '':'' @ p @ ''?sni='' @
         percent_encode sni)"

definition ascii :: "string \<Rightarrow> bool" where
  "ascii s \<longleftrightarrow> (\<forall>c\<in>set s. code c < 128)"

definition uri_char :: "char \<Rightarrow> bool" where
  "uri_char c \<longleftrightarrow> unreserved c \<or> c = CHR ''%''"

lemma code_hex_char: "d < 16 \<Longrightarrow> code (hex_char d) = (if d < 10 then 48 + d else 55 + d)"
  by (simp add: hex_char_def)

lemma to_digit_hex_char: "d < 16 \<Longrightarrow> to_digit 16 (hex_char d) = Some d"
  by (simp add: to_digit_def Let_def code_hex_char)

lemma hex_char_unreserved: "d < 16 \<Longrightarrow> unreserved (hex_char d)"
  by (simp add: unreserved_def Let_def code_hex_char)

lemma hex_char_neq: "d < 16 \<Longrightarrow> code c < 48 \<Longrightarrow> hex_char d \<noteq> c"
  using code_hex_char [of d] by (auto split: if_splits)

lemma utf8_ok_ascii: "ascii s \<Longrightarrow> utf8_ok s"
  by (induction s) (auto simp: ascii_def)

lemma parse_hex2:
  assumes "n < 128"
  shows "parse_radix 16 255 [hex_char (n div 16), hex_char (n mod 16)] = Some n"
    and "utf8_ok [hex_char (n div 16), hex_char (n mod 16)]"
proof -
  have d: "n div 16 < 16" "n mod 16 < 16" using assms by auto
  have "hex_char (n div 16) \<noteq> CHR ''+''" by (rule hex_char_neq [OF d(1)]) simp
  then show "parse_radix 16 255 [hex_char (n div 16), hex_char (n mod 16)] = Some n"
    using assms by (simp add: parse_radix_def to_digit_hex_char [OF d(1)] to_digit_hex_char [OF d(2)])
  show "utf8_ok [hex_char (n div 16), hex_char (n mod 16)]"
    using d by (intro utf8_ok_ascii) (auto simp: ascii_def code_hex_char)
qed

lemma percent_decode_encode: "ascii s \<Longrightarrow> percent_decode_bytes (percent_encode s) = Inr s"
proof (induction s)
  case (Cons c s)
  then have "code c < 128" "ascii s" by (auto simp: ascii_def)
  moreover have "unreserved c \<Longrightarrow> c \<noteq> CHR ''%''" by (auto simp: unreserved_def)
  ultimately show ?case
    using Cons.IH parse_hex2 [of "code c"] by (auto simp del: utf8_ok.simps)
qed simp

lemma percent_encode_chars: "ascii s \<Longrightarrow> c \<in> set (percent_encode s) \<Longrightarrow> uri_char c"
  by (induction s)
    (auto simp: uri_char_def ascii_def hex_char_unreserved split: if_splits)

lemma percent_encode_Nil_iff [simp]: "percent_encode s = [] \<longleftrightarrow> s = []"
  by (cases s) auto

lemma uri_char_graphic: "uri_char c \<Longrightarrow> 33 \<le> code c \<and> code c \<le> 127"
  by (auto simp: uri_char_def unreserved_def Let_def)

definition plain_host :: "string \<Rightarrow> bool" where
  "plain_host h \<longleftrightarrow> h \<noteq> [] \<and> set h \<inter> {CHR ''@'', CHR ''?'', CHR ''['', CHR '']''} = {}"

lemma kotlin_trim_show_nat: "kotlin_trim (show_nat n) = show_nat n"
proof -
  have nw: "\<not> kotlin_ws c" if c: "c \<in> set (show_nat n)" for c
    using show_nat_digits [OF c] by (auto simp: kotlin_ws_def)
  have d: "dropWhile kotlin_ws t = t" if "set t \<subseteq> set (show_nat n)" for t
    using that nw by (cases t) auto
  show ?thesis by (simp add: kotlin_trim_def d)
qed

lemma split_once_str_bracket:
  "CHR '']'' \<notin> set h \<Longrightarrow> split_once_str '']:'' (h @ '']:'' @ p) = Some (h, p)"
  by (induction h) auto

lemma split_hostport_uri:
  assumes "plain_host h"
  shows "split_hostport ((if CHR '':'' \<in> set h then ''['' @ h @ '']'' else h) @ '':'' @ show_nat p)
    = Inr (h, show_nat p)"
proof (cases "CHR '':'' \<in> set h")
  case True
  then show ?thesis
    using assms split_once_str_bracket [of h "show_nat p"]
    by (simp add: split_hostport_def plain_host_def)
next
  case False
  have "strip_prefix ''['' (h @ '':'' @ show_nat p) = None"
    using assms by (cases h) (auto simp: plain_host_def)
  moreover have "rsplit_once (CHR '':'') (h @ '':'' @ show_nat p) = Some (h, show_nat p)"
    using show_nat_notin [of "CHR '':''" p] by (simp add: rsplit_once_Some)
  ultimately show ?thesis using False by (simp add: split_hostport_def)
qed

lemma parse_pairs_sni:
  assumes "ascii sni" "sni \<noteq> []"
  shows "parse_pairs lc [p \<leftarrow> split_char (CHR ''&'') (''sni='' @ percent_encode sni). p \<noteq> []]
      ([], None, None) = Inr (sni, None, None)"
proof -
  have "\<not> uri_char (CHR ''&'')" by (simp add: uri_char_def unreserved_def)
  then have "CHR ''&'' \<notin> set (''sni='' @ percent_encode sni)"
    using percent_encode_chars [OF assms(1)] by auto
  then have s: "split_char (CHR ''&'') (''sni='' @ percent_encode sni) = [''sni='' @ percent_encode sni]"
    by (rule split_char_notin)
  have o: "split_once (CHR ''='') (''sni='' @ percent_encode sni) = Some (''sni'', percent_encode sni)"
    by simp
  show ?thesis
    unfolding s using o
    by (simp add: parse_pair_def percent_decode_def percent_decode_encode [OF assms(1)]
        utf8_ok_ascii [OF assms(1)])
qed

lemma trim_end_matches_notin: "d \<notin> set s \<Longrightarrow> trim_end_matches d s = s"
proof -
  have "dropWhile (\<lambda>c. c = d) t = t" if "d \<notin> set t" for t
    using that by (cases t) auto
  then show "d \<notin> set s \<Longrightarrow> trim_end_matches d s = s" by simp
qed

lemma uri_of_parse_fields:
  assumes "ascii pwd" "pwd \<noteq> []" "ascii sni" "sni \<noteq> []" "plain_host h" "1 \<le> p" "p \<le> 65535"
  shows "node_uri_parse lc (uri_of h (show_nat p) pwd sni) =
    Inr \<lparr>nu_password = pwd, nu_host = h, nu_port = p, nu_sni = sni,
         nu_pool_size = None, nu_udp_mux = None\<rparr>"
proof -
  let ?hp = "(if CHR '':'' \<in> set h then ''['' @ h @ '']'' else h) @ '':'' @ show_nat p"
  let ?q = "''sni='' @ percent_encode sni"
  let ?rest = "percent_encode pwd @ ''@'' @ ?hp @ ''?'' @ ?q"
  have uri: "uri_of h (show_nat p) pwd sni = ''mirage://'' @ ?rest"
    by (simp add: uri_of_def kotlin_trim_show_nat)
  have "last (''mirage://'' @ ?rest) = last (percent_encode sni)" using assms(4) by simp
  moreover have "last (percent_encode sni) \<in> set (percent_encode sni)" using assms(4) by simp
  ultimately have t: "trim (''mirage://'' @ ?rest) = ''mirage://'' @ ?rest"
    using uri_char_graphic percent_encode_chars [OF assms(3)] by (intro trim_graphic) auto
  have nat: "c \<notin> set (percent_encode sni)" if "\<not> uri_char c" for c
    using percent_encode_chars [OF assms(3)] that by blast
  have nu: "\<not> uri_char (CHR ''@'')" by (simp add: uri_char_def unreserved_def)
  have at: "rsplit_once (CHR ''@'') ?rest = Some (percent_encode pwd, ?hp @ ''?'' @ ?q)"
    using assms(5) nat [OF nu] show_nat_notin [of "CHR ''@''" p]
    by (auto simp: rsplit_once_Some plain_host_def)
  have qm: "split_once (CHR ''?'') (?hp @ ''?'' @ ?q) = Some (?hp, ?q)"
    using assms(5) show_nat_notin [of "CHR ''?''" p]
    by (auto simp: split_once_Some plain_host_def)
  have sl: "trim_end_matches (CHR ''/'') (show_nat p) = show_nat p"
    by (rule trim_end_matches_notin) (simp add: show_nat_notin)
  have po: "parse_u16 (show_nat p) = Some p" using assms(7) by (intro parse_show_nat) simp
  have sp: "strip_prefix ''mirage://'' (''mirage://'' @ ?rest) = Some ?rest"
    by (simp only: strip_prefix_Some)
  show ?thesis
    unfolding node_uri_parse_def uri t sp opt_result_simps bind_result_simps at case_prod_conv
      Let_def qm option.case split_hostport_uri [OF assms(5)] sl po parse_pairs_sni [OF assms(3,4)]
      percent_decode_def percent_decode_encode [OF assms(1)]
    using assms utf8_ok_ascii [OF assms(1)] by (simp add: plain_host_def)
qed

subsection \<open>Properties\<close>

text \<open>C3. A node URI that parses is usable: password, host and SNI are non-empty, the
decoded fields are valid UTF-8, the port is between 1 and 65535 and a pool size, when
given, is at least one.\<close>
theorem node_uri_parse_usable:
  assumes "node_uri_parse lc uri = Inr u"
  shows "node_uri_wf u"
  by (rule node_uri_parse_wf [OF assms])

text \<open>The Android side's \<open>uriOf\<close> and this parser agree: for an ASCII password and SNI,
a host without the delimiters and a decimal port, the URI built parses to the same
four fields, IPv6 literals included.\<close>
theorem uri_of_parse:
  assumes "ascii pwd" "pwd \<noteq> []" "ascii sni" "sni \<noteq> []" "plain_host h" "1 \<le> p" "p \<le> 65535"
  shows "node_uri_parse lc (uri_of h (show_nat p) pwd sni) =
    Inr \<lparr>nu_password = pwd, nu_host = h, nu_port = p, nu_sni = sni,
         nu_pool_size = None, nu_udp_mux = None\<rparr>"
  by (rule uri_of_parse_fields [OF assms])

theorem uri_of_parse_witness:
  "node_uri_parse ascii_lower (uri_of ''2001:db8::1'' ''8080'' ''p@ss word'' ''ipv6.test'') =
    Inr \<lparr>nu_password = ''p@ss word'', nu_host = ''2001:db8::1'', nu_port = 8080,
         nu_sni = ''ipv6.test'', nu_pool_size = None, nu_udp_mux = None\<rparr>"
proof -
  have "show_nat 8080 = ''8080''" by (simp add: show_nat.simps digit_char_def char_of_def bit_0)
  then show ?thesis
    using uri_of_parse [of "''p@ss word''" "''ipv6.test''" "''2001:db8::1''" 8080 ascii_lower]
    by (simp add: ascii_def plain_host_def)
qed

theorem node_uri_parse_usable_witness:
  "\<exists>u. node_uri_parse ascii_lower (uri_of ''h'' ''443'' ''p'' ''s'') = Inr u \<and> node_uri_wf u"
proof -
  have "show_nat 443 = ''443''" by (simp add: show_nat.simps digit_char_def char_of_def bit_0)
  then obtain u where u: "node_uri_parse ascii_lower (uri_of ''h'' ''443'' ''p'' ''s'') = Inr u"
    using uri_of_parse_fields [of "''p''" "''s''" "''h''" 443 ascii_lower]
    by (simp add: ascii_def plain_host_def)
  with node_uri_parse_usable [OF u] show ?thesis by blast
qed
end
