(* ===== verification/Failover.thy ===== *)
theory Failover
  imports NodeUri
begin

text \<open>\<open>failover.rs\<close> and the control plane of \<open>mirage-jni/src/lib.rs\<close>: the node list and
policy cells, the engine handle with its start, stop, hot-switch and pool-size calls,
the selection of the best candidate and one round of the failover watchdog. The engine
is a parameter type \<open>'e\<close> with its constructor \<open>engine_new\<close> and health check; JSON parsing,
the JNI environment's answers and the measured round-trip times are arguments.\<close>

subsection \<open>State of \<open>failover.rs\<close>\<close>

record node_entry =
  ne_uri :: string
  ne_name :: string

record failover_policy =
  fp_mode :: string
  fp_interval_sec :: u32
  fp_backoff_sec :: u32
  fp_restart_delay_ms :: u32
  fp_enabled :: bool

definition default_policy :: failover_policy where
  "default_policy = \<lparr>fp_mode = ''best'', fp_interval_sec = 15, fp_backoff_sec = 0,
     fp_restart_delay_ms = 3000, fp_enabled = False\<rparr>"

record failover_state =
  fo_nodes :: "node_entry list"
  fo_policy :: failover_policy
  fo_net_handle :: u64
  fo_has_internet :: bool

definition failover_init :: failover_state where
  "failover_init = \<lparr>fo_nodes = [], fo_policy = default_policy, fo_net_handle = 0,
     fo_has_internet = False\<rparr>"

definition set_node_list ::
    "(string \<Rightarrow> node_entry list option) \<Rightarrow> string \<Rightarrow> failover_state \<Rightarrow> nat option \<times> failover_state" where
  "set_node_list parse json s =
     (case parse json of
        None \<Rightarrow> (None, s)
      | Some ns \<Rightarrow> (Some (length ns), s\<lparr>fo_nodes := ns\<rparr>))"

definition set_policy ::
    "(string \<Rightarrow> failover_policy option) \<Rightarrow> string \<Rightarrow> failover_state \<Rightarrow> bool \<times> failover_state" where
  "set_policy parse json s =
     (case parse json of None \<Rightarrow> (False, s) | Some p \<Rightarrow> (True, s\<lparr>fo_policy := p\<rparr>))"

definition on_network_changed :: "u64 \<Rightarrow> bool \<Rightarrow> failover_state \<Rightarrow> failover_state" where
  "on_network_changed h i s = s\<lparr>fo_net_handle := h, fo_has_internet := i\<rparr>"

definition saturating_add_u32 :: "u32 \<Rightarrow> u32 \<Rightarrow> u32" where
  "saturating_add_u32 a b = (if unat a + unat b < 2 ^ 32 then a + b else - 1)"

definition escalate_backoff :: "u32 \<Rightarrow> u32" where
  "escalate_backoff current_sec = min (saturating_add_u32 current_sec 5) 30"

subsection \<open>The engine handle and the JNI calls\<close>

record node_info =
  ni_tag :: string
  ni_server :: string
  ni_server_port :: nat
  ni_password :: string
  ni_sni :: string
  ni_pool_size :: nat
  ni_pfs :: bool
  ni_udp_mux :: bool

definition from_node_uri :: "node_uri \<Rightarrow> node_info" where
  "from_node_uri u = \<lparr>ni_tag = ''proxy-'' @ show_nat (nu_port u), ni_server = nu_host u,
     ni_server_port = nu_port u, ni_password = nu_password u, ni_sni = nu_sni u,
     ni_pool_size = (case nu_pool_size u of Some n \<Rightarrow> n | None \<Rightarrow> 16), ni_pfs = False,
     ni_udp_mux = (case nu_udp_mux u of Some b \<Rightarrow> b | None \<Rightarrow> True)\<rparr>"

record 'e jni_state =
  js_started :: bool
  js_runtime :: "'e option"
  js_pool_size :: nat
  js_node_uri :: "string option"
  js_watchdog_gen :: u64

definition jni_init :: "'e jni_state" where
  "jni_init = \<lparr>js_started = False, js_runtime = None, js_pool_size = 16, js_node_uri = None,
     js_watchdog_gen = 0\<rparr>"

text \<open>The answers the JVM, tokio and the TUN device give to one \<open>start\<close> call.\<close>

record start_env =
  se_get_string :: "string option"
  se_java_vm :: bool
  se_find_class :: bool
  se_global_ref :: bool
  se_tokio :: bool
  se_tun_start :: bool

type_synonym uri_parser = "string \<Rightarrow> (node_uri_error, node_uri) result"

definition start_fail :: "int \<Rightarrow> 'e jni_state \<Rightarrow> int \<times> 'e jni_state" where
  "start_fail c s = (c, s\<lparr>js_started := False\<rparr>)"

text \<open>The second half of \<open>start\<close>: tokio runtime, engine, TUN stack, watchdog generation.\<close>

definition jni_boot ::
    "(node_info \<Rightarrow> 'e option) \<Rightarrow> start_env \<Rightarrow> node_info \<Rightarrow> 'e jni_state \<Rightarrow> int \<times> 'e jni_state" where
  "jni_boot engine_new env node s =
     (if \<not> se_tokio env then start_fail (- 4) s
      else case engine_new node of
        None \<Rightarrow> start_fail (- 3) s
      | Some e \<Rightarrow>
          if \<not> se_tun_start env then start_fail (- 3) s
          else (0, s\<lparr>js_runtime := Some e, js_watchdog_gen := js_watchdog_gen s + 1\<rparr>))"

definition jni_start ::
    "uri_parser \<Rightarrow> (node_info \<Rightarrow> 'e option) \<Rightarrow> start_env \<Rightarrow> int \<Rightarrow> 'e jni_state \<Rightarrow> int \<times> 'e jni_state" where
  "jni_start parse engine_new env pool_size s0 =
     (if js_started s0 \<and> js_runtime s0 \<noteq> None then (0, s0)
      else let s = s0\<lparr>js_started := True\<rparr> in
      case se_get_string env of
        None \<Rightarrow> start_fail (- 1) s
      | Some uri \<Rightarrow>
          (case parse uri of
             Inl _ \<Rightarrow> start_fail (- 1) s
           | Inr u \<Rightarrow>
               let s1 = (if 0 < pool_size then s\<lparr>js_pool_size := nat pool_size\<rparr> else s);
                   node = (from_node_uri u)\<lparr>ni_pool_size := js_pool_size s1\<rparr>;
                   s2 = s1\<lparr>js_node_uri := Some uri\<rparr>
               in if \<not> se_java_vm env then start_fail (- 5) s2
                  else if \<not> se_find_class env then start_fail (- 6) s2
                  else if \<not> se_global_ref env then start_fail (- 7) s2
                  else jni_boot engine_new env node s2))"

definition jni_stop :: "'e jni_state \<Rightarrow> 'e jni_state" where
  "jni_stop s = s\<lparr>js_runtime := None, js_started := False\<rparr>"

definition switch_engine_to ::
    "uri_parser \<Rightarrow> (node_info \<Rightarrow> 'e option) \<Rightarrow> string \<Rightarrow> 'e jni_state \<Rightarrow> bool \<times> 'e jni_state" where
  "switch_engine_to parse engine_new uri s =
     (case parse uri of
        Inl _ \<Rightarrow> (False, s)
      | Inr u \<Rightarrow>
          (case engine_new ((from_node_uri u)\<lparr>ni_pool_size := js_pool_size s\<rparr>) of
             None \<Rightarrow> (False, s)
           | Some e \<Rightarrow> (True, s\<lparr>js_runtime := Some e, js_node_uri := Some uri\<rparr>)))"

text \<open>\<open>uri\<close> is what \<open>env.get_string\<close> returned.\<close>

definition jni_set_node ::
    "uri_parser \<Rightarrow> (node_info \<Rightarrow> 'e option) \<Rightarrow> string option \<Rightarrow> 'e jni_state \<Rightarrow> bool \<times> 'e jni_state" where
  "jni_set_node parse engine_new uri s =
     (case uri of
        None \<Rightarrow> (False, s)
      | Some u_str \<Rightarrow>
          (case parse u_str of
             Inl _ \<Rightarrow> (False, s)
           | Inr u \<Rightarrow>
               let node = (from_node_uri u)\<lparr>ni_pool_size := js_pool_size s\<rparr>;
                   s1 = s\<lparr>js_node_uri := Some u_str\<rparr>
               in case js_runtime s1 of
                    None \<Rightarrow> (False, s1)
                  | Some _ \<Rightarrow>
                      (case engine_new node of
                         None \<Rightarrow> (False, s1)
                       | Some e \<Rightarrow> (True, s1\<lparr>js_runtime := Some e\<rparr>))))"

definition jni_set_pool_size ::
    "(nat \<Rightarrow> 'e \<Rightarrow> 'e) \<Rightarrow> int \<Rightarrow> 'e jni_state \<Rightarrow> bool \<times> 'e jni_state" where
  "jni_set_pool_size resize pool_size s =
     (if pool_size \<le> 0 then (False, s)
      else (True, s\<lparr>js_pool_size := nat pool_size,
                    js_runtime := map_option (resize (nat pool_size)) (js_runtime s)\<rparr>))"

text \<open>\<open>redact_uri\<close> keeps the first 24 characters; a character is a byte that is not a
UTF-8 continuation byte, with the continuation bytes after it.\<close>

fun take_chars :: "nat \<Rightarrow> string \<Rightarrow> string" where
  "take_chars n [] = []"
| "take_chars n (c # s) =
     (if utf8_cont c then c # take_chars n s
      else case n of 0 \<Rightarrow> [] | Suc m \<Rightarrow> c # take_chars m s)"

definition redact_uri :: "string \<Rightarrow> string" where
  "redact_uri uri = take_chars 24 uri @ ''...''"

subsection \<open>Selecting the best candidate\<close>

text \<open>\<open>i64::MAX\<close> marks an unreachable candidate; \<open>None\<close> is a probe task that panicked.\<close>

definition i64_max :: int where "i64_max = 2 ^ 63 - 1"

definition better :: "(string \<times> int) option \<Rightarrow> (string \<times> int) option \<Rightarrow> (string \<times> int) option" where
  "better best t =
     (case t of
        None \<Rightarrow> best
      | Some (uri, rtt) \<Rightarrow>
          if rtt \<noteq> i64_max \<and> (case best of None \<Rightarrow> True | Some (_, b) \<Rightarrow> rtt < b)
          then Some (uri, rtt) else best)"

definition pick_best_node :: "(string \<Rightarrow> int option) \<Rightarrow> node_entry list \<Rightarrow> string option" where
  "pick_best_node probe candidates =
     map_option fst
       (foldl better None
          (map (\<lambda>c. map_option (\<lambda>rtt. (ne_uri c, rtt)) (probe (ne_uri c))) candidates))"

subsection \<open>One round of the watchdog\<close>

datatype wd_action = SleepMs u32 | EventSwitched string | EventRestart string

record watchdog =
  wd_gen :: u64
  wd_failures :: u32
  wd_backoff :: u32

datatype wd_outcome = WdExit | WdContinue

definition wd_init :: "u64 \<Rightarrow> watchdog" where
  "wd_init g = \<lparr>wd_gen = g, wd_failures = 0, wd_backoff = 0\<rparr>"

definition wd_interval :: "failover_policy \<Rightarrow> watchdog \<Rightarrow> u32" where
  "wd_interval p w = max (fp_interval_sec p) 5 + fp_backoff_sec p + wd_backoff w"

definition wd_candidates :: "failover_state \<Rightarrow> 'e jni_state \<Rightarrow> node_entry list" where
  "wd_candidates f s = [n \<leftarrow> fo_nodes f. Some (ne_uri n) \<noteq> js_node_uri s]"

text \<open>The switch itself, once two rounds in a row have failed.\<close>

definition wd_act ::
    "uri_parser \<Rightarrow> (node_info \<Rightarrow> 'e option) \<Rightarrow> (string \<Rightarrow> int option) \<Rightarrow> failover_policy
      \<Rightarrow> failover_state \<Rightarrow> watchdog \<times> 'e jni_state \<Rightarrow> (watchdog \<times> 'e jni_state) \<times> wd_action list" where
  "wd_act parse engine_new probe policy f st =
     (case st of (w, s) \<Rightarrow>
      let current = js_node_uri s;
          cur = (case current of None \<Rightarrow> [] | Some u \<Rightarrow> u);
          candidates = wd_candidates f s;
          esc = w\<lparr>wd_backoff := escalate_backoff (wd_backoff w)\<rparr>;
          give_up = ((esc, s), [SleepMs (fp_restart_delay_ms policy), EventRestart cur])
      in if candidates = [] then give_up
         else case (if fp_mode policy = ''best'' then pick_best_node probe candidates
                    else Some (ne_uri (hd candidates))) of
                None \<Rightarrow> give_up
              | Some chosen \<Rightarrow>
                  (case switch_engine_to parse engine_new chosen s of
                     (True, s') \<Rightarrow> ((w\<lparr>wd_backoff := 0\<rparr>, s'), [EventSwitched chosen])
                   | (False, s') \<Rightarrow> ((esc, s'), [EventRestart chosen])))"

definition wd_round ::
    "uri_parser \<Rightarrow> (node_info \<Rightarrow> 'e option) \<Rightarrow> ('e \<Rightarrow> bool) \<Rightarrow> (string \<Rightarrow> int option)
      \<Rightarrow> failover_policy \<Rightarrow> failover_state \<Rightarrow> watchdog \<times> 'e jni_state
      \<Rightarrow> wd_outcome \<times> (watchdog \<times> 'e jni_state) \<times> wd_action list" where
  "wd_round parse engine_new healthy probe policy f st =
     (case st of (w, s) \<Rightarrow>
      if js_watchdog_gen s \<noteq> wd_gen w then (WdExit, (w, s), [])
      else case js_runtime s of
        None \<Rightarrow> (WdExit, (w, s), [])
      | Some engine \<Rightarrow>
          if \<not> fp_enabled policy then (WdContinue, (w, s), [])
          else if \<not> fo_has_internet f then (WdContinue, (w\<lparr>wd_failures := 0\<rparr>, s), [])
          else if healthy engine then
            (WdContinue, (w\<lparr>wd_failures := 0, wd_backoff := 0\<rparr>, s), [])
          else
            let n = wd_failures w + 1 in
            if n < 2 then (WdContinue, (w\<lparr>wd_failures := n\<rparr>, s), [])
            else
              let r = wd_act parse engine_new probe policy f (w\<lparr>wd_failures := 0\<rparr>, s)
              in (WdContinue, fst r, snd r))"

subsection \<open>The best candidate\<close>

definition reachable_rtt :: "(string \<Rightarrow> int option) \<Rightarrow> node_entry \<Rightarrow> int \<Rightarrow> bool" where
  "reachable_rtt probe c rtt \<longleftrightarrow> probe (ne_uri c) = Some rtt \<and> rtt \<noteq> i64_max"

lemma foldl_better:
  "(case foldl better None
       (map (\<lambda>c. map_option (\<lambda>rtt. (ne_uri c, rtt)) (probe (ne_uri c))) cs) of
       None \<Rightarrow> \<forall>c\<in>set cs. \<forall>r. \<not> reachable_rtt probe c r
     | Some (u, r) \<Rightarrow> (\<exists>c\<in>set cs. ne_uri c = u \<and> reachable_rtt probe c r)
         \<and> (\<forall>c\<in>set cs. \<forall>r'. reachable_rtt probe c r' \<longrightarrow> r \<le> r'))"
proof (induction cs rule: rev_induct)
  case (snoc c cs)
  then show ?case
    by (cases "probe (ne_uri c)")
      (auto simp: better_def reachable_rtt_def split: option.splits if_splits; fastforce)+
qed simp

lemma pick_best_node_Some:
  "pick_best_node probe cs = Some u \<Longrightarrow>
     \<exists>c\<in>set cs. \<exists>r. ne_uri c = u \<and> reachable_rtt probe c r
       \<and> (\<forall>c'\<in>set cs. \<forall>r'. reachable_rtt probe c' r' \<longrightarrow> r \<le> r')"
  using foldl_better [where probe = probe and cs = cs] by (auto simp: pick_best_node_def split: option.splits prod.splits)

lemma pick_best_node_None:
  "pick_best_node probe cs = None \<longleftrightarrow> (\<forall>c\<in>set cs. \<forall>r. \<not> reachable_rtt probe c r)"
  using foldl_better [where probe = probe and cs = cs]
  by (auto simp: pick_best_node_def split: option.splits prod.splits)

subsection \<open>Backoff\<close>

lemma unat_escalate: "unat w \<le> 30 \<Longrightarrow> unat (escalate_backoff w) = min (unat w + 5) 30"
  by (simp add: escalate_backoff_def saturating_add_u32_def min_def word_le_nat_alt unat_word_ariths)

lemma escalate_le: "unat (escalate_backoff w) \<le> 30"
  by (simp add: escalate_backoff_def min_def word_le_nat_alt)

lemma escalate_iterate: "unat ((escalate_backoff ^^ k) 0) = min (5 * k) 30"
  by (induction k) (simp_all add: unat_escalate)

subsection \<open>Steps of a running watchdog\<close>

text \<open>One round of a live watchdog under any environment: between rounds other threads
may change the engine handle and the failover state at will.\<close>

inductive wd_step ::
    "uri_parser \<Rightarrow> (node_info \<Rightarrow> 'e option) \<Rightarrow> watchdog \<Rightarrow> wd_action list \<Rightarrow> watchdog \<Rightarrow> bool"
  for parse :: uri_parser and engine_new :: "node_info \<Rightarrow> 'e option"
where
  round: "wd_round parse engine_new healthy probe policy f (w, s) = (WdContinue, (w', s'), acts)
    \<Longrightarrow> wd_step parse engine_new w acts w'"

inductive_cases wd_stepE: "wd_step parse engine_new w acts w'"

inductive wd_reachable ::
    "uri_parser \<Rightarrow> (node_info \<Rightarrow> 'e option) \<Rightarrow> u64 \<Rightarrow> watchdog \<Rightarrow> bool"
  for parse :: uri_parser and engine_new :: "node_info \<Rightarrow> 'e option" and g :: u64
where
  init: "wd_reachable parse engine_new g (wd_init g)"
| step: "wd_reachable parse engine_new g w \<Longrightarrow> wd_step parse engine_new w acts w'
    \<Longrightarrow> wd_reachable parse engine_new g w'"

definition wd_inv :: "watchdog \<Rightarrow> bool" where
  "wd_inv w \<longleftrightarrow> unat (wd_failures w) \<le> 1 \<and> unat (wd_backoff w) \<le> 30"

lemma failures_le1: "unat (w :: u32) \<le> 1 \<Longrightarrow> w = 0 \<or> w = 1"
  by (metis One_nat_def le_Suc_eq le_zero_eq unsigned_0 unsigned_1 word_unat_eq_iff)

lemma wd_act_watchdog:
  "fst (fst (wd_act parse engine_new probe policy f (w, s))) = w\<lparr>wd_backoff := 0\<rparr>
   \<or> fst (fst (wd_act parse engine_new probe policy f (w, s)))
       = w\<lparr>wd_backoff := escalate_backoff (wd_backoff w)\<rparr>"
  by (auto simp: wd_act_def Let_def split: option.splits prod.splits bool.splits)

lemma wd_round_cases:
  assumes "wd_round parse engine_new healthy probe policy f (w, s) = (WdContinue, (w', s'), acts)"
    and "unat (wd_failures w) \<le> 1"
  obtains (idle) "acts = []" "s' = s" "unat (wd_failures w') \<le> 1"
      "wd_backoff w' = wd_backoff w \<or> wd_backoff w' = 0"
  | (acted) e where "js_watchdog_gen s = wd_gen w" "js_runtime s = Some e" "fp_enabled policy"
      "fo_has_internet f" "\<not> healthy e" "wd_failures w = 1"
      "((w', s'), acts) = wd_act parse engine_new probe policy f (w\<lparr>wd_failures := 0\<rparr>, s)"
      "wd_failures w' = 0"
proof -
  have gen: "js_watchdog_gen s = wd_gen w"
    using assms(1) by (auto simp: wd_round_def split: if_splits)
  obtain e where e: "js_runtime s = Some e"
    using assms(1) gen by (cases "js_runtime s") (auto simp: wd_round_def)
  have r: "(if \<not> fp_enabled policy then (WdContinue, (w, s), [])
          else if \<not> fo_has_internet f then (WdContinue, (w\<lparr>wd_failures := 0\<rparr>, s), [])
          else if healthy e then
            (WdContinue, (w\<lparr>wd_failures := 0, wd_backoff := 0\<rparr>, s), [])
          else
            let n = wd_failures w + 1 in
            if n < 2 then (WdContinue, (w\<lparr>wd_failures := n\<rparr>, s), [])
            else
              let r = wd_act parse engine_new probe policy f (w\<lparr>wd_failures := 0\<rparr>, s)
              in (WdContinue, fst r, snd r)) = (WdContinue, (w', s'), acts)"
    using assms(1) gen e by (simp add: wd_round_def)
  consider "\<not> (fp_enabled policy \<and> fo_has_internet f \<and> \<not> healthy e)"
    | "fp_enabled policy" "fo_has_internet f" "\<not> healthy e" "wd_failures w = 0"
    | "fp_enabled policy" "fo_has_internet f" "\<not> healthy e" "wd_failures w = 1"
    using failures_le1 [OF assms(2)] by blast
  then show thesis
  proof cases
    case 1
    with r assms(2) show ?thesis by (intro idle) (auto split: if_splits)
  next
    case 2
    with r show ?thesis by (intro idle) auto
  next
    case 3
    let ?r = "wd_act parse engine_new probe policy f (w\<lparr>wd_failures := 0\<rparr>, s)"
    have eq: "((w', s'), acts) = ?r" using r 3 by (simp add: Let_def prod_eq_iff)
    then have "wd_failures w' = 0"
      using wd_act_watchdog [of parse engine_new probe policy f "w\<lparr>wd_failures := 0\<rparr>" s]
      by (auto simp flip: eq)
    with eq 3 gen e show ?thesis by (intro acted)
  qed
qed

lemma wd_step_inv: "wd_step parse engine_new w acts w' \<Longrightarrow> wd_inv w \<Longrightarrow> wd_inv w'"
proof (erule wd_stepE)
  fix healthy probe policy f s s'
  assume inv: "wd_inv w"
    and r: "wd_round parse engine_new healthy probe policy f (w, s) = (WdContinue, (w', s'), acts)"
  have "unat (wd_failures w) \<le> 1" using inv by (simp add: wd_inv_def)
  with r show "wd_inv w'"
  proof (cases rule: wd_round_cases)
    case acted
    have "w' = (w\<lparr>wd_failures := 0\<rparr>)\<lparr>wd_backoff := 0\<rparr> \<or>
      w' = (w\<lparr>wd_failures := 0\<rparr>)\<lparr>wd_backoff := escalate_backoff (wd_backoff (w\<lparr>wd_failures := 0\<rparr>))\<rparr>"
      using wd_act_watchdog [of parse engine_new probe policy f "w\<lparr>wd_failures := 0\<rparr>" s]
      unfolding acted(7) [symmetric] fst_conv .
    then show ?thesis by (elim disjE) (simp_all add: wd_inv_def escalate_le)
  next
    case idle
    then show ?thesis using inv by (auto simp: wd_inv_def)
  qed
qed

lemma wd_reachable_inv: "wd_reachable parse engine_new g w \<Longrightarrow> wd_inv w"
proof (induction rule: wd_reachable.induct)
  case init
  show ?case by (simp add: wd_inv_def wd_init_def)
next
  case (step w acts w')
  then show ?case by (blast intro: wd_step_inv)
qed

subsection \<open>Properties\<close>

text \<open>C4. The watchdog is conservative. Whatever other threads do to the engine and the
settings, a reachable watchdog switches nodes or asks for a restart only in a round in
which it is the current generation, the switch is enabled, the physical network has
Internet access and the running engine is unhealthy, and the round before was already a
failure; the round after it never acts.\<close>
theorem watchdog_acts_conservatively:
  assumes "wd_reachable parse engine_new g w"
    and "wd_round parse engine_new healthy probe policy f (w, s) = (WdContinue, (w', s'), acts)"
    and "acts \<noteq> []"
  shows "js_watchdog_gen s = wd_gen w \<and> fp_enabled policy \<and> fo_has_internet f
    \<and> (\<exists>e. js_runtime s = Some e \<and> \<not> healthy e) \<and> wd_failures w = 1
    \<and> (\<forall>acts2 w2. wd_step parse engine_new w' acts2 w2 \<longrightarrow> acts2 = [])"
proof -
  have "unat (wd_failures w) \<le> 1" using wd_reachable_inv [OF assms(1)] by (simp add: wd_inv_def)
  with assms(2) show ?thesis
  proof (cases rule: wd_round_cases)
    case (acted e)
    have "acts2 = []" if "wd_step parse engine_new w' acts2 w2" for acts2 w2
      using that
    proof (rule wd_stepE)
      fix healthy probe policy f s s'
      assume r: "wd_round parse engine_new healthy probe policy f (w', s) = (WdContinue, (w2, s'), acts2)"
      have "unat (wd_failures w') \<le> 1" using acted by simp
      with r show ?thesis
        by (cases rule: wd_round_cases) (use acted in simp_all)
    qed
    with acted show ?thesis by blast
  qed (use assms(3) in simp)
qed

lemma wd_act_switched:
  assumes "wd_act parse engine_new probe policy f (w, s) = ((w', s'), [EventSwitched u])"
  shows "(\<exists>c\<in>set (wd_candidates f s). ne_uri c = u \<and> (fp_mode policy = ''best'' \<longrightarrow>
        (\<exists>r. reachable_rtt probe c r \<and>
          (\<forall>c'\<in>set (wd_candidates f s). \<forall>r'. reachable_rtt probe c' r' \<longrightarrow> r \<le> r'))))
    \<and> switch_engine_to parse engine_new u s = (True, s') \<and> wd_backoff w' = 0"
proof -
  let ?cs = "wd_candidates f s"
  have ne: "?cs \<noteq> []" using assms by (auto simp: wd_act_def Let_def)
  have w': "wd_backoff w' = 0" "switch_engine_to parse engine_new u s = (True, s')"
    "(if fp_mode policy = ''best'' then pick_best_node probe ?cs else Some (ne_uri (hd ?cs))) = Some u"
    using assms ne by (auto simp: wd_act_def Let_def split: option.splits prod.splits bool.splits)
  show ?thesis
  proof (cases "fp_mode policy = ''best''")
    case True
    with w' show ?thesis using pick_best_node_Some [of probe ?cs u] by auto
  next
    case False
    with w' ne show ?thesis by auto
  qed
qed

text \<open>A hot switch goes to a listed node other than the current one, in mode \<open>best\<close> to a
reachable one no reachable candidate is faster than; afterwards that node is the current
one, its engine is the running one and the dynamic backoff is back to zero.\<close>
theorem watchdog_switch_target:
  assumes "wd_act parse engine_new probe policy f (w, s) = ((w', s'), [EventSwitched u])"
  shows "(\<exists>c\<in>set (fo_nodes f). ne_uri c = u \<and> js_node_uri s \<noteq> Some u
        \<and> (fp_mode policy = ''best'' \<longrightarrow> (\<exists>r. reachable_rtt probe c r \<and>
             (\<forall>c'\<in>set (wd_candidates f s). \<forall>r'. reachable_rtt probe c' r' \<longrightarrow> r \<le> r'))))
    \<and> js_node_uri s' = Some u
    \<and> (\<exists>n e. parse u = Inr n \<and> js_runtime s' = Some e
          \<and> engine_new ((from_node_uri n)\<lparr>ni_pool_size := js_pool_size s\<rparr>) = Some e)
    \<and> wd_backoff w' = 0"
proof -
  from wd_act_switched [OF assms] obtain c where c: "c \<in> set (wd_candidates f s)" "ne_uri c = u"
    "fp_mode policy = ''best'' \<longrightarrow> (\<exists>r. reachable_rtt probe c r \<and>
          (\<forall>c'\<in>set (wd_candidates f s). \<forall>r'. reachable_rtt probe c' r' \<longrightarrow> r \<le> r'))"
    and sw: "switch_engine_to parse engine_new u s = (True, s')" and b: "wd_backoff w' = 0" by blast
  have "c \<in> set (fo_nodes f)" "js_node_uri s \<noteq> Some u"
    using c(1,2) by (auto simp: wd_candidates_def)
  moreover have "js_node_uri s' = Some u
    \<and> (\<exists>n e. parse u = Inr n \<and> js_runtime s' = Some e
          \<and> engine_new ((from_node_uri n)\<lparr>ni_pool_size := js_pool_size s\<rparr>) = Some e)"
    using sw by (auto simp: switch_engine_to_def split: sum.splits option.splits)
  ultimately show ?thesis using c b by blast
qed

text \<open>A concrete world for the witnesses: two nodes, an engine that is just its pool size,
the running one unhealthy.\<close>

definition demo_uri :: "string \<Rightarrow> string" where
  "demo_uri h = uri_of h (show_nat 443) ''pw'' ''sni''"

definition demo_failover :: failover_state where
  "demo_failover = \<lparr>fo_nodes = [\<lparr>ne_uri = demo_uri ''a'', ne_name = []\<rparr>, \<lparr>ne_uri = demo_uri ''b'', ne_name = []\<rparr>],
     fo_policy = default_policy\<lparr>fp_enabled := True\<rparr>, fo_net_handle = 7, fo_has_internet = True\<rparr>"

definition demo_jni :: "nat jni_state" where
  "demo_jni = \<lparr>js_started = True, js_runtime = Some 16, js_pool_size = 16,
     js_node_uri = Some (demo_uri ''a''), js_watchdog_gen = 1\<rparr>"

abbreviation demo_parse :: uri_parser where "demo_parse \<equiv> node_uri_parse ascii_lower"
abbreviation demo_engine :: "node_info \<Rightarrow> nat option" where "demo_engine n \<equiv> Some (ni_pool_size n)"
abbreviation demo_probe :: "string \<Rightarrow> int option" where "demo_probe \<equiv> \<lambda>_. Some 30"

lemma demo_uri_parse:
  "demo_parse (demo_uri ''b'') = Inr \<lparr>nu_password = ''pw'', nu_host = ''b'', nu_port = 443,
     nu_sni = ''sni'', nu_pool_size = None, nu_udp_mux = None\<rparr>"
  unfolding demo_uri_def by (rule uri_of_parse_fields) (simp_all add: ascii_def plain_host_def)

lemma demo_uri_neq: "demo_uri ''b'' \<noteq> demo_uri ''a''"
  by (simp add: demo_uri_def uri_of_def)

lemma demo_round1:
  "wd_round demo_parse demo_engine (\<lambda>_. False) demo_probe (fo_policy demo_failover) demo_failover
     (wd_init 1, demo_jni) = (WdContinue, ((wd_init 1)\<lparr>wd_failures := 1\<rparr>, demo_jni), [])"
  by (simp add: wd_round_def demo_jni_def demo_failover_def wd_init_def)

lemma demo_candidates:
  "wd_candidates demo_failover demo_jni = [\<lparr>ne_uri = demo_uri ''b'', ne_name = []\<rparr>]"
  using demo_uri_neq by (simp add: wd_candidates_def demo_failover_def demo_jni_def)

lemma demo_act:
  "wd_act demo_parse demo_engine demo_probe (fo_policy demo_failover) demo_failover (w, demo_jni)
     = ((w\<lparr>wd_backoff := 0\<rparr>, demo_jni\<lparr>js_node_uri := Some (demo_uri ''b'')\<rparr>), [EventSwitched (demo_uri ''b'')])"
  by (simp add: wd_act_def demo_candidates pick_best_node_def better_def i64_max_def
      switch_engine_to_def demo_uri_parse from_node_uri_def Let_def)
    (simp add: demo_jni_def demo_failover_def default_policy_def)

lemma demo_round2:
  "wd_round demo_parse demo_engine (\<lambda>_. False) demo_probe (fo_policy demo_failover) demo_failover
     ((wd_init 1)\<lparr>wd_failures := 1\<rparr>, demo_jni)
     = (WdContinue, (wd_init 1, demo_jni\<lparr>js_node_uri := Some (demo_uri ''b'')\<rparr>),
        [EventSwitched (demo_uri ''b'')])"
proof -
  have "js_watchdog_gen demo_jni = 1" "js_runtime demo_jni = Some 16"
    "fp_enabled (fo_policy demo_failover)" "fo_has_internet demo_failover"
    by (simp_all add: demo_jni_def demo_failover_def)
  then show ?thesis
    unfolding wd_round_def by (simp add: wd_init_def demo_act)
qed

theorem watchdog_acts_conservatively_witness:
  "wd_reachable demo_parse demo_engine 1 ((wd_init 1)\<lparr>wd_failures := 1\<rparr>)
   \<and> fp_enabled (fo_policy demo_failover) \<and> fo_has_internet demo_failover
   \<and> \<not> wd_step demo_parse demo_engine (wd_init 1) [EventSwitched (demo_uri ''b'')] (wd_init 1)"
proof -
  have r: "wd_reachable demo_parse demo_engine 1 ((wd_init 1)\<lparr>wd_failures := 1\<rparr>)"
    by (rule wd_reachable.step [OF wd_reachable.init wd_step.round [OF demo_round1]])
  from watchdog_acts_conservatively [OF r demo_round2] r show ?thesis by blast
qed

theorem watchdog_switch_target_witness:
  "js_node_uri (snd (fst (wd_act demo_parse demo_engine demo_probe (fo_policy demo_failover)
      demo_failover (wd_init 1, demo_jni)))) = Some (demo_uri ''b'')"
  using watchdog_switch_target [OF demo_act [of "wd_init 1"]] by (simp add: demo_act)

text \<open>The dynamic backoff climbs by five seconds per failed attempt and stops at thirty,
for any number of attempts.\<close>
theorem backoff_schedule: "unat ((escalate_backoff ^^ k) 0) = min (5 * k) 30"
  by (rule escalate_iterate)

text \<open>A failed hot switch by the watchdog changes nothing, but a failed \<open>setNode\<close> does not
behave the same way: it has already replaced the current node's URI when the engine cannot
be built, so the running engine and the recorded node disagree.\<close>
theorem failed_switch_effect:
  assumes "engine_new ((from_node_uri n)\<lparr>ni_pool_size := js_pool_size s\<rparr>) = None"
    and "parse uri = Inr n"
  shows "switch_engine_to parse engine_new uri s = (False, s)
    \<and> jni_set_node parse engine_new (Some uri) s = (False, s\<lparr>js_node_uri := Some uri\<rparr>)"
  using assms by (simp add: switch_engine_to_def jni_set_node_def Let_def split: option.splits)

theorem failed_switch_effect_witness:
  "jni_set_node demo_parse (\<lambda>_. None) (Some (demo_uri ''b'')) demo_jni
     = (False, demo_jni\<lparr>js_node_uri := Some (demo_uri ''b'')\<rparr>)"
  using failed_switch_effect [where engine_new = "\<lambda>_. None" and s = demo_jni and parse = demo_parse, OF refl demo_uri_parse] by blast

lemma take_chars_ascii: "ascii s \<Longrightarrow> take_chars n (s @ t) = (if length s \<le> n then s @ take_chars (n - length s) t else take n s)"
  by (induction n "s @ t" arbitrary: s rule: take_chars.induct)
    (auto simp: Cons_eq_append_conv ascii_def utf8_cont_def split: nat.splits)

text \<open>Redacting a URI for the log does not hide a short password: every password of
at most fifteen ASCII characters is printed in full.\<close>
theorem redact_leaks_password:
  assumes "ascii pwd" and "length pwd \<le> 15"
  shows "\<exists>t. redact_uri (''mirage://'' @ pwd @ rest) = ''mirage://'' @ pwd @ t"
proof -
  have "ascii (''mirage://'' @ pwd)" using assms(1) by (simp add: ascii_def)
  from take_chars_ascii [OF this, of 24 rest] assms(2) show ?thesis
    by (simp add: redact_uri_def)
qed

theorem redact_leaks_password_witness:
  "\<exists>t. redact_uri (''mirage://'' @ ''secret'' @ ''@h:443?sni=s'') = ''mirage://'' @ ''secret'' @ t"
  by (rule redact_leaks_password) (simp_all add: ascii_def)
end
