(* ===== verification/NetClass.thy ===== *)
theory NetClass
  imports NetTypes
begin

text \<open>The address and domain classes of \<open>direct.rs\<close> that need no rule data: fake and
private addresses, LAN host names and router management domains, known foreign
services, and the default gateway addresses of router domains.\<close>

definition norm_domain :: "string \<Rightarrow> string" where
  "norm_domain d = ascii_lower (trim_end_matches (CHR ''.'') d)"

definition under_root :: "string \<Rightarrow> string \<Rightarrow> bool" where
  "under_root root d \<longleftrightarrow> d = root \<or> ends_with (CHR ''.'' # root) d"

subsection \<open>Addresses\<close>

definition is_fake_v4 :: "u32 \<Rightarrow> bool" where
  "is_fake_v4 u \<longleftrightarrow> u AND 0xFFFE0000 = 0xC6120000"

definition fake_ip_addr :: "ip_addr \<Rightarrow> bool" where
  "fake_ip_addr ip = (case ip of V4 u \<Rightarrow> is_fake_v4 u | V6 _ \<Rightarrow> False)"

definition private_v4 :: "u32 \<Rightarrow> bool" where
  "private_v4 u \<longleftrightarrow>
     u AND 0xFF000000 = 0x0A000000 \<or> u AND 0xFFF00000 = 0xAC100000
     \<or> u AND 0xFFFF0000 = 0xC0A80000 \<or> u AND 0xFF000000 = 0x7F000000
     \<or> u AND 0xFFFF0000 = 0xA9FE0000 \<or> u AND 0xFFC00000 = 0x64400000
     \<or> u AND 0xF0000000 = 0xE0000000 \<or> u AND 0xF0000000 = 0xF0000000
     \<or> u AND 0xFF000000 = 0"

definition seg :: "u128 \<Rightarrow> nat \<Rightarrow> u16" where
  "seg w i = ucast (drop_bit (112 - 16 * i) w)"

definition mapped_v4 :: "u128 \<Rightarrow> u32" where
  "mapped_v4 w = of_be32 (ucast (drop_bit 8 (seg w 6))) (ucast (seg w 6 AND 0xFF))
     (ucast (drop_bit 8 (seg w 7))) (ucast (seg w 7 AND 0xFF))"

definition private_v6 :: "u128 \<Rightarrow> bool" where
  "private_v6 w \<longleftrightarrow>
     w = 1 \<or> w = 0 \<or> seg w 0 AND 0xFFC0 = 0xFE80 \<or> seg w 0 AND 0xFE00 = 0xFC00
     \<or> seg w 0 AND 0xFF00 = 0xFF00
     \<or> (seg w 0 = 0 \<and> seg w 1 = 0 \<and> seg w 2 = 0 \<and> seg w 3 = 0 \<and> seg w 4 = 0 \<and> seg w 5 = 0xFFFF
        \<and> \<not> is_fake_v4 (mapped_v4 w) \<and> private_v4 (mapped_v4 w))"

definition is_private_ip :: "ip_addr \<Rightarrow> bool" where
  "is_private_ip ip \<longleftrightarrow> \<not> fake_ip_addr ip \<and>
     (case ip of V4 u \<Rightarrow> private_v4 u | V6 w \<Rightarrow> private_v6 w)"

subsection \<open>Domains\<close>

definition lan_router_exact_domains :: "string list" where
  "lan_router_exact_domains =
     [''router.asus.com'', ''asusrouter.com'', ''tplogin.cn'', ''tplinkwifi.net'',
      ''tplinklogin.net'', ''miwifi.com'', ''tendawifi.com'', ''pcloudlink.com'', ''phicomm.me'',
      ''zte.home'', ''my.router'', ''netcore.cc'', ''melogin.cn'', ''falogin.cn'', ''hiwifi.com'',
      ''leike.cc'', ''routerlogin.net'', ''routerlogin.com'', ''speedport.ip'', ''fritz.box'',
      ''repeater.setup'', ''router.ctc'', ''gateway.zte'']"

definition lan_domain_suffixes :: "string list" where
  "lan_domain_suffixes =
     [''local'', ''lan'', ''home.arpa'', ''localhost'', ''internal'', ''home'', ''corp'', ''box'']"

definition is_lan_or_router_domain :: "string \<Rightarrow> bool" where
  "is_lan_or_router_domain domain =
     (let d = norm_domain domain
      in list_ex (\<lambda>r. under_root r d) lan_router_exact_domains
         \<or> list_ex (\<lambda>s. under_root s d) lan_domain_suffixes)"

definition router_ip_table :: "(string list \<times> u32) list" where
  "router_ip_table =
     [([''miwifi.com''], 0xC0A81F01), ([''tendawifi.com''], 0xC0A80001),
      ([''phicomm.me'', ''speedport.ip''], 0xC0A80201), ([''fritz.box''], 0xC0A8B201),
      ([''router.asus.com'', ''asusrouter.com'', ''tplogin.cn'', ''tplinkwifi.net'', ''melogin.cn'',
        ''falogin.cn'', ''hiwifi.com'', ''netcore.cc'', ''leike.cc''], 0xC0A80101)]"

definition default_router_ip_for_domain :: "string \<Rightarrow> ip_addr option" where
  "default_router_ip_for_domain domain =
     (let d = norm_domain domain
      in map_option (V4 \<circ> snd) (find (\<lambda>(roots, _). list_ex (\<lambda>r. under_root r d) roots) router_ip_table))"

definition non_cn_roots :: "string list" where
  "non_cn_roots =
     [''google.com'', ''googleapis.com'', ''googlevideo.com'', ''gstatic.com'', ''ggpht.com'',
      ''gvt1.com'', ''gvt2.com'', ''1e100.net'', ''googleusercontent.com'',
      ''googleadservices.com'', ''googlesyndication.com'', ''google-analytics.com'',
      ''doubleclick.net'', ''youtube.com'', ''youtu.be'', ''ytimg.com'', ''yt.be'',
      ''android.com'', ''g.co'', ''goo.gl'', ''telegram.org'', ''t.me'', ''telesco.pe'',
      ''tdesktop.com'', ''telegra.ph'', ''telegram.me'', ''twitter.com'', ''x.com'',
      ''twimg.com'', ''t.co'', ''facebook.com'', ''fbcdn.net'', ''instagram.com'',
      ''cdninstagram.com'', ''whatsapp.com'', ''threads.net'', ''netflix.com'',
      ''nflxvideo.net'', ''nflximg.net'', ''nflxext.com'', ''spotify.com'', ''scdn.co'',
      ''spotifycdn.com'', ''disneyplus.com'', ''disney.com'', ''hbo.com'', ''max.com'',
      ''paramountplus.com'', ''ted.com'', ''tedcdn.com'', ''github.com'',
      ''githubusercontent.com'', ''github.io'', ''git.io'', ''gitlab.com'', ''bitbucket.org'',
      ''docker.com'', ''docker.io'', ''npmjs.org'', ''npmjs.com'', ''pypi.org'', ''crates.io'',
      ''openai.com'', ''chatgpt.com'', ''oaistatic.com'', ''oaiusercontent.com'',
      ''anthropic.com'', ''claude.ai'', ''x.ai'', ''grok.com'', ''midjourney.com'',
      ''huggingface.co'', ''perplexity.ai'', ''cursor.com'', ''cursor.sh'', ''groq.com'',
      ''mistral.ai'', ''cohere.com'', ''tiktok.com'', ''tiktokv.com'', ''byteoversea.com'',
      ''ibytedtos.com'', ''musical.ly'', ''wikipedia.org'', ''wikimedia.org'', ''reddit.com'',
      ''redd.it'', ''medium.com'', ''pinterest.com'', ''quora.com'', ''discord.com'',
      ''discordapp.com'', ''discord.gg'', ''line.me'', ''kakao.com'', ''cloudflare.com'',
      ''cloudflare-dns.com'', ''apple.com'', ''icloud.com'', ''aaplimg.com'', ''mzstatic.com'',
      ''microsoft.com'', ''live.com'', ''office.com'', ''azure.com'', ''bing.com'',
      ''windows.com'', ''msn.com'', ''amazon.com'', ''amazonaws.com'', ''steamcommunity.com'',
      ''steampowered.com'', ''epicgames.com'', ''playstation.com'', ''nintendo.com'',
      ''nintendo.net'', ''notion.so'', ''figma.com'', ''slack.com'', ''paypal.com'',
      ''stripe.com'', ''binance.com'', ''coinbase.com'', ''okx.com'']"

definition is_known_non_cn_domain :: "string \<Rightarrow> bool" where
  "is_known_non_cn_domain domain =
     (let d = norm_domain domain in list_ex (\<lambda>root. under_root root d) non_cn_roots)"

subsection \<open>Facts\<close>

lemma fake_not_private: "fake_ip_addr ip \<Longrightarrow> \<not> is_private_ip ip"
  by (simp add: is_private_ip_def)

lemma norm_domain_idem [simp]: "norm_domain (norm_domain d) = norm_domain d"
proof -
  have dot: "ascii_lower_char c = CHR ''.'' \<longleftrightarrow> c = CHR ''.''" for c
  proof
    assume "ascii_lower_char c = CHR ''.''"
    then have "code (ascii_lower_char c) = 46" by simp
    then have "code c = 46" by (auto simp: ascii_lower_char_def split: if_splits)
    then have "code c = code (CHR ''.'')" by simp
    then show "c = CHR ''.''" by (simp only: of_char_eq_iff)
  qed (simp add: ascii_lower_char_def)
  have "dropWhile (\<lambda>c. c = CHR ''.'') (map ascii_lower_char t)
      = map ascii_lower_char (dropWhile (\<lambda>c. c = CHR ''.'') t)" for t
    by (simp add: dropWhile_map comp_def dot)
  then show ?thesis
    by (simp add: norm_domain_def ascii_lower_def rev_map [symmetric] comp_def)
qed

end
