(* ===== verification/Geo.thy ===== *)
theory Geo
  imports NetClass
begin

text \<open>\<open>geo.rs\<close>: the protobuf wire decoder, the geosite and geoip file parsers, the CIDR
types, and the domain and address matchers with their hash index. Read positions are
suffixes of the buffer. Arithmetic is that of the release build, where it wraps; a slice
out of range is a crash of the process and a result of its own. The regex engine is a
parameter: \<open>re_compile\<close> builds a value of type \<open>'r\<close> and \<open>re_match\<close> runs it.\<close>

subsection \<open>Site domains\<close>

datatype 'r site_domain =
  SdKeyword string | SdRegex string "'r option" | SdSuffix string | SdExact string

definition site_domain_matches :: "('r \<Rightarrow> string \<Rightarrow> bool) \<Rightarrow> 'r site_domain \<Rightarrow> string \<Rightarrow> bool" where
  "site_domain_matches re_match sd domain =
     (let d = norm_domain domain in
      case sd of
        SdExact v \<Rightarrow> d = v
      | SdSuffix v \<Rightarrow> under_root v d
      | SdKeyword v \<Rightarrow> contains_str v d
      | SdRegex _ (Some re) \<Rightarrow> re_match re d
      | SdRegex raw None \<Rightarrow> contains_str raw d)"

subsection \<open>CIDR blocks\<close>

text \<open>\<open>!0 << (32 - prefix)\<close> on a \<open>u8\<close> prefix: the subtraction wraps at 256 and the shift
amount at 32.\<close>

definition shl_mask4 :: "nat \<Rightarrow> u32" where
  "shl_mask4 p = (if p = 0 then 0 else push_bit ((288 - p) mod 256 mod 32) (- 1))"

definition shl_mask6 :: "nat \<Rightarrow> u128" where
  "shl_mask6 p = (if p = 0 then 0 else push_bit ((384 - p) mod 256 mod 128) (- 1))"

record ipv4_cidr =
  c4_net :: u32
  c4_mask :: u32
  c4_prefix :: nat

record ipv6_cidr =
  c6_net :: u128
  c6_mask :: u128
  c6_prefix :: nat

definition ipv4_cidr_new :: "u32 \<Rightarrow> nat \<Rightarrow> ipv4_cidr" where
  "ipv4_cidr_new ip p =
     \<lparr>c4_net = ip AND shl_mask4 p, c4_mask = shl_mask4 p, c4_prefix = p\<rparr>"

definition ipv4_cidr_contains :: "ipv4_cidr \<Rightarrow> u32 \<Rightarrow> bool" where
  "ipv4_cidr_contains c ip \<longleftrightarrow> ip AND c4_mask c = c4_net c"

definition ipv6_cidr_new :: "u128 \<Rightarrow> nat \<Rightarrow> ipv6_cidr" where
  "ipv6_cidr_new ip p =
     \<lparr>c6_net = ip AND shl_mask6 p, c6_mask = shl_mask6 p, c6_prefix = p\<rparr>"

definition ipv6_cidr_contains :: "ipv6_cidr \<Rightarrow> u128 \<Rightarrow> bool" where
  "ipv6_cidr_contains c ip \<longleftrightarrow> ip AND c6_mask c = c6_net c"

datatype ip_cidr = CidrV4 ipv4_cidr | CidrV6 ipv6_cidr

subsection \<open>The indexed matcher\<close>

record 'r geosite_matcher =
  gm_count :: nat
  gm_exact_set :: "string set"
  gm_suffix_set :: "string set"
  gm_other_rules :: "'r site_domain list"

fun index_domain :: "'r site_domain \<Rightarrow> 'r geosite_matcher \<Rightarrow> 'r geosite_matcher" where
  "index_domain (SdExact v) m = m\<lparr>gm_exact_set := insert (norm_domain v) (gm_exact_set m)\<rparr>"
| "index_domain (SdSuffix v) m = m\<lparr>gm_suffix_set := insert (norm_domain v) (gm_suffix_set m)\<rparr>"
| "index_domain d m = m\<lparr>gm_other_rules := gm_other_rules m @ [d]\<rparr>"

definition geosite_matcher_new :: "'r site_domain list \<Rightarrow> 'r geosite_matcher" where
  "geosite_matcher_new domains =
     fold index_domain domains
       \<lparr>gm_count = length domains, gm_exact_set = {}, gm_suffix_set = {}, gm_other_rules = []\<rparr>"

text \<open>The loop over the parent domains: what follows each dot, from left to right.\<close>

fun parent_in :: "string set \<Rightarrow> string \<Rightarrow> bool" where
  "parent_in S [] \<longleftrightarrow> False"
| "parent_in S (c # s) \<longleftrightarrow> (c = CHR ''.'' \<and> s \<in> S) \<or> parent_in S s"

definition geosite_matcher_matches ::
    "('r \<Rightarrow> string \<Rightarrow> bool) \<Rightarrow> 'r geosite_matcher \<Rightarrow> string \<Rightarrow> bool" where
  "geosite_matcher_matches re_match m domain =
     (let d = norm_domain domain in
      d \<in> gm_exact_set m \<or> d \<in> gm_suffix_set m \<or> parent_in (gm_suffix_set m) d
      \<or> list_ex (\<lambda>r. site_domain_matches re_match r domain) (gm_other_rules m))"

record 'r geo_store =
  gs_sites :: "string \<rightharpoonup> 'r geosite_matcher"
  gs_ip_v4 :: "string \<rightharpoonup> ipv4_cidr list"
  gs_ip_v6 :: "string \<rightharpoonup> ipv6_cidr list"

definition geo_empty :: "'r geo_store" where
  "geo_empty = \<lparr>gs_sites = Map.empty, gs_ip_v4 = Map.empty, gs_ip_v6 = Map.empty\<rparr>"

definition match_geosite ::
    "('r \<Rightarrow> string \<Rightarrow> bool) \<Rightarrow> 'r geo_store \<Rightarrow> string \<Rightarrow> string \<Rightarrow> bool" where
  "match_geosite re_match g tag domain =
     (let tag_upper = ascii_upper (trim tag) in
      (case gs_sites g tag_upper of
         Some m \<Rightarrow> geosite_matcher_matches re_match m domain | None \<Rightarrow> False)
      \<or> ((tag_upper = ''PRIVATE'' \<or> tag_upper = ''LAN'') \<and> is_lan_or_router_domain domain))"

definition match_geoip :: "'r geo_store \<Rightarrow> string \<Rightarrow> ip_addr \<Rightarrow> bool" where
  "match_geoip g cc ip =
     (if fake_ip_addr ip then False
      else
        let code_upper = ascii_upper (trim cc) in
        if code_upper = ''PRIVATE'' \<or> code_upper = ''LAN'' then is_private_ip ip
        else case ip of
            V4 v4 \<Rightarrow> (case gs_ip_v4 g code_upper of
                        Some l \<Rightarrow> list_ex (\<lambda>c. ipv4_cidr_contains c v4) l | None \<Rightarrow> False)
          | V6 v6 \<Rightarrow> (case gs_ip_v6 g code_upper of
                        Some l \<Rightarrow> list_ex (\<lambda>c. ipv6_cidr_contains c v6) l | None \<Rightarrow> False))"

subsection \<open>The protobuf wire decoder\<close>

datatype 'a scan = Crash | Fail | Got 'a

fun varint_loop :: "bytes \<Rightarrow> u64 \<Rightarrow> nat \<Rightarrow> (u64 \<times> bytes) option" where
  "varint_loop [] result shift = None"
| "varint_loop (b # r) result shift =
     (let res = result OR push_bit shift (ucast (b AND 0x7F)) in
      if b AND 0x80 = 0 then Some (res, r)
      else if 64 \<le> shift + 7 then None
      else varint_loop r res (shift + 7))"

definition read_varint :: "bytes \<Rightarrow> (u64 \<times> bytes) option" where
  "read_varint buf = varint_loop buf 0 0"

text \<open>\<open>n\<close> is the length of the whole buffer: the check \<open>pos + len > buf.len()\<close> wraps for a
length near \<open>2 ^ 64\<close>, and the slice then starts after its end.\<close>

definition read_len_delim :: "nat \<Rightarrow> bytes \<Rightarrow> (bytes \<times> bytes) scan" where
  "read_len_delim n buf =
     (case read_varint buf of
        None \<Rightarrow> Fail
      | Some (len, r) \<Rightarrow>
          let pos = n - length r in
          if 2 ^ 64 \<le> pos + unat len then Crash
          else if n < pos + unat len then Fail
          else Got (take (unat len) r, drop (unat len) r))"

datatype payload = Varint u64 | Bytes bytes | Skipped

datatype field_step = StepCrash | StepFail | StepStop | StepField u64 payload bytes

definition skip_fixed :: "nat \<Rightarrow> u64 \<Rightarrow> bytes \<Rightarrow> field_step" where
  "skip_fixed k fn r = (if length r < k then StepStop else StepField fn Skipped (drop k r))"

definition scan_field :: "nat \<Rightarrow> bytes \<Rightarrow> field_step" where
  "scan_field n buf =
     (case read_varint buf of
        None \<Rightarrow> StepFail
      | Some (tag, r) \<Rightarrow>
          let fn = drop_bit 3 tag; wire = tag AND 7 in
          if wire = 0 then
            (case read_varint r of None \<Rightarrow> StepFail | Some (v, r2) \<Rightarrow> StepField fn (Varint v) r2)
          else if wire = 2 then
            (case read_len_delim n r of
               Crash \<Rightarrow> StepCrash | Fail \<Rightarrow> StepFail | Got (d, r2) \<Rightarrow> StepField fn (Bytes d) r2)
          else if wire = 1 then skip_fixed 8 fn r
          else if wire = 5 then skip_fixed 4 fn r
          else StepStop)"

lemma varint_loop_length: "varint_loop buf res sh = Some (v, r) \<Longrightarrow> length r < length buf"
  by (induction buf res sh rule: varint_loop.induct)
    (auto simp: Let_def less_Suc_eq split: if_splits)

lemma read_varint_length: "read_varint buf = Some (v, r) \<Longrightarrow> length r < length buf"
  by (simp add: read_varint_def varint_loop_length)

lemma read_len_delim_length:
  "read_len_delim n buf = Got (d, r) \<Longrightarrow> length r < length buf \<and> length d < length buf"
  by (auto simp: read_len_delim_def Let_def split: option.splits if_splits
      dest!: read_varint_length intro: le_less_trans less_imp_diff_less)

lemma scan_field_length: "scan_field n buf = StepField fn p r \<Longrightarrow> length r < length buf"
  by (auto simp: scan_field_def skip_fixed_def Let_def split: option.splits if_splits scan.splits
      dest!: read_varint_length read_len_delim_length)

text \<open>The field loop all four parsers share. A malformed field ends a message parser with
\<open>None\<close> (\<open>strict\<close>) and the file parsers with what they have.\<close>

function scan_loop ::
    "bool \<Rightarrow> nat \<Rightarrow> (u64 \<Rightarrow> payload \<Rightarrow> 's \<Rightarrow> 's scan) \<Rightarrow> bytes \<Rightarrow> 's \<Rightarrow> 's scan" where
  "scan_loop strict n handle buf s =
     (if buf = [] then Got s
      else case scan_field n buf of
        StepCrash \<Rightarrow> Crash
      | StepFail \<Rightarrow> (if strict then Fail else Got s)
      | StepStop \<Rightarrow> Got s
      | StepField fn p r \<Rightarrow>
          (case handle fn p s of
             Crash \<Rightarrow> Crash
           | Fail \<Rightarrow> Fail
           | Got s' \<Rightarrow> scan_loop strict n handle r s'))"
  by pat_completeness auto
termination
  by (relation "measure (\<lambda>(strict, n, handle, buf, s). length buf)") (auto dest: scan_field_length)

declare scan_loop.simps [simp del]

definition text_of :: "bytes \<Rightarrow> string" where
  "text_of d = utf8_lossy (map chr_of d)"

subsection \<open>geosite.dat\<close>

fun domain_field :: "u64 \<Rightarrow> payload \<Rightarrow> u64 \<times> string \<Rightarrow> (u64 \<times> string) scan" where
  "domain_field fn p (dtype, value) =
     Got (case p of
            Varint v \<Rightarrow> if fn = 1 then (v, value) else (dtype, value)
          | Bytes d \<Rightarrow> if fn = 2 then (dtype, norm_domain (text_of d)) else (dtype, value)
          | Skipped \<Rightarrow> (dtype, value))"

definition mk_site_domain ::
    "(string \<Rightarrow> 'r option) \<Rightarrow> u64 \<Rightarrow> string \<Rightarrow> 'r site_domain" where
  "mk_site_domain re_compile dtype value =
     (if dtype = 0 then SdKeyword value
      else if dtype = 1 then SdRegex value (re_compile value)
      else if dtype = 2 then SdSuffix value
      else if dtype = 3 then SdExact value
      else SdSuffix value)"

definition parse_domain_msg :: "(string \<Rightarrow> 'r option) \<Rightarrow> bytes \<Rightarrow> 'r site_domain scan" where
  "parse_domain_msg re_compile buf =
     (case scan_loop True (length buf) domain_field buf (0, []) of
        Crash \<Rightarrow> Crash
      | Fail \<Rightarrow> Fail
      | Got (dtype, value) \<Rightarrow>
          if value = [] then Fail else Got (mk_site_domain re_compile dtype value))"

fun geosite_field ::
    "(string \<Rightarrow> 'r option) \<Rightarrow> u64 \<Rightarrow> payload \<Rightarrow> string \<times> 'r site_domain list
      \<Rightarrow> (string \<times> 'r site_domain list) scan" where
  "geosite_field re_compile fn p (cc, domains) =
     (case p of
        Bytes d \<Rightarrow>
          if fn = 1 then Got (ascii_upper (trim (text_of d)), domains)
          else if fn = 2 then
            (case parse_domain_msg re_compile d of
               Crash \<Rightarrow> Crash
             | Fail \<Rightarrow> Got (cc, domains)
             | Got sd \<Rightarrow> Got (cc, domains @ [sd]))
          else Got (cc, domains)
      | _ \<Rightarrow> Got (cc, domains))"

definition parse_geosite_entry ::
    "(string \<Rightarrow> 'r option) \<Rightarrow> bytes \<Rightarrow> (string \<times> 'r site_domain list) scan" where
  "parse_geosite_entry re_compile buf =
     (case scan_loop True (length buf) (geosite_field re_compile) buf ([], []) of
        Crash \<Rightarrow> Crash
      | Fail \<Rightarrow> Fail
      | Got (cc, domains) \<Rightarrow> if cc = [] then Fail else Got (cc, domains))"

fun geosite_file_field ::
    "(string \<Rightarrow> 'r option) \<Rightarrow> u64 \<Rightarrow> payload \<Rightarrow> (string \<rightharpoonup> 'r site_domain list)
      \<Rightarrow> (string \<rightharpoonup> 'r site_domain list) scan" where
  "geosite_file_field re_compile fn (Bytes d) m =
     (if fn = 1 then
        (case parse_geosite_entry re_compile d of
           Crash \<Rightarrow> Crash
         | Fail \<Rightarrow> Got m
         | Got (cc, domains) \<Rightarrow> Got (m(cc \<mapsto> domains)))
      else Got m)"
| "geosite_file_field re_compile fn _ m = Got m"

definition parse_geosite_file ::
    "(string \<Rightarrow> 'r option) \<Rightarrow> bytes \<Rightarrow> (string \<rightharpoonup> 'r site_domain list) scan" where
  "parse_geosite_file re_compile data =
     scan_loop False (length data) (geosite_file_field re_compile) data Map.empty"

subsection \<open>geoip.dat\<close>

fun cidr_field :: "u64 \<Rightarrow> payload \<Rightarrow> bytes \<times> nat \<Rightarrow> (bytes \<times> nat) scan" where
  "cidr_field fn p (ip_bytes, plen) =
     Got (case p of
            Bytes d \<Rightarrow> if fn = 1 then (d, plen) else (ip_bytes, plen)
          | Varint v \<Rightarrow> if fn = 2 then (ip_bytes, min (unat (ucast v :: u8)) 128) else (ip_bytes, plen)
          | Skipped \<Rightarrow> (ip_bytes, plen))"

definition v6_of_bytes :: "bytes \<Rightarrow> u128" where
  "v6_of_bytes bs = foldl (\<lambda>acc b. push_bit 8 acc OR ucast b) 0 bs"

definition parse_cidr_msg :: "bytes \<Rightarrow> ip_cidr scan" where
  "parse_cidr_msg buf =
     (case scan_loop True (length buf) cidr_field buf ([], 0) of
        Crash \<Rightarrow> Crash
      | Fail \<Rightarrow> Fail
      | Got (ip, plen) \<Rightarrow>
          if length ip = 4 then
            Got (CidrV4 (ipv4_cidr_new (of_be32 (ip ! 0) (ip ! 1) (ip ! 2) (ip ! 3)) (min plen 32)))
          else if length ip = 16 then
            Got (CidrV6 (ipv6_cidr_new (v6_of_bytes ip) (min plen 128)))
          else Fail)"

type_synonym geoip_acc = "string \<times> ipv4_cidr list \<times> ipv6_cidr list"

fun geoip_field :: "u64 \<Rightarrow> payload \<Rightarrow> geoip_acc \<Rightarrow> geoip_acc scan" where
  "geoip_field fn p (cc, v4s, v6s) =
     (case p of
        Bytes d \<Rightarrow>
          if fn = 1 then Got (ascii_upper (trim (text_of d)), v4s, v6s)
          else if fn = 2 then
            (case parse_cidr_msg d of
               Crash \<Rightarrow> Crash
             | Fail \<Rightarrow> Got (cc, v4s, v6s)
             | Got (CidrV4 c) \<Rightarrow> Got (cc, v4s @ [c], v6s)
             | Got (CidrV6 c) \<Rightarrow> Got (cc, v4s, v6s @ [c]))
          else Got (cc, v4s, v6s)
      | _ \<Rightarrow> Got (cc, v4s, v6s))"

definition parse_geoip_entry :: "bytes \<Rightarrow> geoip_acc scan" where
  "parse_geoip_entry buf =
     (case scan_loop True (length buf) geoip_field buf ([], [], []) of
        Crash \<Rightarrow> Crash
      | Fail \<Rightarrow> Fail
      | Got (cc, v4s, v6s) \<Rightarrow> if cc = [] then Fail else Got (cc, v4s, v6s))"

type_synonym geoip_maps = "(string \<rightharpoonup> ipv4_cidr list) \<times> (string \<rightharpoonup> ipv6_cidr list)"

fun geoip_file_field :: "u64 \<Rightarrow> payload \<Rightarrow> geoip_maps \<Rightarrow> geoip_maps scan" where
  "geoip_file_field fn (Bytes d) (m4, m6) =
     (if fn = 1 then
        (case parse_geoip_entry d of
           Crash \<Rightarrow> Crash
         | Fail \<Rightarrow> Got (m4, m6)
         | Got (cc, v4s, v6s) \<Rightarrow>
             Got (if v4s = [] then m4 else m4(cc \<mapsto> v4s), if v6s = [] then m6 else m6(cc \<mapsto> v6s)))
      else Got (m4, m6))"
| "geoip_file_field fn _ m = Got m"

definition parse_geoip_file :: "bytes \<Rightarrow> geoip_maps scan" where
  "parse_geoip_file data =
     scan_loop False (length data) geoip_file_field data (Map.empty, Map.empty)"

text \<open>\<open>load_geo_files\<close>: \<open>None\<close> is a path that is empty, missing or unreadable; a crash of a
parser leaves no store.\<close>

definition load_geo_files ::
    "(string \<Rightarrow> 'r option) \<Rightarrow> bytes option \<Rightarrow> bytes option \<Rightarrow> 'r geo_store scan" where
  "load_geo_files re_compile geosite geoip =
     (case (case geosite of None \<Rightarrow> Got Map.empty | Some d \<Rightarrow> parse_geosite_file re_compile d) of
        Crash \<Rightarrow> Crash
      | Fail \<Rightarrow> Fail
      | Got sites \<Rightarrow>
          (case (case geoip of None \<Rightarrow> Got (Map.empty, Map.empty) | Some d \<Rightarrow> parse_geoip_file d) of
             Crash \<Rightarrow> Crash
           | Fail \<Rightarrow> Fail
           | Got (v4, v6) \<Rightarrow>
               Got \<lparr>gs_sites = (\<lambda>t. map_option geosite_matcher_new (sites t)),
                    gs_ip_v4 = v4, gs_ip_v6 = v6\<rparr>))"

subsection \<open>The index is the list\<close>

definition normal_value :: "'r site_domain \<Rightarrow> bool" where
  "normal_value sd \<longleftrightarrow> (case sd of SdExact v \<Rightarrow> norm_domain v = v | SdSuffix v \<Rightarrow> norm_domain v = v
     | _ \<Rightarrow> True)"

lemma parent_in_iff: "parent_in S d \<longleftrightarrow> (\<exists>v\<in>S. ends_with (CHR ''.'' # v) d)"
proof (induction d)
  case (Cons c s)
  have "ends_with (CHR ''.'' # v) (c # s) \<longleftrightarrow> (c = CHR ''.'' \<and> v = s) \<or> ends_with (CHR ''.'' # v) s" for v
  proof
    assume "ends_with (CHR ''.'' # v) (c # s)"
    then obtain t where "c # s = t @ CHR ''.'' # v" by (auto simp: ends_with_iff)
    then show "(c = CHR ''.'' \<and> v = s) \<or> ends_with (CHR ''.'' # v) s"
      by (cases t) (auto simp: ends_with_iff)
  next
    assume "(c = CHR ''.'' \<and> v = s) \<or> ends_with (CHR ''.'' # v) s"
    then show "ends_with (CHR ''.'' # v) (c # s)"
      by (auto simp: ends_with_iff)
  qed
  with Cons.IH show ?case by auto
qed (simp add: ends_with_iff)

lemma index_fold:
  fixes m :: "'r geosite_matcher"
  assumes "\<forall>sd\<in>set ds. normal_value sd"
  shows "geosite_matcher_matches re_match (fold index_domain ds m) domain
    \<longleftrightarrow> geosite_matcher_matches re_match m domain
      \<or> list_ex (\<lambda>sd. site_domain_matches re_match sd domain) ds"
  using assms
proof (induction ds arbitrary: m)
  case (Cons sd ds)
  have "geosite_matcher_matches re_match (index_domain sd m) domain
    \<longleftrightarrow> geosite_matcher_matches re_match m domain \<or> site_domain_matches re_match sd domain"
    using Cons.prems
    by (cases sd)
      (auto simp: geosite_matcher_matches_def site_domain_matches_def normal_value_def Let_def
        parent_in_iff under_root_def)
  then show ?case using Cons by auto
qed simp

lemma geosite_matcher_new_matches:
  assumes "\<forall>sd\<in>set ds. normal_value sd"
  shows "geosite_matcher_matches re_match (geosite_matcher_new ds) domain
    \<longleftrightarrow> list_ex (\<lambda>sd. site_domain_matches re_match sd domain) ds"
  unfolding geosite_matcher_new_def index_fold [OF assms]
  by (simp add: geosite_matcher_matches_def parent_in_iff)
lemma scan_loop_inv:
  assumes "scan_loop strict n h buf s = Got s'" "I s"
    and "\<And>fn p s s'. I s \<Longrightarrow> h fn p s = Got s' \<Longrightarrow> I s'"
  shows "I s'"
  using assms
proof (induction strict n h buf s rule: scan_loop.induct)
  case (1 strict n h buf s)
  show ?case
  proof (cases "buf = []")
    case True
    with 1(2,3) show ?thesis by (subst (asm) scan_loop.simps) simp
  next
    case False
    show ?thesis
    proof (cases "scan_field n buf")
      case (StepField fn p r)
      then obtain s1 where s1: "h fn p s = Got s1" "scan_loop strict n h r s1 = Got s'"
        using 1(2) False by (subst (asm) scan_loop.simps) (auto split: scan.splits)
      have "I s1" by (rule 1(4) [OF 1(3) s1(1)])
      with 1(1) [OF False StepField s1(1) s1(2)] 1(4) show ?thesis by blast
    qed (use 1(2,3) False in \<open>subst (asm) scan_loop.simps; auto split: if_splits\<close>)+
  qed
qed

lemma domain_field_normal:
  "norm_domain (snd st) = snd st \<Longrightarrow> domain_field fn p st = Got st' \<Longrightarrow> norm_domain (snd st') = snd st'"
  by (cases st) (auto split: payload.splits)

lemma parse_domain_msg_normal: "parse_domain_msg rc buf = Got sd \<Longrightarrow> normal_value sd"
proof -
  assume "parse_domain_msg rc buf = Got sd"
  then obtain dtype v where l: "scan_loop True (length buf) domain_field buf (0, []) = Got (dtype, v)"
    and sd: "sd = mk_site_domain rc dtype v"
    by (auto simp: parse_domain_msg_def split: scan.splits if_splits)
  have "norm_domain (snd (dtype, v)) = snd (dtype, v)"
    by (rule scan_loop_inv [OF l, where I = "\<lambda>st. norm_domain (snd st) = snd st"])
      (simp add: norm_domain_def ascii_lower_def, rule domain_field_normal)
  then show ?thesis by (simp add: sd mk_site_domain_def normal_value_def)
qed

lemma parse_geosite_entry_normal:
  assumes "parse_geosite_entry rc buf = Got (cc, ds)"
  shows "\<forall>sd\<in>set ds. normal_value sd"
proof -
  have l: "scan_loop True (length buf) (geosite_field rc) buf ([], []) = Got (cc, ds)"
    using assms by (auto simp: parse_geosite_entry_def split: scan.splits if_splits)
  have "\<forall>sd\<in>set (snd (cc, ds)). normal_value sd"
    by (rule scan_loop_inv [OF l, where I = "\<lambda>st. \<forall>sd\<in>set (snd st). normal_value sd"])
      (auto split: payload.splits if_splits scan.splits dest: parse_domain_msg_normal)
  then show ?thesis by simp
qed

lemma parse_geosite_file_normal:
  assumes "parse_geosite_file rc data = Got m" "m t = Some ds"
  shows "\<forall>sd\<in>set ds. normal_value sd"
proof -
  have l: "scan_loop False (length data) (geosite_file_field rc) data Map.empty = Got m"
    using assms(1) by (simp add: parse_geosite_file_def)
  have step: "\<And>fn p m m'. \<forall>t ds. m t = Some ds \<longrightarrow> (\<forall>sd\<in>set ds. normal_value sd) \<Longrightarrow>
      geosite_file_field rc fn p m = Got m' \<Longrightarrow>
      \<forall>t ds. m' t = Some ds \<longrightarrow> (\<forall>sd\<in>set ds. normal_value sd)"
    subgoal for fn p m m'
      by (cases p) (auto split: if_splits scan.splits dest: parse_geosite_entry_normal)
    done
  have "\<forall>t ds. m t = Some ds \<longrightarrow> (\<forall>sd\<in>set ds. normal_value sd)"
    by (rule scan_loop_inv [OF l, where I = "\<lambda>m. \<forall>t ds. m t = Some ds \<longrightarrow> (\<forall>sd\<in>set ds. normal_value sd)"])
      (simp, rule step)
  with assms(2) show ?thesis by blast
qed

subsection \<open>The wire format read back\<close>

function enc_varint :: "nat \<Rightarrow> bytes" where
  "enc_varint n = (if n < 128 then [of_nat n] else (of_nat (n mod 128) OR 0x80) # enc_varint (n div 128))"
  by pat_completeness auto
termination by (relation "measure id") auto

declare enc_varint.simps [simp del]

lemma of_nat_u8_and: "m < 128 \<Longrightarrow> ((of_nat m :: u8) AND 0x80) = 0"
  "m < 128 \<Longrightarrow> ((of_nat m OR 0x80 :: u8) AND 0x80) \<noteq> 0"
  "m < 128 \<Longrightarrow> (ucast ((of_nat m :: u8) AND 0x7F) :: u64) = of_nat m"
  "m < 128 \<Longrightarrow> (ucast ((of_nat m OR 0x80 :: u8) AND 0x7F) :: u64) = of_nat m"
proof -
  assume m: "m < 128"
  have t: "take_bit 7 m = m" using m by (simp add: take_bit_nat_eq_self)
  have b: "bit (of_nat m :: u8) i \<longleftrightarrow> i < 7 \<and> bit m i" for i
  proof -
    have "bit m i \<Longrightarrow> i < 7" using t by (metis bit_take_bit_iff)
    then show ?thesis by (auto simp: bit_simps)
  qed
  have b64: "bit (of_nat m :: u64) i \<longleftrightarrow> i < 7 \<and> bit m i" for i
  proof -
    have "bit m i \<Longrightarrow> i < 7" using t by (metis bit_take_bit_iff)
    then show ?thesis by (auto simp: bit_simps)
  qed
  have c80: "bit (0x80 :: u8) i \<longleftrightarrow> i = 7" for i
  proof -
    have "bit (push_bit 7 (1 :: u8)) i \<longleftrightarrow> i = 7" unfolding bit_push_bit_iff bit_1_iff by auto
    then show ?thesis by simp
  qed
  have c7f: "bit (0x7F :: u8) i \<longleftrightarrow> i < 7" for i
  proof -
    have "(0x7F :: u8) = mask 7" by (simp add: mask_eq_exp_minus_1)
    then show ?thesis by (simp only: bit_mask_iff) auto
  qed
  show "((of_nat m :: u8) AND 0x80) = 0"
  proof (rule bit_word_eqI)
    fix i
    show "bit ((of_nat m :: u8) AND 0x80) i \<longleftrightarrow> bit (0 :: u8) i"
      unfolding bit_and_iff b c80 by auto
  qed
  show "((of_nat m OR 0x80 :: u8) AND 0x80) \<noteq> 0"
  proof
    assume "((of_nat m OR 0x80 :: u8) AND 0x80) = 0"
    then have "\<not> bit ((of_nat m OR 0x80 :: u8) AND 0x80) 7" by simp
    then show False by (simp add: bit_and_iff bit_or_iff c80)
  qed
  show "(ucast ((of_nat m :: u8) AND 0x7F) :: u64) = of_nat m"
    "(ucast ((of_nat m OR 0x80 :: u8) AND 0x7F) :: u64) = of_nat m"
    by (rule bit_word_eqI;
        unfold bit_unsigned_iff bit_and_iff bit_or_iff b b64 c7f c80, auto)+
qed

lemma of_nat_split7: "(of_nat n :: u64) = of_nat (n mod 128) OR push_bit 7 (of_nat (n div 128))"
proof -
  have "n mod 128 = take_bit 7 n" "n div 128 = drop_bit 7 n"
    by (simp_all add: take_bit_eq_mod drop_bit_eq_div)
  then show ?thesis
    by (intro bit_word_eqI) (auto simp: bit_simps)
qed

lemma varint_loop_enc:
  "n < 2 ^ (64 - sh) \<Longrightarrow> sh < 64 \<Longrightarrow>
     varint_loop (enc_varint n @ r) res sh = Some (res OR push_bit sh (of_nat n), r)"
proof (induction n arbitrary: sh res rule: enc_varint.induct)
  case (1 n)
  show ?case
  proof (cases "n < 128")
    case True
    then show ?thesis by (simp add: enc_varint.simps [of n] of_nat_u8_and Let_def)
  next
    case False
    have "128 \<le> n" using False by simp
    then have "(2 :: nat) ^ 7 < 2 ^ (64 - sh)" using 1(2) by simp
    then have sh: "sh + 7 < 64" using power_less_imp_less_exp [of "2 :: nat" 7 "64 - sh"] by simp
    have "n < 128 * 2 ^ (64 - (sh + 7))"
    proof -
      have "(2 :: nat) ^ (64 - sh) = 2 ^ 7 * 2 ^ (64 - (sh + 7))"
        using sh by (subst power_add [symmetric]) simp
      then show ?thesis using 1(2) by simp
    qed
    then have "n div 128 < 2 ^ (64 - (sh + 7))" by (simp add: less_mult_imp_div_less mult.commute)
    from 1(1) [OF False this sh]
    have ih: "varint_loop (enc_varint (n div 128) @ r) (res OR push_bit sh (of_nat (n mod 128))) (sh + 7)
      = Some (res OR push_bit sh (of_nat (n mod 128)) OR push_bit (sh + 7) (of_nat (n div 128)), r)"
      by (simp add: or.assoc)
    have "push_bit sh (of_nat n :: u64) = push_bit sh (of_nat (n mod 128)) OR push_bit (sh + 7) (of_nat (n div 128))"
      by (subst of_nat_split7 [of n]) (simp add: push_bit_or)
    then show ?thesis
      using False sh ih by (simp add: enc_varint.simps [of n] of_nat_u8_and Let_def)
  qed
qed

lemma read_varint_enc [codec_simps]: "n < 2 ^ 64 \<Longrightarrow> read_varint (enc_varint n @ r) = Some (of_nat n, r)"
  using varint_loop_enc [of n 0 r 0] by (simp add: read_varint_def)

definition enc_delim :: "nat \<Rightarrow> bytes \<Rightarrow> bytes" where
  "enc_delim fn d = enc_varint (fn * 8 + 2) @ enc_varint (length d) @ d"

definition enc_num :: "nat \<Rightarrow> nat \<Rightarrow> bytes" where
  "enc_num fn v = enc_varint (fn * 8) @ enc_varint v"

definition enc_text :: "string \<Rightarrow> bytes" where
  "enc_text s = map byte_of s"

text \<open>A site entry as the data files hold it: a country code and its typed domains.\<close>

definition enc_domain :: "nat \<times> string \<Rightarrow> bytes" where
  "enc_domain e = enc_num 1 (fst e) @ enc_delim 2 (enc_text (snd e))"

definition enc_site :: "string \<times> (nat \<times> string) list \<Rightarrow> bytes" where
  "enc_site e = enc_delim 1 (enc_text (fst e)) @ concat (map (\<lambda>d. enc_delim 2 (enc_domain d)) (snd e))"

definition enc_geosite :: "(string \<times> (nat \<times> string) list) list \<Rightarrow> bytes" where
  "enc_geosite es = concat (map (\<lambda>e. enc_delim 1 (enc_site e)) es)"

lemma unat_of_nat_u64: "n < 2 ^ 64 \<Longrightarrow> unat (of_nat n :: u64) = n"
  by (simp add: unat_of_nat)

lemma tag_split:
  assumes "k < 8" "fn < 2 ^ 60"
  shows "drop_bit 3 (of_nat (fn * 8 + k) :: u64) = of_nat fn" "(of_nat (fn * 8 + k) :: u64) AND 7 = of_nat k"
proof -
  have u: "unat (of_nat (fn * 8 + k) :: u64) = fn * 8 + k" "unat (of_nat fn :: u64) = fn"
    "unat (of_nat k :: u64) = k"
    using assms by (intro unat_of_nat_u64; simp)+
  have "unat (drop_bit 3 (of_nat (fn * 8 + k) :: u64)) = fn"
    unfolding unat_drop_bit u using assms by simp
  then show "drop_bit 3 (of_nat (fn * 8 + k) :: u64) = of_nat fn"
    using u by (metis unsigned_word_eqI)
  have "(7 :: u64) = mask 3" by (simp add: mask_eq_exp_minus_1)
  then have "unat ((of_nat (fn * 8 + k) :: u64) AND 7) = k"
    unfolding unat_and_mask u by (simp only: unat_and_mask u) (use assms in simp)
  then show "(of_nat (fn * 8 + k) :: u64) AND 7 = of_nat k"
    using u by (metis unsigned_word_eqI)
qed

lemma scan_field_num:
  assumes "fn < 2 ^ 60" "v < 2 ^ 64"
  shows "scan_field n (enc_num fn v @ r) = StepField (of_nat fn) (Varint (of_nat v)) r"
  using assms tag_split [of 0 fn]
  by (simp add: scan_field_def enc_num_def read_varint_enc Let_def)

lemma scan_field_delim:
  assumes "fn < 2 ^ 60" "n < 2 ^ 64" "length (enc_delim fn d @ r) \<le> n"
  shows "scan_field n (enc_delim fn d @ r) = StepField (of_nat fn) (Bytes d) r"
proof -
  have d: "length d < 2 ^ 64" using assms by (simp add: enc_delim_def)
  have "length d + length r \<le> n" using assms(3) by (simp add: enc_delim_def)
  then have "n - (length d + length r) + length d \<le> n" by simp
  then have "read_len_delim n (enc_varint (length d) @ d @ r) = Got (d, r)"
    using d assms(2) by (simp add: read_len_delim_def read_varint_enc Let_def unat_of_nat)
  moreover have "fn * 8 + 2 < 2 ^ 64" using assms(1) by simp
  ultimately show ?thesis
    using tag_split [of 2 fn] assms(1)
    by (simp add: scan_field_def enc_delim_def read_varint_enc Let_def)
qed

lemma enc_delim_nonempty [simp]: "enc_delim fn d \<noteq> []" "enc_num fn v @ r \<noteq> []"
  by (subst enc_delim_def, subst enc_varint.simps, simp)
    (subst enc_num_def, subst enc_varint.simps, simp)

lemma scan_loop_Nil [simp]: "scan_loop strict n h [] s = Got s"
  by (subst scan_loop.simps) simp

lemma scan_loop_field:
  "buf \<noteq> [] \<Longrightarrow> scan_field n buf = StepField fn p r \<Longrightarrow> h fn p s = Got s' \<Longrightarrow>
     scan_loop strict n h buf s = scan_loop strict n h r s'"
  by (subst scan_loop.simps) simp

text \<open>A repeated length-delimited field: the loop folds its handler over the elements.\<close>

lemma scan_loop_repeated:
  assumes "fn < 2 ^ 60" "n < 2 ^ 64"
    and "\<And>x s. x \<in> set xs \<Longrightarrow> h (of_nat fn) (Bytes (enc x)) s = Got (f x s)"
    and "length (concat (map (\<lambda>x. enc_delim fn (enc x)) xs) @ r) \<le> n"
  shows "scan_loop strict n h (concat (map (\<lambda>x. enc_delim fn (enc x)) xs) @ r) s
    = scan_loop strict n h r (fold f xs s)"
  using assms(3,4)
proof (induction xs arbitrary: s)
  case (Cons x xs)
  let ?rest = "concat (map (\<lambda>x. enc_delim fn (enc x)) xs) @ r"
  have "length (enc_delim fn (enc x) @ ?rest) \<le> n" using Cons.prems(2) by simp
  from scan_field_delim [OF assms(1,2) this]
  have f: "scan_field n (enc_delim fn (enc x) @ ?rest) = StepField (of_nat fn) (Bytes (enc x)) ?rest" .
  have "scan_loop strict n h (enc_delim fn (enc x) @ ?rest) s = scan_loop strict n h ?rest (f x s)"
    by (rule scan_loop_field [where h = h, OF _ f]) (use Cons.prems(1) in simp_all)
  also have "\<dots> = scan_loop strict n h r (fold f xs (f x s))"
    using Cons.prems by (intro Cons.IH) auto
  finally show ?case by simp
qed simp

definition plain_text :: "string \<Rightarrow> bool" where
  "plain_text s \<longleftrightarrow> s \<noteq> [] \<and> (\<forall>c\<in>set s. 33 \<le> code c \<and> code c \<le> 127)"

lemma text_of_enc: "plain_text s \<Longrightarrow> text_of (enc_text s) = s"
  by (auto simp: text_of_def enc_text_def comp_def plain_text_def intro!: utf8_lossy_ascii)

lemma parse_domain_msg_enc:
  assumes "plain_text v" "norm_domain v = v" "t < 2 ^ 64" "length (enc_domain (t, v)) < 2 ^ 64"
  shows "parse_domain_msg rc (enc_domain (t, v)) = Got (mk_site_domain rc (of_nat t) v)"
proof -
  let ?n = "length (enc_domain (t, v))" and ?d = "enc_delim 2 (enc_text v) @ []"
  have b: "enc_domain (t, v) = enc_num 1 t @ ?d" by (simp add: enc_domain_def)
  have f1: "scan_field ?n (enc_num 1 t @ ?d) = StepField 1 (Varint (of_nat t)) ?d"
    using scan_field_num [of 1 t ?n ?d] assms(3) by simp
  have f2: "scan_field ?n ?d = StepField 2 (Bytes (enc_text v)) []"
    using scan_field_delim [of 2 ?n "enc_text v" "[]"] assms(4) by (simp add: b)
  have "scan_loop True ?n domain_field (enc_num 1 t @ ?d) (0, []) = Got (of_nat t, v)"
    using scan_loop_field [OF _ f1, of domain_field "(0, [])" "(of_nat t, [])" True]
      scan_loop_field [OF _ f2, of domain_field "(of_nat t, [])" "(of_nat t, v)" True]
      assms(1,2) by (simp add: text_of_enc)
  then show ?thesis
    using assms(1) by (simp add: parse_domain_msg_def b plain_text_def)
qed

lemma length_enc_delim_elem:
  "x \<in> set xs \<Longrightarrow> length (enc x) \<le> length (concat (map (\<lambda>x. enc_delim fn (enc x)) xs))"
  by (induction xs) (auto simp: enc_delim_def)

definition build_domains :: "(string \<Rightarrow> 'r option) \<Rightarrow> (nat \<times> string) list \<Rightarrow> 'r site_domain list" where
  "build_domains rc ds = map (\<lambda>d. mk_site_domain rc (of_nat (fst d)) (snd d)) ds"

definition site_ok :: "string \<times> (nat \<times> string) list \<Rightarrow> bool" where
  "site_ok e \<longleftrightarrow> plain_text (fst e) \<and> ascii_upper (fst e) = fst e
     \<and> (\<forall>d\<in>set (snd e). plain_text (snd d) \<and> norm_domain (snd d) = snd d \<and> fst d < 2 ^ 64)"

lemma parse_geosite_entry_enc:
  assumes "site_ok e" "length (enc_site e) < 2 ^ 64"
  shows "parse_geosite_entry rc (enc_site e) = Got (fst e, build_domains rc (snd e))"
proof -
  let ?n = "length (enc_site e)" and ?h = "geosite_field rc"
  let ?ds = "concat (map (\<lambda>d. enc_delim 2 (enc_domain d)) (snd e))"
  let ?f = "\<lambda>d (cc, l). (cc, l @ [mk_site_domain rc (of_nat (fst d)) (snd d)])"
  have b: "enc_site e = enc_delim 1 (enc_text (fst e)) @ ?ds" by (simp add: enc_site_def)
  have f1: "scan_field ?n (enc_delim 1 (enc_text (fst e)) @ ?ds) = StepField 1 (Bytes (enc_text (fst e))) ?ds"
    using scan_field_delim [of 1 ?n "enc_text (fst e)" ?ds] assms(2) by (simp add: b)
  have cc: "trim (fst e) = fst e" "fst e \<noteq> []"
    using assms(1) by (auto simp: site_ok_def plain_text_def intro!: trim_graphic)
  have "scan_loop True ?n ?h (enc_site e) ([], []) = scan_loop True ?n ?h ?ds (fst e, [])"
    unfolding b using assms(1) cc
    by (intro scan_loop_field [OF _ f1 [unfolded b]]) (auto simp: site_ok_def text_of_enc)
  also have "\<dots> = scan_loop True ?n ?h [] (fold ?f (snd e) (fst e, []))"
  proof -
    have "scan_loop True ?n ?h (?ds @ []) (fst e, []) = scan_loop True ?n ?h [] (fold ?f (snd e) (fst e, []))"
    proof (rule scan_loop_repeated)
      fix d st assume d: "d \<in> set (snd e)"
      have "length (enc_domain d) < 2 ^ 64"
        using length_enc_delim_elem [OF d, of enc_domain 2] assms(2) by (simp add: b)
      then have "parse_domain_msg rc (enc_domain d) = Got (mk_site_domain rc (of_nat (fst d)) (snd d))"
        using parse_domain_msg_enc [of "snd d" "fst d" rc] assms(1) d by (auto simp: site_ok_def)
      then show "?h (of_nat 2) (Bytes (enc_domain d)) st = Got (?f d st)"
        by (cases st) simp
    qed (use assms(2) b in auto)
    then show ?thesis by simp
  qed
  also have "fold ?f ds (cc, l) = (cc, l @ build_domains rc ds)" for ds cc l
    by (induction ds arbitrary: l) (simp_all add: build_domains_def)
  finally show ?thesis using cc by (simp add: parse_geosite_entry_def)
qed

lemma parse_geosite_file_enc:
  assumes "\<forall>e\<in>set es. site_ok e" "length (enc_geosite es) < 2 ^ 64" "distinct (map fst es)"
  shows "parse_geosite_file rc (enc_geosite es)
    = Got (map_of (map (\<lambda>e. (fst e, build_domains rc (snd e))) es))"
proof -
  let ?h = "geosite_file_field rc" and ?n = "length (enc_geosite es)"
  let ?f = "\<lambda>e m. m(fst e \<mapsto> build_domains rc (snd e))"
  have "scan_loop False ?n ?h (concat (map (\<lambda>e. enc_delim 1 (enc_site e)) es) @ []) Map.empty
    = scan_loop False ?n ?h [] (fold ?f es Map.empty)"
  proof (rule scan_loop_repeated)
    fix e m assume e: "e \<in> set es"
    have "length (enc_site e) < 2 ^ 64"
      using length_enc_delim_elem [OF e, of enc_site 1] assms(2) by (simp add: enc_geosite_def)
    then show "?h (of_nat 1) (Bytes (enc_site e)) m = Got (?f e m)"
      using parse_geosite_entry_enc [of e rc] assms(1) e by simp
  qed (use assms(2) in \<open>auto simp: enc_geosite_def\<close>)
  moreover have "fold ?f es m
      = fold (\<lambda>(k, v) m. m(k \<mapsto> v)) (map (\<lambda>e. (fst e, build_domains rc (snd e))) es) m" for m
    by (induction es arbitrary: m) auto
  moreover have "distinct (map fst (map (\<lambda>e. (fst e, build_domains rc (snd e))) es))"
    using assms(3) by (simp add: comp_def)
  ultimately show ?thesis
    using fold_map_upd [of "map (\<lambda>e. (fst e, build_domains rc (snd e))) es" Map.empty]
    by (simp add: parse_geosite_file_def enc_geosite_def)
qed

subsection \<open>Properties\<close>

text \<open>The hash index decides as the list does: after a geosite file is loaded, a tag
matches a domain exactly when some entry parsed for that tag matches it, or the tag is one
of the built-in LAN tags and the domain is a LAN name.\<close>
theorem geosite_index_is_linear:
  assumes "load_geo_files rc (Some data) geoip = Got g" and "parse_geosite_file rc data = Got m"
  shows "match_geosite re_match g tag domain \<longleftrightarrow>
    (\<exists>ds. m (ascii_upper (trim tag)) = Some ds
       \<and> list_ex (\<lambda>sd. site_domain_matches re_match sd domain) ds)
    \<or> (ascii_upper (trim tag) \<in> {''PRIVATE'', ''LAN''} \<and> is_lan_or_router_domain domain)"
proof -
  have g: "gs_sites g = (\<lambda>t. map_option geosite_matcher_new (m t))"
    using assms by (auto simp: load_geo_files_def split: scan.splits option.splits prod.splits)
  show ?thesis
  proof (cases "m (ascii_upper (trim tag))")
    case (Some ds)
    then show ?thesis
      using geosite_matcher_new_matches [OF parse_geosite_file_normal [OF assms(2) Some]]
      by (simp add: match_geosite_def g Let_def)
  qed (simp add: match_geosite_def g Let_def)
qed

text \<open>The geosite parser reads the format: the wire encoding of any list of sites with
distinct upper-case codes and normalised printable domains parses to exactly those sites,
with the domain types mapped as the code maps them.\<close>
theorem geosite_parse_encoded:
  assumes "\<forall>e\<in>set es. site_ok e" and "length (enc_geosite es) < 2 ^ 64" and "distinct (map fst es)"
  shows "parse_geosite_file rc (enc_geosite es)
    = Got (map_of (map (\<lambda>e. (fst e, build_domains rc (snd e))) es))"
  by (rule parse_geosite_file_enc [OF assms])

definition demo_sites :: "(string \<times> (nat \<times> string) list) list" where
  "demo_sites = [(''CN'', [(2, ''qq.com''), (3, ''a.cn'')]), (''ADS'', [(0, ''ad'')])]"

lemma demo_sites_ok:
  "\<forall>e\<in>set demo_sites. site_ok e" "length (enc_geosite demo_sites) < 2 ^ 64"
  "distinct (map fst demo_sites)"
proof -
  have "norm_domain ''qq.com'' = ''qq.com''" "norm_domain ''a.cn'' = ''a.cn''" "norm_domain ''ad'' = ''ad''"
    "ascii_upper ''CN'' = ''CN''" "ascii_upper ''ADS'' = ''ADS''"
    by code_simp+
  then show "\<forall>e\<in>set demo_sites. site_ok e"
    by (simp add: demo_sites_def site_ok_def plain_text_def)
qed (simp_all add: demo_sites_def enc_geosite_def enc_site_def enc_domain_def enc_delim_def
    enc_num_def enc_text_def enc_varint.simps)

theorem geosite_parse_encoded_witness:
  "parse_geosite_file (\<lambda>_. None :: unit option) (enc_geosite demo_sites)
     = Got (map_of [(''CN'', [SdSuffix ''qq.com'', SdExact ''a.cn'']), (''ADS'', [SdKeyword ''ad''])])"
  using geosite_parse_encoded [OF demo_sites_ok, of "\<lambda>_. None :: unit option"]
  by (simp add: demo_sites_def build_domains_def mk_site_domain_def)

theorem geosite_index_is_linear_witness:
  "\<exists>g. load_geo_files (\<lambda>_. None :: unit option) (Some (enc_geosite demo_sites)) None = Got g
     \<and> match_geosite (\<lambda>_ _. False) g ''cn'' ''www.QQ.com.''"
proof -
  let ?m = "map_of (map (\<lambda>e. (fst e, build_domains (\<lambda>_. None :: unit option) (snd e))) demo_sites)"
  have p: "parse_geosite_file (\<lambda>_. None :: unit option) (enc_geosite demo_sites) = Got ?m"
    by (rule parse_geosite_file_enc [OF demo_sites_ok])
  obtain g where g: "load_geo_files (\<lambda>_. None :: unit option) (Some (enc_geosite demo_sites)) None = Got g"
    by (simp add: load_geo_files_def p)
  have n: "norm_domain ''www.QQ.com.'' = ''www.qq.com''" "ascii_upper (trim ''cn'') = ''CN''"
    by code_simp+
  have "site_domain_matches (\<lambda>(_ :: unit) _. False) (SdSuffix ''qq.com'') ''www.QQ.com.''"
    by (simp add: site_domain_matches_def n Let_def under_root_def ends_with_def strip_suffix_def)
  then have "match_geosite (\<lambda>_ _. False) g ''cn'' ''www.QQ.com.''"
    unfolding geosite_index_is_linear [OF g p] n
    by (simp add: demo_sites_def build_domains_def mk_site_domain_def)
  with g show ?thesis by blast
qed

text \<open>A geosite file can crash the loader: a length-delimited field whose length makes
\<open>pos + len\<close> wrap passes the bounds check and the slice panics.\<close>
theorem geo_length_wraps:
  "parse_geosite_file rc [0x0A, 0xFF, 0xFF, 0xFF, 0xFF, 0xFF, 0xFF, 0xFF, 0xFF, 0xFF, 0x01] = Crash"
proof -
  let ?len = "[0xFF, 0xFF, 0xFF, 0xFF, 0xFF, 0xFF, 0xFF, 0xFF, 0xFF, 0x01] :: bytes"
  have v: "read_varint (0x0A # ?len) = Some (0x0A, ?len)"
    "read_varint ?len = Some (0xFFFFFFFFFFFFFFFF, [])"
    "drop_bit 3 (0x0A :: u64) = 1" "(0x0A :: u64) AND 7 = 2"
    by code_simp+
  have "read_len_delim 11 ?len = Crash"
    by (simp add: read_len_delim_def v Let_def)
  then have "scan_field 11 (0x0A # ?len) = StepCrash"
    by (simp add: scan_field_def v Let_def)
  moreover have l: "length (0x0A # ?len) = 11" by simp
  ultimately show ?thesis
    unfolding parse_geosite_file_def l by (subst scan_loop.simps) simp
qed

text \<open>A CIDR condition with an over-long prefix matches half of all addresses: the mask of
a prefix of 33 keeps only the top bit.\<close>
theorem cidr_prefix_33_matches_half:
  "ipv4_cidr_contains (ipv4_cidr_new ip 33) t \<longleftrightarrow> bit t 31 = bit ip 31"
proof -
  have "shl_mask4 33 = 0x80000000" by code_simp
  also have "(0x80000000 :: u32) = push_bit 31 1" by simp
  finally have m: "shl_mask4 33 = push_bit 31 1" .
  have "t AND push_bit 31 1 = ip AND push_bit 31 1 \<longleftrightarrow> bit t 31 = bit ip 31"
  proof
    assume "t AND push_bit 31 1 = ip AND push_bit 31 1"
    then have "bit (t AND push_bit 31 1) 31 = bit (ip AND push_bit 31 1) 31" by simp
    then show "bit t 31 = bit ip 31" unfolding bit_and_iff bit_push_bit_iff bit_1_iff by simp
  next
    assume "bit t 31 = bit ip 31"
    then show "t AND push_bit 31 1 = ip AND push_bit 31 1"
    proof (intro bit_word_eqI)
      fix n assume "n < LENGTH(32)"
      with \<open>bit t 31 = bit ip 31\<close> show "bit (t AND push_bit 31 1) n = bit (ip AND push_bit 31 1) n"
        unfolding bit_and_iff bit_push_bit_iff bit_1_iff by (cases "n = 31") auto
    qed
  qed
  then show ?thesis
    by (simp only: ipv4_cidr_contains_def ipv4_cidr_new_def m ipv4_cidr.select_convs)
qed
end
