(* ===== verification/CnRanges.thy ===== *)
theory CnRanges
  imports NetTypes "HOL-Library.Multiset"
begin

text \<open>The range table behind \<open>is_cn_ip\<close>: every CIDR of the built-in table is turned into
its real interval, the intervals are sorted and merged, and an address is looked up by
binary search. The table itself (7730 generated entries) is a parameter. The sort is
unstable in the code, so the facts hold for every sorted permutation.\<close>

type_synonym range = "u32 \<times> u32"

definition cidr_range :: "u32 \<times> nat \<Rightarrow> range" where
  "cidr_range e = (case e of (net, plen) \<Rightarrow>
     let m = mask4 plen; start = net AND m in (start, start OR NOT m))"

text \<open>\<open>merged\<close> is kept with its last element first.\<close>

fun merge_step :: "range \<Rightarrow> range list \<Rightarrow> range list" where
  "merge_step (s, e) [] = [(s, e)]"
| "merge_step (s, e) ((ls, le) # rest) =
     (if s \<le> saturating_succ le
      then (ls, if le < e then e else le) # rest
      else (s, e) # (ls, le) # rest)"

definition merge_ranges :: "range list \<Rightarrow> range list" where
  "merge_ranges ranges = rev (fold merge_step ranges [])"

definition cn_ranges :: "(u32 \<times> nat) list \<Rightarrow> range list" where
  "cn_ranges table = merge_ranges (sort_key fst (map cidr_range table))"

subsection \<open>Binary search\<close>

datatype ordering = Less | Equal | Greater

function bsearch_loop :: "(nat \<Rightarrow> ordering) \<Rightarrow> nat \<Rightarrow> nat \<Rightarrow> nat" where
  "bsearch_loop f base sz =
     (if sz \<le> 1 then base
      else let half = sz div 2; mid = base + half
           in bsearch_loop f (if f mid = Greater then base else mid) (sz - half))"
  by pat_completeness auto
termination
  by (relation "measure (\<lambda>(f, base, sz). sz)") auto

declare bsearch_loop.simps [simp del]

definition binary_search_by :: "'a list \<Rightarrow> ('a \<Rightarrow> ordering) \<Rightarrow> nat option" where
  "binary_search_by xs f =
     (if xs = [] then None
      else let base = bsearch_loop (\<lambda>i. f (xs ! i)) 0 (length xs)
           in if f (xs ! base) = Equal then Some base else None)"

definition cmp_range :: "u32 \<Rightarrow> range \<Rightarrow> ordering" where
  "cmp_range target r = (case r of (start, end_) \<Rightarrow>
     if target < start then Greater else if end_ < target then Less else Equal)"

definition in_cn_table :: "(u32 \<times> nat) list \<Rightarrow> u32 \<Rightarrow> bool" where
  "in_cn_table table target = (binary_search_by (cn_ranges table) (cmp_range target) \<noteq> None)"

subsection \<open>What an interval covers\<close>

definition covers :: "range \<Rightarrow> u32 \<Rightarrow> bool" where
  "covers r t \<longleftrightarrow> fst r \<le> t \<and> t \<le> snd r"

lemma unat_or_disjoint:
  fixes a b :: u32
  assumes "a AND b = 0"
  shows "unat (a OR b) = unat a + unat b"
proof -
  have "unat a AND unat b = 0" using assms by (metis unsigned_0 unsigned_and_eq)
  then have "unat a OR unat b = unat a + unat b" by (simp add: disjunctive_add_eq_or)
  then show ?thesis by (simp add: unsigned_or_eq)
qed

lemma cidr_range_covers:
  assumes "p \<le> 32"
  shows "covers (cidr_range (net, p)) t \<longleftrightarrow> t AND mask4 p = net AND mask4 p"
proof -
  let ?n = "32 - p" and ?s = "net AND mask4 p"
  have m: "mask4 p = NOT (mask ?n)" using assms by (rule mask4_conv)
  have sdiv: "unat ?s = unat net div 2 ^ ?n * 2 ^ ?n"
  proof -
    have "unat ?s div 2 ^ ?n = unat net div 2 ^ ?n"
      unfolding m by (subst and_not_mask_eq_iff [symmetric]) (simp add: and.assoc)
    moreover have "unat ?s mod 2 ^ ?n = 0"
      unfolding m unat_and_mask [symmetric] by (simp add: and.assoc)
    ultimately show ?thesis by (metis add.right_neutral div_mult_mod_eq)
  qed
  have e: "unat (?s OR NOT (mask4 p)) = unat ?s + (2 ^ ?n - 1)"
  proof -
    have "unat (?s OR mask ?n) = unat ?s + unat (mask ?n :: u32)"
      unfolding m by (rule unat_or_disjoint) (simp add: and.assoc)
    then show ?thesis using assms by (simp add: m unat_mask)
  qed
  have "covers (cidr_range (net, p)) t \<longleftrightarrow> unat ?s \<le> unat t \<and> unat t \<le> unat ?s + (2 ^ ?n - 1)"
    using e by (simp add: covers_def cidr_range_def Let_def word_le_nat_alt)
  also have "\<dots> \<longleftrightarrow> unat t div 2 ^ ?n = unat net div 2 ^ ?n"
  proof -
    have pos: "0 < (2 ^ ?n :: nat)" by simp
    have "unat ?s \<le> unat t \<and> unat t \<le> unat ?s + (2 ^ ?n - 1) \<longleftrightarrow>
      unat net div 2 ^ ?n * 2 ^ ?n \<le> unat t \<and> unat t < Suc (unat net div 2 ^ ?n) * 2 ^ ?n"
      using pos unfolding sdiv mult_Suc by linarith
    also have "\<dots> \<longleftrightarrow> unat t div 2 ^ ?n = unat net div 2 ^ ?n"
      using pos div_nat_eqI less_mult_imp_div_less
      by (metis div_less_iff_less_mult div_times_less_eq_dividend le_antisym
          less_Suc_eq_le less_eq_div_iff_mult_less_eq)
    finally show ?thesis .
  qed
  also have "\<dots> \<longleftrightarrow> t AND mask4 p = net AND mask4 p"
    unfolding m by (rule and_not_mask_eq_iff [symmetric])
  finally show ?thesis .
qed


subsection \<open>Merging\<close>

definition valid_ranges :: "range list \<Rightarrow> bool" where
  "valid_ranges rs \<longleftrightarrow> (\<forall>r\<in>set rs. fst r \<le> snd r)"

definition separated :: "range list \<Rightarrow> bool" where
  "separated rs \<longleftrightarrow> valid_ranges rs \<and> sorted_wrt (\<lambda>a b. snd a < fst b) rs"

definition covered :: "range list \<Rightarrow> u32 \<Rightarrow> bool" where
  "covered rs t \<longleftrightarrow> (\<exists>r\<in>set rs. covers r t)"

lemma covered_simps [simp]:
  "covered [] t \<longleftrightarrow> False"
  "covered (r # rs) t \<longleftrightarrow> covers r t \<or> covered rs t"
  "covered (rs @ rs') t \<longleftrightarrow> covered rs t \<or> covered rs' t"
  "covered (rev rs) t \<longleftrightarrow> covered rs t"
  by (auto simp: covered_def)

lemma saturating_succ_iff: "s \<le> saturating_succ le \<longleftrightarrow> unat s \<le> unat le + 1 \<or> le = - 1"
  by (cases "le = - 1") (simp add: saturating_succ_def, simp add: saturating_succ_def word_le_nat_alt unat_succ)

lemma merge_step_inv:
  assumes "separated (rev acc)" "fst r \<le> snd r" "acc \<noteq> [] \<longrightarrow> fst (hd acc) \<le> fst r"
  shows "separated (rev (merge_step r acc)) \<and> fst (hd (merge_step r acc)) \<le> fst r
      \<and> merge_step r acc \<noteq> [] \<and> covered (merge_step r acc) t = (covers r t \<or> covered acc t)"
proof (cases acc)
  case Nil
  then show "separated (rev (merge_step r acc)) \<and> fst (hd (merge_step r acc)) \<le> fst r
      \<and> merge_step r acc \<noteq> [] \<and> covered (merge_step r acc) t = (covers r t \<or> covered acc t)"
    using assms(2) by (cases r) (auto simp: separated_def valid_ranges_def)
next
  case (Cons l rest)
  obtain s e ls le where r: "r = (s, e)" and l: "l = (ls, le)" by (cases r, cases l)
  have *: "ls \<le> s" "s \<le> e" "ls \<le> le" using assms Cons r l by (auto simp: separated_def valid_ranges_def)
  show "separated (rev (merge_step r acc)) \<and> fst (hd (merge_step r acc)) \<le> fst r
      \<and> merge_step r acc \<noteq> [] \<and> covered (merge_step r acc) t = (covers r t \<or> covered acc t)"
  proof (cases "s \<le> saturating_succ le")
    case True
    let ?l = "(ls, if le < e then e else le)"
    have ms: "merge_step r acc = ?l # rest" using True by (simp add: Cons r l)
    have "covers ?l t \<longleftrightarrow> covers r t \<or> covers l t"
    proof -
      have "unat s \<le> unat le + 1 \<or> unat le = 2 ^ 32 - 1"
        using True unfolding saturating_succ_iff by (auto simp: unsigned_minus_1_eq_mask mask_eq_exp_minus_1)
      then show ?thesis
        using * unat_u32_less [of t] unat_u32_less [of e]
        by (auto simp: covers_def r l word_le_nat_alt word_less_nat_alt)
    qed
    moreover have "separated (rev (?l # rest))"
      using assms(1) * by (auto simp: separated_def valid_ranges_def Cons l sorted_wrt_append)
    ultimately show ?thesis using * unfolding ms by (simp add: Cons r)
  next
    case False
    then have lt: "le < s"
      unfolding saturating_succ_iff by (simp add: word_less_nat_alt)
    have ms: "merge_step r acc = r # acc" using False by (simp add: Cons r l)
    have "snd x < s" if "x \<in> set rest" for x
    proof -
      have "snd x < ls" using assms(1) that by (auto simp: separated_def Cons l sorted_wrt_append)
      then show ?thesis using *(1) by (rule less_le_trans)
    qed
    then have "separated (rev (r # acc))"
      using assms(1) * lt by (auto simp: separated_def valid_ranges_def Cons l r sorted_wrt_append)
    then show ?thesis using * unfolding ms by (simp add: Cons r)
  qed
qed

lemma merge_fold:
  assumes "separated (rev acc)" "valid_ranges rs" "sorted (map fst rs)"
    and "acc \<noteq> [] \<longrightarrow> (\<forall>r\<in>set rs. fst (hd acc) \<le> fst r)"
  shows "separated (rev (fold merge_step rs acc))
    \<and> (\<forall>t. covered (fold merge_step rs acc) t \<longleftrightarrow> covered rs t \<or> covered acc t)"
  using assms
proof (induction rs arbitrary: acc)
  case (Cons r rs)
  have r: "fst r \<le> snd r" "acc \<noteq> [] \<longrightarrow> fst (hd acc) \<le> fst r"
    using Cons.prems by (auto simp: valid_ranges_def)
  note st = merge_step_inv [OF Cons.prems(1) r, THEN conjunct1]
    merge_step_inv [OF Cons.prems(1) r, THEN conjunct2, THEN conjunct1]
    merge_step_inv [OF Cons.prems(1) r, THEN conjunct2, THEN conjunct2, THEN conjunct1]
    merge_step_inv [OF Cons.prems(1) r, THEN conjunct2, THEN conjunct2, THEN conjunct2]
  have "\<forall>x\<in>set rs. fst (hd (merge_step r acc)) \<le> fst x"
    using Cons.prems(3) st(2) by (auto intro: order_trans)
  with Cons.IH [OF st(1)] Cons.prems st(3,4) show ?case
    by (auto simp: valid_ranges_def)
qed simp

lemma merge_ranges_correct:
  assumes "valid_ranges rs" "sorted (map fst rs)"
  shows "separated (merge_ranges rs)" "covered (merge_ranges rs) t \<longleftrightarrow> covered rs t"
  using merge_fold [of "[]" rs] assms
  by (auto simp: merge_ranges_def separated_def valid_ranges_def)

subsection \<open>Searching\<close>

lemma bsearch_loop_spec:
  assumes "1 \<le> n"
    and up: "\<And>i j. base \<le> i \<Longrightarrow> i \<le> j \<Longrightarrow> j < base + n \<Longrightarrow> f i = Greater \<Longrightarrow> f j = Greater"
  shows "base \<le> bsearch_loop f base n \<and> bsearch_loop f base n < base + n
    \<and> (\<forall>i. bsearch_loop f base n < i \<and> i < base + n \<longrightarrow> f i = Greater)
    \<and> (bsearch_loop f base n = base \<or> f (bsearch_loop f base n) \<noteq> Greater)"
  using assms
proof (induction f base n rule: bsearch_loop.induct)
  case (1 f base n)
  show ?case
  proof (cases "n \<le> 1")
    case True
    with 1(2) show ?thesis by (subst (1 2 3 4 5) bsearch_loop.simps) auto
  next
    case False
    let ?mid = "base + n div 2" and ?n = "n - n div 2"
    have n: "1 \<le> ?n" "n div 2 < n" "1 \<le> n div 2" using False by auto
    show ?thesis
    proof (cases "f ?mid = Greater")
      case True
      have ih: "base \<le> bsearch_loop f base ?n \<and> bsearch_loop f base ?n < base + ?n
        \<and> (\<forall>i. bsearch_loop f base ?n < i \<and> i < base + ?n \<longrightarrow> f i = Greater)
        \<and> (bsearch_loop f base ?n = base \<or> f (bsearch_loop f base ?n) \<noteq> Greater)"
      proof (rule 1(1) [OF False refl refl, unfolded if_P [OF True]])
        show "1 \<le> ?n" by (rule n(1))
        fix i j assume "base \<le> i" "i \<le> j" "j < base + ?n" "f i = Greater"
        then show "f j = Greater" by (intro 1(3) [of i j]) auto
      qed
      have eq: "bsearch_loop f base n = bsearch_loop f base ?n"
        using False True by (subst bsearch_loop.simps) (simp add: Let_def)
      have "f i = Greater" if "?mid \<le> i" "i < base + n" for i
        using True that by (intro 1(3) [of ?mid i]) auto
      then have far: "f i = Greater" if "base + ?n \<le> i" "i < base + n" for i
        using that n by auto
      define b where "b = bsearch_loop f base ?n"
      have "b < base + n" using ih n unfolding b_def by linarith
      moreover have "f i = Greater" if "b < i" "i < base + n" for i
        using ih far [of i] that unfolding b_def by (cases "i < base + ?n") auto
      ultimately show ?thesis
        unfolding eq using ih unfolding b_def by blast
    next
      case nG: False
      have ih: "?mid \<le> bsearch_loop f ?mid ?n \<and> bsearch_loop f ?mid ?n < ?mid + ?n
        \<and> (\<forall>i. bsearch_loop f ?mid ?n < i \<and> i < ?mid + ?n \<longrightarrow> f i = Greater)
        \<and> (bsearch_loop f ?mid ?n = ?mid \<or> f (bsearch_loop f ?mid ?n) \<noteq> Greater)"
      proof (rule 1(1) [OF False refl refl, unfolded if_not_P [OF nG]])
        show "1 \<le> ?n" by (rule n(1))
        fix i j assume "?mid \<le> i" "i \<le> j" "j < ?mid + ?n" "f i = Greater"
        then show "f j = Greater" using n by (intro 1(3) [of i j]) auto
      qed
      have eq: "bsearch_loop f base n = bsearch_loop f ?mid ?n"
        using False nG by (subst bsearch_loop.simps) (simp add: Let_def)
      have "?mid + ?n = base + n" by simp
      with ih nG show ?thesis unfolding eq by auto
    qed
  qed
qed


lemma separated_nth:
  assumes "separated xs" "j < length xs"
  shows "fst (xs ! j) \<le> snd (xs ! j)" "i < j \<Longrightarrow> snd (xs ! i) < fst (xs ! j)"
  using assms by (auto simp: separated_def valid_ranges_def sorted_wrt_iff_nth_less)

lemma separated_fst_mono:
  assumes "separated xs" "j < length xs" "i \<le> j"
  shows "fst (xs ! i) \<le> fst (xs ! j)"
proof (cases "i = j")
  case False
  with assms have "fst (xs ! i) \<le> snd (xs ! i)" "snd (xs ! i) < fst (xs ! j)"
    using separated_nth [of xs] by auto
  then show ?thesis by simp
qed simp

lemma cmp_range_Greater: "cmp_range t r = Greater \<longleftrightarrow> t < fst r"
  and cmp_range_Equal: "cmp_range t r = Equal \<longleftrightarrow> covers r t"
  by (auto simp: cmp_range_def covers_def not_less split: prod.splits)

lemma binary_search_covered:
  assumes "separated xs"
  shows "binary_search_by xs (cmp_range t) \<noteq> None \<longleftrightarrow> covered xs t"
proof (cases "xs = []")
  case False
  let ?f = "\<lambda>i. cmp_range t (xs ! i)"
  define b where "b = bsearch_loop ?f 0 (length xs)"
  have up: "?f j = Greater" if "i \<le> j" "j < 0 + length xs" "?f i = Greater" for i j
    using separated_fst_mono [OF assms, of j i] that by (auto simp: cmp_range_Greater)
  have b: "b < length xs" "\<And>i. b < i \<Longrightarrow> i < length xs \<Longrightarrow> ?f i = Greater" "b = 0 \<or> ?f b \<noteq> Greater"
    using bsearch_loop_spec [of "length xs" 0 ?f, OF _ up] False
    unfolding b_def by (auto simp: Suc_le_eq)
  have "covers (xs ! b) t" if c: "covered xs t"
  proof -
    obtain j where j: "j < length xs" "covers (xs ! j) t"
      using c by (auto simp: covered_def in_set_conv_nth)
    have "?f j \<noteq> Greater" using j(2) by (simp add: cmp_range_Greater covers_def not_less)
    then have "j \<le> b" using b(2) j(1) by (meson not_le)
    moreover have False if "j < b"
    proof -
      have "fst (xs ! b) \<le> t" using b(3) that by (simp add: cmp_range_Greater)
      moreover have "snd (xs ! j) < fst (xs ! b)" using separated_nth(2) [OF assms b(1) that] .
      moreover have "t \<le> snd (xs ! j)" using j(2) by (simp add: covers_def)
      ultimately show False by (meson le_less_trans less_le_trans less_irrefl)
    qed
    ultimately have "j = b" by (meson le_neq_implies_less)
    then show ?thesis using j(2) by simp
  qed
  moreover have "covered xs t" if "covers (xs ! b) t"
    using that b(1) by (auto simp: covered_def)
  ultimately have "covers (xs ! b) t \<longleftrightarrow> covered xs t" by blast
  then show ?thesis
    using False by (simp add: binary_search_by_def cmp_range_Equal Let_def flip: b_def)
qed (simp add: binary_search_by_def)

definition in_ranges :: "range list \<Rightarrow> u32 \<Rightarrow> bool" where
  "in_ranges rs t \<longleftrightarrow> binary_search_by (merge_ranges rs) (cmp_range t) \<noteq> None"

lemma in_ranges_covered:
  assumes "valid_ranges rs" "sorted (map fst rs)"
  shows "in_ranges rs t \<longleftrightarrow> covered rs t"
  using merge_ranges_correct [OF assms] binary_search_covered by (simp add: in_ranges_def)

lemma in_ranges_table:
  assumes "\<forall>(net, p)\<in>set table. p \<le> 32" "mset rs = mset (map cidr_range table)" "sorted (map fst rs)"
  shows "in_ranges rs t \<longleftrightarrow> (\<exists>(net, p)\<in>set table. t AND mask4 p = net AND mask4 p)"
proof -
  have set: "set rs = cidr_range ` set table"
    using mset_eq_setD [OF assms(2)] by simp
  have "valid_ranges rs"
    unfolding valid_ranges_def
  proof
    fix r assume "r \<in> set rs"
    then obtain net p where r: "r = cidr_range (net, p)" "p \<le> 32" using set assms(1) by auto
    then have "covers r net" by (simp add: cidr_range_covers)
    then show "fst r \<le> snd r" by (auto simp: covers_def)
  qed
  then have "in_ranges rs t \<longleftrightarrow> (\<exists>e\<in>set table. covers (cidr_range e) t)"
    using in_ranges_covered assms(3) by (simp add: covered_def set)
  also have "\<dots> \<longleftrightarrow> (\<exists>(net, p)\<in>set table. t AND mask4 p = net AND mask4 p)"
  proof (rule bex_cong [OF refl])
    fix e assume e: "e \<in> set table"
    then show "covers (cidr_range e) t = (case e of (net, p) \<Rightarrow> t AND mask4 p = net AND mask4 p)"
      using assms(1) cidr_range_covers by (cases e) auto
  qed
  finally show ?thesis .
qed

lemma in_cn_table_iff:
  assumes "\<forall>(net, p)\<in>set table. p \<le> 32"
  shows "in_cn_table table t \<longleftrightarrow> (\<exists>(net, p)\<in>set table. t AND mask4 p = net AND mask4 p)"
proof -
  have "in_cn_table table t \<longleftrightarrow> in_ranges (sort_key fst (map cidr_range table)) t"
    by (simp add: in_cn_table_def in_ranges_def cn_ranges_def)
  then show ?thesis
    using in_ranges_table [OF assms, of "sort_key fst (map cidr_range table)"] by simp
qed

subsection \<open>Property\<close>

text \<open>C6. Sorting, merging and binary search implement membership: for every table with
prefixes up to 32, however overlapping or unaligned its entries, and whatever order the
unstable sort leaves equal starts in, the search finds an address exactly when some entry
of the table contains it.\<close>
theorem cn_search_is_membership:
  assumes "\<forall>(net, p)\<in>set table. p \<le> 32"
    and "mset rs = mset (map cidr_range table)" and "sorted (map fst rs)"
  shows "(binary_search_by (merge_ranges rs) (cmp_range t) \<noteq> None
      \<longleftrightarrow> (\<exists>(net, p)\<in>set table. t AND mask4 p = net AND mask4 p))
    \<and> (in_cn_table table t \<longleftrightarrow> (\<exists>(net, p)\<in>set table. t AND mask4 p = net AND mask4 p))"
  using in_ranges_table [OF assms, of t] in_cn_table_iff [OF assms(1), of t]
  by (simp add: in_ranges_def)

definition demo_table :: "(u32 \<times> nat) list" where
  "demo_table = [(0x01000400, 24), (0x01000000, 16), (0xDF000000, 12)]"

theorem cn_search_is_membership_witness:
  "in_cn_table demo_table 0x01000401"
proof -
  have "\<forall>(net, p)\<in>set demo_table. p \<le> 32" by (simp add: demo_table_def)
  note T = cn_search_is_membership [OF this, where rs = "sort_key fst (map cidr_range demo_table)"
      and t = "0x01000401"]
  have "(0x01000401 :: u32) AND mask4 24 = 0x01000400 AND mask4 24" by code_simp
  then have "\<exists>(net, p)\<in>set demo_table. (0x01000401 :: u32) AND mask4 p = net AND mask4 p"
    by (auto simp: demo_table_def)
  with T show ?thesis by simp
qed

end
