(* ===== verification/Router.thy ===== *)
theory Router
  imports Geo CnRanges
begin

text \<open>\<open>direct.rs\<close>: the rule engine that sends every flow direct, through the tunnel or
nowhere. Rule conditions and their parser, composite rules, the sanitising of the user's
rule JSON, the decision with its source, and the check that guards upstream DNS queries.
The global cells of the file (rule store, mode, hit counters) are one state record; the
geo store, the CN address table and the DNS learning cache are the environment. The JSON
library and the regex engine are parameters.\<close>

datatype rule_action = Direct | Proxy | Block

fun action_str :: "rule_action \<Rightarrow> string" where
  "action_str Direct = ''direct''"
| "action_str Proxy = ''proxy''"
| "action_str Block = ''block''"

fun action_debug :: "rule_action \<Rightarrow> string" where
  "action_debug Direct = ''Direct''"
| "action_debug Proxy = ''Proxy''"
| "action_debug Block = ''Block''"

definition action_from_str :: "string \<Rightarrow> rule_action" where
  "action_from_str s =
     (let t = ascii_lower (trim s) in
      if t = ''direct'' then Direct
      else if t = ''block'' \<or> t = ''reject'' then Block else Proxy)"

datatype match_logic = LogicOr | LogicAnd

definition logic_from_str :: "string \<Rightarrow> match_logic" where
  "logic_from_str s = (if ascii_upper (trim s) = ''AND'' then LogicAnd else LogicOr)"

subsection \<open>Conditions\<close>

datatype 'r condition_kind =
    CGeoSite string | CGeoIp string | CDomainSuffix string | CDomainExact string
  | CDomainKeyword string | CDomainRegex string "'r option" | CIpCidr string "ipv4_cidr option"
  | CPort "nat list" "(nat \<times> nat) list" | CProtocol string

record flow =
  fl_domain :: "string option"
  fl_ip :: "ip_addr option"
  fl_port :: "nat option"
  fl_protocol :: "string option"

definition eq_ignore_ascii_case :: "string \<Rightarrow> string \<Rightarrow> bool" where
  "eq_ignore_ascii_case a b \<longleftrightarrow> ascii_lower a = ascii_lower b"

definition on_some :: "('a \<Rightarrow> bool) \<Rightarrow> 'a option \<Rightarrow> bool" where
  "on_some P x = (case x of None \<Rightarrow> False | Some a \<Rightarrow> P a)"

fun condition_matches ::
    "('r \<Rightarrow> string \<Rightarrow> bool) \<Rightarrow> 'r geo_store \<Rightarrow> 'r condition_kind \<Rightarrow> flow \<Rightarrow> bool" where
  "condition_matches re_match g (CGeoSite tag) f =
     on_some (\<lambda>d. match_geosite re_match g tag d) (fl_domain f)"
| "condition_matches re_match g (CGeoIp cc) f =
     on_some (\<lambda>ip. \<not> fake_ip_addr ip \<and> match_geoip g cc ip) (fl_ip f)"
| "condition_matches re_match g (CDomainSuffix s) f =
     on_some (\<lambda>d. under_root s (norm_domain d)) (fl_domain f)"
| "condition_matches re_match g (CDomainExact s) f =
     on_some (\<lambda>d. eq_ignore_ascii_case (trim_end_matches (CHR ''.'') d) s) (fl_domain f)"
| "condition_matches re_match g (CDomainKeyword s) f =
     on_some (\<lambda>d. contains_str s (ascii_lower d)) (fl_domain f)"
| "condition_matches re_match g (CDomainRegex raw re) f =
     on_some (\<lambda>d. case re of Some r \<Rightarrow> re_match r d | None \<Rightarrow> contains_str raw d) (fl_domain f)"
| "condition_matches re_match g (CIpCidr _ cidr) f =
     (case (fl_ip f, cidr) of
        (Some (V4 v4), Some c) \<Rightarrow> \<not> is_fake_v4 v4 \<and> ipv4_cidr_contains c v4
      | _ \<Rightarrow> False)"
| "condition_matches re_match g (CPort singles ranges) f =
     on_some (\<lambda>p. p \<in> set singles \<or> list_ex (\<lambda>(a, b). a \<le> p \<and> p \<le> b) ranges) (fl_port f)"
| "condition_matches re_match g (CProtocol proto) f =
     on_some (\<lambda>p. eq_ignore_ascii_case p proto) (fl_protocol f)"

record 'r composite_rule =
  cr_id :: string
  cr_name :: string
  cr_enabled :: bool
  cr_logic :: match_logic
  cr_conditions :: "'r condition_kind list"
  cr_action :: rule_action

definition rule_matches ::
    "('r \<Rightarrow> string \<Rightarrow> bool) \<Rightarrow> 'r geo_store \<Rightarrow> 'r composite_rule \<Rightarrow> flow \<Rightarrow> bool" where
  "rule_matches re_match g r f =
     (if \<not> cr_enabled r \<or> cr_conditions r = [] then False
      else case cr_logic r of
        LogicOr \<Rightarrow> list_ex (\<lambda>c. condition_matches re_match g c f) (cr_conditions r)
      | LogicAnd \<Rightarrow> list_all (\<lambda>c. condition_matches re_match g c f) (cr_conditions r))"

subsection \<open>Parsing conditions\<close>

fun parse_port_part :: "string \<Rightarrow> nat list \<times> (nat \<times> nat) list \<Rightarrow> nat list \<times> (nat \<times> nat) list" where
  "parse_port_part part (singles, ranges) =
     (let trimmed = trim part in
      case split_once (CHR ''-'') trimmed of
        Some (a, b) \<Rightarrow>
          (case (parse_u16 (trim a), parse_u16 (trim b)) of
             (Some s, Some e) \<Rightarrow> (singles, if s \<le> e then ranges @ [(s, e)] else ranges)
           | _ \<Rightarrow> (singles, ranges))
      | None \<Rightarrow>
          (case parse_u16 trimmed of Some p \<Rightarrow> (singles @ [p], ranges) | None \<Rightarrow> (singles, ranges)))"

definition parse_ports :: "string \<Rightarrow> nat list \<times> (nat \<times> nat) list" where
  "parse_ports s = fold parse_port_part (split_char (CHR '','') s) ([], [])"

definition parse_cidr_pattern :: "string \<Rightarrow> ipv4_cidr option" where
  "parse_cidr_pattern pattern =
     (case split_once (CHR ''/'') pattern of
        Some (a, b) \<Rightarrow>
          let p = (case parse_u8 (trim b) of Some n \<Rightarrow> n | None \<Rightarrow> 32)
          in map_option (\<lambda>ip. ipv4_cidr_new ip p) (parse_ipv4 (trim a))
      | None \<Rightarrow> map_option (\<lambda>ip. ipv4_cidr_new ip 32) (parse_ipv4 (trim pattern)))"

definition parse_condition_kind ::
    "(string \<Rightarrow> 'r option) \<Rightarrow> string \<Rightarrow> string \<Rightarrow> 'r condition_kind option" where
  "parse_condition_kind re_compile kind pattern =
     (let pat_lower = ascii_lower (trim pattern); k = ascii_lower (trim kind) in
      if k = ''geosite'' then Some (CGeoSite (ascii_upper (trim pattern)))
      else if k = ''geoip'' then Some (CGeoIp (ascii_upper (trim pattern)))
      else if k = ''exact'' \<or> k = ''domain_exact'' then Some (CDomainExact pat_lower)
      else if k = ''keyword'' \<or> k = ''domain_keyword'' then Some (CDomainKeyword pat_lower)
      else if k = ''regex'' \<or> k = ''domain_regex'' then
        Some (CDomainRegex pattern (re_compile (trim pattern)))
      else if k = ''cidr'' \<or> k = ''ip_cidr'' then
        Some (CIpCidr pattern (parse_cidr_pattern pattern))
      else if k = ''port'' then (case parse_ports pattern of (s, r) \<Rightarrow> Some (CPort s r))
      else if k = ''protocol'' then Some (CProtocol pat_lower)
      else Some (CDomainSuffix pat_lower))"

subsection \<open>The built-in domain list\<close>

definition cn_domains :: "string list" where
  "cn_domains =
     [
      ''12306.cn'', ''12306.com'', ''126.com'', ''126.net'', ''163.com'', ''163yun.com'',
      ''360.cn'', ''360.com'', ''360buy.com'', ''360buyimg.com'', ''95516.com'', ''alibaba.com'',
      ''alicdn.com'', ''alipay.com'', ''alipayobjects.com'', ''aliyun.com'', ''aliyuncs.com'',
      ''amap.com'', ''autonavi.com'', ''baidu.com'', ''baidubce.com'', ''baiducontent.com'',
      ''bcebos.com'', ''bdstatic.com'', ''bilibili.com'', ''bilibili.tv'', ''biliapi.com'',
      ''biliapi.net'', ''bilivideo.com'', ''bytedance.com'', ''byteimg.com'', ''cainiao.com'',
      ''cctv.com'', ''china.com.cn'', ''chinapay.com'', ''cn'', ''com.cn'', ''csdn.net'',
      ''csdnimg.cn'', ''ctrip.com'', ''dianping.com'', ''didi.cn'', ''didichuxing.com'',
      ''didiglobal.com'', ''douyin.com'', ''douyincdn.com'', ''douyu.com'', ''edu.cn'',
      ''eev2.com'', ''feishu.cn'', ''gifshow.com'', ''gitee.com'', ''gov.cn'', ''gtimg.com'',
      ''gtimg.cn'', ''hdslb.com'', ''heytap.com'', ''huawei.com'', ''huaweicloud.com'',
      ''idqqimg.com'', ''ifeng.com'', ''iqiyi.com'', ''jd.com'', ''jd.hk'', ''kuaishou.com'',
      ''kuaishouzt.com'', ''meituan.com'', ''meituan.net'', ''mil.cn'', ''miui.com'',
      ''myqcloud.com'', ''net.cn'', ''netease.com'', ''oppo.com'', ''org.cn'', ''oschina.net'',
      ''people.com.cn'', ''pinduoduo.com'', ''pstatp.com'', ''qcloud.com'', ''qcloudimg.com'',
      ''qlogo.cn'', ''qpic.cn'', ''qq.com'', ''qq.com.cn'', ''qqmusic.qq.com'', ''qunar.com'',
      ''qzone.com'', ''sankuai.com'', ''sina.com'', ''sina.com.cn'', ''sinaimg.cn'',
      ''sinajs.cn'', ''snssdk.com'', ''sohu.com'', ''szshort.weixin.qq.com'', ''taobao.com'',
      ''taobaocdn.com'', ''tbcdn.cn'', ''tencent.com'', ''tencentmusic.com'', ''tmall.com'',
      ''toutiao.com'', ''unionpay.com'', ''upaiyun.com'', ''vivo.com'', ''wechat.com'',
      ''weibo.com'', ''weibo.cn'', ''weixin.com'', ''weixin.qq.com'', ''wps.cn'',
      ''xiaohongshu.com'', ''xiaomi.com'', ''xhscdn.com'', ''yangkeduo.com'', ''ykimg.com'',
      ''youku.com'', ''yximgs.com'', ''zhihu.com'', ''zhimg.com'']"

record 'r router_env =
  re_geo :: "'r geo_store"
  re_cn_table :: "(u32 \<times> nat) list"
  re_dynamic :: "string \<Rightarrow> bool option"

definition cn_v6 :: "u128 \<Rightarrow> bool" where
  "cn_v6 w \<longleftrightarrow>
     (0x2408 \<le> seg w 0 \<and> seg w 0 \<le> 0x240f)
     \<or> (seg w 0 = 0x2400 \<and> (seg w 1 = 0x3200 \<or> seg w 1 = 0xda00))
     \<or> (seg w 0 = 0x2001 \<and> (seg w 1 = 0xda8 \<or> seg w 1 = 0x250 \<or> seg w 1 = 0xcc0))"

definition is_cn_ip :: "'r router_env \<Rightarrow> ip_addr \<Rightarrow> bool" where
  "is_cn_ip env ip =
     (if fake_ip_addr ip then False
      else if match_geoip (re_geo env) ''CN'' ip then True
      else case ip of V4 w \<Rightarrow> in_cn_table (re_cn_table env) w | V6 w \<Rightarrow> cn_v6 w)"

definition is_trustworthy_cn_answer :: "'r router_env \<Rightarrow> ip_addr \<Rightarrow> bool" where
  "is_trustworthy_cn_answer env ip \<longleftrightarrow> \<not> is_private_ip ip \<and> is_cn_ip env ip"

definition cn_listed :: "string \<Rightarrow> bool" where
  "cn_listed d \<longleftrightarrow> ends_with ''.cn'' d \<or> d = ''cn'' \<or> list_ex (\<lambda>r. under_root r d) cn_domains"

definition is_cn_domain_strict :: "string \<Rightarrow> bool" where
  "is_cn_domain_strict domain =
     (if is_known_non_cn_domain domain then False else cn_listed (norm_domain domain))"

definition is_cn_domain :: "('r \<Rightarrow> string \<Rightarrow> bool) \<Rightarrow> 'r router_env \<Rightarrow> string \<Rightarrow> bool" where
  "is_cn_domain re_match env domain =
     (if is_known_non_cn_domain domain then False
      else if match_geosite re_match (re_geo env) ''CN'' domain then True
      else cn_listed (norm_domain domain))"

subsection \<open>The decision\<close>

datatype decision_source = Lan | GlobalMode | Rule | CnDomain | DynamicLearned | CnIp | Default

record 'r router =
  rt_rules :: "'r composite_rule list"
  rt_default_action :: rule_action
  rt_mode :: nat
  rt_hits :: "string \<rightharpoonup> u64"

definition router_init :: "'r router" where
  "router_init = \<lparr>rt_rules = [], rt_default_action = Proxy, rt_mode = 0, rt_hits = Map.empty\<rparr>"

definition hit_key :: "string \<Rightarrow> string \<Rightarrow> string \<Rightarrow> string" where
  "hit_key i n a = i @ ''|'' @ n @ ''|'' @ a"

definition record_rule_hit :: "string \<Rightarrow> string \<Rightarrow> string \<Rightarrow> 'r router \<Rightarrow> 'r router" where
  "record_rule_hit i n a rt =
     (let k = hit_key i n a; c = (case rt_hits rt k of Some c \<Rightarrow> c | None \<Rightarrow> 0)
      in rt\<lparr>rt_hits := (rt_hits rt)(k \<mapsto> c + 1)\<rparr>)"

text \<open>The rule loop: the first rule that matches, a direct rule passed over when the domain
is a known foreign service.\<close>

fun first_rule ::
    "('r \<Rightarrow> string \<Rightarrow> bool) \<Rightarrow> 'r geo_store \<Rightarrow> flow \<Rightarrow> 'r composite_rule list \<Rightarrow> 'r composite_rule option" where
  "first_rule re_match g f [] = None"
| "first_rule re_match g f (r # rs) =
     (if rule_matches re_match g r f
         \<and> \<not> (cr_action r = Direct \<and> on_some is_known_non_cn_domain (fl_domain f))
      then Some r else first_rule re_match g f rs)"

definition local_dns_vip :: ip_addr where "local_dns_vip = V4 0xC6130035"

type_synonym decision = "rule_action \<times> decision_source \<times> string"

definition lan_decision :: "flow \<Rightarrow> decision option" where
  "lan_decision f =
     (if fl_ip f = Some local_dns_vip then Some (Block, Lan, ''Block: Local DNS Virtual IP TCP'')
      else if on_some is_private_ip (fl_ip f) then Some (Direct, Lan, ''Private IP (LAN)'')
      else if on_some is_lan_or_router_domain (fl_domain f)
        then Some (Direct, Lan, ''Router / LAN Domain'')
      else None)"

definition fallback_decision ::
    "('r \<Rightarrow> string \<Rightarrow> bool) \<Rightarrow> 'r router_env \<Rightarrow> rule_action \<Rightarrow> flow \<Rightarrow> decision" where
  "fallback_decision re_match env default_action f =
     (if on_some (is_cn_domain re_match env) (fl_domain f)
        then (Direct, CnDomain, ''CN Domain (Direct)'')
      else if on_some (\<lambda>d. re_dynamic env d = Some True) (fl_domain f)
        then (Direct, DynamicLearned, ''Dynamic CN Domain (Learned)'')
      else if on_some (is_cn_ip env) (fl_ip f) then (Direct, CnIp, ''CN IP (Direct)'')
      else (default_action, Default, ''Default '' @ action_debug default_action))"

definition route_decision_sourced ::
    "('r \<Rightarrow> string \<Rightarrow> bool) \<Rightarrow> 'r router_env \<Rightarrow> flow \<Rightarrow> 'r router \<Rightarrow> decision \<times> 'r router" where
  "route_decision_sourced re_match env f rt =
     (case lan_decision f of
        Some d \<Rightarrow> (d, rt)
      | None \<Rightarrow>
          if rt_mode rt = 1 then ((Proxy, GlobalMode, ''Global Proxy Override''), rt)
          else if rt_mode rt = 2 then ((Direct, GlobalMode, ''Global Direct Override''), rt)
          else case first_rule re_match (re_geo env) f (rt_rules rt) of
            Some r \<Rightarrow>
              ((cr_action r, Rule, ''Rule: '' @ cr_name r),
               record_rule_hit (cr_id r) (cr_name r) (action_str (cr_action r)) rt)
          | None \<Rightarrow> (fallback_decision re_match env (rt_default_action rt) f, rt))"

definition route_decision ::
    "('r \<Rightarrow> string \<Rightarrow> bool) \<Rightarrow> 'r router_env \<Rightarrow> flow \<Rightarrow> 'r router \<Rightarrow> rule_action" where
  "route_decision re_match env f rt = fst (fst (route_decision_sourced re_match env f rt))"

definition domain_flow :: "string \<Rightarrow> flow" where
  "domain_flow d = \<lparr>fl_domain = Some d, fl_ip = None, fl_port = None, fl_protocol = None\<rparr>"

definition decide_domain ::
    "('r \<Rightarrow> string \<Rightarrow> bool) \<Rightarrow> 'r router_env \<Rightarrow> string \<Rightarrow> 'r router \<Rightarrow> rule_action" where
  "decide_domain re_match env d rt = route_decision re_match env (domain_flow d) rt"

definition should_resolve_upstream ::
    "('r \<Rightarrow> string \<Rightarrow> bool) \<Rightarrow> 'r router_env \<Rightarrow> string \<Rightarrow> 'r router \<Rightarrow> bool" where
  "should_resolve_upstream re_match env domain rt =
     (let d = norm_domain domain in
      if is_known_non_cn_domain d then False
      else if is_lan_or_router_domain d then False
      else if rt_mode rt = 1 then False
      else if rt_mode rt = 2 then True
      else if ends_with ''.cn'' d \<or> ends_with ''.xn--fiqs8s'' d then True
      else if is_cn_domain re_match env d then True
      else if list_ex (\<lambda>r. cr_action r = Direct
                 \<and> rule_matches re_match (re_geo env) r (domain_flow d)) (rt_rules rt) then True
      else re_dynamic env d = Some True)"

subsection \<open>Rule JSON\<close>

datatype json =
  JNull | JBool bool | JNum int | JStr string | JArr "json list" | JObj "(string \<times> json) list"

fun jget :: "string \<Rightarrow> json \<Rightarrow> json option" where
  "jget k (JObj kvs) = map_of kvs k"
| "jget k _ = None"

fun as_str :: "json \<Rightarrow> string option" where
  "as_str (JStr s) = Some s"
| "as_str _ = None"

fun as_bool :: "json \<Rightarrow> bool option" where
  "as_bool (JBool b) = Some b"
| "as_bool _ = None"

fun as_array :: "json \<Rightarrow> json list option" where
  "as_array (JArr l) = Some l"
| "as_array _ = None"

definition get_str :: "string \<Rightarrow> json \<Rightarrow> string option" where
  "get_str k v = Option.bind (jget k v) as_str"

definition get_or :: "'a \<Rightarrow> 'a option \<Rightarrow> 'a" where
  "get_or d x = (case x of None \<Rightarrow> d | Some a \<Rightarrow> a)"

definition kind_of :: "json \<Rightarrow> string option" where
  "kind_of item =
     Option.bind (case jget ''kind'' item of Some k \<Rightarrow> Some k | None \<Rightarrow> jget ''type'' item) as_str"

definition jcond :: "string \<Rightarrow> string \<Rightarrow> json" where
  "jcond t p = JObj [(''type'', JStr t), (''pattern'', JStr p)]"

definition custom_rule_name :: string where
  "custom_rule_name = [CHR 0xE8, CHR 0x87, CHR 0xAA, CHR 0xE5, CHR 0xAE, CHR 0x9A, 
      CHR 0xE4, CHR 0xB9, CHR 0x89, CHR 0xE8, CHR 0xA7, CHR 0x84, 
      CHR 0xE5, CHR 0x88, CHR 0x99]"

definition sys_lan_rule :: json where
  "sys_lan_rule = JObj
     [(''id'', JStr ''sys_lan_private_direct''),
      (''name'', JStr ([CHR 0xE5, CHR 0xB1, CHR 0x80, CHR 0xE5, CHR 0x9F, CHR 0x9F, 
      CHR 0xE7, CHR 0xBD, CHR 0x91, CHR 0xE4, CHR 0xB8, CHR 0x8E, 
      CHR 0xE8, CHR 0xB7, CHR 0xAF, CHR 0xE7, CHR 0x94, CHR 0xB1, 
      CHR 0xE5, CHR 0x99, CHR 0xA8, CHR 0xE7, CHR 0xA7, CHR 0x81, 
      CHR 0xE6, CHR 0x9C, CHR 0x89, CHR 0xE5, CHR 0x9C, CHR 0xB0, 
      CHR 0xE5, CHR 0x9D, CHR 0x80, CHR 0xE7, CHR 0x9B, CHR 0xB4, 
      CHR 0xE8, CHR 0xBF, CHR 0x9E] @ '' ('' @ [CHR 0xE7, CHR 0xB3, CHR 0xBB, CHR 0xE7, CHR 0xBB, CHR 0x9F, 
      CHR 0xE4, CHR 0xBF, CHR 0x9D, CHR 0xE6, CHR 0x8A, CHR 0xA4
      ] @ '')'')),
      (''enabled'', JBool True), (''action'', JStr ''direct''), (''logic'', JStr ''OR''),
      (''conditions'', JArr [jcond ''geoip'' ''PRIVATE'', jcond ''geosite'' ''PRIVATE''])]"

definition sys_fake_rule :: json where
  "sys_fake_rule = JObj
     [(''id'', JStr ''sys_fake_ip_guard''),
      (''name'', JStr (''Fake-IP '' @ [CHR 0xE8, CHR 0x99, CHR 0x9A, CHR 0xE6, CHR 0x8B, CHR 0x9F, 
      CHR 0xE7, CHR 0xBD, CHR 0x91, CHR 0xE6, CHR 0xAE, CHR 0xB5, 
      CHR 0xE4, CHR 0xBB, CHR 0xA3, CHR 0xE7, CHR 0x90, CHR 0x86, 
      CHR 0xE4, CHR 0xBF, CHR 0x9D, CHR 0xE6, CHR 0x8A, CHR 0xA4
      ] @ '' ('' @ [CHR 0xE7, CHR 0xB3, CHR 0xBB, CHR 0xE7, CHR 0xBB, CHR 0x9F, 
      CHR 0xE4, CHR 0xBF, CHR 0x9D, CHR 0xE6, CHR 0x8A, CHR 0xA4
      ] @ '')'')),
      (''enabled'', JBool True), (''action'', JStr ''proxy''), (''logic'', JStr ''OR''),
      (''conditions'', JArr [jcond ''cidr'' ''198.18.0.0/15''])]"

definition clean_condition :: "(string \<Rightarrow> 'r option) \<Rightarrow> json \<Rightarrow> json option" where
  "clean_condition re_compile cond =
     (let t = trim (get_or [] (get_str ''type'' cond)); p = trim (get_or [] (get_str ''pattern'' cond))
      in if t \<noteq> [] \<and> p \<noteq> [] \<and> parse_condition_kind re_compile t p \<noteq> None
         then Some (jcond t p) else None)"

definition valid_conditions :: "(string \<Rightarrow> 'r option) \<Rightarrow> json \<Rightarrow> json list" where
  "valid_conditions re_compile item =
     (case Option.bind (jget ''conditions'' item) as_array of
        Some conds \<Rightarrow> List.map_filter (clean_condition re_compile) conds
      | None \<Rightarrow>
          (case (kind_of item, get_str ''pattern'' item) of
             (Some k, Some p) \<Rightarrow>
               if trim k \<noteq> [] \<and> trim p \<noteq> [] \<and> parse_condition_kind re_compile k p \<noteq> None
               then [jcond (trim k) (trim p)] else []
           | _ \<Rightarrow> []))"

definition clean_rule :: "(string \<Rightarrow> 'r option) \<Rightarrow> nat \<times> json \<Rightarrow> json option" where
  "clean_rule re_compile e =
     (case e of (idx, item) \<Rightarrow>
      let i = get_or [] (get_str ''id'' item) in
      if starts_with ''sys_'' i then None
      else let conds = valid_conditions re_compile item in
        if conds = [] then None
        else Some (JObj
          [(''id'', JStr (if i = [] then ''user_rule_'' @ show_nat idx else i)),
           (''name'', JStr (get_or custom_rule_name (get_str ''name'' item))),
           (''enabled'', JBool (get_or True (Option.bind (jget ''enabled'' item) as_bool))),
           (''action'', JStr (get_or ''proxy'' (get_str ''action'' item))),
           (''logic'', JStr (get_or ''OR'' (get_str ''logic'' item))),
           (''conditions'', JArr conds)]))"

definition sanitized_rules :: "(string \<Rightarrow> 'r option) \<Rightarrow> json \<Rightarrow> json" where
  "sanitized_rules re_compile parsed =
     (let items = get_or [] (Option.bind (jget ''rules'' parsed) as_array)
      in JObj
        [(''rules'', JArr ([sys_lan_rule]
            @ List.map_filter (clean_rule re_compile) (enumerate 0 items) @ [sys_fake_rule])),
         (''default_action'', JStr (get_or ''proxy'' (get_str ''default_action'' parsed)))])"

definition strip_and_inject_rules ::
    "(string \<Rightarrow> 'r option) \<Rightarrow> (string \<Rightarrow> json option) \<Rightarrow> (json \<Rightarrow> string) \<Rightarrow> string \<Rightarrow> string" where
  "strip_and_inject_rules re_compile parse print raw =
     print (sanitized_rules re_compile
       (case parse raw of
          Some v \<Rightarrow> v
        | None \<Rightarrow> JObj [(''rules'', JArr []), (''default_action'', JStr ''proxy'')]))"

definition build_conditions :: "(string \<Rightarrow> 'r option) \<Rightarrow> json \<Rightarrow> 'r condition_kind list" where
  "build_conditions re_compile item =
     (case Option.bind (jget ''conditions'' item) as_array of
        Some conds \<Rightarrow>
          List.map_filter (\<lambda>cond.
            case (get_str ''type'' cond, get_str ''pattern'' cond) of
              (Some t, Some p) \<Rightarrow> parse_condition_kind re_compile t p
            | _ \<Rightarrow> None) conds
      | None \<Rightarrow>
          (case (kind_of item, get_str ''pattern'' item) of
             (Some k, Some p) \<Rightarrow> (case parse_condition_kind re_compile k p of Some c \<Rightarrow> [c] | None \<Rightarrow> [])
           | _ \<Rightarrow> []))"

definition build_rule :: "(string \<Rightarrow> 'r option) \<Rightarrow> nat \<times> json \<Rightarrow> 'r composite_rule option" where
  "build_rule re_compile e =
     (case e of (idx, item) \<Rightarrow>
      let conds = build_conditions re_compile item in
      if conds = [] then None
      else Some
        \<lparr>cr_id = get_or (''rule_'' @ show_nat idx) (get_str ''id'' item),
         cr_name = get_or (get_or custom_rule_name (get_str ''pattern'' item)) (get_str ''name'' item),
         cr_enabled = get_or True (Option.bind (jget ''enabled'' item) as_bool),
         cr_logic = logic_from_str (get_or ''OR'' (get_str ''logic'' item)),
         cr_conditions = conds,
         cr_action = action_from_str (get_or ''proxy'' (get_str ''action'' item))\<rparr>)"

definition key_id :: "string \<Rightarrow> string" where
  "key_id k = (case split_once (CHR ''|'') k of Some (i, _) \<Rightarrow> i | None \<Rightarrow> k)"

definition install_rules :: "(string \<Rightarrow> 'r option) \<Rightarrow> json \<Rightarrow> 'r router \<Rightarrow> 'r router" where
  "install_rules re_compile v rt =
     (let new_rules = List.map_filter (build_rule re_compile)
            (enumerate 0 (get_or [] (Option.bind (jget ''rules'' v) as_array)));
          valid_ids = set (map cr_id new_rules)
      in rt\<lparr>rt_rules := new_rules,
            rt_default_action :=
              (case get_str ''default_action'' v of Some s \<Rightarrow> action_from_str s | None \<Rightarrow> Proxy),
            rt_hits := (\<lambda>k. if key_id k \<in> valid_ids then rt_hits rt k else None)\<rparr>)"

definition set_custom_rules ::
    "(string \<Rightarrow> 'r option) \<Rightarrow> (string \<Rightarrow> json option) \<Rightarrow> (json \<Rightarrow> string) \<Rightarrow> string \<Rightarrow> 'r router
      \<Rightarrow> bool \<times> 'r router" where
  "set_custom_rules re_compile parse print raw rt =
     (case parse (strip_and_inject_rules re_compile parse print raw) of
        None \<Rightarrow> (False, rt)
      | Some v \<Rightarrow> (True, install_rules re_compile v rt))"

subsection \<open>Facts about the decision\<close>

lemma first_rule_find:
  "first_rule re_match g f rs =
     find (\<lambda>r. rule_matches re_match g r f
        \<and> \<not> (cr_action r = Direct \<and> on_some is_known_non_cn_domain (fl_domain f))) rs"
  by (induction rs) auto

lemma first_rule_Some:
  "first_rule re_match g f rs = Some r \<longleftrightarrow>
     (\<exists>i<length rs. rs ! i = r \<and> rule_matches re_match g r f
        \<and> \<not> (cr_action r = Direct \<and> on_some is_known_non_cn_domain (fl_domain f))
        \<and> (\<forall>j<i. \<not> (rule_matches re_match g (rs ! j) f
              \<and> \<not> (cr_action (rs ! j) = Direct \<and> on_some is_known_non_cn_domain (fl_domain f)))))"
  unfolding first_rule_find find_Some_iff by auto

lemmas decision_defs = route_decision_sourced_def lan_decision_def fallback_decision_def

lemma on_some_simps [simp]: "on_some P None \<longleftrightarrow> False" "on_some P (Some a) \<longleftrightarrow> P a"
  by (simp_all add: on_some_def)

lemma on_some_iff: "on_some P x \<longleftrightarrow> (\<exists>a. x = Some a \<and> P a)"
  by (cases x) simp_all

lemma known_foreign_not_cn: "is_known_non_cn_domain d \<Longrightarrow> \<not> is_cn_domain re_match env d"
  by (simp add: is_cn_domain_def)

lemma norm_known: "is_known_non_cn_domain (norm_domain d) = is_known_non_cn_domain d"
  "is_lan_or_router_domain (norm_domain d) = is_lan_or_router_domain d"
  by (simp_all add: is_known_non_cn_domain_def is_lan_or_router_domain_def)

subsection \<open>Installing rules\<close>

lemma map_filter_append [simp]: "List.map_filter f (xs @ ys) = List.map_filter f xs @ List.map_filter f ys"
  by (simp add: List.map_filter_def)

lemma set_map_filter: "set (List.map_filter f xs) = {b. \<exists>a\<in>set xs. f a = Some b}"
  by (auto simp: List.map_filter_def image_iff split: option.splits) (metis option.sel option.simps(3))

lemma enumerate_append: "enumerate n (xs @ ys) = enumerate n xs @ enumerate (n + length xs) ys"
  by (induction xs arbitrary: n) simp_all

lemma trim_word [simp]: "s \<noteq> [] \<Longrightarrow> \<forall>c\<in>set s. 33 \<le> code c \<and> code c \<le> 127 \<Longrightarrow> trim s = s"
  by (rule trim_graphic) auto

lemma build_lan_rule:
  "build_rule rc (n, sys_lan_rule) = Some \<lparr>cr_id = ''sys_lan_private_direct'',
     cr_name = the (get_str ''name'' sys_lan_rule), cr_enabled = True, cr_logic = LogicOr,
     cr_conditions = [CGeoIp ''PRIVATE'', CGeoSite ''PRIVATE''], cr_action = Direct\<rparr>"
proof -
  have e: "ascii_lower ''geoip'' = ''geoip''" "ascii_lower ''geosite'' = ''geosite''"
    "ascii_upper ''PRIVATE'' = ''PRIVATE''" "ascii_lower ''direct'' = ''direct''" "ascii_upper ''OR'' = ''OR''"
    by code_simp+
  show ?thesis
    by (simp add: build_rule_def sys_lan_rule_def build_conditions_def jcond_def get_str_def
        List.map_filter_def parse_condition_kind_def Let_def e get_or_def logic_from_str_def
        action_from_str_def)
qed

lemma fake_guard_cidr: "parse_cidr_pattern ''198.18.0.0/15'' = Some (ipv4_cidr_new 0xC6120000 15)"
proof -
  have s: "split_once (CHR ''/'') ''198.18.0.0/15'' = Some (''198.18.0.0'', ''15'')" by simp
  have p: "parse_ipv4 ''198.18.0.0'' = Some 0xC6120000" "parse_u8 ''15'' = Some 15"
    by (simp_all add: parse_ipv4_def read_ipv4_addr_def read_octet_def read_sep_octet_def
        read_number_def is_radix_digit_def to_digit_def read_given_char_def of_be32_def
        parse_radix_def)
  show ?thesis by (simp add: parse_cidr_pattern_def s p)
qed

lemma build_fake_rule:
  "build_rule rc (n, sys_fake_rule) = Some \<lparr>cr_id = ''sys_fake_ip_guard'',
     cr_name = the (get_str ''name'' sys_fake_rule), cr_enabled = True, cr_logic = LogicOr,
     cr_conditions = [CIpCidr ''198.18.0.0/15'' (Some (ipv4_cidr_new 0xC6120000 15))],
     cr_action = Proxy\<rparr>"
proof -
  have e: "ascii_lower ''cidr'' = ''cidr''" "ascii_lower ''proxy'' = ''proxy''" "ascii_upper ''OR'' = ''OR''"
    by code_simp+
  show ?thesis
    by (simp add: build_rule_def sys_fake_rule_def build_conditions_def jcond_def get_str_def
        List.map_filter_def parse_condition_kind_def Let_def e get_or_def logic_from_str_def
        action_from_str_def fake_guard_cidr)
qed

lemma fake_guard_never_matches:
  "build_rule rc (n, sys_fake_rule) = Some r \<Longrightarrow> \<not> rule_matches re_match g r f"
proof -
  have m: "shl_mask4 15 = 0xFFFE0000" "(0xC6120000 :: u32) AND 0xFFFE0000 = 0xC6120000"
    by code_simp+
  have "ipv4_cidr_contains (ipv4_cidr_new 0xC6120000 15) v \<longleftrightarrow> is_fake_v4 v" for v
    by (simp only: ipv4_cidr_contains_def ipv4_cidr_new_def is_fake_v4_def m ipv4_cidr.select_convs)
  then show "build_rule rc (n, sys_fake_rule) = Some r \<Longrightarrow> \<not> rule_matches re_match g r f"
    unfolding build_fake_rule by (auto simp: rule_matches_def split: option.splits ip_addr.splits)
qed

lemma build_rule_conditions: "build_rule rc e = Some r \<Longrightarrow> cr_conditions r \<noteq> []"
  by (auto simp: build_rule_def Let_def split: prod.splits if_splits)

lemma clean_rule_id:
  assumes "clean_rule rc e = Some v" "build_rule rc (n, v) = Some r"
  shows "\<not> starts_with ''sys_'' (cr_id r)"
proof -
  obtain idx item where e: "e = (idx, item)" by (cases e)
  let ?i = "get_or [] (get_str ''id'' item)"
  have "cr_id r = (if ?i = [] then ''user_rule_'' @ show_nat idx else ?i)" "\<not> starts_with ''sys_'' ?i"
    using assms by (auto simp: e clean_rule_def build_rule_def Let_def get_str_def get_or_def
        split: if_splits)
  then show ?thesis by (simp add: starts_with_def)
qed

subsection \<open>Properties\<close>

text \<open>C5. The LAN is out of reach of every mode and every rule: a flow to a private address
other than the DNS address goes direct, a flow to the local DNS address is blocked, and
a LAN or router name without a private address goes direct too; no state changes.\<close>
theorem lan_is_never_proxied:
  "(fl_ip f = Some local_dns_vip \<longrightarrow>
      route_decision_sourced re_match env f rt = ((Block, Lan, ''Block: Local DNS Virtual IP TCP''), rt))
   \<and> (fl_ip f = Some ip \<and> ip \<noteq> local_dns_vip \<and> is_private_ip ip \<longrightarrow>
      route_decision_sourced re_match env f rt = ((Direct, Lan, ''Private IP (LAN)''), rt))
   \<and> (fl_domain f = Some d \<and> is_lan_or_router_domain d \<and> fl_ip f \<noteq> Some local_dns_vip \<longrightarrow>
      route_decision re_match env f rt = Direct)"
  by (auto simp: route_decision_def decision_defs on_some_iff)

text \<open>First match wins: in rule mode, outside the LAN, the decision is that of the first
rule in the list that matches and is not a direct rule for a known foreign service, its
counter is the only state that changes, and without such a rule the fallback chain decides.\<close>
theorem first_match_wins:
  assumes "lan_decision f = None" and "rt_mode rt \<noteq> 1" and "rt_mode rt \<noteq> 2"
  shows "(case first_rule re_match (re_geo env) f (rt_rules rt) of
      Some r \<Rightarrow>
        (\<exists>i<length (rt_rules rt). rt_rules rt ! i = r \<and> rule_matches re_match (re_geo env) r f
          \<and> (\<forall>j<i. rule_matches re_match (re_geo env) (rt_rules rt ! j) f \<longrightarrow>
                cr_action (rt_rules rt ! j) = Direct
                \<and> on_some is_known_non_cn_domain (fl_domain f)))
        \<and> route_decision_sourced re_match env f rt
            = ((cr_action r, Rule, ''Rule: '' @ cr_name r),
               record_rule_hit (cr_id r) (cr_name r) (action_str (cr_action r)) rt)
    | None \<Rightarrow> route_decision_sourced re_match env f rt
        = (fallback_decision re_match env (rt_default_action rt) f, rt))"
proof (cases "first_rule re_match (re_geo env) f (rt_rules rt)")
  case None
  then show ?thesis using assms by (simp add: route_decision_sourced_def)
next
  case (Some r)
  then show ?thesis
    using assms first_rule_Some [of re_match "re_geo env" f "rt_rules rt" r]
    by (auto simp: route_decision_sourced_def)
qed

text \<open>A known foreign service is never sent direct by a rule or by the domain lists: when
the decision for it is direct, that is the LAN exemption, the user's global direct mode, a
learned answer, the address itself being a Chinese one, or a direct default.\<close>
theorem foreign_never_direct_by_rule:
  assumes "fl_domain f = Some d" and "is_known_non_cn_domain d"
    and "fst (route_decision_sourced re_match env f rt) = (Direct, src, detail)"
  shows "src = Lan \<or> (src = GlobalMode \<and> rt_mode rt = 2)
    \<or> (src = DynamicLearned \<and> re_dynamic env d = Some True)
    \<or> (src = CnIp \<and> on_some (is_cn_ip env) (fl_ip f))
    \<or> (src = Default \<and> rt_default_action rt = Direct)"
proof -
  have "cr_action r \<noteq> Direct" if "first_rule re_match (re_geo env) f (rt_rules rt) = Some r" for r
    using that assms(1,2) unfolding first_rule_Some by auto
  moreover have "\<not> is_cn_domain re_match env d" using assms(2) by (rule known_foreign_not_cn)
  ultimately show ?thesis
    using assms by (auto simp: decision_defs split: if_splits option.splits)
qed

text \<open>Upstream DNS is guarded: a name is sent to the domestic resolvers only when it is
neither a known foreign service nor a LAN name and the global proxy mode is off.\<close>
theorem upstream_guard:
  assumes "should_resolve_upstream re_match env domain rt"
  shows "\<not> is_known_non_cn_domain domain \<and> \<not> is_lan_or_router_domain domain \<and> rt_mode rt \<noteq> 1"
  using assms by (auto simp: should_resolve_upstream_def Let_def norm_known split: if_splits)

text \<open>Condition parsing accepts everything: no condition is rejected, so the sanitising
step drops only blank types and patterns.\<close>
theorem condition_never_rejected: "parse_condition_kind re_compile kind pattern \<noteq> None"
  by (simp add: parse_condition_kind_def Let_def split: prod.splits)

text \<open>What a rule update installs: the LAN protection rule comes first and the fake-IP
guard last, no rule in between carries a reserved identifier, no rule is empty, and hit
counters survive only for identifiers of installed rules, provided the JSON library reads
back the document it has just printed.\<close>
theorem installed_rules:
  assumes "parse (strip_and_inject_rules re_compile parse print raw)
      = Some (sanitized_rules re_compile v)"
    and "set_custom_rules re_compile parse print raw rt = (ok, rt')"
  shows "ok \<and> (\<exists>lan users guard. rt_rules rt' = lan # users @ [guard]
      \<and> cr_id lan = ''sys_lan_private_direct'' \<and> cr_action lan = Direct
      \<and> cr_conditions lan = [CGeoIp ''PRIVATE'', CGeoSite ''PRIVATE'']
      \<and> cr_id guard = ''sys_fake_ip_guard'' \<and> cr_action guard = Proxy
      \<and> (\<forall>r\<in>set users. \<not> starts_with ''sys_'' (cr_id r) \<and> cr_conditions r \<noteq> []))
    \<and> (\<forall>k\<in>dom (rt_hits rt'). key_id k \<in> cr_id ` set (rt_rules rt'))"
proof -
  let ?users = "List.map_filter (clean_rule re_compile)
      (enumerate 0 (get_or [] (Option.bind (jget ''rules'' v) as_array)))"
  let ?docs = "[sys_lan_rule] @ ?users @ [sys_fake_rule]"
  let ?built = "List.map_filter (build_rule re_compile) (enumerate 1 ?users)"
  have docs: "get_or [] (Option.bind (jget ''rules'' (sanitized_rules re_compile v)) as_array) = ?docs"
    by (simp add: sanitized_rules_def get_or_def Let_def)
  have rt': "ok" "rt' = install_rules re_compile (sanitized_rules re_compile v) rt"
    using assms by (simp_all add: set_custom_rules_def)
  have "rt_rules rt' = List.map_filter (build_rule re_compile) (enumerate 0 ?docs)"
    using docs by (simp add: rt'(2) install_rules_def Let_def)
  also have "enumerate 0 ?docs = (0, sys_lan_rule) # enumerate 1 ?users @ [(Suc (length ?users), sys_fake_rule)]"
    by (simp add: enumerate_append)
  finally obtain lan guard where
    rules: "rt_rules rt' = lan # ?built @ [guard]"
    and lan: "build_rule re_compile (0, sys_lan_rule) = Some lan"
    and guard: "build_rule re_compile (Suc (length ?users), sys_fake_rule) = Some guard"
    using build_lan_rule [of re_compile 0] build_fake_rule [of re_compile "Suc (length ?users)"]
    by (auto simp: List.map_filter_def)
  have users: "\<not> starts_with ''sys_'' (cr_id r) \<and> cr_conditions r \<noteq> []" if r: "r \<in> set ?built" for r
  proof -
    obtain n u where u: "(n, u) \<in> set (enumerate 1 ?users)" "build_rule re_compile (n, u) = Some r"
      using r by (auto simp: set_map_filter)
    then have "u \<in> set ?users" by (auto simp: in_set_enumerate_eq)
    then obtain e where "clean_rule re_compile e = Some u" by (auto simp: set_map_filter)
    then show ?thesis using clean_rule_id u(2) build_rule_conditions by blast
  qed
  have hits: "\<forall>k\<in>dom (rt_hits rt'). key_id k \<in> cr_id ` set (rt_rules rt')"
    by (auto simp: rt'(2) install_rules_def Let_def split: if_splits)
  show ?thesis
    using rt'(1) rules users hits lan guard
    unfolding build_lan_rule build_fake_rule by auto
qed

text \<open>The injected fake-IP guard is dead: the rule built from it matches no flow at all,
because address conditions skip exactly the range it lists.\<close>
theorem fake_guard_is_dead:
  assumes "build_rule re_compile (n, sys_fake_rule) = Some r"
  shows "\<not> rule_matches re_match g r f"
  by (rule fake_guard_never_matches [OF assms])

text \<open>The address evidence overrides the foreign-service guard: with no matching rule, a
flow that carries the name of a known foreign service is sent direct as \<open>CnIp\<close> whenever its
address is a Chinese one, although that source is documented for flows without a name.\<close>
theorem cn_ip_overrides_foreign_name:
  assumes "fl_domain f = Some d" and "is_known_non_cn_domain d" and "fl_ip f = Some ip"
    and "is_cn_ip env ip" and "lan_decision f = None" and "re_dynamic env d \<noteq> Some True"
    and "rt_mode rt = 0" and "first_rule re_match (re_geo env) f (rt_rules rt) = None"
  shows "route_decision_sourced re_match env f rt = ((Direct, CnIp, ''CN IP (Direct)''), rt)"
  using assms known_foreign_not_cn [OF assms(2), of re_match env]
  by (simp add: route_decision_sourced_def fallback_decision_def)

definition demo_env :: "unit router_env" where
  "demo_env = \<lparr>re_geo = geo_empty, re_cn_table = demo_table, re_dynamic = (\<lambda>_. None)\<rparr>"

definition demo_flow :: "string option \<Rightarrow> u32 \<Rightarrow> flow" where
  "demo_flow d w = \<lparr>fl_domain = d, fl_ip = Some (V4 w), fl_port = Some 443, fl_protocol = Some ''tcp''\<rparr>"

definition demo_rule :: "string \<Rightarrow> rule_action \<Rightarrow> unit composite_rule" where
  "demo_rule s a = \<lparr>cr_id = ''r'', cr_name = ''n'', cr_enabled = True, cr_logic = LogicOr,
     cr_conditions = [CDomainSuffix s], cr_action = a\<rparr>"

abbreviation no_re :: "unit \<Rightarrow> string \<Rightarrow> bool" where "no_re \<equiv> \<lambda>_ _. False"

lemma demo_names:
  "is_known_non_cn_domain ''www.google.com''" "\<not> is_lan_or_router_domain ''www.google.com''"
  "norm_domain ''www.google.com'' = ''www.google.com''"
  by code_simp+

lemma demo_addresses:
  "is_private_ip (V4 0xC0A80101)" "\<not> is_private_ip (V4 0x01000401)" "\<not> fake_ip_addr (V4 0x01000401)"
  "\<not> is_private_ip (V4 0x08080808)" "V4 0xC0A80101 \<noteq> local_dns_vip" "V4 0x01000401 \<noteq> local_dns_vip"
  "V4 0x08080808 \<noteq> local_dns_vip"
  by code_simp+

lemma demo_lan: "lan_decision (demo_flow (Some ''www.google.com'') 0x01000401) = None"
  "lan_decision (demo_flow (Some ''www.google.com'') 0x08080808) = None"
  using demo_names demo_addresses by (simp_all add: lan_decision_def demo_flow_def)

theorem lan_is_never_proxied_witness:
  "route_decision_sourced no_re demo_env (demo_flow None 0xC0A80101) (router_init\<lparr>rt_mode := 1\<rparr>)
     = ((Direct, Lan, ''Private IP (LAN)''), router_init\<lparr>rt_mode := 1\<rparr>)"
  using lan_is_never_proxied [of "demo_flow None 0xC0A80101" no_re demo_env "router_init\<lparr>rt_mode := 1\<rparr>"
      "V4 0xC0A80101"] demo_addresses
  by (auto simp: demo_flow_def)

definition demo_router :: "unit router" where
  "demo_router = router_init\<lparr>rt_rules := [demo_rule ''google.com'' Direct, demo_rule ''google.com'' Block]\<rparr>"

lemma demo_router_simps [simp]: "rt_mode demo_router = 0" "rt_default_action demo_router = Proxy"
  by (simp_all add: demo_router_def router_init_def)

lemma demo_first_rule:
  "first_rule no_re (re_geo demo_env) (demo_flow (Some ''www.google.com'') w) (rt_rules demo_router)
     = Some (demo_rule ''google.com'' Block)"
  using demo_names
  by (simp add: demo_router_def demo_rule_def demo_flow_def rule_matches_def under_root_def
      ends_with_def strip_suffix_def)

theorem first_match_wins_witness:
  "route_decision no_re demo_env (demo_flow (Some ''www.google.com'') 0x08080808) demo_router = Block"
  using first_match_wins [OF demo_lan(2), of demo_router no_re demo_env]
  by (simp add: demo_first_rule route_decision_def demo_rule_def)

theorem foreign_never_direct_by_rule_witness:
  "\<exists>src detail. fst (route_decision_sourced no_re demo_env (demo_flow (Some ''www.google.com'') 0x01000401)
      (router_init\<lparr>rt_rules := [demo_rule ''google.com'' Direct]\<rparr>)) = (Direct, src, detail) \<and> src = CnIp"
proof -
  let ?f = "demo_flow (Some ''www.google.com'') 0x01000401"
  let ?rt = "router_init\<lparr>rt_rules := [demo_rule ''google.com'' Direct]\<rparr> :: unit router"
  have cn: "is_cn_ip demo_env (V4 0x01000401)"
  proof -
    have "\<forall>(net, p)\<in>set demo_table. p \<le> 32" by (simp add: demo_table_def)
    moreover have "(0x01000401 :: u32) AND mask4 24 = 0x01000400 AND mask4 24" by code_simp
    ultimately have "in_cn_table demo_table 0x01000401"
      by (auto simp: in_cn_table_iff demo_table_def)
    then show ?thesis using demo_addresses by (simp add: is_cn_ip_def demo_env_def)
  qed
  have fr: "first_rule no_re (re_geo demo_env) ?f (rt_rules ?rt) = None"
    using demo_names by (simp add: demo_rule_def demo_flow_def)
  have d: "fst (route_decision_sourced no_re demo_env ?f ?rt) = (Direct, CnIp, ''CN IP (Direct)'')"
    using cn fr known_foreign_not_cn [OF demo_names(1), of no_re demo_env] demo_lan(1)
    by (simp add: route_decision_sourced_def fallback_decision_def)
      (simp add: demo_flow_def demo_env_def router_init_def)
  have "fl_domain ?f = Some ''www.google.com''" by (simp add: demo_flow_def)
  from foreign_never_direct_by_rule [OF this demo_names(1) d] d show ?thesis by simp
qed

theorem cn_ip_overrides_foreign_name_witness:
  "\<exists>rt. route_decision_sourced no_re (demo_env\<lparr>re_cn_table := [(0x08000000, 8)]\<rparr>)
     (demo_flow (Some ''www.google.com'') 0x08080808) rt = ((Direct, CnIp, ''CN IP (Direct)''), rt)"
proof -
  let ?env = "demo_env\<lparr>re_cn_table := [(0x08000000, 8)]\<rparr>"
  let ?f = "demo_flow (Some ''www.google.com'') 0x08080808"
  have "(0x08080808 :: u32) AND mask4 8 = 0x08000000 AND mask4 8" "\<not> fake_ip_addr (V4 0x08080808)"
    by code_simp+
  then have "is_cn_ip ?env (V4 0x08080808)"
    by (simp add: is_cn_ip_def in_cn_table_iff)
  moreover have "fl_domain ?f = Some ''www.google.com''" "fl_ip ?f = Some (V4 0x08080808)"
    by (simp_all add: demo_flow_def)
  ultimately have "route_decision_sourced no_re ?env ?f router_init = ((Direct, CnIp, ''CN IP (Direct)''), router_init)"
    by (intro cn_ip_overrides_foreign_name [OF _ demo_names(1) _ _ demo_lan(2)])
      (simp_all add: demo_env_def router_init_def)
  then show ?thesis by blast
qed

theorem upstream_guard_witness: "\<not> is_known_non_cn_domain ''www.baidu.com''"
proof -
  have n: "norm_domain ''www.baidu.com'' = ''www.baidu.com''" "\<not> is_known_non_cn_domain ''www.baidu.com''"
    "\<not> is_lan_or_router_domain ''www.baidu.com''" "cn_listed ''www.baidu.com''"
    by code_simp+
  have "should_resolve_upstream no_re demo_env ''www.baidu.com'' router_init"
    by (simp add: should_resolve_upstream_def n is_cn_domain_def router_init_def)
  from upstream_guard [OF this] show ?thesis by simp
qed

theorem installed_rules_witness:
  "\<exists>rt'. set_custom_rules (\<lambda>_. None :: unit option)
      (\<lambda>s. if s = ''doc'' then Some (sanitized_rules (\<lambda>_. None :: unit option) (JObj [])) else Some (JObj []))
      (\<lambda>_. ''doc'') ''raw'' router_init = (True, rt')
    \<and> cr_id (hd (rt_rules rt')) = ''sys_lan_private_direct''"
proof -
  let ?rc = "\<lambda>_ :: string. None :: unit option"
  let ?parse = "\<lambda>s. if s = ''doc'' then Some (sanitized_rules ?rc (JObj [])) else Some (JObj [])"
  have p: "?parse (strip_and_inject_rules ?rc ?parse (\<lambda>_. ''doc'') ''raw'') = Some (sanitized_rules ?rc (JObj []))"
    by (simp add: strip_and_inject_rules_def)
  obtain ok rt' where sr: "set_custom_rules ?rc ?parse (\<lambda>_. ''doc'') ''raw'' router_init = (ok, rt')"
    by (cases "set_custom_rules ?rc ?parse (\<lambda>_. ''doc'') ''raw'' router_init")
  from installed_rules [OF p sr] show ?thesis using sr by auto
qed

theorem fake_guard_is_dead_witness:
  "\<exists>r. build_rule (\<lambda>_. None :: unit option) (0, sys_fake_rule) = Some r
     \<and> \<not> rule_matches no_re geo_empty r (demo_flow None 0xC6120005)"
proof -
  obtain r where r: "build_rule (\<lambda>_. None :: unit option) (0, sys_fake_rule) = Some r"
    by (simp add: build_fake_rule)
  from fake_guard_is_dead [OF r] r show ?thesis by blast
qed
end
