(* ===== verification/Packets.thy ===== *)
theory Packets
  imports NetTypes
begin

text \<open>The IP packets the tunnel writes back to the TUN device
(\<open>src/native/mirage-core/src/tun/udp.rs\<close>): the internet checksum, UDP replies over IPv4
and IPv6, and ICMP port unreachable. The builders write into a zeroed buffer as the
source does; a \<open>_bytes\<close> lemma gives each packet as its fields in order. The receiver's
readings \<open>read_ipv4_udp\<close> and \<open>read_ipv6_udp\<close> are the specification they are checked
against.\<close>

subsection \<open>The internet checksum\<close>

fun pair_sum :: "bytes \<Rightarrow> u32 \<Rightarrow> u32" where
  "pair_sum (a # b # r) s = pair_sum r (s + ucast (of_be16 a b))"
| "pair_sum [b] s = s + push_bit 8 (ucast b)"
| "pair_sum [] s = s"

lemma fold_carry_decreases:
  fixes s :: u32
  assumes "drop_bit 16 s \<noteq> 0"
  shows "unat ((s AND mask 16) + drop_bit 16 s) < unat s"
    and "unat ((s AND mask 16) + drop_bit 16 s) = unat s mod 65536 + unat s div 65536"
proof -
  let ?n = "unat s"
  have b: "?n < 2 ^ 32" using unsigned_less [of s] by simp
  have d: "unat (drop_bit 16 s) = ?n div 65536" by (simp add: unat_drop_bit)
  have m: "unat (s AND mask 16) = ?n mod 65536"
    using unat_and_mask [of s 16] by simp
  have small: "?n mod 65536 + ?n div 65536 < 2 ^ 32"
  proof -
    have "?n div 65536 < 65536" using b by (simp add: less_mult_imp_div_less)
    moreover have "?n mod 65536 < 65536" by simp
    ultimately show ?thesis by simp
  qed
  show e: "unat ((s AND mask 16) + drop_bit 16 s) = ?n mod 65536 + ?n div 65536"
    using small by (simp add: unat_word_ariths d m)
  have "0 < ?n div 65536" using assms d by (metis neq0_conv unat_eq_zero)
  moreover have "?n = 65536 * (?n div 65536) + ?n mod 65536" by simp
  ultimately show "unat ((s AND mask 16) + drop_bit 16 s) < ?n" unfolding e by linarith
qed

function fold_carry :: "u32 \<Rightarrow> u32" where
  "fold_carry s =
     (if drop_bit 16 s \<noteq> 0 then fold_carry ((s AND mask 16) + drop_bit 16 s) else s)"
  by pat_completeness auto
termination
  by (relation "measure unat") (auto intro: fold_carry_decreases)

declare fold_carry.simps [simp del]

definition checksum :: "bytes \<Rightarrow> u16" where
  "checksum d = NOT (ucast (fold_carry (pair_sum d 0)))"

text \<open>The sum over the naturals, without the carry folding.\<close>

fun nsum :: "bytes \<Rightarrow> nat" where
  "nsum (a # b # r) = 256 * unat a + unat b + nsum r"
| "nsum [b] = 256 * unat b"
| "nsum [] = 0"

lemma unat_ucast_up:
  "LENGTH('a) \<le> LENGTH('b) \<Longrightarrow> unat (ucast (w :: 'a::len word) :: 'b::len word) = unat w"
  using less_le_trans [OF unsigned_less [of w, where ?'a = nat], of "2 ^ LENGTH('b)"]
  by (simp add: unsigned_ucast_eq take_bit_nat_eq_self_iff power_increasing)

lemma unat_u8_up [simp]:
  "unat (ucast (b :: u8) :: u16) = unat b" "unat (ucast (b :: u8) :: u32) = unat b"
  "unat (ucast (h :: u16) :: u32) = unat h"
  by (simp_all add: unat_ucast_up)

lemma unat_of_be16: "unat (of_be16 a b) = 256 * unat a + unat b"
proof -
  have "of_be16 a b = push_bit 8 (ucast a) + ucast b"
    unfolding of_be16_def
    by (rule disjunctive_add [symmetric]) (auto simp: bit_simps dest: bit_imp_le_length)
  moreover have "unat (push_bit 8 (ucast a :: u16)) = 256 * unat a"
    using unat_u8_less [of a] by (simp add: push_bit_eq_mult unat_word_ariths)
  moreover have "256 * unat a + unat b < 65536"
    using unat_u8_less [of a] unat_u8_less [of b] by linarith
  ultimately show ?thesis
    by (simp add: unat_word_ariths)
qed

lemma unat_push8: "unat (push_bit 8 (ucast (b :: u8)) :: u32) = 256 * unat b"
proof -
  have "256 * unat b < 4294967296" using unat_u8_less [of b] by linarith
  then show ?thesis by (simp add: push_bit_eq_mult unat_word_ariths mult.commute)
qed

lemma nsum_bound: "nsum d \<le> 65535 * ((length d + 1) div 2)"
proof (induction d rule: nsum.induct)
  case (1 a b r)
  have "256 * unat a + unat b \<le> 65535"
    using unat_u8_less [of a] unat_u8_less [of b] by linarith
  with 1 show ?case by simp
next
  case (2 b)
  then show ?case using unat_u8_less [of b] by (simp del: unat_u8_less)
qed simp

lemma pair_sum_nsum: "unat s + nsum d < 2 ^ 32 \<Longrightarrow> unat (pair_sum d s) = unat s + nsum d"
proof (induction d s rule: pair_sum.induct)
  case (1 a b r s)
  have u: "unat (ucast (of_be16 a b) :: u32) = 256 * unat a + unat b"
    by (simp add: unat_of_be16)
  have "unat (s + ucast (of_be16 a b)) = unat s + (256 * unat a + unat b)"
    using 1(2) by (simp add: unat_word_ariths unat_of_be16)
  with 1 show ?case by simp
next
  case (2 b s)
  then show ?case by (simp add: unat_word_ariths unat_push8)
qed simp

lemma fold_carry_unat:
  "unat (fold_carry s) < 65536"
  "unat (fold_carry s) mod 65535 = unat s mod 65535"
  "fold_carry s = 0 \<longleftrightarrow> s = 0"
proof (induction s rule: fold_carry.induct)
  case (1 s)
  have mod: "(unat s mod 65536 + unat s div 65536) mod 65535 = unat s mod 65535"
  proof -
    have "unat s = 65535 * (unat s div 65536) + (unat s mod 65536 + unat s div 65536)" by simp
    then show ?thesis by (metis mod_mult_self4)
  qed
  have d0: "drop_bit 16 s = 0 \<longleftrightarrow> unat s < 65536"
    using unat_drop_bit [of 16 s] by (simp add: div_eq_0_iff flip: unat_eq_zero)
  show "unat (fold_carry s) < 65536"
    using 1(1) d0 by (simp add: fold_carry.simps [of s])
  show "unat (fold_carry s) mod 65535 = unat s mod 65535"
    using 1(2) mod fold_carry_decreases(2) [of s] by (auto simp: fold_carry.simps [of s])
  show "fold_carry s = 0 \<longleftrightarrow> s = 0"
  proof (cases "drop_bit 16 s = 0")
    case False
    then have "unat ((s AND mask 16) + drop_bit 16 s) \<noteq> 0"
      using fold_carry_decreases(2) [of s] d0 by auto
    with False 1(3) show ?thesis by (auto simp: fold_carry.simps [of s])
  qed (simp add: fold_carry.simps [of s])
qed

lemma nsum_small: "length d \<le> 131072 \<Longrightarrow> nsum d < 2 ^ 32"
  using nsum_bound [of d] by (simp add: le_less_trans)

lemma unat_checksum:
  assumes "length d \<le> 131072"
  shows "unat (checksum d) + unat (fold_carry (pair_sum d 0)) = 65535"
    and "unat (fold_carry (pair_sum d 0)) mod 65535 = nsum d mod 65535"
    and "unat (fold_carry (pair_sum d 0)) = 0 \<longleftrightarrow> nsum d = 0"
proof -
  let ?f = "fold_carry (pair_sum d 0)"
  have p: "unat (pair_sum d 0) = nsum d"
    using nsum_small [OF assms] pair_sum_nsum [of 0 d] by simp
  have "unat (ucast ?f :: u16) = unat ?f"
    using fold_carry_unat(1) [of "pair_sum d 0"]
    by (simp add: unsigned_ucast_eq take_bit_nat_eq_self_iff)
  moreover have "unat (NOT x) + unat x = 65535" for x :: u16
  proof -
    have "NOT x = - 1 - x" by (simp add: not_eq_complement)
    moreover have "unat (- 1 - x) = unat (- 1 :: u16) - unat x"
      by (rule unat_sub) simp
    moreover have "unat (- 1 :: u16) = 65535" by (simp add: unsigned_minus_1_eq_mask mask_eq_exp_minus_1)
    moreover have "unat x \<le> 65535" using unsigned_less [of x, where ?'a = nat] by simp
    ultimately show ?thesis by simp
  qed
  ultimately show "unat (checksum d) + unat ?f = 65535" by (metis checksum_def)
  show "unat ?f mod 65535 = nsum d mod 65535" using fold_carry_unat(2) [of "pair_sum d 0"] p by simp
  show "unat ?f = 0 \<longleftrightarrow> nsum d = 0"
    using fold_carry_unat(3) [of "pair_sum d 0"] p by (metis unat_eq_zero)
qed


lemma checksum_zero_iff:
  "length d \<le> 131072 \<Longrightarrow> checksum d = 0 \<longleftrightarrow> nsum d \<noteq> 0 \<and> nsum d mod 65535 = 0"
proof -
  assume l: "length d \<le> 131072"
  note u = unat_checksum [OF l]
  have "checksum d = 0 \<longleftrightarrow> unat (fold_carry (pair_sum d 0)) = 65535"
    using u(1) by (metis add_0 add_diff_cancel_right' diff_self_eq_0 unat_eq_zero)
  also have "\<dots> \<longleftrightarrow> nsum d \<noteq> 0 \<and> nsum d mod 65535 = 0"
    using u by (metis add_leE le_add2 le_antisym mod_self mod_less not_less zero_neq_numeral)
  finally show ?thesis .
qed

lemma nsum_append: "even (length a) \<Longrightarrow> nsum (a @ b) = nsum a + nsum b"
  by (induction a rule: nsum.induct) simp_all

lemma nsum_be16: "nsum (be16 w @ r) = unat w + nsum r"
  using unat_of_be16 [of "ucast (drop_bit 8 w)" "ucast w"]
  by (simp add: be16_def of_be16_be16)

text \<open>Writing the checksum of a block into its zeroed checksum field makes the
block verify: its checksum is then zero.\<close>

lemma checksum_inserted:
  assumes a: "even (length a)" and l: "length a + length b + 2 \<le> 131072"
  shows "checksum (a @ be16 (checksum (a @ [0, 0] @ b)) @ b) = 0"
proof -
  let ?z = "a @ [0, 0] @ b" and ?c = "checksum (a @ [0, 0] @ b)"
  have lz: "length ?z \<le> 131072" using l by simp
  note u = unat_checksum [OF lz]
  let ?f = "unat (fold_carry (pair_sum ?z 0))"
  have n: "nsum ?z = nsum a + nsum b" using a by (simp add: nsum_append)
  have m: "nsum (a @ be16 ?c @ b) = nsum ?z + unat ?c"
    using a n by (simp add: nsum_append nsum_be16)
  have "(nsum ?z + unat ?c) mod 65535 = (?f + unat ?c) mod 65535"
    by (rule mod_add_cong [OF u(2) [symmetric] refl])
  also have "\<dots> = 0" using u(1) by (simp add: add.commute)
  finally have z: "(nsum ?z + unat ?c) mod 65535 = 0" .
  have nz: "nsum ?z + unat ?c \<noteq> 0"
  proof
    assume "nsum ?z + unat ?c = 0"
    then have "nsum ?z = 0" "unat ?c = 0" by linarith+
    with u(1,3) show False by linarith
  qed
  have "length (a @ be16 ?c @ b) \<le> 131072" using l by simp
  from checksum_zero_iff [OF this] show ?thesis unfolding m using z nz by blast
qed


subsection \<open>Building packets\<close>

type_synonym sock_addr = "ip_addr \<times> u16"

text \<open>\<open>pkt[off..off + bs.len()].copy_from_slice(bs)\<close>.\<close>

definition put :: "nat \<Rightarrow> 'a list \<Rightarrow> 'a list \<Rightarrow> 'a list" where
  "put off bs xs = take off xs @ bs @ drop (off + length bs) xs"

definition be128 :: "u128 \<Rightarrow> bytes" where
  "be128 w = map (\<lambda>i. ucast (drop_bit (8 * (15 - i)) w)) [0..<16]"

lemma length_be128 [simp]: "length (be128 w) = 16"
  by (simp add: be128_def)

lemma put_at: "length a = off \<Longrightarrow> length b = length c \<Longrightarrow> put off b (a @ c @ d) = a @ b @ d"
  by (simp add: put_def)

definition build_ipv4_udp :: "u32 \<times> u16 \<Rightarrow> u32 \<times> u16 \<Rightarrow> bytes \<Rightarrow> bytes" where
  "build_ipv4_udp src dst payload =
     (let udp_len = 8 + length payload;
          total_len = 20 + udp_len;
          pkt = replicate total_len 0;
          pkt = pkt[0 := 0x45];
          pkt = pkt[1 := 0];
          pkt = put 2 (be16 (of_nat total_len)) pkt;
          pkt = put 4 (be16 0) pkt;
          pkt = put 6 (be16 0) pkt;
          pkt = pkt[8 := 64];
          pkt = pkt[9 := 17];
          pkt = put 12 (be32 (fst src)) pkt;
          pkt = put 16 (be32 (fst dst)) pkt;
          pkt = put 10 (be16 (checksum (take 20 pkt))) pkt;
          u = drop 20 pkt;
          u = put 0 (be16 (snd src)) u;
          u = put 2 (be16 (snd dst)) u;
          u = put 4 (be16 (of_nat udp_len)) u;
          u = put 6 [0, 0] u;
          u = put 8 payload u;
          pseudo = be32 (fst src) @ be32 (fst dst) @ [0, 17] @ be16 (of_nat udp_len)
                     @ take udp_len u
      in put (20 + 6) (be16 (checksum pseudo)) (take 20 pkt @ u))"

definition build_ipv6_udp :: "u128 \<times> u16 \<Rightarrow> u128 \<times> u16 \<Rightarrow> bytes \<Rightarrow> bytes" where
  "build_ipv6_udp src dst payload =
     (let udp_len = 8 + length payload;
          total_len = 40 + udp_len;
          pkt = replicate total_len 0;
          pkt = pkt[0 := 0x60];
          pkt = put 4 (be16 (of_nat udp_len)) pkt;
          pkt = pkt[6 := 17];
          pkt = pkt[7 := 64];
          pkt = put 8 (be128 (fst src)) pkt;
          pkt = put 24 (be128 (fst dst)) pkt;
          u = drop 40 pkt;
          u = put 0 (be16 (snd src)) u;
          u = put 2 (be16 (snd dst)) u;
          u = put 4 (be16 (of_nat udp_len)) u;
          u = put 6 [0, 0] u;
          u = put 8 payload u;
          pseudo = be128 (fst src) @ be128 (fst dst) @ be32 (of_nat udp_len)
                     @ [0, 0, 0, 17] @ take udp_len u
      in put (40 + 6) (be16 (checksum pseudo)) (take 40 pkt @ u))"

fun build_reply_ip :: "sock_addr \<Rightarrow> sock_addr \<Rightarrow> bytes \<Rightarrow> bytes option" where
  "build_reply_ip (V4 s, sp) (V4 d, dp) payload = Some (build_ipv4_udp (s, sp) (d, dp) payload)"
| "build_reply_ip (V6 s, sp) (V6 d, dp) payload = Some (build_ipv6_udp (s, sp) (d, dp) payload)"
| "build_reply_ip _ _ _ = None"

text \<open>The fields in order.\<close>

lemma build_ipv4_udp_bytes:
  "build_ipv4_udp (s, sp) (d, dp) p =
     (let ul = be16 (of_nat (8 + length p));
          h = [0x45, 0] @ be16 (of_nat (28 + length p)) @ [0, 0, 0, 0, 64, 17];
          a = be32 s @ be32 d;
          c = checksum (h @ [0, 0] @ a);
          ph = a @ [0, 17] @ ul;
          u = be16 sp @ be16 dp @ ul
      in h @ be16 c @ a @ u @ be16 (checksum (ph @ u @ [0, 0] @ p)) @ p)"
proof -
  have z: "replicate (20 + (8 + length p)) (0 :: u8) =
     [0,0,0,0,0,0,0,0,0,0] @ [0,0,0,0,0,0,0,0,0,0] @ [0,0,0,0,0,0,0,0] @ replicate (length p) 0"
    by (simp add: replicate_add eval_nat_numeral)
  show ?thesis
    unfolding build_ipv4_udp_def Let_def z
    by (simp add: put_def be16_def be32_def)
qed


lemma build_ipv6_udp_bytes:
  "build_ipv6_udp (s, sp) (d, dp) p =
     (let ul = be16 (of_nat (8 + length p));
          a = be128 s @ be128 d;
          ph = a @ be32 (of_nat (8 + length p)) @ [0, 0, 0, 17];
          u = be16 sp @ be16 dp @ ul
      in [0x60, 0, 0, 0] @ ul @ [17, 64] @ a @ u @ be16 (checksum (ph @ u @ [0, 0] @ p)) @ p)"
proof -
  have z: "replicate (40 + (8 + length p)) (0 :: u8) =
     replicate 8 0 @ replicate 16 0 @ replicate 16 0 @ replicate 8 0 @ replicate (length p) 0"
    by (simp flip: replicate_add)
  have e: "replicate 8 (0 :: u8) = [0,0,0,0,0,0,0,0]" by (simp add: eval_nat_numeral)
  show ?thesis
    unfolding build_ipv6_udp_def Let_def z e
    by (simp add: put_def be16_def)
qed

subsection \<open>ICMP port unreachable\<close>

definition icmp_v4 :: "bytes \<Rightarrow> bytes option" where
  "icmp_v4 orig =
     (let hl = unat (((orig ! 0) AND 0x0F) * 4)
      in if length orig < hl + 8 then None
         else
           let orig_src = take 4 (drop 12 orig);
               orig_dst = take 4 (drop 16 orig);
               plen = min (hl + 8) (length orig);
               total_len = 20 + 8 + plen;
               pkt = replicate total_len 0;
               pkt = pkt[0 := 0x45];
               pkt = put 2 (be16 (of_nat total_len)) pkt;
               pkt = pkt[8 := 64];
               pkt = pkt[9 := 1];
               pkt = put 12 orig_dst pkt;
               pkt = put 16 orig_src pkt;
               pkt = put 10 (be16 (checksum (take 20 pkt))) pkt;
               pkt = pkt[20 := 3];
               pkt = pkt[21 := 3];
               pkt = put 28 (take plen orig) pkt
           in Some (put 22 (be16 (checksum (drop 20 pkt))) pkt))"

definition icmp_v6 :: "bytes \<Rightarrow> bytes option" where
  "icmp_v6 orig =
     (if length orig < 40 + 8 then None
      else
        let orig_src = take 16 (drop 8 orig);
            orig_dst = take 16 (drop 24 orig);
            plen = min (length orig) 1232;
            msg_len = 8 + plen;
            total_len = 40 + msg_len;
            pkt = replicate total_len 0;
            pkt = pkt[0 := 0x60];
            pkt = put 4 (be16 (of_nat msg_len)) pkt;
            pkt = pkt[6 := 58];
            pkt = pkt[7 := 64];
            pkt = put 8 orig_dst pkt;
            pkt = put 24 orig_src pkt;
            pkt = pkt[40 := 1];
            pkt = pkt[41 := 4];
            pkt = put 48 (take plen orig) pkt;
            pseudo = orig_dst @ orig_src @ be32 (of_nat msg_len) @ [0, 0, 0, 58] @ drop 40 pkt
        in Some (put 42 (be16 (checksum pseudo)) pkt))"

definition build_icmp_port_unreachable :: "bytes \<Rightarrow> bytes option" where
  "build_icmp_port_unreachable orig =
     (if length orig < 28 then None
      else if drop_bit 4 (orig ! 0) = 4 then icmp_v4 orig
      else if drop_bit 4 (orig ! 0) = 6 then icmp_v6 orig
      else None)"

lemma icmp_v4_bytes:
  assumes l: "28 \<le> length orig"
  defines "n \<equiv> unat (((orig ! 0) AND 0x0F) * 4) + 8"
  shows "icmp_v4 orig =
     (if length orig < n then None
      else
        let h = [0x45, 0] @ be16 (of_nat (28 + n)) @ [0, 0, 0, 0, 64, 1];
            a = take 4 (drop 16 orig) @ take 4 (drop 12 orig);
            q = take n orig
        in Some (h @ be16 (checksum (h @ [0, 0] @ a)) @ a @
             [3, 3] @ be16 (checksum ([3, 3] @ [0, 0] @ [0, 0, 0, 0] @ q)) @ [0, 0, 0, 0] @ q))"
proof (cases "length orig < n")
  case False
  obtain s where s: "take 4 (drop 12 orig) = s" "length s = 4" using l by simp
  obtain d where d: "take 4 (drop 16 orig) = d" "length d = 4" using l by simp
  obtain q where q: "take n orig = q" "length q = n" using False by simp
  have z: "replicate (20 + 8 + n) (0 :: u8) =
     [0,0,0,0,0,0,0,0,0,0] @ [0,0] @ [0,0,0,0] @ [0,0,0,0] @ [0,0,0,0,0,0,0,0] @ replicate n 0"
    by (simp add: replicate_add eval_nat_numeral)
  have m: "min n (length orig) = n" using False by simp
  have n8: "unat (((orig ! 0) AND 0x0F) * 4) + 8 = n" by (simp add: n_def)
  show ?thesis
    unfolding icmp_v4_def Let_def n8 m s(1) d(1) q(1) z using False s(2) d(2) q(2)
    by (simp add: put_def be16_def list_update_append)
qed (simp add: icmp_v4_def n_def)

lemma icmp_v6_bytes:
  "icmp_v6 orig =
     (if length orig < 48 then None
      else
        let n = min (length orig) 1232;
            a = take 16 (drop 24 orig) @ take 16 (drop 8 orig);
            q = take n orig;
            ph = a @ be32 (of_nat (8 + n)) @ [0, 0, 0, 58]
        in Some ([0x60, 0, 0, 0] @ be16 (of_nat (8 + n)) @ [58, 64] @ a @
             [1, 4] @ be16 (checksum (ph @ [1, 4] @ [0, 0] @ [0, 0, 0, 0] @ q)) @ [0, 0, 0, 0] @ q))"
proof (cases "length orig < 48")
  case False
  define n where "n = min (length orig) 1232"
  obtain s where s: "take 16 (drop 8 orig) = s" "length s = 16" using False by simp
  obtain d where d: "take 16 (drop 24 orig) = d" "length d = 16" using False by simp
  obtain q where q: "take n orig = q" "length q = n" by (simp add: n_def)
  have z: "replicate (40 + (8 + n)) (0 :: u8) =
     replicate 8 0 @ replicate 16 0 @ replicate 16 0 @ replicate 8 0 @ replicate n 0"
    by (simp flip: replicate_add)
  have e: "replicate 8 (0 :: u8) = [0,0,0,0,0,0,0,0]" by (simp add: eval_nat_numeral)
  show ?thesis
    unfolding icmp_v6_def Let_def n_def [symmetric] s(1) d(1) q(1) z e using False s(2) d(2) q(2)
    by (simp add: put_def be16_def list_update_append)
qed (simp add: icmp_v6_def)


definition of_be128 :: "bytes \<Rightarrow> u128" where
  "of_be128 bs = foldl (\<lambda>acc b. push_bit 8 acc OR ucast b) 0 bs"

lemma foldl_be: "foldl (\<lambda>acc b. push_bit 8 acc OR ucast b) (drop_bit (8 * n) w)
   (map (\<lambda>i. ucast (drop_bit (8 * i) w) :: u8) (rev [0..<n])) = (w :: 128 word)"
proof (induction n)
  case (Suc n)
  have "push_bit 8 (drop_bit (8 * Suc n) w) OR ucast (ucast (drop_bit (8 * n) w) :: u8)
      = drop_bit (8 * n) w"
    by (rule bit_word_eqI) (auto simp: bit_simps intro: arg_cong [where f = "bit w"])
  with Suc show ?case by simp
qed simp

lemma of_be128_be128 [codec_simps]: "of_be128 (be128 w) = w"
proof -
  have "be128 w = map (\<lambda>i. ucast (drop_bit (8 * i) w)) (rev [0..<16])"
    by (simp add: be128_def upt_conv_Cons_Cons upt_rec)
  moreover have "drop_bit (8 * 16) w = 0" by (rule bit_word_eqI) (simp add: bit_simps)
  ultimately show ?thesis using foldl_be [of 16 w] by (simp add: of_be128_def)
qed

subsection \<open>A receiver's view\<close>

text \<open>What RFC 768, 791 and 8200 ask of a receiver: lengths and checksums agree, a zero
UDP checksum means "none" over IPv4 and is not allowed over IPv6.\<close>

definition read_ipv4_udp :: "bytes \<Rightarrow> (sock_addr \<times> sock_addr \<times> bytes) option" where
  "read_ipv4_udp pkt =
     (let u = drop 20 pkt
      in if 28 \<le> length pkt \<and> pkt ! 0 = 0x45 \<and> unat (of_be16 (pkt ! 2) (pkt ! 3)) = length pkt
            \<and> pkt ! 9 = 17 \<and> checksum (take 20 pkt) = 0
            \<and> unat (of_be16 (u ! 4) (u ! 5)) = length u
            \<and> (take 2 (drop 6 u) = [0, 0]
               \<or> checksum (take 8 (drop 12 pkt) @ [0, 17] @ take 2 (drop 4 u) @ u) = 0)
         then Some ((V4 (of_be32 (pkt ! 12) (pkt ! 13) (pkt ! 14) (pkt ! 15)), of_be16 (u ! 0) (u ! 1)),
                    (V4 (of_be32 (pkt ! 16) (pkt ! 17) (pkt ! 18) (pkt ! 19)), of_be16 (u ! 2) (u ! 3)),
                    drop 8 u)
         else None)"

definition read_ipv6_udp :: "bytes \<Rightarrow> (sock_addr \<times> sock_addr \<times> bytes) option" where
  "read_ipv6_udp pkt =
     (let u = drop 40 pkt
      in if 48 \<le> length pkt \<and> drop_bit 4 (pkt ! 0) = 6
            \<and> unat (of_be16 (pkt ! 4) (pkt ! 5)) = length u \<and> pkt ! 6 = 17
            \<and> unat (of_be16 (u ! 4) (u ! 5)) = length u
            \<and> take 2 (drop 6 u) \<noteq> [0, 0]
            \<and> checksum (take 32 (drop 8 pkt) @ be32 (of_nat (length u)) @ [0, 0, 0, 17] @ u) = 0
         then Some ((V6 (of_be128 (take 16 (drop 8 pkt))), of_be16 (u ! 0) (u ! 1)),
                    (V6 (of_be128 (take 16 (drop 24 pkt))), of_be16 (u ! 2) (u ! 3)), drop 8 u)
         else None)"

lemma be16_nth: "be16 w = [a, b] \<Longrightarrow> of_be16 a b = w"
  by (auto simp: be16_def of_be16_be16)

lemma be32_nth: "be32 w = [a, b, c, d] \<Longrightarrow> of_be32 a b c d = w"
  by (auto simp: be32_def of_be32_be32)

lemma be16_split: "\<exists>a b. be16 w = [a, b]" by (simp add: be16_def)
lemma be32_split: "\<exists>a b c d. be32 w = [a, b, c, d]" by (simp add: be32_def)

lemma read_build_ipv4:
  assumes l: "length p \<le> 65507"
  shows "read_ipv4_udp (build_ipv4_udp (s, sp) (d, dp) p) = Some ((V4 s, sp), (V4 d, dp), p)"
proof -
  define h where "h = [0x45, 0 :: u8] @ be16 (of_nat (28 + length p)) @ [0, 0, 0, 0, 64, 17]"
  define ul where "ul = be16 (of_nat (8 + length p))"
  define u where "u = be16 sp @ be16 dp @ ul"
  define ic where "ic = checksum (h @ [0, 0] @ be32 s @ be32 d)"
  define ph where "ph = (be32 s @ be32 d) @ [0, 17] @ ul"
  define uc where "uc = checksum (ph @ u @ [0, 0] @ p)"
  have b: "build_ipv4_udp (s, sp) (d, dp) p = h @ be16 ic @ be32 s @ be32 d @ u @ be16 uc @ p"
    unfolding build_ipv4_udp_bytes Let_def h_def ul_def u_def ic_def ph_def uc_def by simp
  have ck1: "checksum (h @ be16 ic @ be32 s @ be32 d) = 0"
    unfolding ic_def by (rule checksum_inserted) (simp_all add: h_def)
  have "checksum ((ph @ u) @ be16 (checksum ((ph @ u) @ [0, 0] @ p)) @ p) = 0"
    using l by (intro checksum_inserted) (simp_all add: ph_def u_def ul_def)
  then have ck2: "checksum (ph @ u @ be16 uc @ p) = 0" by (simp add: uc_def)
  obtain t0 t1 where t: "be16 (of_nat (28 + length p)) = [t0, t1]" using be16_split by blast
  obtain u0 u1 where ue: "ul = [u0, u1]" using be16_split ul_def by blast
  obtain a0 a1 where a: "be16 sp = [a0, a1]" using be16_split by blast
  obtain b0 b1 where bb: "be16 dp = [b0, b1]" using be16_split by blast
  obtain c0 c1 where c: "be16 uc = [c0, c1]" using be16_split by blast
  obtain i0 i1 where i: "be16 ic = [i0, i1]" using be16_split by blast
  obtain s0 s1 s2 s3 where s: "be32 s = [s0, s1, s2, s3]" using be32_split by blast
  obtain d0 d1 d2 d3 where d: "be32 d = [d0, d1, d2, d3]" using be32_split by blast
  have tl: "unat (of_be16 t0 t1) = 28 + length p"
    unfolding be16_nth [OF t] using l by (subst unat_of_nat) simp
  have ull: "unat (of_be16 u0 u1) = 8 + length p"
    unfolding be16_nth [OF ue [unfolded ul_def]] using l by (subst unat_of_nat) simp
  note ck = ck1 [unfolded h_def t i s d] ck2 [unfolded ph_def u_def ue a bb c s d]
  show ?thesis
    unfolding b read_ipv4_udp_def Let_def h_def u_def t ue a bb c i s d
    using ck tl ull be16_nth [OF a] be16_nth [OF bb] be32_nth [OF s] be32_nth [OF d]
    by simp
qed

lemma read_build_ipv6:
  assumes l: "length p \<le> 65507"
  shows "read_ipv6_udp (build_ipv6_udp (s, sp) (d, dp) p) =
     (if take 2 (drop 46 (build_ipv6_udp (s, sp) (d, dp) p)) = [0, 0] then None
      else Some ((V6 s, sp), (V6 d, dp), p))"
proof -
  define ul where "ul = be16 (of_nat (8 + length p))"
  define u where "u = be16 sp @ be16 dp @ ul"
  define ph where "ph = (be128 s @ be128 d) @ be32 (of_nat (8 + length p)) @ [0, 0, 0, 17]"
  define uc where "uc = checksum (ph @ u @ [0, 0] @ p)"
  have b: "build_ipv6_udp (s, sp) (d, dp) p =
      [0x60, 0, 0, 0] @ ul @ [17, 64] @ be128 s @ be128 d @ u @ be16 uc @ p"
    unfolding build_ipv6_udp_bytes Let_def ul_def u_def ph_def uc_def by simp
  have "checksum ((ph @ u) @ be16 (checksum ((ph @ u) @ [0, 0] @ p)) @ p) = 0"
    using l by (intro checksum_inserted) (simp_all add: ph_def u_def ul_def)
  then have ck2: "checksum (ph @ u @ be16 uc @ p) = 0" by (simp add: uc_def)
  obtain u0 u1 where ue: "ul = [u0, u1]" using be16_split ul_def by blast
  obtain a0 a1 where a: "be16 sp = [a0, a1]" using be16_split by blast
  obtain b0 b1 where bb: "be16 dp = [b0, b1]" using be16_split by blast
  obtain c0 c1 where c: "be16 uc = [c0, c1]" using be16_split by blast
  obtain l0 l1 l2 l3 where le: "be32 (of_nat (8 + length p)) = [l0, l1, l2, l3]"
    using be32_split by blast
  have ull: "unat (of_be16 u0 u1) = 8 + length p"
    unfolding be16_nth [OF ue [unfolded ul_def]] using l by (subst unat_of_nat) simp
  have v: "drop_bit 4 (0x60 :: u8) = 6" by code_simp
  have lu: "8 + length p = Suc (Suc (Suc (Suc (Suc (Suc (Suc (Suc (length p))))))))" by simp
  note ck = ck2 [unfolded ph_def u_def ue a bb c le]
  have len: "be32 (of_nat (length (drop 40 (build_ipv6_udp (s, sp) (d, dp) p)))) = [l0, l1, l2, l3]"
    unfolding b u_def ue a bb c le [symmetric] by simp
  show ?thesis
    unfolding read_ipv6_udp_def Let_def len
    unfolding b u_def ue a bb c
    using ck ull be16_nth [OF a] be16_nth [OF bb] v
    by (simp add: of_be128_be128)
qed

lemma reply_roundtrip_parts:
  assumes "length p \<le> 65507"
  shows "map_option read_ipv4_udp (build_reply_ip (V4 s, sp) (V4 d, dp) p)
           = Some (Some ((V4 s, sp), (V4 d, dp), p))"
    and "map_option read_ipv6_udp (build_reply_ip (V6 s', sp) (V6 d', dp) p)
           = Some (if take 2 (drop 46 (build_ipv6_udp (s', sp) (d', dp) p)) = [0, 0] then None
                   else Some ((V6 s', sp), (V6 d', dp), p))"
  using assms by (simp_all add: read_build_ipv4 read_build_ipv6)

text \<open>Every IPv4 reply packet the tunnel writes back to the TUN device reads back,
for a receiver that checks version, lengths, IP and UDP checksums, as exactly the source,
destination and payload it was built from. Over IPv6 the same holds except when the
computed UDP checksum is zero: the builder never substitutes 0xFFFF, so a conforming
receiver discards that packet.\<close>
theorem reply_roundtrip:
  assumes "length p \<le> 65507"
  shows "map_option read_ipv4_udp (build_reply_ip (V4 s, sp) (V4 d, dp) p)
           = Some (Some ((V4 s, sp), (V4 d, dp), p))
    \<and> map_option read_ipv6_udp (build_reply_ip (V6 s', sp) (V6 d', dp) p)
           = Some (if take 2 (drop 46 (build_ipv6_udp (s', sp) (d', dp) p)) = [0, 0] then None
                   else Some ((V6 s', sp), (V6 d', dp), p))"
  using reply_roundtrip_parts [OF assms] by blast

theorem reply_roundtrip_witness:
  "map_option read_ipv4_udp (build_reply_ip (V4 0xC6120001, 53) (V4 0x0A630002, 5000) [1, 2, 3])
     = Some (Some ((V4 0xC6120001, 53), (V4 0x0A630002, 5000), [1, 2, 3]))"
  by (rule reply_roundtrip [THEN conjunct1]) simp

text \<open>For any two IPv6 endpoints some two-byte payload gives a reply packet whose UDP
checksum field is zero, which RFC 8200 forbids.\<close>
theorem udp6_zero_checksum:
  "\<exists>p. length p = 2 \<and> take 2 (drop 46 (build_ipv6_udp src dst p)) = [0, 0]
      \<and> read_ipv6_udp (build_ipv6_udp src dst p) = None"
proof -
  obtain s sp d dp where sd: "src = (s, sp)" "dst = (d, dp)" by (cases src; cases dst)
  define pre where "pre = ((be128 s @ be128 d) @ be32 10 @ [0, 0, 0, 17])
    @ be16 sp @ be16 dp @ be16 10 @ [0, 0]"
  define p where "p = be16 (checksum (pre @ [0, 0] @ []))"
  have z: "checksum (pre @ p @ []) = 0"
    unfolding p_def by (rule checksum_inserted) (simp_all add: pre_def)
  have l: "length p = 2" by (simp add: p_def)
  have b0: "be16 0 = [0, 0]" by (simp add: be16_def)
  have "take 2 (drop 46 (build_ipv6_udp src dst p)) = [0, 0]"
    using z unfolding sd build_ipv6_udp_bytes Let_def l pre_def by (simp add: b0)
  then show ?thesis
    using l read_build_ipv6 [of p s sp d dp] by (auto simp: sd)
qed

lemma icmp_reflects_parts:
  assumes "28 \<le> length orig" and "drop_bit 4 (orig ! 0) = 4"
  defines "n \<equiv> unat (((orig ! 0) AND 0x0F) * 4) + 8"
  shows "build_icmp_port_unreachable orig = None \<longleftrightarrow> length orig < n"
    and "build_icmp_port_unreachable orig = Some pkt \<Longrightarrow>
      length pkt = 28 + n \<and> length pkt \<le> 96
      \<and> take 4 (drop 12 pkt) = take 4 (drop 16 orig)
      \<and> take 4 (drop 16 pkt) = take 4 (drop 12 orig)
      \<and> take 2 (drop 20 pkt) = [3, 3]
      \<and> drop 28 pkt = take n orig
      \<and> checksum (take 20 pkt) = 0 \<and> checksum (drop 20 pkt) = 0"
proof -
  have i: "build_icmp_port_unreachable orig = icmp_v4 orig"
    using assms by (simp add: build_icmp_port_unreachable_def)
  have n: "n \<le> 68"
  proof -
    define x where "x = unat ((orig ! 0) AND 0x0F)"
    have "x = unat (orig ! 0) mod 16"
      using unat_and_mask [of "orig ! 0" 4] by (simp add: x_def mask_eq_exp_minus_1)
    then have "x < 16" by simp
    then have "unat (((orig ! 0) AND 0x0F) * 4) \<le> 60"
      by (simp add: unat_word_ariths x_def [symmetric])
    then show ?thesis by (simp add: n_def)
  qed
  note b = icmp_v4_bytes [OF assms(1), folded n_def]
  show "build_icmp_port_unreachable orig = None \<longleftrightarrow> length orig < n"
    unfolding i b by (simp add: Let_def)
  assume "build_icmp_port_unreachable orig = Some pkt"
  then have s: "icmp_v4 orig = Some pkt" and ln: "n \<le> length orig"
    unfolding i by (simp_all add: b Let_def split: if_splits)
  define h where "h = [0x45, 0 :: u8] @ be16 (of_nat (28 + n)) @ [0, 0, 0, 0, 64, 1]"
  define sr where "sr = take 4 (drop 12 orig)"
  define ds where "ds = take 4 (drop 16 orig)"
  define q where "q = take n orig"
  define c where "c = checksum (h @ [0, 0] @ ds @ sr)"
  define k where "k = checksum ([3, 3] @ [0, 0] @ [0, 0, 0, 0] @ q)"
  have len: "length h = 10" "length sr = 4" "length ds = 4" "length q = n"
    using assms(1) ln by (simp_all add: h_def sr_def ds_def q_def)
  have p: "pkt = h @ be16 c @ ds @ sr @ [3, 3] @ be16 k @ [0, 0, 0, 0] @ q"
    using s ln unfolding b by (simp add: Let_def h_def sr_def ds_def q_def c_def k_def)
  have "checksum (h @ be16 c @ ds @ sr) = 0"
    unfolding c_def by (rule checksum_inserted) (simp_all add: len)
  moreover have "checksum ([3, 3] @ be16 k @ [0, 0, 0, 0] @ q) = 0"
    unfolding k_def using n by (intro checksum_inserted) (simp_all add: len)
  ultimately show "length pkt = 28 + n \<and> length pkt \<le> 96
      \<and> take 4 (drop 12 pkt) = take 4 (drop 16 orig)
      \<and> take 4 (drop 16 pkt) = take 4 (drop 12 orig)
      \<and> take 2 (drop 20 pkt) = [3, 3]
      \<and> drop 28 pkt = take n orig
      \<and> checksum (take 20 pkt) = 0 \<and> checksum (drop 20 pkt) = 0"
    unfolding p using n len by (simp add: sr_def ds_def q_def)
qed

text \<open>The ICMP answer to a blocked datagram is produced exactly for packets that
hold a full header and eight more bytes; it comes from the original destination, goes to
the original source, quotes the head of the original packet, and its IP and ICMP
checksums verify.\<close>
theorem icmp_reflects:
  assumes "28 \<le> length orig" and "drop_bit 4 (orig ! 0) = 4"
  defines "n \<equiv> unat (((orig ! 0) AND 0x0F) * 4) + 8"
  shows "(build_icmp_port_unreachable orig = None \<longleftrightarrow> length orig < n)
    \<and> (build_icmp_port_unreachable orig = Some pkt \<longrightarrow>
      length pkt = 28 + n \<and> length pkt \<le> 96
      \<and> take 4 (drop 12 pkt) = take 4 (drop 16 orig)
      \<and> take 4 (drop 16 pkt) = take 4 (drop 12 orig)
      \<and> take 2 (drop 20 pkt) = [3, 3]
      \<and> drop 28 pkt = take n orig
      \<and> checksum (take 20 pkt) = 0 \<and> checksum (drop 20 pkt) = 0)"
  unfolding n_def using icmp_reflects_parts [OF assms(1,2)] by blast

theorem icmp_reflects_witness:
  "build_icmp_port_unreachable (0x45 # replicate 27 0) \<noteq> None"
proof -
  have v: "drop_bit 4 (0x45 :: u8) = 4" "unat ((0x45 :: u8) AND 0x0F) = 5" by code_simp+
  have "unat (((0x45 :: u8) AND 0x0F) * 4) = 20" by code_simp
  with icmp_reflects [of "0x45 # replicate 27 0"] v show ?thesis by simp
qed

end
