(* ===== verification/UdpFrames.thy ===== *)
theory UdpFrames
  imports Packets
begin

text \<open>The two UDP frame formats: mux frames with a session id
(\<open>src/native/mirage-core/src/proxy/udp_mux.rs\<close>) and the frames of a tunnel dedicated to one
flow (\<open>build_frame\<close>, \<open>parse_udp_frame_payload\<close> in \<open>tun/udp.rs\<close>). The locale \<open>frame_codec\<close>
states what both promise and proves once that a receiver delivers the same frames
however the byte stream is cut into chunks; both codecs interpret it.\<close>

subsection \<open>Framing over a byte stream\<close>

text \<open>A frame codec: \<open>encode\<close> may refuse a message, \<open>decode\<close> looks for one frame at the
head of the buffer, and \<open>drain\<close> is the receiver's inner loop.\<close>

locale frame_codec =
  fixes encode :: "'m \<Rightarrow> bytes option"
    and decode :: "bytes \<Rightarrow> ('v \<times> nat) option"
    and view :: "'m \<Rightarrow> 'v"
    and drain :: "bytes \<Rightarrow> 'v list \<times> bytes"
  assumes decode_extend: "decode b = Some (v, n) \<Longrightarrow> decode (b @ r) = Some (v, n)"
    and decode_fits: "decode b = Some (v, n) \<Longrightarrow> 0 < n \<and> n \<le> length b"
    and decode_encode: "encode m = Some f \<Longrightarrow> decode f = Some (view m, length f)"
    and decode_partial: "encode m = Some f \<Longrightarrow> k < length f \<Longrightarrow> decode (take k f) = None"
    and drain_unfold: "drain b = (case decode b of None \<Rightarrow> ([], b)
          | Some (v, n) \<Rightarrow> (case drain (drop n b) of (vs, rest) \<Rightarrow> (v # vs, rest)))"
begin

definition recv_step :: "'v list \<times> bytes \<Rightarrow> bytes \<Rightarrow> 'v list \<times> bytes" where
  "recv_step st chunk = (case st of (out, acc) \<Rightarrow>
     (case drain (acc @ chunk) of (vs, rest) \<Rightarrow> (out @ vs, rest)))"

lemma drain_none: "decode b = None \<Longrightarrow> drain b = ([], b)"
  by (subst drain_unfold) simp

lemma drain_some:
  "decode b = Some (v, n) \<Longrightarrow> drain b = (v # fst (drain (drop n b)), snd (drain (drop n b)))"
  by (subst drain_unfold) (simp add: case_prod_beta)

lemma drain_rest: "decode (snd (drain b)) = None"
proof (induction "length b" arbitrary: b rule: less_induct)
  case less
  show ?case
  proof (cases "decode b")
    case (Some vn)
    obtain v n where vn: "vn = (v, n)" by (cases vn)
    with Some decode_fits have "length (drop n b) < length b" by fastforce
    with less Some vn show ?thesis by (simp add: drain_some)
  qed (simp add: drain_none)
qed

lemma drain_append:
  "drain (a @ b) = (fst (drain a) @ fst (drain (snd (drain a) @ b)), snd (drain (snd (drain a) @ b)))"
proof (induction "length a" arbitrary: a rule: less_induct)
  case less
  show ?case
  proof (cases "decode a")
    case (Some vn)
    obtain v n where vn: "vn = (v, n)" by (cases vn)
    with Some decode_fits have n: "0 < n" "n \<le> length a" by blast+
    then have "length (drop n a) < length a" by simp
    note IH = less [OF this]
    have "decode (a @ b) = Some (v, n)" using Some vn decode_extend by blast
    with IH Some vn n show ?thesis by (simp add: drain_some)
  qed (simp add: drain_none)
qed

text \<open>Chunk boundaries are irrelevant.\<close>

lemma recv_chunks:
  "foldl recv_step (fst (drain a), snd (drain a)) chunks = drain (a @ concat chunks)"
proof (induction chunks arbitrary: a)
  case (Cons c cs)
  have "recv_step (fst (drain a), snd (drain a)) c = drain (a @ c)"
    by (simp add: recv_step_def drain_append [of a c] case_prod_beta)
  with Cons [of "a @ c"] show ?case by simp
qed simp

lemma recv_all: "decode [] = None \<Longrightarrow> foldl recv_step ([], []) chunks = drain (concat chunks)"
  using recv_chunks [of "[]" chunks] by (simp add: drain_none)

lemma drain_frames:
  assumes "list_all2 (\<lambda>m f. encode m = Some f) ms fs"
  shows "drain (concat fs @ r) = (map view ms @ fst (drain r), snd (drain r))"
  using assms
proof (induction rule: list_all2_induct)
  case (Cons m ms f fs)
  have "decode (f @ concat fs @ r) = Some (view m, length f)"
    using Cons(1) by (intro decode_extend decode_encode)
  with Cons show ?case by (simp add: drain_some)
qed simp

lemma drain_partial:
  "encode m = Some f \<Longrightarrow> k < length f \<Longrightarrow> drain (take k f) = ([], take k f)"
  by (simp add: drain_none decode_partial)

text \<open>However the stream is cut into chunks, the receiver delivers each sent frame once,
in order, and keeps exactly the unfinished frame.\<close>

lemma recv_stream:
  assumes "list_all2 (\<lambda>m f. encode m = Some f) ms fs"
    and "encode m = Some f" and "k < length f"
    and "concat chunks = concat fs @ take k f"
  shows "foldl recv_step ([], []) chunks = (map view ms, take k f)"
proof -
  have "decode [] = None" using decode_fits [of "[]"] by (cases "decode []") auto
  with assms show ?thesis by (simp add: recv_all drain_frames drain_partial)
qed

end


text \<open>Both frame formats start with a two-byte big-endian length of what follows.\<close>

definition take_frame :: "bytes \<Rightarrow> (bytes \<times> nat) option" where
  "take_frame buf =
     (if length buf < 2 then None
      else let tot = 2 + unat (of_be16 (buf ! 0) (buf ! 1))
           in if length buf < tot then None else Some (drop 2 (take tot buf), tot))"

definition put_frame :: "bytes \<Rightarrow> bytes option" where
  "put_frame body =
     (if 65535 < length body then None else Some (be16 (of_nat (length body)) @ body))"

lemma take_frame_extend: "take_frame b = Some (v, n) \<Longrightarrow> take_frame (b @ r) = Some (v, n)"
  by (auto simp: take_frame_def Let_def nth_append split: if_splits)

lemma take_frame_fits: "take_frame b = Some (v, n) \<Longrightarrow> 2 \<le> n \<and> n \<le> length b"
  by (auto simp: take_frame_def Let_def split: if_splits)

lemma take_frame_none: "take_frame b = None \<Longrightarrow> length b < 65537"
  using unsigned_less [of "of_be16 (b ! 0) (b ! 1)", where ?'a = nat]
  by (auto simp: take_frame_def Let_def split: if_splits)

lemma take_put_frame:
  assumes "put_frame body = Some f"
  shows "take_frame f = Some (body, length f)" "k < length f \<Longrightarrow> take_frame (take k f) = None"
proof -
  define a where "a = be16 (of_nat (length body))"
  have f: "f = a @ body" and l: "length body < 65536"
    using assms by (auto simp: put_frame_def a_def split: if_splits)
  obtain x y where xy: "a = [x, y]" by (simp add: a_def be16_def)
  have "of_be16 x y = of_nat (length body)"
    using xy by (auto simp: a_def be16_def of_be16_be16)
  then have u: "unat (of_be16 x y) = length body"
    using l by (simp add: unat_of_nat)
  show "take_frame f = Some (body, length f)"
    by (simp add: take_frame_def f xy u)
  assume k: "k < length f"
  show "take_frame (take k f) = None"
    using k u by (auto simp: take_frame_def f xy Let_def)
qed

subsection \<open>Mux frames\<close>

definition wrap_frame :: "u32 \<Rightarrow> bytes \<Rightarrow> u16 \<Rightarrow> bytes \<Rightarrow> bytes option" where
  "wrap_frame sid a port payload =
     (let body_len = 4 + length a + 2 + length payload
      in if 65535 < body_len then None
         else Some (be16 (of_nat body_len) @ be32 sid @ a @ be16 port @ payload))"

definition frame_mux_domain :: "u32 \<Rightarrow> string \<Rightarrow> u16 \<Rightarrow> bytes \<Rightarrow> bytes option" where
  "frame_mux_domain sid domain port payload =
     (if 255 < length domain then None
      else wrap_frame sid (0x03 # of_nat (length domain) # map byte_of domain) port payload)"

definition frame_mux_ipv4 :: "u32 \<Rightarrow> u32 \<Rightarrow> u16 \<Rightarrow> bytes \<Rightarrow> bytes option" where
  "frame_mux_ipv4 sid ip port payload = wrap_frame sid (0x01 # be32 ip) port payload"

definition frame_mux_ipv6 :: "u32 \<Rightarrow> u128 \<Rightarrow> u16 \<Rightarrow> bytes \<Rightarrow> bytes option" where
  "frame_mux_ipv6 sid ip port payload = wrap_frame sid (0x04 # be128 ip) port payload"

text \<open>The bytes to skip before the payload: address type, address and port.\<close>

definition mux_addr_len :: "bytes \<Rightarrow> nat option" where
  "mux_addr_len inner =
     (if inner ! 0 = 1 then Some (1 + 4)
      else if inner ! 0 = 4 then Some (1 + 16)
      else if inner ! 0 = 3
        then (if length inner < 1 + 1 then None else Some (1 + (1 + unat (inner ! 1))))
      else None)"

definition mux_body :: "bytes \<Rightarrow> u32 \<times> bytes" where
  "mux_body frame =
     (if length frame < 4 then (0, [])
      else
        let sid = of_be32 (frame ! 0) (frame ! 1) (frame ! 2) (frame ! 3);
            inner = drop 4 frame
        in if inner = [] then (sid, [])
           else case mux_addr_len inner of
                  None \<Rightarrow> (sid, [])
                | Some off \<Rightarrow>
                    (let off = off + 2
                     in if length inner < off then (sid, []) else (sid, drop off inner)))"

definition parse_mux_frame :: "bytes \<Rightarrow> ((u32 \<times> bytes) \<times> nat) option" where
  "parse_mux_frame buf =
     (case take_frame buf of
        None \<Rightarrow> None
      | Some (frame, tot) \<Rightarrow> Some (mux_body frame, tot))"

text \<open>The receiver's inner loop, which removes every complete frame of the buffer.\<close>

function mux_drain :: "bytes \<Rightarrow> (u32 \<times> bytes) list \<times> bytes" where
  "mux_drain acc =
     (case parse_mux_frame acc of
        None \<Rightarrow> ([], acc)
      | Some (v, consumed) \<Rightarrow>
          (case mux_drain (drop consumed acc) of (vs, rest) \<Rightarrow> (v # vs, rest)))"
  by pat_completeness auto
termination
  by (relation "measure length")
    (auto simp: parse_mux_frame_def dest!: take_frame_fits split: option.splits)

declare mux_drain.simps [simp del]

text \<open>The uplink frame of a flow (\<open>udp_flow_relay\<close>): the domain behind a fake address,
otherwise the address itself.\<close>

fun mux_uplink_frame :: "u32 \<times> string option \<times> ip_addr \<times> u16 \<times> bytes \<Rightarrow> bytes option" where
  "mux_uplink_frame (sid, Some d, _, port, payload) = frame_mux_domain sid d port payload"
| "mux_uplink_frame (sid, None, V4 ip, port, payload) = frame_mux_ipv4 sid ip port payload"
| "mux_uplink_frame (sid, None, V6 ip, port, payload) = frame_mux_ipv6 sid ip port payload"

lemma wrap_frame_put: "wrap_frame sid a port payload = put_frame (be32 sid @ a @ be16 port @ payload)"
  by (simp add: wrap_frame_def put_frame_def Let_def add.assoc)

lemma mux_body_wrapped:
  assumes "mux_addr_len (a @ r) = Some (length a)" and "a \<noteq> []"
    and "r = be16 port @ payload"
  shows "mux_body (be32 sid @ a @ r) = (sid, payload)"
proof -
  obtain s0 s1 s2 s3 where s: "be32 sid = [s0, s1, s2, s3]" by (simp add: be32_def)
  then have "of_be32 s0 s1 s2 s3 = sid" by (auto simp: be32_def of_be32_be32)
  then show ?thesis using assms s by (simp add: mux_body_def Let_def)
qed

lemma mux_encode_body:
  assumes "mux_uplink_frame m = Some f"
  obtains body where "put_frame body = Some f" "mux_body body = (case m of (sid, _, _, _, p) \<Rightarrow> (sid, p))"
proof (cases m rule: mux_uplink_frame.cases)
  case (1 sid d ip port p)
  let ?a = "0x03 # of_nat (length d) # map byte_of d"
  have l: "length d \<le> 255" using assms 1 by (auto simp: frame_mux_domain_def split: if_splits)
  then have "mux_addr_len (?a @ be16 port @ p) = Some (length ?a)"
    by (simp add: mux_addr_len_def unat_of_nat)
  then have "mux_body (be32 sid @ ?a @ be16 port @ p) = (sid, p)"
    by (intro mux_body_wrapped) simp_all
  with that assms l show thesis
    by (simp add: 1 frame_mux_domain_def wrap_frame_put)
next
  case (2 sid ip port p)
  let ?a = "0x01 # be32 ip"
  have "mux_body (be32 sid @ ?a @ be16 port @ p) = (sid, p)"
    by (intro mux_body_wrapped) (simp_all add: mux_addr_len_def)
  with that assms show thesis by (simp add: 2 frame_mux_ipv4_def wrap_frame_put)
next
  case (3 sid ip port p)
  let ?a = "0x04 # be128 ip"
  have "mux_body (be32 sid @ ?a @ be16 port @ p) = (sid, p)"
    by (intro mux_body_wrapped) (simp_all add: mux_addr_len_def)
  with that assms show thesis by (simp add: 3 frame_mux_ipv6_def wrap_frame_put)
qed

interpretation mux: frame_codec mux_uplink_frame parse_mux_frame
    "\<lambda>(sid, _, _, _, payload). (sid, payload)" mux_drain
proof
  show "mux_drain b = (case parse_mux_frame b of None \<Rightarrow> ([], b)
      | Some (v, n) \<Rightarrow> (case mux_drain (drop n b) of (vs, rest) \<Rightarrow> (v # vs, rest)))" for b
    by (rule mux_drain.simps)
next
  fix m f assume "mux_uplink_frame m = Some f"
  then obtain body where b: "put_frame body = Some f"
      "mux_body body = (case m of (sid, _, _, _, p) \<Rightarrow> (sid, p))"
    by (rule mux_encode_body)
  show "parse_mux_frame f = Some (case m of (sid, _, _, _, p) \<Rightarrow> (sid, p), length f)"
    using b by (simp add: parse_mux_frame_def take_put_frame)
  show "parse_mux_frame (take k f) = None" if "k < length f" for k
    using b that by (simp add: parse_mux_frame_def take_put_frame)
qed (auto simp: parse_mux_frame_def take_frame_extend split: option.splits dest: take_frame_fits)

subsection \<open>Frames of a dedicated tunnel\<close>

definition build_frame :: "string option \<Rightarrow> ip_addr option \<Rightarrow> u16 \<Rightarrow> bytes \<Rightarrow> bytes option" where
  "build_frame target_domain target_ip dst_port payload =
     (case target_domain of
        Some d \<Rightarrow>
          (let dlen = min (length d) 255;
               body_len = 1 + 1 + dlen + 2 + length payload
           in if 65535 < body_len then None
              else Some (be16 (of_nat body_len) @ [0x03, of_nat dlen] @ take dlen (map byte_of d)
                     @ be16 dst_port @ payload))
      | None \<Rightarrow>
          (case target_ip of
             None \<Rightarrow> None
           | Some (V4 ip) \<Rightarrow>
               (let body_len = 1 + 4 + 2 + length payload
                in if 65535 < body_len then None
                   else Some (be16 (of_nat body_len) @ [0x01] @ be32 ip @ be16 dst_port @ payload))
           | Some (V6 ip) \<Rightarrow>
               (let body_len = 1 + 16 + 2 + length payload
                in if 65535 < body_len then None
                   else Some (be16 (of_nat body_len) @ [0x04] @ be128 ip @ be16 dst_port @ payload))))"

definition legacy_body :: "bytes \<Rightarrow> bytes option" where
  "legacy_body frame =
     (if frame = [] then Some []
      else if frame ! 0 = 0x03 then
        (if length frame < 2 then None
         else let dlen = unat (frame ! 1); off = 2
              in if length frame < off + dlen + 2 then Some [] else Some (drop (off + dlen + 2) frame))
      else if frame ! 0 = 0x01 then
        (if length frame < 1 + 4 + 2 then Some [] else Some (drop (1 + 4 + 2) frame))
      else if frame ! 0 = 0x04 then
        (if length frame < 1 + 16 + 2 then Some [] else Some (drop (1 + 16 + 2) frame))
      else Some [])"

definition parse_udp_frame_payload :: "bytes \<Rightarrow> (bytes \<times> nat) option" where
  "parse_udp_frame_payload buf =
     (case take_frame buf of
        None \<Rightarrow> None
      | Some (frame, tot) \<Rightarrow> map_option (\<lambda>p. (p, tot)) (legacy_body frame))"

function legacy_drain :: "bytes \<Rightarrow> bytes list \<times> bytes" where
  "legacy_drain acc =
     (case parse_udp_frame_payload acc of
        None \<Rightarrow> ([], acc)
      | Some (v, consumed) \<Rightarrow>
          (case legacy_drain (drop consumed acc) of (vs, rest) \<Rightarrow> (v # vs, rest)))"
  by pat_completeness auto
termination
  by (relation "measure length")
    (auto simp: parse_udp_frame_payload_def dest!: take_frame_fits split: option.splits)

declare legacy_drain.simps [simp del]

fun legacy_uplink_frame :: "string option \<times> ip_addr option \<times> u16 \<times> bytes \<Rightarrow> bytes option" where
  "legacy_uplink_frame (td, ti, port, payload) = build_frame td ti port payload"

lemma build_frame_body:
  assumes "build_frame td ti port p = Some f"
  obtains body where "put_frame body = Some f" "legacy_body body = Some p"
proof (cases td)
  case (Some d)
  let ?n = "min (length d) 255"
  have n: "unat (of_nat ?n :: u8) = ?n" by (simp add: unat_of_nat)
  obtain t where t: "take ?n (map byte_of d) = t" "length t = ?n" by simp
  have "legacy_body ([0x03, of_nat ?n] @ take ?n (map byte_of d) @ be16 port @ p) = Some p"
    unfolding t(1) using n unfolding t(2) [symmetric] by (simp add: legacy_body_def Let_def)
  moreover have "build_frame td ti port p
      = put_frame ([0x03, of_nat ?n] @ take ?n (map byte_of d) @ be16 port @ p)"
    unfolding build_frame_def put_frame_def Let_def Some by (simp add: add_ac)
  ultimately show thesis using that assms by simp
next
  case None
  with assms obtain ip where ti: "ti = Some ip" by (auto simp: build_frame_def split: option.splits)
  show thesis
  proof (cases ip)
    case (V4 w)
    have "legacy_body ([0x01] @ be32 w @ be16 port @ p) = Some p" by (simp add: legacy_body_def)
    moreover have "build_frame td ti port p = put_frame ([0x01] @ be32 w @ be16 port @ p)"
      unfolding build_frame_def put_frame_def Let_def None ti V4 by (simp add: add_ac)
    ultimately show thesis using that assms by simp
  next
    case (V6 w)
    have "legacy_body ([0x04] @ be128 w @ be16 port @ p) = Some p" by (simp add: legacy_body_def)
    moreover have "build_frame td ti port p = put_frame ([0x04] @ be128 w @ be16 port @ p)"
      unfolding build_frame_def put_frame_def Let_def None ti V6 by (simp add: add_ac)
    ultimately show thesis using that assms by simp
  qed
qed

interpretation legacy: frame_codec legacy_uplink_frame parse_udp_frame_payload
    "\<lambda>(_, _, _, payload). payload" legacy_drain
proof
  show "legacy_drain b = (case parse_udp_frame_payload b of None \<Rightarrow> ([], b)
      | Some (v, n) \<Rightarrow> (case legacy_drain (drop n b) of (vs, rest) \<Rightarrow> (v # vs, rest)))" for b
    by (rule legacy_drain.simps)
next
  fix m f assume "legacy_uplink_frame m = Some f"
  then obtain td ti port p where m: "m = (td, ti, port, p)" and f: "build_frame td ti port p = Some f"
    by (cases m) auto
  from f obtain body where b: "put_frame body = Some f" "legacy_body body = Some p"
    by (rule build_frame_body)
  show "parse_udp_frame_payload f = Some (case m of (_, _, _, p) \<Rightarrow> p, length f)"
    using b by (simp add: m parse_udp_frame_payload_def take_put_frame)
  show "parse_udp_frame_payload (take k f) = None" if "k < length f" for k
    using b that by (simp add: parse_udp_frame_payload_def take_put_frame)
qed (auto simp: parse_udp_frame_payload_def take_frame_extend split: option.splits dest: take_frame_fits)


text \<open>The receive loop of a dedicated tunnel: append the chunk, deliver every complete
frame.\<close>

definition legacy_recv :: "bytes list \<times> bytes \<Rightarrow> bytes \<Rightarrow> bytes list \<times> bytes" where
  "legacy_recv st chunk = (case st of (out, acc) \<Rightarrow>
     (case legacy_drain (acc @ chunk) of (vs, rest) \<Rightarrow> (out @ vs, rest)))"

lemma legacy_recv_step: "legacy_recv = legacy.recv_step"
  by (simp add: fun_eq_iff legacy_recv_def legacy.recv_step_def)

lemma legacy_recv_all: "foldl legacy_recv ([], []) chunks = legacy_drain (concat chunks)"
  unfolding legacy_recv_step
  by (rule legacy.recv_all) (simp add: parse_udp_frame_payload_def take_frame_def)

lemma legacy_stuck: "legacy_drain (0 # 1 # 3 # r) = ([], 0 # 1 # 3 # r)"
proof (rule legacy.drain_none)
  have "unat (of_be16 0 1) = 1" by code_simp
  then show "parse_udp_frame_payload (0 # 1 # 3 # r) = None"
    by (simp add: parse_udp_frame_payload_def take_frame_def legacy_body_def)
qed

lemma legacy_stream:
  assumes "list_all2 (\<lambda>m f. legacy_uplink_frame m = Some f) ms fs"
    and "legacy_uplink_frame m = Some f" and "k < length f"
    and "concat chunks = concat fs @ take k f"
  shows "foldl legacy_recv ([], []) chunks = (map (\<lambda>(_, _, _, p). p) ms, take k f)"
  unfolding legacy_recv_step by (rule legacy.recv_stream [OF assms])

lemma legacy_frame_stalls_parts:
  assumes "list_all2 (\<lambda>m f. legacy_uplink_frame m = Some f) ms fs"
    and "concat chunks = concat fs @ [0, 1, 3] @ r"
  shows "foldl legacy_recv ([], []) chunks = (map (\<lambda>(_, _, _, p). p) ms, [0, 1, 3] @ r)"
    and "parse_mux_frame ([0, 5] @ be32 sid @ [3] @ r) = Some ((sid, []), 7)"
proof -
  show "foldl legacy_recv ([], []) chunks = (map (\<lambda>(_, _, _, p). p) ms, [0, 1, 3] @ r)"
    unfolding legacy_recv_all assms(2) legacy.drain_frames [OF assms(1)]
    by (simp add: legacy_stuck)
  have "unat (of_be16 0 5) = 5" by code_simp
  then show "parse_mux_frame ([0, 5] @ be32 sid @ [3] @ r) = Some ((sid, []), 7)"
    by (simp add: parse_mux_frame_def take_frame_def mux_body_def mux_addr_len_def be32_def
        of_be32_be32)
qed

text \<open>A complete downlink frame whose body is the single byte 3 (domain type, no
length) is never consumed: on a dedicated tunnel every frame before it is delivered,
nothing after it ever is, and the buffer grows with all that follows. The mux parser
skips the same frame.\<close>
theorem legacy_frame_stalls:
  assumes "list_all2 (\<lambda>m f. legacy_uplink_frame m = Some f) ms fs"
    and "concat chunks = concat fs @ [0, 1, 3] @ r"
  shows "foldl legacy_recv ([], []) chunks = (map (\<lambda>(_, _, _, p). p) ms, [0, 1, 3] @ r)
    \<and> parse_mux_frame ([0, 5] @ be32 sid @ [3] @ r) = Some ((sid, []), 7)"
  using legacy_frame_stalls_parts [OF assms] by blast

theorem legacy_frame_stalls_witness:
  "foldl legacy_recv ([], []) [[0, 9, 1, 8, 8, 8, 8, 0], [53, 65, 66, 0], [1, 3, 7, 7]]
     = ([[65, 66]], [0, 1, 3, 7, 7])"
proof -
  have "legacy_uplink_frame (None, Some (V4 0x08080808), 53, [65, 66])
      = Some [0, 9, 1, 8, 8, 8, 8, 0, 53, 65, 66]"
    by (simp add: build_frame_def be16_def be32_def)
  then show ?thesis
    using legacy_frame_stalls [of "[(None, Some (V4 0x08080808), 53, [65, 66])]"
        "[[0, 9, 1, 8, 8, 8, 8, 0, 53, 65, 66]]"
        "[[0, 9, 1, 8, 8, 8, 8, 0], [53, 65, 66, 0], [1, 3, 7, 7]]" "[7, 7]"]
    by simp
qed

end
