(* ===== verification/UdpMux.thy ===== *)
theory UdpMux
  imports UdpFrames
begin

text \<open>One shared mux tunnel (\<open>MuxTunnel\<close> in
\<open>src/native/mirage-core/src/proxy/udp_mux.rs\<close>): session ids, the flow table with its cap,
and the demux pump that turns the byte stream of the tunnel into IP packets on the
TUN. The tunnel is a state machine whose operations share one invariant.\<close>

record flow_key =
  fk_src :: ip_addr
  fk_src_port :: u16
  fk_dst :: ip_addr
  fk_dst_port :: u16

record flow_entry =
  fe_key :: flow_key
  fe_got :: bool
  fe_down :: "u64 option"

record mux_tunnel =
  mt_flows :: "(u32, flow_entry) map"
  mt_next :: u32
  mt_alive :: bool
  mt_reading :: bool
  mt_acc :: bytes

definition mux_max_sids :: nat where "mux_max_sids = 512"

definition mux_from_tunnel :: mux_tunnel where
  "mux_from_tunnel =
     \<lparr>mt_flows = Map.empty, mt_next = 1, mt_alive = True, mt_reading = True, mt_acc = []\<rparr>"

definition alloc_sid :: "mux_tunnel \<Rightarrow> u32 \<times> mux_tunnel" where
  "alloc_sid t =
     (let sid = mt_next t; t1 = t\<lparr>mt_next := sid + 1\<rparr>
      in if sid = 0 then
           let sid = mt_next t1; t2 = t1\<lparr>mt_next := sid + 1\<rparr>
           in if sid = 0 then (1, t2\<lparr>mt_next := 2\<rparr>) else (sid, t2)
         else (sid, t1))"

definition try_register :: "u32 \<Rightarrow> flow_key \<Rightarrow> u64 option \<Rightarrow> mux_tunnel \<Rightarrow> mux_tunnel option" where
  "try_register sid key down t =
     (if mux_max_sids \<le> card (dom (mt_flows t)) then None
      else Some (t\<lparr>mt_flows :=
             (mt_flows t)(sid \<mapsto> \<lparr>fe_key = key, fe_got = False, fe_down = down\<rparr>)\<rparr>))"

definition unregister :: "u32 \<Rightarrow> mux_tunnel \<Rightarrow> mux_tunnel" where
  "unregister sid t = t\<lparr>mt_flows := (mt_flows t)(sid := None)\<rparr>"

text \<open>The reply goes out from the flow's destination to the flow's source.\<close>

definition reply_packets :: "flow_key \<Rightarrow> bytes \<Rightarrow> bytes list" where
  "reply_packets key payload =
     (case build_reply_ip (fk_dst key, fk_dst_port key) (fk_src key, fk_src_port key) payload of
        Some pkt \<Rightarrow> [pkt]
      | None \<Rightarrow> [])"

text \<open>The state of the demux pump is the tunnel and the packets written to the TUN.\<close>

fun deliver :: "mux_tunnel \<times> bytes list \<Rightarrow> u32 \<times> bytes \<Rightarrow> mux_tunnel \<times> bytes list" where
  "deliver (t, tun) (sid, payload) =
     (if payload = [] then (t, tun)
      else case mt_flows t sid of
             None \<Rightarrow> (t, tun)
           | Some e \<Rightarrow>
               (t\<lparr>mt_flows := (mt_flows t)(sid \<mapsto>
                    e\<lparr>fe_got := True,
                      fe_down := map_option (\<lambda>dc. dc + of_nat (length payload)) (fe_down e)\<rparr>)\<rparr>,
                tun @ reply_packets (fe_key e) payload))"

definition demux_stop :: "mux_tunnel \<Rightarrow> mux_tunnel" where
  "demux_stop t = t\<lparr>mt_alive := False, mt_reading := False\<rparr>"

definition demux_chunk :: "mux_tunnel \<times> bytes list \<Rightarrow> bytes \<Rightarrow> mux_tunnel \<times> bytes list" where
  "demux_chunk st chunk =
     (if \<not> mt_reading (fst st) then st
      else case mux_drain (mt_acc (fst st) @ chunk) of
             (frames, rest) \<Rightarrow>
               (case foldl deliver st frames of
                  (t, tun) \<Rightarrow>
                    (let t = t\<lparr>mt_acc := rest\<rparr>
                     in (if 65536 * 2 < length rest then demux_stop t else t, tun))))"

text \<open>What can happen to a shared tunnel: a flow is opened (a fresh sid, registered when
there is room) or dropped, a chunk arrives, the reader fails or times out, the writer
fails.\<close>

datatype mux_op =
  OpenFlow flow_key "u64 option" | DropFlow u32 | Chunk bytes | ReaderEnd | WriterEnd

fun mux_step :: "mux_op \<Rightarrow> mux_tunnel \<times> bytes list \<Rightarrow> mux_tunnel \<times> bytes list" where
  "mux_step (OpenFlow key down) (t, tun) =
     (case alloc_sid t of
        (sid, t') \<Rightarrow>
          (case try_register sid key down t' of None \<Rightarrow> (t', tun) | Some t'' \<Rightarrow> (t'', tun)))"
| "mux_step (DropFlow sid) (t, tun) = (unregister sid t, tun)"
| "mux_step (Chunk c) st = demux_chunk st c"
| "mux_step ReaderEnd (t, tun) = (demux_stop t, tun)"
| "mux_step WriterEnd (t, tun) = (t\<lparr>mt_alive := False\<rparr>, tun)"

subsection \<open>Facts\<close>

lemma alloc_sid_nonzero: "fst (alloc_sid t) \<noteq> 0"
  by (simp add: alloc_sid_def Let_def)

lemma alloc_sid_frame [simp]:
  "mt_flows (snd (alloc_sid t)) = mt_flows t" "mt_acc (snd (alloc_sid t)) = mt_acc t"
  "mt_alive (snd (alloc_sid t)) = mt_alive t" "mt_reading (snd (alloc_sid t)) = mt_reading t"
  by (simp_all add: alloc_sid_def Let_def)

text \<open>Fresh sids repeat only after the counter has wrapped.\<close>

fun alloc_many :: "nat \<Rightarrow> mux_tunnel \<Rightarrow> u32 list" where
  "alloc_many 0 t = []"
| "alloc_many (Suc n) t = (case alloc_sid t of (sid, t') \<Rightarrow> sid # alloc_many n t')"

lemma alloc_many_fresh:
  "0 < unat (mt_next t) \<Longrightarrow> unat (mt_next t) + n \<le> 2 ^ 32 \<Longrightarrow>
   map unat (alloc_many n t) = [unat (mt_next t) ..< unat (mt_next t) + n]"
proof (induction n arbitrary: t)
  case (Suc n)
  have nz: "mt_next t \<noteq> 0" using Suc.prems(1) by auto
  have a: "alloc_sid t = (mt_next t, t\<lparr>mt_next := mt_next t + 1\<rparr>)"
    using nz by (simp add: alloc_sid_def Let_def)
  show ?case
  proof (cases n)
    case 0
    then show ?thesis by (simp add: a)
  next
    case (Suc k)
    then have s: "unat (mt_next t + 1) = unat (mt_next t) + 1"
      using Suc.prems(2) by (simp add: unat_word_ariths)
    have "map unat (alloc_many n (t\<lparr>mt_next := mt_next t + 1\<rparr>))
        = [unat (mt_next t) + 1 ..< unat (mt_next t) + 1 + n]"
      using Suc.IH [of "t\<lparr>mt_next := mt_next t + 1\<rparr>"] Suc.prems(2) s by simp
    then show ?thesis by (simp add: a upt_conv_Cons)
  qed
qed simp

definition same_keys :: "(u32, flow_entry) map \<Rightarrow> (u32, flow_entry) map \<Rightarrow> bool" where
  "same_keys m m' \<longleftrightarrow> (\<forall>sid. map_option fe_key (m sid) = map_option fe_key (m' sid))"

lemma same_keys_dom: "same_keys m m' \<Longrightarrow> Map.dom m = Map.dom m'"
  by (auto simp: same_keys_def dom_def) (metis option.map_disc_iff not_None_eq)+

lemma deliver_frame:
  "same_keys (mt_flows t) (mt_flows (fst (deliver (t, tun) v)))
   \<and> mt_acc (fst (deliver (t, tun) v)) = mt_acc t
   \<and> mt_alive (fst (deliver (t, tun) v)) = mt_alive t
   \<and> mt_reading (fst (deliver (t, tun) v)) = mt_reading t
   \<and> mt_next (fst (deliver (t, tun) v)) = mt_next t"
  by (cases v) (auto simp: same_keys_def split: option.splits)

lemma delivers_frame:
  "same_keys (mt_flows (fst st)) (mt_flows (fst (foldl deliver st vs)))
   \<and> mt_acc (fst (foldl deliver st vs)) = mt_acc (fst st)
   \<and> mt_alive (fst (foldl deliver st vs)) = mt_alive (fst st)
   \<and> mt_reading (fst (foldl deliver st vs)) = mt_reading (fst st)
   \<and> mt_next (fst (foldl deliver st vs)) = mt_next (fst st)"
proof (induction vs arbitrary: st)
  case (Cons v vs)
  obtain t tun where st: "st = (t, tun)" by (cases st)
  from Cons [of "deliver st v"] deliver_frame [of t tun v] show ?case
    by (simp add: st same_keys_def)
qed (simp add: same_keys_def)

text \<open>The bound on the unparsed rest: it is always less than one full frame, so the
pump's 128 KiB cut-off never fires.\<close>

lemma mux_rest_bound: "length (snd (mux_drain b)) < 65537"
  using mux.drain_rest [of b] by (auto simp: parse_mux_frame_def intro: take_frame_none split: option.splits)

lemma demux_chunk_reading:
  assumes "mt_reading t"
  shows "demux_chunk (t, tun) chunk =
     (case foldl deliver (t, tun) (fst (mux_drain (mt_acc t @ chunk))) of
        (t', tun') \<Rightarrow> (t'\<lparr>mt_acc := snd (mux_drain (mt_acc t @ chunk))\<rparr>, tun'))"
  using assms mux_rest_bound [of "mt_acc t @ chunk"]
  by (simp add: demux_chunk_def Let_def case_prod_beta)

declare deliver.simps [simp del]

lemma deliver_acc: "deliver (t\<lparr>mt_acc := a\<rparr>, tun) v
   = (case deliver (t, tun) v of (t', tun') \<Rightarrow> (t'\<lparr>mt_acc := a\<rparr>, tun'))"
  by (cases v) (simp add: deliver.simps split: option.splits)

lemma delivers_acc: "foldl deliver (t\<lparr>mt_acc := a\<rparr>, tun) vs
   = (case foldl deliver (t, tun) vs of (t', tun') \<Rightarrow> (t'\<lparr>mt_acc := a\<rparr>, tun'))"
  by (induction vs arbitrary: t tun) (simp_all add: deliver_acc split: prod.splits)

text \<open>Processing chunk by chunk is processing the whole stream at once.\<close>

lemma demux_chunks:
  assumes "mt_reading t" and "mux_drain (mt_acc t) = ([], mt_acc t)"
  shows "foldl demux_chunk (t, tun) chunks =
     (case foldl deliver (t, tun) (fst (mux_drain (mt_acc t @ concat chunks))) of
        (t', tun') \<Rightarrow> (t'\<lparr>mt_acc := snd (mux_drain (mt_acc t @ concat chunks))\<rparr>, tun'))"
  using assms
proof (induction chunks arbitrary: t tun)
  case Nil
  then show ?case by simp
next
  case (Cons c cs)
  obtain vs rest where d: "mux_drain (mt_acc t @ c) = (vs, rest)" by fastforce
  obtain t1 tun1 where f: "foldl deliver (t, tun) vs = (t1, tun1)" by fastforce
  have rd: "mt_reading t1" using delivers_frame [of "(t, tun)" vs] f Cons.prems(1) by simp
  have n: "mux_drain rest = ([], rest)"
    using mux.drain_rest [of "mt_acc t @ c"] d by (simp add: mux.drain_none)
  have step: "demux_chunk (t, tun) c = (t1\<lparr>mt_acc := rest\<rparr>, tun1)"
    using Cons.prems(1) by (simp add: demux_chunk_reading d f)
  have app: "mux_drain (mt_acc t @ c @ concat cs)
      = (vs @ fst (mux_drain (rest @ concat cs)), snd (mux_drain (rest @ concat cs)))"
    using mux.drain_append [of "mt_acc t @ c" "concat cs"] d by simp
  show ?case
    using Cons.IH [of "t1\<lparr>mt_acc := rest\<rparr>" tun1] rd n
    by (simp add: step app f delivers_acc case_prod_beta)
qed

lemma delivers_tun:
  "snd (foldl deliver (t, tun) vs) = tun @ concat (map (\<lambda>(sid, p).
     if p = [] then [] else case mt_flows t sid of None \<Rightarrow> [] | Some e \<Rightarrow> reply_packets (fe_key e) p) vs)"
proof (induction vs arbitrary: t tun)
  case (Cons v vs)
  obtain sid p where v: "v = (sid, p)" by (cases v)
  obtain t1 tun1 where d: "deliver (t, tun) v = (t1, tun1)" by fastforce
  have k: "same_keys (mt_flows t) (mt_flows t1)" using deliver_frame [of t tun v] d by simp
  have eq: "(case mt_flows t1 s of None \<Rightarrow> [] | Some e \<Rightarrow> reply_packets (fe_key e) q)
      = (case mt_flows t s of None \<Rightarrow> [] | Some e \<Rightarrow> reply_packets (fe_key e) q)" for s q
    using k [unfolded same_keys_def, rule_format, of s] by (auto split: option.splits)
  have tun1: "tun1 = tun @ (if p = [] then [] else
      case mt_flows t sid of None \<Rightarrow> [] | Some e \<Rightarrow> reply_packets (fe_key e) p)"
    using d v by (auto simp: deliver.simps split: if_splits option.splits)
  have "snd (foldl deliver (t, tun) (v # vs)) = snd (foldl deliver (t1, tun1) vs)"
    by (simp only: foldl_Cons d)
  also have "\<dots> = tun1 @ concat (map (\<lambda>(sid, p). if p = [] then []
      else case mt_flows t sid of None \<Rightarrow> [] | Some e \<Rightarrow> reply_packets (fe_key e) p) vs)"
    by (simp only: Cons eq)
  finally show ?case by (simp add: tun1 v)
qed simp

lemma delivers_count:
  assumes "mt_flows t sid = Some e" and "fe_down e = Some dc"
  shows "map_option fe_down (mt_flows (fst (foldl deliver (t, tun) vs)) sid)
     = Some (Some (dc + of_nat (sum_list (map (\<lambda>(s, p). if s = sid then length p else 0) vs))))"
  using assms
proof (induction vs arbitrary: t tun e dc)
  case (Cons v vs)
  obtain s p where v: "v = (s, p)" by (cases v)
  obtain t1 tun1 where d: "deliver (t, tun) v = (t1, tun1)" by fastforce
  have "map_option fe_down (mt_flows t1 sid)
      = Some (Some (dc + of_nat (if s = sid then length p else 0)))"
    using d v Cons.prems
    by (cases "p = []"; cases "s = sid"; cases "mt_flows t s") (auto simp: deliver.simps)
  then obtain e1 where e1: "mt_flows t1 sid = Some e1"
      "fe_down e1 = Some (dc + of_nat (if s = sid then length p else 0))" by auto
  have "foldl deliver (t, tun) (v # vs) = foldl deliver (t1, tun1) vs"
    by (simp only: foldl_Cons d)
  with Cons.IH [OF e1, of tun1] show ?case
    by (simp add: v add.assoc)
qed simp

definition mux_inv :: "mux_tunnel \<times> bytes list \<Rightarrow> bool" where
  "mux_inv st \<longleftrightarrow>
     finite (dom (mt_flows (fst st))) \<and> card (dom (mt_flows (fst st))) \<le> mux_max_sids
     \<and> mt_flows (fst st) 0 = None
     \<and> length (mt_acc (fst st)) < 65537
     \<and> (mt_reading (fst st) \<or> \<not> mt_alive (fst st))"

lemma mux_step_inv: "mux_inv st \<Longrightarrow> mux_inv (mux_step op st)"
proof -
  assume i: "mux_inv st"
  obtain t tun where st: "st = (t, tun)" by (cases st)
  show ?thesis
  proof (cases op)
    case (OpenFlow key down)
    obtain sid t1 where a: "alloc_sid t = (sid, t1)" by fastforce
    have "sid \<noteq> 0" "mt_flows t1 = mt_flows t" "mt_acc t1 = mt_acc t" "mt_alive t1 = mt_alive t"
        "mt_reading t1 = mt_reading t"
      using alloc_sid_nonzero [of t] alloc_sid_frame [of t] a by simp_all
    then show ?thesis
      using i by (auto simp: st OpenFlow a try_register_def mux_inv_def mux_max_sids_def card_insert_if)
  next
    case (DropFlow sid)
    have "card (dom (mt_flows t) - {sid}) \<le> card (dom (mt_flows t))"
      using i by (intro card_mono) (auto simp: mux_inv_def st)
    then show ?thesis using i by (auto simp: st DropFlow unregister_def mux_inv_def)
  next
    case (Chunk c)
    show ?thesis
    proof (cases "mt_reading t")
      case True
      obtain vs rest where d: "mux_drain (mt_acc t @ c) = (vs, rest)" by fastforce
      obtain t1 tun1 where f: "foldl deliver (t, tun) vs = (t1, tun1)" by fastforce
      note fr = delivers_frame [of "(t, tun)" vs, unfolded f, simplified]
      have "Map.dom (mt_flows t) = Map.dom (mt_flows t1)" using fr same_keys_dom by blast
      then show ?thesis
        using i True fr mux_rest_bound [of "mt_acc t @ c"]
        by (auto simp: st Chunk demux_chunk_reading d f mux_inv_def domIff)
    qed (use i in \<open>simp add: st Chunk demux_chunk_def\<close>)
  qed (use i in \<open>auto simp: st demux_stop_def mux_inv_def\<close>)
qed

interpretation mux_tunnel: invariant_machine mux_step mux_inv
  by unfold_locales (rule mux_step_inv)

lemma mux_init_inv: "mux_inv (mux_from_tunnel, tun)"
  by (simp add: mux_inv_def mux_from_tunnel_def)


lemma mux_delivery_parts:
  assumes "mt_reading t" and "mt_acc t = []"
    and "list_all2 (\<lambda>m f. mux_uplink_frame m = Some f) ms fs"
    and "mux_uplink_frame m = Some f" and "k < length f"
    and "concat chunks = concat fs @ take k f"
  shows "snd (foldl demux_chunk (t, tun) chunks) = tun @ concat (map (\<lambda>(sid, _, _, _, p).
           if p = [] then []
           else case mt_flows t sid of None \<Rightarrow> [] | Some e \<Rightarrow> reply_packets (fe_key e) p) ms)"
    and "mt_acc (fst (foldl demux_chunk (t, tun) chunks)) = take k f"
    and "mt_reading (fst (foldl demux_chunk (t, tun) chunks))"
    and "mt_flows t sid = Some e \<Longrightarrow> fe_down e = Some dc \<Longrightarrow>
         map_option fe_down (mt_flows (fst (foldl demux_chunk (t, tun) chunks)) sid)
           = Some (Some (dc + of_nat (sum_list (map (\<lambda>(s, _, _, _, p).
               if s = sid then length p else 0) ms))))"
proof -
  let ?vs = "map (\<lambda>(sid, _, _, _, p). (sid, p)) ms"
  have n: "mux_drain (mt_acc t) = ([], mt_acc t)"
    by (simp add: assms(2) mux_drain.simps parse_mux_frame_def take_frame_def)
  have d: "mux_drain (mt_acc t @ concat chunks) = (?vs, take k f)"
    using mux.drain_frames [OF assms(3), of "take k f"] mux.drain_partial [OF assms(4,5)]
    by (simp add: assms(2,6))
  note c = demux_chunks [OF assms(1) n, of tun chunks, unfolded d]
  show "snd (foldl demux_chunk (t, tun) chunks) = tun @ concat (map (\<lambda>(sid, _, _, _, p).
           if p = [] then []
           else case mt_flows t sid of None \<Rightarrow> [] | Some e \<Rightarrow> reply_packets (fe_key e) p) ms)"
    by (simp add: c case_prod_unfold delivers_tun comp_def cong: if_cong option.case_cong)
  show "mt_acc (fst (foldl demux_chunk (t, tun) chunks)) = take k f"
    by (simp add: c case_prod_beta)
  show "mt_reading (fst (foldl demux_chunk (t, tun) chunks))"
    using delivers_frame [of "(t, tun)" ?vs] assms(1) by (simp add: c case_prod_beta)
  show "mt_flows t sid = Some e \<Longrightarrow> fe_down e = Some dc \<Longrightarrow>
         map_option fe_down (mt_flows (fst (foldl demux_chunk (t, tun) chunks)) sid)
           = Some (Some (dc + of_nat (sum_list (map (\<lambda>(s, _, _, _, p).
               if s = sid then length p else 0) ms))))"
    using delivers_count [of t sid e dc tun ?vs]
    by (simp add: c case_prod_unfold comp_def cong: if_cong)
qed

text \<open>Mux delivery: when the tunnel's byte stream is a sequence of frames and the
start of one more, then however it is cut into chunks the pump writes to the TUN exactly
the reply packets of the non-empty frames whose session is registered, in order, each
addressed from the flow's destination back to its source; the bytes of each session are
counted, the unfinished frame is kept and the pump goes on reading.\<close>
theorem mux_delivery:
  assumes "mt_reading t" and "mt_acc t = []"
    and "list_all2 (\<lambda>m f. mux_uplink_frame m = Some f) ms fs"
    and "mux_uplink_frame m = Some f" and "k < length f"
    and "concat chunks = concat fs @ take k f"
  shows "snd (foldl demux_chunk (t, tun) chunks) = tun @ concat (map (\<lambda>(sid, _, _, _, p).
           if p = [] then []
           else case mt_flows t sid of None \<Rightarrow> [] | Some e \<Rightarrow> reply_packets (fe_key e) p) ms)
    \<and> mt_acc (fst (foldl demux_chunk (t, tun) chunks)) = take k f
    \<and> mt_reading (fst (foldl demux_chunk (t, tun) chunks))
    \<and> (mt_flows t sid = Some e \<and> fe_down e = Some dc \<longrightarrow>
         map_option fe_down (mt_flows (fst (foldl demux_chunk (t, tun) chunks)) sid)
           = Some (Some (dc + of_nat (sum_list (map (\<lambda>(s, _, _, _, p).
               if s = sid then length p else 0) ms)))))"
  using mux_delivery_parts [OF assms] by blast

definition demo_key :: flow_key where
  "demo_key = \<lparr>fk_src = V4 0x0A630002, fk_src_port = 5000, fk_dst = V4 0x08080808, fk_dst_port = 53\<rparr>"

theorem mux_delivery_witness:
  "snd (foldl demux_chunk
       (mux_from_tunnel\<lparr>mt_flows := [1 \<mapsto> \<lparr>fe_key = demo_key, fe_got = False, fe_down = None\<rparr>]\<rparr>, [])
       [[0, 13, 0, 0, 0, 1, 1, 8, 8, 8], [8, 0, 53, 65, 66, 0]])
     = [build_ipv4_udp (0x08080808, 53) (0x0A630002, 5000) [65, 66]]"
proof -
  have m: "mux_uplink_frame (1, None, V4 0x08080808, 53, [65, 66])
      = Some [0, 13, 0, 0, 0, 1, 1, 8, 8, 8, 8, 0, 53, 65, 66]"
    by (simp add: frame_mux_ipv4_def wrap_frame_def be16_def be32_def)
  let ?t = "mux_from_tunnel\<lparr>mt_flows := [1 \<mapsto> \<lparr>fe_key = demo_key, fe_got = False, fe_down = None\<rparr>]\<rparr>"
  have "snd (foldl demux_chunk (?t, []) [[0, 13, 0, 0, 0, 1, 1, 8, 8, 8], [8, 0, 53, 65, 66, 0]])
      = [] @ concat (map (\<lambda>(sid, _, _, _, p). if p = [] then []
          else case mt_flows ?t sid of None \<Rightarrow> [] | Some e \<Rightarrow> reply_packets (fe_key e) p)
          [(1, None :: string option, V4 0x08080808, 53 :: u16, [65, 66])])"
    by (rule mux_delivery [where fs = "[[0, 13, 0, 0, 0, 1, 1, 8, 8, 8, 8, 0, 53, 65, 66]]"
          and k = 1, OF _ _ _ m, THEN conjunct1]) (simp_all add: m [simplified] mux_from_tunnel_def)
  then show ?thesis by (simp add: demo_key_def reply_packets_def)
qed

text \<open>Whatever happens to a shared tunnel, it carries at most 512 sessions, none of
them numbered 0, its buffer stays below one maximal frame (so the 128 KiB cut-off never
fires), and a pump that has stopped reading has marked the tunnel dead.\<close>
theorem mux_tunnel_bounded:
  "card (dom (mt_flows (fst (fold mux_step ops (mux_from_tunnel, []))))) \<le> 512
   \<and> mt_flows (fst (fold mux_step ops (mux_from_tunnel, []))) 0 = None
   \<and> length (mt_acc (fst (fold mux_step ops (mux_from_tunnel, [])))) < 65537
   \<and> (mt_alive (fst (fold mux_step ops (mux_from_tunnel, [])))
        \<le> mt_reading (fst (fold mux_step ops (mux_from_tunnel, []))))"
  using mux_tunnel.run_inv [OF mux_init_inv, of ops "[]"]
  by (auto simp: mux_inv_def mux_max_sids_def)

end
