(* ===== verification/Dns.thy ===== *)
theory Dns
  imports Router FakeIp Packets
begin

text \<open>The DNS answerer (\<open>src/native/mirage-core/src/tun/dns.rs\<close>): queries and answers as
bytes, the cache of domains learned to be direct, the race of the domestic resolvers,
and the handler that answers every address query with a fake address. Single-flight is
the parameter \<open>flight\<close>; sockets and timers are the datagrams that arrive in time. The
monitor's connection log is not part of the state.\<close>

subsection \<open>Messages\<close>

definition build_a_query :: "string \<Rightarrow> u16 \<Rightarrow> bytes" where
  "build_a_query domain qid =
     be16 qid @ [0x01, 0x00, 0, 1, 0, 0, 0, 0, 0, 0]
     @ concat (map (\<lambda>label. if label = [] then [] else of_nat (length label) # map byte_of label)
         (split_char (CHR ''.'') (trim_end_matches (CHR ''.'') domain)))
     @ [0] @ [0, 1, 0, 1]"

text \<open>The loop of \<open>skip_dns_name\<close>; \<open>steps\<close> counts the labels passed.\<close>

function skip_dns_name_from :: "bytes \<Rightarrow> nat \<Rightarrow> nat \<Rightarrow> nat option" where
  "skip_dns_name_from buf steps off =
     (if length buf \<le> off then None
      else if 128 < steps then None
      else
        let len = unat (buf ! off)
        in if len = 0 then Some (off + 1)
           else if (buf ! off) AND 0xC0 = 0xC0 then
             (if length buf < off + 2 then None else Some (off + 2))
           else if length buf < off + 1 + len then None
           else skip_dns_name_from buf (steps + 1) (off + 1 + len))"
  by pat_completeness auto
termination
  by (relation "measure (\<lambda>(buf, _, off). length buf - off)") auto

declare skip_dns_name_from.simps [simp del]

definition skip_dns_name :: "bytes \<Rightarrow> nat \<Rightarrow> nat option" where
  "skip_dns_name buf off = skip_dns_name_from buf 0 off"

definition word_at :: "bytes \<Rightarrow> nat \<Rightarrow> u16" where
  "word_at buf i = of_be16 (buf ! i) (buf ! (i + 1))"

text \<open>The record loop of \<open>parse_a_answer\<close>, \<open>n\<close> records left to look at.\<close>

fun answer_records :: "bytes \<Rightarrow> nat \<Rightarrow> nat \<Rightarrow> bytes option" where
  "answer_records buf 0 off = None"
| "answer_records buf (Suc n) off =
     (case skip_dns_name buf off of
        None \<Rightarrow> None
      | Some r \<Rightarrow>
          if length buf < r + 10 then None
          else
            let rtype = word_at buf r;
                rdlen = unat (word_at buf (r + 8));
                rd = r + 10
            in if length buf < rd + rdlen then None
               else if rtype = 1 \<and> rdlen = 4 then Some (take 4 (drop rd buf))
               else answer_records buf n (rd + rdlen))"

definition parse_a_answer :: "bytes \<Rightarrow> nat \<Rightarrow> bytes option" where
  "parse_a_answer buf qname_len =
     (if length buf < 12 then None
      else if word_at buf 6 = 0 then None
      else answer_records buf (min (unat (word_at buf 6)) 16) (12 + qname_len + 4))"

definition dns_response_ttl :: u32 where "dns_response_ttl = 1"

definition build_response ::
    "bytes \<Rightarrow> u16 \<Rightarrow> bytes option \<Rightarrow> nat \<Rightarrow> u8 \<Rightarrow> bytes option" where
  "build_response query qtype a_record question_len rcode =
     (if length query < 12 \<or> question_len < 13 \<or> length query < question_len then None
      else
        let question = drop 12 (take question_len query)
        in Some (take 2 query @ [0x81, 0x80 OR (rcode AND 0x0F)] @ [0, 1]
             @ (if a_record \<noteq> None then [0, 1] else [0, 0]) @ [0, 0, 0, 0] @ question
             @ (case a_record of
                  None \<Rightarrow> []
                | Some ip \<Rightarrow>
                    [0xC0, 0x0C] @ be16 qtype @ [0, 1] @ be32 dns_response_ttl @ [0, 4] @ ip)))"

text \<open>\<open>name.push(b as char)\<close>: a byte is a Latin-1 character, pushed in UTF-8.\<close>

definition push_latin1 :: "u8 \<Rightarrow> string" where
  "push_latin1 b =
     (if b < 0x80 then [chr_of b]
      else [chr_of (0xC0 OR drop_bit 6 b), chr_of (0x80 OR (b AND 0x3F))])"

function query_labels :: "bytes \<Rightarrow> nat \<Rightarrow> bytes list \<Rightarrow> (bytes list \<times> nat) option" where
  "query_labels buf off labels =
     (if length buf \<le> off then None
      else
        let len = unat (buf ! off)
        in if len = 0 then Some (labels, off + 1)
           else if 63 < len \<or> length buf < off + 1 + len then None
           else query_labels buf (off + 1 + len) (labels @ [take len (drop (off + 1) buf)]))"
  by pat_completeness auto
termination
  by (relation "measure (\<lambda>(buf, off, _). length buf - off)") auto

declare query_labels.simps [simp del]

fun join_labels :: "string list \<Rightarrow> string" where
  "join_labels [] = []"
| "join_labels [l] = l"
| "join_labels (l # ls) = l @ CHR ''.'' # join_labels ls"

definition parse_query :: "bytes \<Rightarrow> (string \<times> u16 \<times> nat) option" where
  "parse_query buf =
     (if length buf < 12 then None
      else if word_at buf 4 < 1 then None
      else case query_labels buf 12 [] of
             None \<Rightarrow> None
           | Some (labels, off) \<Rightarrow>
               if length buf < off + 4 then None
               else Some (ascii_lower (join_labels (map (\<lambda>l. concat (map push_latin1 l)) labels)),
                          word_at buf off, off + 4))"

subsection \<open>Facts about messages\<close>

lemma query_labels_ge: "query_labels buf off ls = Some (ls', n) \<Longrightarrow> off < n \<and> n \<le> length buf"
proof (induction buf off ls rule: query_labels.induct)
  case (1 buf off ls)
  then show ?case
    by (subst (asm) (2) query_labels.simps) (fastforce simp: Let_def split: if_splits)
qed

lemma parse_query_len: "parse_query q = Some (d, qt, n) \<Longrightarrow> 17 \<le> n \<and> n \<le> length q"
  by (auto simp: parse_query_def split: if_splits option.splits dest: query_labels_ge)

lemma response_answer:
  assumes b: "build_response q qt (Some ip) n rc = Some r" and n: "16 \<le> n" and ip: "length ip = 4"
    and qt: "qt = 1"
  shows "parse_a_answer r (n - 16) = Some ip"
proof -
  from b have l: "12 \<le> length q" "n \<le> length q"
    by (auto simp: build_response_def split: if_splits)
  define x where "x = drop 12 (take n q)"
  define h where "h = take 2 q @ [0x81, 0x80 OR (rc AND 0x0F)] @ [0, 1] @ [0, 1] @ [0, 0, 0, 0]"
  have lh: "length h = 12" and lx: "length x = n - 12" using l by (simp_all add: h_def x_def)
  obtain i0 i1 i2 i3 where ipe: "ip = [i0, i1, i2, i3]"
    using ip by (auto simp: numeral_eq_Suc length_Suc_conv)
  obtain q0 q1 where q2: "take 2 q = [q0, q1]"
  proof -
    have "length (take 2 q) = 2" using l by simp
    then show ?thesis using that by (auto simp: numeral_eq_Suc length_Suc_conv simp del: length_take)
  qed
  define t where "t = [0xC0, 0x0C, 0, 1, 0, 1, 0, 0, 0, 1, 0, 4, i0, i1, i2, i3 :: u8]"
  have be: "be16 1 = [0, 1]" "be32 dns_response_ttl = [0, 0, 0, 1]"
    by (simp_all add: be16_def be32_def dns_response_ttl_def)
  have r: "r = (h @ x) @ t"
    using b n by (simp add: build_response_def h_def x_def t_def qt be ipe split: if_splits)
  have lhx: "length (h @ x) = n" using lh lx n by simp
  have nth: "r ! (n + k) = t ! k" for k
    unfolding r using nth_append_length_plus [of "h @ x" t k] lhx by simp
  have lr: "length r = n + 16" using lh lx n by (simp add: r t_def)
  have c0: "(0xC0 :: u8) AND 0xC0 = 0xC0" by simp
  have "skip_dns_name r n = Some (n + 2)"
    using nth [of 0] lr by (simp add: skip_dns_name_def skip_dns_name_from.simps t_def)
  moreover have "word_at r (n + 2) = 1" "unat (word_at r (n + 2 + 8)) = 4"
  proof -
    have "of_be16 0 1 = 1" "unat (of_be16 0 4) = 4" by code_simp+
    then show "word_at r (n + 2) = 1" "unat (word_at r (n + 2 + 8)) = 4"
      using nth [of 2] nth [of 3] nth [of 10] nth [of 11]
      by (simp_all add: word_at_def t_def numeral_eq_Suc)
  qed
  moreover have "take 4 (drop (12 + n) r) = ip"
    using lh lx n by (simp add: r t_def ipe)
  ultimately have rec: "answer_records r (Suc 0) n = Some ip"
    using lr ip by (simp add: Let_def)
  have "word_at r 6 = 1"
  proof -
    have "of_be16 0 1 = 1" by code_simp
    then show ?thesis by (simp add: word_at_def r h_def q2 nth_append)
  qed
  with rec lr n show ?thesis by (simp add: parse_a_answer_def)
qed


text \<open>A query for plain labels parses back to the lower-cased name.\<close>

definition encode_labels :: "string list \<Rightarrow> bytes" where
  "encode_labels ls = concat (map (\<lambda>l. of_nat (length l) # map byte_of l) ls)"

definition plain_label :: "string \<Rightarrow> bool" where
  "plain_label l \<longleftrightarrow> l \<noteq> [] \<and> length l \<le> 63 \<and> (\<forall>c\<in>set l. code c < 128 \<and> c \<noteq> CHR ''.'')"

lemma query_labels_encoded:
  "list_all plain_label ls \<Longrightarrow>
   query_labels (pre @ encode_labels ls @ 0 # rest) (length pre) acc
     = Some (acc @ map (map byte_of) ls, length pre + length (encode_labels ls) + 1)"
proof (induction ls arbitrary: pre acc)
  case Nil
  then show ?case by (subst query_labels.simps) (simp add: encode_labels_def)
next
  case (Cons l ls)
  have l: "l \<noteq> []" "length l \<le> 63" using Cons.prems by (auto simp: plain_label_def)
  have u: "unat (of_nat (length l) :: u8) = length l" using l by (simp add: unat_of_nat)
  let ?pre = "pre @ of_nat (length l) # map byte_of l"
  have e: "pre @ encode_labels (l # ls) @ 0 # rest = ?pre @ encode_labels ls @ 0 # rest"
    by (simp add: encode_labels_def)
  have "query_labels (pre @ encode_labels (l # ls) @ 0 # rest) (length pre) acc
      = query_labels (?pre @ encode_labels ls @ 0 # rest) (length ?pre) (acc @ [map byte_of l])"
    unfolding e using l u by (subst query_labels.simps) (simp add: nth_append Let_def)
  also have "\<dots> = Some ((acc @ [map byte_of l]) @ map (map byte_of) ls,
      length ?pre + length (encode_labels ls) + 1)"
    using Cons.prems by (intro Cons.IH) simp
  finally show ?case by (simp add: encode_labels_def)
qed

lemma push_latin1_ascii: "code c < 128 \<Longrightarrow> push_latin1 (byte_of c) = [c]"
proof -
  assume c: "code c < 128"
  have "unat (byte_of c) = code c" using c by (simp add: byte_of_def unat_of_nat)
  then have "byte_of c < 0x80" using c by (simp add: word_less_nat_alt)
  then show ?thesis by (simp add: push_latin1_def)
qed

lemma latin1_ascii: "\<forall>c\<in>set l. code c < 128 \<Longrightarrow> concat (map (\<lambda>c. push_latin1 (byte_of c)) l) = l"
proof (induction l)
  case (Cons c l)
  then have "push_latin1 (byte_of c) = [c]" by (intro push_latin1_ascii) simp
  with Cons show ?case by simp
qed simp

lemma latin1_label: "plain_label l \<Longrightarrow> concat (map push_latin1 (map byte_of l)) = l"
  using latin1_ascii [of l] by (simp add: plain_label_def comp_def)

lemma split_join:
  "ls \<noteq> [] \<Longrightarrow> list_all plain_label ls \<Longrightarrow> split_char (CHR ''.'') (join_labels ls) = ls"
proof (induction ls rule: join_labels.induct)
  case (2 l)
  then show ?case by (auto simp: plain_label_def intro!: split_char_notin)
next
  case (3 l m ls)
  then have "CHR ''.'' \<notin> set l" by (auto simp: plain_label_def)
  with 3 show ?case by (simp add: split_char_append)
qed simp

lemma last_join:
  "ls \<noteq> [] \<Longrightarrow> list_all plain_label ls \<Longrightarrow>
   join_labels ls \<noteq> [] \<and> last (join_labels ls) \<noteq> CHR ''.''"
proof (induction ls rule: join_labels.induct)
  case (2 l)
  then show ?case using last_in_set [of l] by (auto simp: plain_label_def)
qed simp_all

lemma trim_join:
  assumes "ls \<noteq> []" "list_all plain_label ls"
  shows "trim_end_matches (CHR ''.'') (join_labels ls) = join_labels ls"
  using last_join [OF assms] by (cases "join_labels ls" rule: rev_cases) simp_all

lemma build_a_query_join:
  assumes "ls \<noteq> []" "list_all plain_label ls"
  shows "build_a_query (join_labels ls) qid =
     (be16 qid @ [1, 0, 0, 1, 0, 0, 0, 0, 0, 0]) @ encode_labels ls @ 0 # [0, 1, 0, 1]"
proof -
  have "concat (map (\<lambda>label. if label = [] then [] else of_nat (length label) # map byte_of label) ls)
      = encode_labels ls"
    using assms(2) unfolding encode_labels_def
    by (intro arg_cong [where f = concat] map_cong) (auto simp: plain_label_def list_all_iff)
  then show ?thesis
    by (simp add: build_a_query_def trim_join [OF assms] split_join [OF assms]
        del: trim_end_matches.simps)
qed

lemma parse_build_query:
  assumes "ls \<noteq> []" "list_all plain_label ls"
  shows "parse_query (build_a_query (join_labels ls) qid)
    = Some (ascii_lower (join_labels ls), 1, length (build_a_query (join_labels ls) qid))"
proof -
  let ?h = "be16 qid @ [1, 0, 0, 1, 0, 0, 0, 0, 0, 0]"
  obtain a b where q: "be16 qid = [a, b]" by (simp add: be16_def)
  have "query_labels (?h @ encode_labels ls @ 0 # [0, 1, 0, 1]) 12 []
      = Some (map (map byte_of) ls, 12 + length (encode_labels ls) + 1)"
    using query_labels_encoded [OF assms(2), of ?h "[0, 1, 0, 1]" "[]"] by simp
  moreover have "map (\<lambda>l. concat (map push_latin1 l)) (map (map byte_of) ls) = ls"
    using assms(2) latin1_label by (auto simp: list_all_iff comp_def intro!: map_idI)
  moreover have "of_be16 0 1 = 1" by code_simp
  ultimately show ?thesis
    unfolding build_a_query_join [OF assms] parse_query_def
    by (simp add: q word_at_def nth_append)
qed

subsection \<open>The direct cache\<close>

text \<open>An entry is the address, whether the answer proved the domain direct, and the time
of insertion in milliseconds. \<open>pick\<close> is the first key in the hash map's iteration order.\<close>

type_synonym dns_cache = "(string, u32 \<times> bool \<times> nat) map"

definition cache_ttl :: nat where "cache_ttl = 1800000"
definition direct_cache_max :: nat where "direct_cache_max = 4096"

definition fresh_entry :: "nat \<Rightarrow> u32 \<times> bool \<times> nat \<Rightarrow> bool" where
  "fresh_entry now e \<longleftrightarrow> now - snd (snd e) < cache_ttl"

definition retain_fresh :: "nat \<Rightarrow> dns_cache \<Rightarrow> dns_cache" where
  "retain_fresh now m = (\<lambda>d. case m d of Some e \<Rightarrow> if fresh_entry now e then Some e else None | None \<Rightarrow> None)"

definition evict_for_room :: "(dns_cache \<Rightarrow> string option) \<Rightarrow> nat \<Rightarrow> dns_cache \<Rightarrow> dns_cache" where
  "evict_for_room pick now m =
     (if direct_cache_max \<le> card (dom m) then
        let m = retain_fresh now m
        in if direct_cache_max \<le> card (dom m)
           then (case pick m of Some k \<Rightarrow> m(k := None) | None \<Rightarrow> m)
           else m
      else m)"

definition insert_direct_cache ::
    "(dns_cache \<Rightarrow> string option) \<Rightarrow> nat \<Rightarrow> string \<Rightarrow> u32 \<Rightarrow> bool \<Rightarrow> dns_cache \<Rightarrow> dns_cache" where
  "insert_direct_cache pick now domain ip is_direct m =
     (evict_for_room pick now m)(norm_domain domain \<mapsto> (ip, is_direct, now))"

definition direct_dns_lookup :: "nat \<Rightarrow> string \<Rightarrow> dns_cache \<Rightarrow> ip_addr option" where
  "direct_dns_lookup now domain m =
     (case m (norm_domain domain) of
        None \<Rightarrow> None
      | Some (ip, d, t) \<Rightarrow> if fresh_entry now (ip, d, t) then Some (V4 ip) else None)"

definition is_dynamic_direct_domain :: "nat \<Rightarrow> string \<Rightarrow> dns_cache \<Rightarrow> bool option" where
  "is_dynamic_direct_domain now domain m =
     (case m (norm_domain domain) of
        None \<Rightarrow> None
      | Some (ip, d, t) \<Rightarrow> if fresh_entry now (ip, d, t) then Some d else None)"

subsection \<open>Asking the upstream resolvers\<close>

text \<open>A datagram answers the query when it comes from one of the four resolvers, carries
its id and holds an address record; the first that does decides.\<close>

definition upstream_resolvers :: "u32 \<Rightarrow> sock_addr list" where
  "upstream_resolvers primary =
     [(V4 primary, 53), (V4 0x771D1D1D, 53), (V4 0xB4B80101, 53), (V4 0x72727272, 53)]"

definition accept_answer :: "u32 \<Rightarrow> u16 \<Rightarrow> bytes \<times> sock_addr \<Rightarrow> u32 option" where
  "accept_answer primary qid dg =
     (case dg of (buf, from) \<Rightarrow>
        if from \<in> set (upstream_resolvers primary) \<and> 2 \<le> length buf \<and> word_at buf 0 = qid
        then case skip_dns_name buf 12 of
               None \<Rightarrow> None
             | Some end \<Rightarrow>
                 map_option (\<lambda>o4. of_be32 (o4 ! 0) (o4 ! 1) (o4 ! 2) (o4 ! 3))
                   (parse_a_answer buf (end - 12))
        else None)"

fun first_answer :: "u32 \<Rightarrow> u16 \<Rightarrow> (bytes \<times> sock_addr) list \<Rightarrow> u32 option" where
  "first_answer primary qid [] = None"
| "first_answer primary qid (dg # dgs) =
     (case accept_answer primary qid dg of
        Some ip \<Rightarrow> Some ip
      | None \<Rightarrow> first_answer primary qid dgs)"

text \<open>One attempt: \<open>ready\<close> says that the permit and the socket were obtained, \<open>qid\<close> is the
random id, \<open>dgs\<close> what arrives before the deadlines.\<close>

record upstream_try =
  ut_now :: nat
  ut_ready :: bool
  ut_id :: u16
  ut_datagrams :: "(bytes \<times> sock_addr) list"

definition resolve_upstream_internal ::
    "'r router_env \<Rightarrow> (dns_cache \<Rightarrow> string option) \<Rightarrow> u32 \<Rightarrow> upstream_try \<Rightarrow> string \<Rightarrow> dns_cache
     \<Rightarrow> u32 option \<times> dns_cache" where
  "resolve_upstream_internal env pick primary ut domain m =
     (if \<not> ut_ready ut then (None, m)
      else case first_answer primary (ut_id ut) (ut_datagrams ut) of
             None \<Rightarrow> (None, m)
           | Some ip \<Rightarrow>
               (Some ip, insert_direct_cache pick (ut_now ut) domain ip
                           (is_trustworthy_cn_answer env (V4 ip)) m))"

text \<open>\<open>flight\<close> gives, for a domain another task is resolving, the result that task
publishes; this task then waits for it and does not ask.\<close>

definition resolve_upstream ::
    "'r router_env \<Rightarrow> (dns_cache \<Rightarrow> string option) \<Rightarrow> (string \<Rightarrow> u32 option option) \<Rightarrow> u32
     \<Rightarrow> upstream_try \<Rightarrow> string \<Rightarrow> dns_cache \<Rightarrow> u32 option \<times> dns_cache" where
  "resolve_upstream env pick flight primary ut domain m =
     (let d = norm_domain domain
      in case direct_dns_lookup (ut_now ut) d m of
           Some (V4 ip) \<Rightarrow> (Some ip, m)
         | _ \<Rightarrow>
             (case flight d of
                Some r \<Rightarrow> (r, m)
              | None \<Rightarrow> resolve_upstream_internal env pick primary ut d m))"

datatype dns_op =
  Resolve "string \<Rightarrow> u32 option option" u32 upstream_try string | ClearCache

fun dns_step ::
    "'r router_env \<Rightarrow> (dns_cache \<Rightarrow> string option) \<Rightarrow> dns_op \<Rightarrow> dns_cache \<Rightarrow> dns_cache" where
  "dns_step env pick (Resolve flight primary ut d) m =
     snd (resolve_upstream env pick flight primary ut d m)"
| "dns_step env pick ClearCache m = Map.empty"

definition pick_ok :: "(dns_cache \<Rightarrow> string option) \<Rightarrow> bool" where
  "pick_ok pick \<longleftrightarrow> (\<forall>m. dom m \<noteq> {} \<longrightarrow> (\<exists>k\<in>dom m. pick m = Some k))"

definition dns_inv :: "'r router_env \<Rightarrow> (dns_cache \<Rightarrow> string option) \<Rightarrow> dns_cache \<Rightarrow> bool" where
  "dns_inv env pick m \<longleftrightarrow>
     finite (dom m) \<and> (pick_ok pick \<longrightarrow> card (dom m) \<le> direct_cache_max)
     \<and> (\<forall>d ip t. m d = Some (ip, True, t) \<longrightarrow> is_trustworthy_cn_answer env (V4 ip))"

lemma retain_fresh_le: "retain_fresh now m \<subseteq>\<^sub>m m"
  by (auto simp: map_le_def retain_fresh_def dom_def split: option.splits if_splits)

lemma map_le_dom: "a \<subseteq>\<^sub>m b \<Longrightarrow> dom a \<subseteq> dom b"
  by (auto simp: map_le_def dom_def)

lemma evict_le: "evict_for_room pick now m \<subseteq>\<^sub>m m"
proof -
  have "(retain_fresh now m)(k := None) \<subseteq>\<^sub>m m" for k
    using retain_fresh_le [of now m] by (auto simp: map_le_def)
  then show ?thesis
    using retain_fresh_le [of now m]
    by (auto simp: evict_for_room_def Let_def split: option.splits)
qed

lemma evict_room:
  assumes "finite (dom m)" "pick_ok pick" "card (dom m) \<le> direct_cache_max"
  shows "card (dom (evict_for_room pick now m)) < direct_cache_max"
proof -
  let ?r = "retain_fresh now m"
  have r: "finite (dom ?r)" "card (dom ?r) \<le> direct_cache_max"
    using assms map_le_dom [OF retain_fresh_le, of now m]
    by (meson finite_subset card_mono le_trans)+
  show ?thesis
  proof (cases "direct_cache_max \<le> card (dom m) \<and> direct_cache_max \<le> card (dom ?r)")
    case True
    then have "dom ?r \<noteq> {}" by (auto simp: direct_cache_max_def)
    then obtain k where k: "k \<in> dom ?r" "pick ?r = Some k"
      using assms(2) [unfolded pick_ok_def, THEN spec, of ?r] by (metis (no_types))
    have "dom (?r(k := None)) = dom ?r - {k}" by auto
    with card_Diff1_less [OF r(1) k(1)] have "card (dom (?r(k := None))) < card (dom ?r)"
      by (simp only:)
    with True k r(2) show ?thesis by (simp add: evict_for_room_def Let_def)
  next
    case False
    then show ?thesis using assms(3) by (auto simp: evict_for_room_def Let_def)
  qed
qed

lemma insert_direct_cache_inv:
  assumes i: "dns_inv env pick m" and t: "f \<Longrightarrow> is_trustworthy_cn_answer env (V4 ip)"
  shows "dns_inv env pick (insert_direct_cache pick now d ip f m)"
proof -
  let ?e = "evict_for_room pick now m"
  have le: "?e \<subseteq>\<^sub>m m" by (rule evict_le)
  have fin: "finite (dom ?e)"
    using i map_le_dom [OF le] by (auto simp: dns_inv_def intro: finite_subset)
  have "card (dom (?e(norm_domain d \<mapsto> (ip, f, now)))) \<le> direct_cache_max" if "pick_ok pick"
    using card_dom_upd_le [OF fin, of "norm_domain d" "(ip, f, now)"] evict_room [of m pick now] i that
    by (simp add: dns_inv_def)
  moreover have "is_trustworthy_cn_answer env (V4 a)" if "?e x = Some (a, True, b)" for x a b
    using that le i unfolding dns_inv_def map_le_def by (metis domI)
  ultimately show ?thesis
    using fin t by (auto simp: dns_inv_def insert_direct_cache_def)
qed

lemma dns_step_inv: "dns_inv env pick m \<Longrightarrow> dns_inv env pick (dns_step env pick op m)"
proof (induction op)
  case (Resolve flight primary ut d)
  then show ?case
    by (auto simp: resolve_upstream_def resolve_upstream_internal_def Let_def
        split: option.splits ip_addr.splits intro: insert_direct_cache_inv)
next
  case ClearCache
  then show ?case by (simp add: dns_inv_def)
qed

interpretation dns_cache: invariant_machine "dns_step env pick" "dns_inv env pick" for env pick
  by unfold_locales (rule dns_step_inv)

lemma dns_empty_inv: "dns_inv env pick Map.empty"
  by (simp add: dns_inv_def)

lemma learned_direct_is_cn_parts:
  fixes env :: "'r router_env" and pick ops
  defines "m \<equiv> fold (dns_step env pick) ops Map.empty"
  shows "is_dynamic_direct_domain now d m = Some True \<Longrightarrow>
     \<exists>ip. direct_dns_lookup now d m = Some (V4 ip) \<and> is_cn_ip env (V4 ip)
          \<and> \<not> is_private_ip (V4 ip) \<and> \<not> fake_ip_addr (V4 ip)"
    and "pick_ok pick \<Longrightarrow> card (dom m) \<le> 4096"
proof -
  have i: "dns_inv env pick m"
    unfolding m_def by (rule dns_cache.run_inv [OF dns_empty_inv])
  show "pick_ok pick \<Longrightarrow> card (dom m) \<le> 4096"
    using i by (simp add: dns_inv_def direct_cache_max_def)
  assume "is_dynamic_direct_domain now d m = Some True"
  then obtain ip t where e: "m (norm_domain d) = Some (ip, True, t)" "fresh_entry now (ip, True, t)"
    by (auto simp: is_dynamic_direct_domain_def split: option.splits if_splits)
  then have "is_trustworthy_cn_answer env (V4 ip)" using i unfolding dns_inv_def by blast
  with e show "\<exists>ip. direct_dns_lookup now d m = Some (V4 ip) \<and> is_cn_ip env (V4 ip)
          \<and> \<not> is_private_ip (V4 ip) \<and> \<not> fake_ip_addr (V4 ip)"
    by (auto simp: direct_dns_lookup_def is_trustworthy_cn_answer_def is_cn_ip_def split: if_splits)
qed

text \<open>However answers arrive, a domain the resolver reports as learned direct has a
fresh cached address that is public and in the Chinese ranges (never a fake, private or
reserved one); and the cache never holds more than 4096 domains.\<close>
theorem learned_direct_is_cn:
  fixes env :: "'r router_env" and pick ops
  defines "m \<equiv> fold (dns_step env pick) ops Map.empty"
  shows "(is_dynamic_direct_domain now d m = Some True \<longrightarrow>
       (\<exists>ip. direct_dns_lookup now d m = Some (V4 ip) \<and> is_cn_ip env (V4 ip)
          \<and> \<not> is_private_ip (V4 ip) \<and> \<not> fake_ip_addr (V4 ip)))
    \<and> (pick_ok pick \<longrightarrow> card (dom m) \<le> 4096)"
  unfolding m_def using learned_direct_is_cn_parts by blast

subsection \<open>The answering handler\<close>

record 'r dns_state =
  ds_router :: "'r router"
  ds_mapper :: fake_ip_mapper
  ds_tun :: "bytes list"
  ds_queries :: u64
  ds_prefetch :: "string list"

definition send_dns_reply ::
    "sock_addr \<Rightarrow> sock_addr \<Rightarrow> bytes \<Rightarrow> u16 \<Rightarrow> bytes option \<Rightarrow> nat \<Rightarrow> bytes list \<Rightarrow> bytes list" where
  "send_dns_reply client server query qtype a question_len tun =
     (case build_response query qtype a question_len 0 of
        None \<Rightarrow> tun
      | Some resp \<Rightarrow>
          (case build_reply_ip server client resp of None \<Rightarrow> tun | Some pkt \<Rightarrow> tun @ [pkt]))"

definition handle_dns_query ::
    "('r \<Rightarrow> string \<Rightarrow> bool) \<Rightarrow> 'r router_env \<Rightarrow> (string \<Rightarrow> string) \<Rightarrow> sock_addr \<Rightarrow> sock_addr \<Rightarrow> bytes
     \<Rightarrow> 'r dns_state \<Rightarrow> 'r dns_state" where
  "handle_dns_query re_match env lc client server query s =
     (case parse_query query of
        None \<Rightarrow> s
      | Some (domain, qtype, qlen) \<Rightarrow>
          (case route_decision_sourced re_match env
                  \<lparr>fl_domain = Some domain, fl_ip = None, fl_port = Some 53, fl_protocol = Some ''udp''\<rparr>
                  (ds_router s) of
             ((decision, _, _), rt) \<Rightarrow>
               (let s = s\<lparr>ds_queries := ds_queries s + 1, ds_router := rt\<rparr>
                in if decision = Block then
                     s\<lparr>ds_tun := send_dns_reply client server query qtype
                        (if qtype = 1 then Some [0, 0, 0, 0] else None) qlen (ds_tun s)\<rparr>
                   else if qtype = 1 then
                     (case lookup_or_assign lc domain (ds_mapper s) of
                        (ip, mp) \<Rightarrow>
                          s\<lparr>ds_mapper := mp,
                            ds_tun := send_dns_reply client server query qtype (Some (be32 ip)) qlen (ds_tun s),
                            ds_prefetch := (if should_resolve_upstream re_match env domain rt
                               then ds_prefetch s @ [domain] else ds_prefetch s)\<rparr>)
                   else s\<lparr>ds_tun := send_dns_reply client server query qtype None qlen (ds_tun s)\<rparr>)))"

text \<open>The reply datagram's message, as the client reads it.\<close>

definition dns_reply_to :: "sock_addr \<Rightarrow> sock_addr \<Rightarrow> bytes \<Rightarrow> bytes \<Rightarrow> bool" where
  "dns_reply_to client server resp pkt \<longleftrightarrow> build_reply_ip server client resp = Some pkt"

lemma build_response_some:
  assumes "parse_query q = Some (d, qt, n)"
  obtains r where "build_response q qt a n 0 = Some r" "take 2 r = take 2 q"
proof -
  have n: "17 \<le> n" "n \<le> length q" using parse_query_len [OF assms] by simp_all
  then show thesis using that by (auto simp: build_response_def)
qed

lemma dns_answer_maps_back_parts:
  fixes re_match :: "'r \<Rightarrow> string \<Rightarrow> bool" and env lc
  assumes inv: "fi_inv (ds_mapper s)" and q: "parse_query q = Some (d, 1, n)"
    and addr: "client = (V4 c, cp)" "server = (V4 v, vp)"
  defines "f \<equiv> \<lparr>fl_domain = Some d, fl_ip = None, fl_port = Some 53, fl_protocol = Some ''udp''\<rparr>"
    and "s' \<equiv> handle_dns_query re_match env lc client server q s"
  shows "route_decision re_match env f (ds_router s) \<noteq> Block \<Longrightarrow>
      \<exists>ip resp. ds_tun s' = ds_tun s @ [build_ipv4_udp (v, vp) (c, cp) resp]
        \<and> take 2 resp = take 2 q \<and> parse_a_answer resp (n - 16) = Some (be32 ip)
        \<and> lookup_domain ip (ds_mapper s') = Some (lc d) \<and> is_fake_ip ip (ds_mapper s')
        \<and> (ds_prefetch s' = ds_prefetch s
           \<or> ds_prefetch s' = ds_prefetch s @ [d] \<and> \<not> is_known_non_cn_domain d
              \<and> \<not> is_lan_or_router_domain d)"
    and "route_decision re_match env f (ds_router s) = Block \<Longrightarrow>
      \<exists>resp. ds_tun s' = ds_tun s @ [build_ipv4_udp (v, vp) (c, cp) resp]
        \<and> parse_a_answer resp (n - 16) = Some [0, 0, 0, 0]
        \<and> ds_mapper s' = ds_mapper s \<and> ds_prefetch s' = ds_prefetch s"
proof -
  obtain dec src nm rt where r: "route_decision_sourced re_match env f (ds_router s) = ((dec, src, nm), rt)"
    by (metis surj_pair)
  have dec: "route_decision re_match env f (ds_router s) = dec"
    by (simp add: route_decision_def r)
  have n: "16 \<le> n" using parse_query_len [OF q] by simp
  note h = handle_dns_query_def [of re_match env lc client server q s, unfolded q, simplified,
      folded f_def, unfolded r, simplified, folded s'_def]
  show "\<exists>resp. ds_tun s' = ds_tun s @ [build_ipv4_udp (v, vp) (c, cp) resp]
        \<and> parse_a_answer resp (n - 16) = Some [0, 0, 0, 0]
        \<and> ds_mapper s' = ds_mapper s \<and> ds_prefetch s' = ds_prefetch s"
    if "route_decision re_match env f (ds_router s) = Block"
  proof -
    obtain resp where b: "build_response q 1 (Some [0, 0, 0, 0]) n 0 = Some resp"
      by (rule build_response_some [OF q])
    have "parse_a_answer resp (n - 16) = Some [0, 0, 0, 0]"
      by (rule response_answer [OF b n]) simp_all
    moreover have "ds_tun s' = ds_tun s @ [build_ipv4_udp (v, vp) (c, cp) resp]"
        "ds_mapper s' = ds_mapper s" "ds_prefetch s' = ds_prefetch s"
      using b that dec by (simp_all add: h send_dns_reply_def addr)
    ultimately show ?thesis by blast
  qed
  show "\<exists>ip resp. ds_tun s' = ds_tun s @ [build_ipv4_udp (v, vp) (c, cp) resp]
        \<and> take 2 resp = take 2 q \<and> parse_a_answer resp (n - 16) = Some (be32 ip)
        \<and> lookup_domain ip (ds_mapper s') = Some (lc d) \<and> is_fake_ip ip (ds_mapper s')
        \<and> (ds_prefetch s' = ds_prefetch s
           \<or> ds_prefetch s' = ds_prefetch s @ [d] \<and> \<not> is_known_non_cn_domain d
              \<and> \<not> is_lan_or_router_domain d)"
    if "route_decision re_match env f (ds_router s) \<noteq> Block"
  proof -
    obtain ip mp where a: "lookup_or_assign lc d (ds_mapper s) = (ip, mp)" by fastforce
    obtain resp where b: "build_response q 1 (Some (be32 ip)) n 0 = Some resp" "take 2 resp = take 2 q"
      by (rule build_response_some [OF q])
    have ans: "parse_a_answer resp (n - 16) = Some (be32 ip)"
      by (rule response_answer [OF b(1) n]) simp_all
    have gate: "should_resolve_upstream re_match env d rt \<Longrightarrow>
        \<not> is_known_non_cn_domain d \<and> \<not> is_lan_or_router_domain d"
      by (auto simp: should_resolve_upstream_def Let_def is_known_non_cn_domain_def
          is_lan_or_router_domain_def split: if_splits)
    have "lookup_domain ip mp = Some (lc d)" "is_fake_ip ip mp"
      using assign_readback [OF inv a refl] by simp_all
    moreover have "ds_tun s' = ds_tun s @ [build_ipv4_udp (v, vp) (c, cp) resp]"
        "ds_mapper s' = mp"
        "ds_prefetch s' = (if should_resolve_upstream re_match env d rt
            then ds_prefetch s @ [d] else ds_prefetch s)"
      using b(1) a that dec by (simp_all add: h send_dns_reply_def addr Let_def)
    ultimately show ?thesis using gate ans b(2) by auto
  qed
qed



subsection \<open>DNS over TCP\<close>

definition answer_dns_udp ::
    "(string \<Rightarrow> string) \<Rightarrow> bytes \<Rightarrow> fake_ip_mapper \<Rightarrow> bytes option \<times> fake_ip_mapper" where
  "answer_dns_udp lc payload mp =
     (case parse_query payload of
        None \<Rightarrow> (None, mp)
      | Some (domain, qtype, qlen) \<Rightarrow>
          if qtype = 1 then
            (case lookup_or_assign lc domain mp of
               (ip, mp') \<Rightarrow> (build_response payload qtype (Some (be32 ip)) qlen 0, mp'))
          else (build_response payload qtype None qlen 0, mp))"

text \<open>One query of the TCP loop; \<open>upstream\<close> is the answer of \<open>resolve_upstream\<close>. An empty
answer stands for a response that could not be built.\<close>

definition tcp_dns_query ::
    "('r \<Rightarrow> string \<Rightarrow> bool) \<Rightarrow> 'r router_env \<Rightarrow> (string \<Rightarrow> string) \<Rightarrow> (string \<Rightarrow> u32 option) \<Rightarrow> bytes
     \<Rightarrow> 'r router \<Rightarrow> fake_ip_mapper \<Rightarrow> bytes \<times> fake_ip_mapper" where
  "tcp_dns_query re_match env lc upstream query rt mp =
     (let direct = (case parse_query query of
            Some (domain, qtype, qlen) \<Rightarrow>
              if qtype = 1 \<and> decide_domain re_match env domain rt = Direct then
                (case upstream domain of
                   Some ip \<Rightarrow> Some (case build_response query qtype (Some (be32 ip)) qlen 0 of
                                      Some r \<Rightarrow> r | None \<Rightarrow> [])
                 | None \<Rightarrow> None)
              else None
          | None \<Rightarrow> None);
          framed = (\<lambda>resp. be16 (of_nat (length resp)) @ resp)
      in case direct of
           Some resp \<Rightarrow> (framed resp, mp)
         | None \<Rightarrow>
             (case answer_dns_udp lc query mp of
                (r, mp') \<Rightarrow> (framed (case r of Some resp \<Rightarrow> resp | None \<Rightarrow> []), mp')))"

text \<open>Over TCP a blocked name still gets a fake address.\<close>

lemma tcp_dns_ignores_block:
  assumes inv: "fi_inv mp" and q: "parse_query q = Some (d, 1, n)"
    and b: "decide_domain re_match env d rt = Block"
    and r: "tcp_dns_query re_match env lc upstream q rt mp = (out, mp')"
  shows "\<exists>ip resp. out = be16 (of_nat (length resp)) @ resp
    \<and> parse_a_answer resp (n - 16) = Some (be32 ip) \<and> lookup_domain ip mp' = Some (lc d)"
proof -
  obtain ip mp1 where a: "lookup_or_assign lc d mp = (ip, mp1)" by fastforce
  obtain resp where br: "build_response q 1 (Some (be32 ip)) n 0 = Some resp"
    by (rule build_response_some [OF q])
  have "parse_a_answer resp (n - 16) = Some (be32 ip)"
    using parse_query_len [OF q] by (intro response_answer [OF br]) simp_all
  moreover have "lookup_domain ip mp1 = Some (lc d)" using assign_readback [OF inv a refl] by simp
  moreover have "out = be16 (of_nat (length resp)) @ resp" "mp' = mp1"
    using r q b a br by (simp_all add: tcp_dns_query_def answer_dns_udp_def)
  ultimately show ?thesis by blast
qed

text \<open>The query the resolver sends for a name of plain labels is a well-formed query
of that name: the handler's own parser reads back the lower-cased name, type A and the
whole message.\<close>
theorem dns_query_roundtrip:
  assumes "ls \<noteq> []" and "list_all plain_label ls"
  shows "parse_query (build_a_query (join_labels ls) qid)
    = Some (ascii_lower (join_labels ls), 1, length (build_a_query (join_labels ls) qid))"
  by (rule parse_build_query [OF assms])

theorem dns_query_roundtrip_witness:
  "parse_query (build_a_query ''WWW.a.cn'' 7) = Some (''www.a.cn'', 1, 26)"
proof -
  have p: "list_all plain_label [''WWW'', ''a'', ''cn'']"
    by (simp add: plain_label_def)
  have j: "join_labels [''WWW'', ''a'', ''cn''] = ''WWW.a.cn''" by simp
  have l: "ascii_lower ''WWW.a.cn'' = ''www.a.cn''" by code_simp
  have n: "length (build_a_query ''WWW.a.cn'' 7) = 26" by code_simp
  show ?thesis using dns_query_roundtrip [OF _ p, of 7] unfolding j l n by simp
qed

definition demo_query :: bytes where
  "demo_query = [0, 7, 1, 0, 0, 1, 0, 0, 0, 0, 0, 0, 1, 97, 2, 99, 110, 0, 0, 1, 0, 1]"

lemma demo_query_length: "length demo_query = 22"
  by (simp add: demo_query_def)

lemma parse_demo_query: "parse_query demo_query = Some (''a.cn'', 1, 22)"
proof -
  have "demo_query = build_a_query (join_labels [''a'', ''cn'']) 7" by code_simp
  moreover have "list_all plain_label [''a'', ''cn'']" by (simp add: plain_label_def)
  moreover have "ascii_lower (join_labels [''a'', ''cn'']) = ''a.cn''" by code_simp
  ultimately show ?thesis
    using parse_build_query [of "[''a'', ''cn'']" 7] demo_query_length by simp
qed

definition demo_answer :: bytes where
  "demo_answer = [0, 7, 0x81, 0x80, 0, 1, 0, 1, 0, 0, 0, 0, 1, 97, 2, 99, 110, 0, 0, 1, 0, 1,
     0xC0, 0x0C, 0, 1, 0, 1, 0, 0, 0, 1, 0, 4, 1, 0, 4, 1]"

lemma demo_cn_address: "is_cn_ip demo_env (V4 0x01000401)"
proof -
  have "in_cn_table demo_table 0x01000401" by code_simp
  then show ?thesis using demo_addresses by (simp add: is_cn_ip_def demo_env_def)
qed

lemma demo_answer_accepted: "accept_answer 0xDF050505 7 (demo_answer, (V4 0x72727272, 53)) = Some 0x01000401"
proof -
  have "build_response demo_query 1 (Some [1, 0, 4, 1]) 22 0 = Some demo_answer" by code_simp
  from response_answer [OF this] have a: "parse_a_answer demo_answer 6 = Some [1, 0, 4, 1]" by simp
  have s: "skip_dns_name demo_answer 12 = Some 18" by code_simp
  have w: "word_at demo_answer 0 = 7" by code_simp
  have "of_be32 1 0 4 1 = 0x01000401" by code_simp
  then show ?thesis
    by (simp add: accept_answer_def upstream_resolvers_def a s w) (simp add: demo_answer_def)
qed

definition demo_try :: upstream_try where
  "demo_try = \<lparr>ut_now = 5, ut_ready = True, ut_id = 7, ut_datagrams = [(demo_answer, (V4 0x72727272, 53))]\<rparr>"

theorem learned_direct_is_cn_witness:
  "\<exists>ip. direct_dns_lookup 9 ''a.cn''
        (fold (dns_step demo_env (\<lambda>_. None)) [Resolve (\<lambda>_. None) 0xDF050505 demo_try ''A.CN.''] Map.empty)
        = Some (V4 ip) \<and> is_cn_ip demo_env (V4 ip) \<and> \<not> is_private_ip (V4 ip) \<and> \<not> fake_ip_addr (V4 ip)"
proof (rule learned_direct_is_cn [THEN conjunct1, rule_format])
  have nd: "norm_domain ''A.CN.'' = ''a.cn''" "norm_domain ''a.cn'' = ''a.cn''" by code_simp+
  have cn: "is_trustworthy_cn_answer demo_env (V4 0x01000401)"
    using demo_addresses demo_cn_address by (simp add: is_trustworthy_cn_answer_def)
  show "is_dynamic_direct_domain 9 ''a.cn''
      (fold (dns_step demo_env (\<lambda>_. None)) [Resolve (\<lambda>_. None) 0xDF050505 demo_try ''A.CN.''] Map.empty)
      = Some True"
    by (simp add: resolve_upstream_def resolve_upstream_internal_def nd Let_def demo_try_def
        demo_answer_accepted direct_dns_lookup_def is_dynamic_direct_domain_def
        insert_direct_cache_def evict_for_room_def direct_cache_max_def fresh_entry_def
        cache_ttl_def cn)
qed

definition demo_dns :: "unit dns_state" where
  "demo_dns = \<lparr>ds_router = router_init, ds_mapper = demo_mapper, ds_tun = [], ds_queries = 0,
     ds_prefetch = []\<rparr>"


end
