(* ===== verification/DnsFlight.thy ===== *)
theory DnsFlight
  imports Dns
begin

text \<open>The lookups of \<open>tun/dns.rs\<close> that run at the same time: \<open>resolve_upstream_with\<close> lets one task ask for
a name while the others wait for its answer, through a \<open>watch\<close> channel in a map of the names under way;
and the loop of \<open>relay_tcp_dns\<close>. \<open>Dns\<close> has one lookup, with the answer of another task as an argument.\<close>

subsection \<open>Tasks and channels\<close>

text \<open>A task has read the cache (\<open>Missed\<close>), asks, holds the answer, has published it or given up and still
holds its guard (\<open>Releasing\<close>, \<open>None\<close> when it was cancelled), waits for another, or is over.\<close>

datatype flight_task =
  Missed string
| Asking string nat
| Answered string nat "u32 option"
| Releasing string nat "u32 option option"
| Waiting string nat
| Finished "u32 option"
| Gone

record flights =
  fl_cache :: dns_cache
  fl_map :: "string \<rightharpoonup> nat"
  fl_value :: "nat \<Rightarrow> u32 option"
  fl_touched :: "nat \<Rightarrow> bool"
  fl_next :: nat
  fl_tasks :: "nat \<rightharpoonup> flight_task"

definition flights_init :: flights where
  "flights_init = \<lparr>fl_cache = Map.empty, fl_map = Map.empty, fl_value = (\<lambda>_. None), fl_touched = (\<lambda>_. False),
     fl_next = 0, fl_tasks = Map.empty\<rparr>"

definition set_task :: "nat \<Rightarrow> flight_task \<Rightarrow> flights \<Rightarrow> flights" where
  "set_task t x s = s\<lparr>fl_tasks := (fl_tasks s)(t \<mapsto> x)\<rparr>"

text \<open>The first lock: the cache.\<close>

definition ask :: "nat \<Rightarrow> nat \<Rightarrow> string \<Rightarrow> flights \<Rightarrow> flights" where
  "ask t now domain s =
     (let d = norm_domain domain
      in case direct_dns_lookup now d (fl_cache s) of
           Some (V4 ip) \<Rightarrow> set_task t (Finished (Some ip)) s
         | _ \<Rightarrow> set_task t (Missed d) s)"

text \<open>The second lock: the map of names under way.\<close>

definition join_flight :: "nat \<Rightarrow> string \<Rightarrow> flights \<Rightarrow> flights" where
  "join_flight t d s =
     (case fl_map s d of
        Some ch \<Rightarrow> set_task t (Waiting d ch) s
      | None \<Rightarrow>
          let ch = fl_next s
          in set_task t (Asking d ch)
               (s\<lparr>fl_map := (fl_map s)(d \<mapsto> ch), fl_next := ch + 1, fl_value := (fl_value s)(ch := None),
                  fl_touched := (fl_touched s)(ch := False)\<rparr>))"

text \<open>The drop of the guard.\<close>

definition drop_guard :: "string \<Rightarrow> nat \<Rightarrow> flights \<Rightarrow> flights" where
  "drop_guard d ch s = (if fl_map s d = Some ch then s\<lparr>fl_map := (fl_map s)(d := None)\<rparr> else s)"

datatype flight_event =
  Ask nat nat string
| Join nat
| Answer nat upstream_try
| Publish nat
| Cancel nat
| Release nat
| Return nat bool
| ClearCache

text \<open>The servers asked are those of the run. \<open>ClearCache\<close> holds both locks. \<open>Return t True\<close> is the end of the 1.5 s; without it a waiting task goes on only when its channel has
changed, or its sender is gone.\<close>

definition flight_step :: "'r router_env \<Rightarrow> (dns_cache \<Rightarrow> string option) \<Rightarrow> u32 \<Rightarrow> flight_event \<Rightarrow> flights \<Rightarrow> flights" where
  "flight_step env pick primary e s =
     (case e of
        Ask t now domain \<Rightarrow> (case fl_tasks s t of None \<Rightarrow> ask t now domain s | Some x \<Rightarrow> s)
      | Join t \<Rightarrow> (case fl_tasks s t of Some (Missed d) \<Rightarrow> join_flight t d s | _ \<Rightarrow> s)
      | Answer t ut \<Rightarrow>
          (case fl_tasks s t of
             Some (Asking d ch) \<Rightarrow>
               (case resolve_upstream_internal env pick primary ut d (fl_cache s) of
                  (r, m) \<Rightarrow> set_task t (Answered d ch r) (s\<lparr>fl_cache := m\<rparr>))
           | _ \<Rightarrow> s)
      | Publish t \<Rightarrow>
          (case fl_tasks s t of
             Some (Answered d ch r) \<Rightarrow>
               set_task t (Releasing d ch (Some r))
                 (s\<lparr>fl_value := (fl_value s)(ch := r), fl_touched := (fl_touched s)(ch := True)\<rparr>)
           | _ \<Rightarrow> s)
      | Cancel t \<Rightarrow>
          (case fl_tasks s t of
             Some (Asking d ch) \<Rightarrow>
               set_task t (Releasing d ch None) (s\<lparr>fl_touched := (fl_touched s)(ch := True)\<rparr>)
           | Some (Waiting d ch) \<Rightarrow> set_task t Gone s
           | _ \<Rightarrow> s)
      | Release t \<Rightarrow>
          (case fl_tasks s t of
             Some (Releasing d ch r) \<Rightarrow>
               set_task t (case r of Some x \<Rightarrow> Finished x | None \<Rightarrow> Gone) (drop_guard d ch s)
           | _ \<Rightarrow> s)
      | Return t timed_out \<Rightarrow>
          (case fl_tasks s t of
             Some (Waiting d ch) \<Rightarrow>
               if fl_value s ch \<noteq> None \<or> fl_touched s ch \<or> timed_out
               then set_task t (Finished (fl_value s ch)) s else s
           | _ \<Rightarrow> s)
      | ClearCache \<Rightarrow> s\<lparr>fl_cache := Map.empty, fl_map := Map.empty\<rparr>)"

subsection \<open>What holds at every moment\<close>

text \<open>The tasks that lead, with their names and channels.\<close>

fun leads :: "flight_task \<Rightarrow> (string \<times> nat) option" where
  "leads (Asking d ch) = Some (d, ch)"
| "leads (Answered d ch r) = Some (d, ch)"
| "leads (Releasing d ch r) = Some (d, ch)"
| "leads _ = None"

fun speaks_of :: "flight_task \<Rightarrow> (string \<times> nat) option" where
  "speaks_of (Waiting d ch) = Some (d, ch)"
| "speaks_of x = leads x"

fun silent :: "flight_task \<Rightarrow> bool" where
  "silent (Asking d ch) \<longleftrightarrow> True"
| "silent (Answered d ch r) \<longleftrightarrow> True"
| "silent _ \<longleftrightarrow> False"

definition leader :: "flights \<Rightarrow> nat \<Rightarrow> string \<Rightarrow> nat \<Rightarrow> bool" where
  "leader s t d ch \<longleftrightarrow> (\<exists>x. fl_tasks s t = Some x \<and> leads x = Some (d, ch))"

definition flight_inv :: "flights \<Rightarrow> bool" where
  "flight_inv s \<longleftrightarrow>
     (\<forall>d ch. fl_map s d = Some ch \<longrightarrow> (\<exists>t. leader s t d ch))
     \<and> (\<forall>t t' d d' ch. leader s t d ch \<and> leader s t' d' ch \<longrightarrow> t = t')
     \<and> (\<forall>t x d ch. fl_tasks s t = Some x \<and> speaks_of x = Some (d, ch) \<longrightarrow> ch < fl_next s)
     \<and> (\<forall>ch < fl_next s. \<not> fl_touched s ch \<longrightarrow> (\<exists>t x d. fl_tasks s t = Some x \<and> leads x = Some (d, ch) \<and> silent x))"

lemma set_task_simps [simp]:
  "fl_map (set_task t x s) = fl_map s" "fl_cache (set_task t x s) = fl_cache s" "fl_value (set_task t x s) = fl_value s"
  "fl_touched (set_task t x s) = fl_touched s" "fl_next (set_task t x s) = fl_next s"
  "fl_tasks (set_task t x s) = (fl_tasks s)(t \<mapsto> x)"
  by (simp_all add: set_task_def)

lemma drop_guard_simps [simp]:
  "fl_map (drop_guard d ch s) = (if fl_map s d = Some ch then (fl_map s)(d := None) else fl_map s)"
  "fl_cache (drop_guard d ch s) = fl_cache s" "fl_value (drop_guard d ch s) = fl_value s"
  "fl_touched (drop_guard d ch s) = fl_touched s" "fl_next (drop_guard d ch s) = fl_next s"
  "fl_tasks (drop_guard d ch s) = fl_tasks s"
  by (simp_all add: drop_guard_def)

lemma leads_speaks: "leads x = Some p \<Longrightarrow> speaks_of x = Some p"
  by (cases x) simp_all

lemma flight_invI:
  assumes "\<And>d ch. fl_map s d = Some ch \<Longrightarrow> \<exists>t. leader s t d ch"
    and "\<And>t t' d d' ch. leader s t d ch \<Longrightarrow> leader s t' d' ch \<Longrightarrow> t = t'"
    and "\<And>t x d ch. fl_tasks s t = Some x \<Longrightarrow> speaks_of x = Some (d, ch) \<Longrightarrow> ch < fl_next s"
    and "\<And>ch. ch < fl_next s \<Longrightarrow> \<not> fl_touched s ch \<Longrightarrow> \<exists>t x d. fl_tasks s t = Some x \<and> leads x = Some (d, ch) \<and> silent x"
  shows "flight_inv s"
  unfolding flight_inv_def using assms by blast

lemma flight_invD:
  assumes "flight_inv s"
  shows "fl_map s d = Some ch \<Longrightarrow> \<exists>t. leader s t d ch"
    and "leader s t d ch \<Longrightarrow> leader s t' d' ch \<Longrightarrow> t = t'"
    and "fl_tasks s t = Some x \<Longrightarrow> speaks_of x = Some (d, ch) \<Longrightarrow> ch < fl_next s"
    and "ch < fl_next s \<Longrightarrow> \<not> fl_touched s ch \<Longrightarrow> \<exists>t x d. fl_tasks s t = Some x \<and> leads x = Some (d, ch) \<and> silent x"
  using assms unfolding flight_inv_def by blast+

lemma leader_below: "flight_inv s \<Longrightarrow> leader s t d ch \<Longrightarrow> ch < fl_next s"
  using flight_invD(3) leads_speaks unfolding leader_def by blast

text \<open>A step of one task that keeps what the task leads, moves its channel on, or ends its lead.\<close>

lemma keep_lead:
  assumes "flight_inv s" "fl_tasks s t = None \<and> leads x = None \<or> (\<exists>y. fl_tasks s t = Some y \<and> leads y = leads x)"
    and "\<And>d ch. speaks_of x = Some (d, ch) \<Longrightarrow> ch < fl_next s"
    and "fl_map s' = fl_map s" "fl_next s' = fl_next s" "fl_tasks s' = (fl_tasks s)(t \<mapsto> x)"
    and "\<And>ch. fl_touched s ch \<Longrightarrow> fl_touched s' ch"
    and "\<And>y d ch. fl_tasks s t = Some y \<Longrightarrow> silent y \<Longrightarrow> leads y = Some (d, ch) \<Longrightarrow> silent x \<or> fl_touched s' ch"
  shows "flight_inv s'"
proof (rule flight_invI)
  have lead: "leader s' t' d ch \<longleftrightarrow> leader s t' d ch" for t' d ch
    using assms(2,6) by (auto simp: leader_def)
  note i = flight_invD [OF assms(1)]
  show "\<exists>t'. leader s' t' d ch" if "fl_map s' d = Some ch" for d ch
    using i(1) that unfolding lead assms(4) by blast
  show "t' = t''" if "leader s' t' d ch" "leader s' t'' d' ch" for t' t'' d d' ch
    using i(2) that unfolding lead by blast
  show "ch < fl_next s'" if "fl_tasks s' t' = Some y" "speaks_of y = Some (d, ch)" for t' y d ch
    using i(3) [of t' y d ch] assms(3) [of d ch] that unfolding assms(5,6) by (auto split: if_splits)
  show "\<exists>t' y d. fl_tasks s' t' = Some y \<and> leads y = Some (d, ch) \<and> silent y"
    if "ch < fl_next s'" "\<not> fl_touched s' ch" for ch
  proof -
    have "ch < fl_next s" "\<not> fl_touched s ch" using that assms(5,7) by auto
    from i(4) [OF this] obtain t' y d where y: "fl_tasks s t' = Some y" "leads y = Some (d, ch)" "silent y" by blast
    show ?thesis
    proof (cases "t' = t")
      case True
      with y assms(2) have "leads x = Some (d, ch)" by auto
      moreover have "silent x" using assms(8) [of y d ch] True y that(2) by blast
      ultimately show ?thesis using assms(6) by (intro exI [of _ t] exI [of _ x] exI [of _ d]) simp
    next
      case False
      with y assms(6) show ?thesis by (intro exI [of _ t'] exI [of _ y] exI [of _ d]) simp
    qed
  qed
qed

lemma end_lead:
  assumes "flight_inv s" "fl_tasks s t = Some (Releasing d ch r)" "speaks_of x = None"
  shows "flight_inv (set_task t x (drop_guard d ch s))"
proof (rule flight_invI)
  let ?s = "set_task t x (drop_guard d ch s)"
  note i = flight_invD [OF assms(1)]
  have x: "leads x = None" using assms(3) leads_speaks by (cases "leads x") fastforce+
  have lead: "leader ?s t' d' ch' \<longleftrightarrow> t' \<noteq> t \<and> leader s t' d' ch'" for t' d' ch'
    using x by (auto simp: leader_def)
  have me: "leader s t d' ch' \<longleftrightarrow> d' = d \<and> ch' = ch" for d' ch' using assms(2) by (auto simp: leader_def)
  show "\<exists>t'. leader ?s t' d' ch'" if "fl_map ?s d' = Some ch'" for d' ch'
  proof -
    from that have m: "fl_map s d' = Some ch'" "\<not> (d' = d \<and> ch' = ch)" by (auto split: if_splits)
    from i(1) [OF m(1)] obtain t' where "leader s t' d' ch'" by blast
    moreover from this m(2) me have "t' \<noteq> t" by blast
    ultimately show ?thesis using lead by blast
  qed
  show "t' = t''" if "leader ?s t' d' ch'" "leader ?s t'' d'' ch'" for t' t'' d' d'' ch'
    using i(2) that unfolding lead by blast
  show "ch' < fl_next ?s" if "fl_tasks ?s t' = Some y" "speaks_of y = Some (d', ch')" for t' y d' ch'
    using that i(3) [of t' y d' ch'] assms(3) by (auto split: if_splits)
  show "\<exists>t' y d'. fl_tasks ?s t' = Some y \<and> leads y = Some (d', ch') \<and> silent y"
    if "ch' < fl_next ?s" "\<not> fl_touched ?s ch'" for ch'
  proof -
    from that i(4) [of ch'] obtain t' y d' where y: "fl_tasks s t' = Some y" "leads y = Some (d', ch')" "silent y" by auto
    with assms(2) have "t' \<noteq> t" by auto
    with y show ?thesis by (intro exI [of _ t'] exI [of _ y] exI [of _ d']) simp
  qed
qed

lemma new_lead:
  assumes "flight_inv s" "fl_tasks s t = Some (Missed d)" "fl_map s d = None"
  shows "flight_inv (join_flight t d s)"
proof (rule flight_invI)
  let ?s = "join_flight t d s"
  note i = flight_invD [OF assms(1)] and below = leader_below [OF assms(1)]
  have s: "fl_map ?s = (fl_map s)(d \<mapsto> fl_next s)" "fl_next ?s = fl_next s + 1"
    "fl_tasks ?s = (fl_tasks s)(t \<mapsto> Asking d (fl_next s))" "fl_touched ?s = (fl_touched s)(fl_next s := False)"
    using assms(3) by (simp_all add: join_flight_def Let_def)
  have lead: "leader ?s t' d' ch' \<longleftrightarrow> (if t' = t then d' = d \<and> ch' = fl_next s else leader s t' d' ch')" for t' d' ch'
    by (auto simp: leader_def s)
  have me: "\<not> leader s t d' ch'" for d' ch' using assms(2) by (simp add: leader_def)
  show "\<exists>t'. leader ?s t' d' ch'" if "fl_map ?s d' = Some ch'" for d' ch'
  proof (cases "d' = d")
    case True
    with that show ?thesis unfolding lead s by auto
  next
    case False
    with that i(1) [of d' ch'] obtain t' where "leader s t' d' ch'" unfolding s by auto
    with me show ?thesis unfolding lead by (intro exI [of _ t']) auto
  qed
  show "t' = t''" if "leader ?s t' d' ch'" "leader ?s t'' d'' ch'" for t' t'' d' d'' ch'
    using that i(2) [of t' d' ch' t'' d''] below [of t' d' ch'] below [of t'' d'' ch']
    unfolding lead by (auto split: if_splits)
  show "ch' < fl_next ?s" if "fl_tasks ?s t' = Some y" "speaks_of y = Some (d', ch')" for t' y d' ch'
    using that i(3) [of t' y d' ch'] unfolding s by (auto split: if_splits)
  show "\<exists>t' y d'. fl_tasks ?s t' = Some y \<and> leads y = Some (d', ch') \<and> silent y"
    if "ch' < fl_next ?s" "\<not> fl_touched ?s ch'" for ch'
  proof (cases "ch' = fl_next s")
    case True
    then show ?thesis by (intro exI [of _ t] exI [of _ "Asking d (fl_next s)"]) (simp add: s)
  next
    case False
    with that i(4) [of ch'] obtain t' y d' where y: "fl_tasks s t' = Some y" "leads y = Some (d', ch')" "silent y"
      unfolding s by auto
    with assms(2) have "t' \<noteq> t" by auto
    with y show ?thesis unfolding s by (intro exI [of _ t'] exI [of _ y] exI [of _ d']) simp
  qed
qed

lemma flight_step_inv:
  assumes "flight_inv s"
  shows "flight_inv (flight_step env pick primary e s)"
proof -
  note i = flight_invD [OF assms] and keep = keep_lead [OF assms]
  show ?thesis
  proof (cases e)
    case (Ask t now domain)
    then show ?thesis using assms
      by (auto simp: flight_step_def ask_def Let_def intro!: keep [of t] split: option.split ip_addr.split)
  next
    case (Join t)
    show ?thesis
    proof (cases "\<exists>d. fl_tasks s t = Some (Missed d)")
      case True
      then obtain d where d: "fl_tasks s t = Some (Missed d)" by blast
      show ?thesis
      proof (cases "fl_map s d")
        case None
        with Join d new_lead [OF assms d] show ?thesis by (simp add: flight_step_def)
      next
        case (Some ch)
        have "ch < fl_next s" using i(1) [OF Some] leader_below [OF assms] by blast
        with Join d Some show ?thesis
          by (auto simp: flight_step_def join_flight_def intro!: keep [of t "Waiting d ch"])
      qed
    next
      case False
      with Join assms show ?thesis by (auto simp: flight_step_def split: option.split flight_task.split)
    qed
  next
    case (Release t)
    with assms show ?thesis
      by (auto simp: flight_step_def intro!: end_lead split: option.split flight_task.split)
  next
    case ClearCache
    with i show ?thesis by (intro flight_invI) (auto simp: flight_step_def leader_def)
  next
    case (Answer t ut)
    show ?thesis
    proof (cases "\<exists>d ch. fl_tasks s t = Some (Asking d ch)")
      case True
      then obtain d ch where d: "fl_tasks s t = Some (Asking d ch)" by blast
      obtain r m where r: "resolve_upstream_internal env pick primary ut d (fl_cache s) = (r, m)" by fastforce
      from Answer d r i(3) [OF d] show ?thesis
        by (auto simp: flight_step_def intro!: keep [of t "Answered d ch r"])
    next
      case False
      with Answer assms show ?thesis by (auto simp: flight_step_def split: option.split flight_task.split)
    qed
  next
    case (Publish t)
    show ?thesis
    proof (cases "\<exists>d ch r. fl_tasks s t = Some (Answered d ch r)")
      case True
      then obtain d ch r where d: "fl_tasks s t = Some (Answered d ch r)" by blast
      from Publish d i(3) [OF d] show ?thesis
        by (auto simp: flight_step_def intro!: keep [of t "Releasing d ch (Some r)"])
    next
      case False
      with Publish assms show ?thesis by (auto simp: flight_step_def split: option.split flight_task.split)
    qed
  next
    case (Cancel t)
    consider (a) d ch where "fl_tasks s t = Some (Asking d ch)" | (w) d ch where "fl_tasks s t = Some (Waiting d ch)"
      | (o) "\<nexists>d ch. fl_tasks s t = Some (Asking d ch) \<or> fl_tasks s t = Some (Waiting d ch)" by blast
    then show ?thesis
    proof cases
      case a
      from Cancel a i(3) [OF a] show ?thesis
        by (auto simp: flight_step_def intro!: keep [of t "Releasing d ch None"])
    next
      case w
      with Cancel show ?thesis by (auto simp: flight_step_def intro!: keep [of t Gone])
    next
      case o
      with Cancel assms show ?thesis by (auto simp: flight_step_def split: option.split flight_task.split)
    qed
  next
    case (Return t b)
    show ?thesis
    proof (cases "\<exists>d ch. fl_tasks s t = Some (Waiting d ch)")
      case True
      then obtain d ch where d: "fl_tasks s t = Some (Waiting d ch)" by blast
      with Return assms show ?thesis
        by (auto simp: flight_step_def intro!: keep [of t "Finished (fl_value s ch)"])
    next
      case False
      with Return assms show ?thesis by (auto simp: flight_step_def split: option.split flight_task.split)
    qed
  qed
qed

interpretation flight: invariant_machine "flight_step env pick primary" flight_inv for env pick primary
  by unfold_locales (rule flight_step_inv)

subsection \<open>One query for a name\<close>

lemma flights_init_inv: "flight_inv flights_init"
  by (simp add: flight_inv_def flights_init_def leader_def)

lemma leader_set [simp]:
  "leader (set_task t x s) t' d ch \<longleftrightarrow> (if t' = t then leads x = Some (d, ch) else leader s t' d ch)"
  "leader (drop_guard d' ch' s) t' d ch \<longleftrightarrow> leader s t' d ch"
  "leader (s\<lparr>fl_cache := m\<rparr>) t' d ch \<longleftrightarrow> leader s t' d ch" "leader (s\<lparr>fl_map := mp\<rparr>) t' d ch \<longleftrightarrow> leader s t' d ch"
  "leader (s\<lparr>fl_value := v\<rparr>) t' d ch \<longleftrightarrow> leader s t' d ch" "leader (s\<lparr>fl_touched := b\<rparr>) t' d ch \<longleftrightarrow> leader s t' d ch"
  "leader (s\<lparr>fl_next := n\<rparr>) t' d ch \<longleftrightarrow> leader s t' d ch"
  by (auto simp: leader_def)

lemma leader_task: "fl_tasks s t = Some x \<Longrightarrow> leader s t d ch \<longleftrightarrow> leads x = Some (d, ch)"
  by (simp add: leader_def)

text \<open>Unless the map is cleared, whoever leads for a name is the one in the map.\<close>

definition registered :: "flights \<Rightarrow> bool" where
  "registered s \<longleftrightarrow> (\<forall>t d ch. leader s t d ch \<longrightarrow> fl_map s d = Some ch)"

lemma registered_step:
  assumes "flight_inv s" "registered s" "ClearCache \<noteq> e"
  shows "registered (flight_step env pick primary e s)"
proof -
  have r: "fl_tasks s t = Some (Asking d ch) \<Longrightarrow> fl_map s d = Some ch"
    "fl_tasks s t = Some (Answered d ch a) \<Longrightarrow> fl_map s d = Some ch" for t d ch a
  proof -
    have "leader s t d ch \<Longrightarrow> fl_map s d = Some ch" using assms(2) unfolding registered_def by blast
    then show "fl_tasks s t = Some (Asking d ch) \<Longrightarrow> fl_map s d = Some ch"
      "fl_tasks s t = Some (Answered d ch a) \<Longrightarrow> fl_map s d = Some ch" by (simp_all add: leader_task)
  qed
  show ?thesis
  proof (cases e)
    case (Join t)
    with assms show ?thesis
      by (auto simp: flight_step_def join_flight_def registered_def Let_def leader_task split: option.split flight_task.split)
  next
    case (Release t)
    show ?thesis
    proof (cases "\<exists>d ch r. fl_tasks s t = Some (Releasing d ch r)")
      case True
      then obtain d ch r where d: "fl_tasks s t = Some (Releasing d ch r)" by blast
      have "t' = t" if "leader s t' d' ch" for t' d'
        using flight_invD(2) [OF assms(1) that] d by (auto simp: leader_def)
      with assms Release d show ?thesis
        by (auto simp: flight_step_def registered_def split: option.split)
    next
      case False
      with Release assms show ?thesis by (auto simp: flight_step_def split: option.split flight_task.split)
    qed
  qed (use assms in \<open>auto simp: flight_step_def ask_def registered_def Let_def leader_task
      dest: r split: option.split flight_task.split prod.split ip_addr.split\<close>)
qed

lemma run_registered:
  assumes "ClearCache \<notin> set es" "flight_inv s" "registered s"
  shows "registered (fold (flight_step env pick primary) es s)"
  using assms by (induction es arbitrary: s) (simp_all add: registered_step flight_step_inv)


subsection \<open>Answers belong to the name\<close>

text \<open>An address taken for a name in the events \<open>E\<close>: some task asked for the name, and what it received held
the address.\<close>

definition taken :: "u32 \<Rightarrow> flight_event set \<Rightarrow> string \<Rightarrow> u32 \<Rightarrow> bool" where
  "taken primary E d ip \<longleftrightarrow>
     (\<exists>t now domain ut. Ask t now domain \<in> E \<and> norm_domain domain = d \<and> Answer t ut \<in> E
        \<and> first_answer primary (ut_id ut) (ut_datagrams ut) = Some ip)"

fun asks_for :: "flight_task \<Rightarrow> string option" where
  "asks_for (Missed d) = Some d"
| "asks_for (Asking d ch) = Some d"
| "asks_for (Answered d ch r) = Some d"
| "asks_for (Releasing d ch r) = Some d"
| "asks_for (Waiting d ch) = Some d"
| "asks_for _ = None"

fun holds :: "flight_task \<Rightarrow> u32 option" where
  "holds (Answered d ch r) = r"
| "holds (Releasing d ch r) = (case r of Some x \<Rightarrow> x | None \<Rightarrow> None)"
| "holds (Finished r) = r"
| "holds _ = None"

definition asked :: "flight_event set \<Rightarrow> nat \<Rightarrow> string \<Rightarrow> bool" where
  "asked E t d \<longleftrightarrow> (\<exists>now domain. Ask t now domain \<in> E \<and> norm_domain domain = d)"

text \<open>\<open>own\<close> names the channels.\<close>

definition answers_ok :: "u32 \<Rightarrow> flight_event set \<Rightarrow> (nat \<Rightarrow> string) \<Rightarrow> flights \<Rightarrow> bool" where
  "answers_ok primary E own s \<longleftrightarrow>
     (\<forall>t x d. fl_tasks s t = Some x \<longrightarrow> asks_for x = Some d \<longrightarrow> asked E t d \<and> norm_domain d = d)
     \<and> (\<forall>t x ip. fl_tasks s t = Some x \<longrightarrow> holds x = Some ip \<longrightarrow> (\<exists>d. asked E t d \<and> (\<forall>d'. asks_for x = Some d' \<longrightarrow> d' = d) \<and> taken primary E d ip))
     \<and> (\<forall>t x d ch. fl_tasks s t = Some x \<longrightarrow> speaks_of x = Some (d, ch) \<longrightarrow> own ch = d \<and> ch < fl_next s)
     \<and> (\<forall>d ch. fl_map s d = Some ch \<longrightarrow> own ch = d \<and> ch < fl_next s)
     \<and> (\<forall>ch ip. ch < fl_next s \<longrightarrow> fl_value s ch = Some ip \<longrightarrow> taken primary E (own ch) ip)
     \<and> (\<forall>d e. fl_cache s d = Some e \<longrightarrow> taken primary E d (fst e))"

lemma answers_okI:
  assumes "\<And>t x d. fl_tasks s t = Some x \<Longrightarrow> asks_for x = Some d \<Longrightarrow> asked E t d \<and> norm_domain d = d"
    and "\<And>t x ip. fl_tasks s t = Some x \<Longrightarrow> holds x = Some ip
      \<Longrightarrow> \<exists>d. asked E t d \<and> (\<forall>d'. asks_for x = Some d' \<longrightarrow> d' = d) \<and> taken primary E d ip"
    and "\<And>t x d ch. fl_tasks s t = Some x \<Longrightarrow> speaks_of x = Some (d, ch) \<Longrightarrow> own ch = d \<and> ch < fl_next s"
    and "\<And>d ch. fl_map s d = Some ch \<Longrightarrow> own ch = d \<and> ch < fl_next s"
    and "\<And>ch ip. ch < fl_next s \<Longrightarrow> fl_value s ch = Some ip \<Longrightarrow> taken primary E (own ch) ip"
    and "\<And>d e. fl_cache s d = Some e \<Longrightarrow> taken primary E d (fst e)"
  shows "answers_ok primary E own s"
  unfolding answers_ok_def using assms by blast

lemma answers_okD:
  assumes "answers_ok primary E own s"
  shows "fl_tasks s t = Some x \<Longrightarrow> asks_for x = Some d \<Longrightarrow> asked E t d \<and> norm_domain d = d"
    and "fl_tasks s t = Some x \<Longrightarrow> holds x = Some ip
      \<Longrightarrow> \<exists>d. asked E t d \<and> (\<forall>d'. asks_for x = Some d' \<longrightarrow> d' = d) \<and> taken primary E d ip"
    and "fl_tasks s t = Some x \<Longrightarrow> speaks_of x = Some (d, ch) \<Longrightarrow> own ch = d \<and> ch < fl_next s"
    and "fl_map s d = Some ch \<Longrightarrow> own ch = d \<and> ch < fl_next s"
    and "ch < fl_next s \<Longrightarrow> fl_value s ch = Some ip \<Longrightarrow> taken primary E (own ch) ip"
    and "fl_cache s d = Some e \<Longrightarrow> taken primary E d (fst e)"
  using assms unfolding answers_ok_def by blast+

text \<open>One task moves on, with what it then asks for, holds and speaks of.\<close>

lemma answers_move:
  assumes "answers_ok primary E own s"
    and "\<And>d. asks_for x = Some d \<Longrightarrow> asked E t d \<and> norm_domain d = d"
    and "\<And>ip. holds x = Some ip \<Longrightarrow> \<exists>d. asked E t d \<and> (\<forall>d'. asks_for x = Some d' \<longrightarrow> d' = d) \<and> taken primary E d ip"
    and "\<And>d ch. speaks_of x = Some (d, ch) \<Longrightarrow> own ch = d \<and> ch < fl_next s"
  shows "answers_ok primary E own (set_task t x s)"
  using answers_okD [OF assms(1)] assms(2-4) by (intro answers_okI) (auto split: if_splits)

lemma cache_after_answer:
  assumes "resolve_upstream_internal env pick primary ut d m = (r, m')" "m' d' = Some e" "norm_domain d = d"
  shows "m d' = Some e \<or> (d' = d \<and> first_answer primary (ut_id ut) (ut_datagrams ut) = Some (fst e))"
  using assms
  by (auto simp: resolve_upstream_internal_def insert_direct_cache_def evict_for_room_def retain_fresh_def Let_def
      split: if_splits option.splits)

lemma answers_step:
  assumes "answers_ok primary E own s" "e \<in> E"
  shows "\<exists>own'. answers_ok primary E own' (flight_step env pick primary e s)"
proof -
  note i = answers_okD [OF assms(1)] and move = answers_move [OF assms(1)]
  show ?thesis
  proof (cases e)
    case (Ask t now domain)
    have a: "asked E t (norm_domain domain)" using assms(2) Ask by (auto simp: asked_def)
    have "taken primary E (norm_domain domain) ip"
      if "direct_dns_lookup now (norm_domain domain) (fl_cache s) = Some (V4 ip)" for ip
      using that i(6) by (fastforce simp: direct_dns_lookup_def split: option.splits prod.splits if_splits)
    with a Ask assms(1) have "answers_ok primary E own (flight_step env pick primary e s)"
      by (auto simp: flight_step_def ask_def Let_def intro!: move split: option.split ip_addr.split)
    then show ?thesis by (rule exI [of _ own])
  next
    case (Answer t ut)
    show ?thesis
    proof (cases "\<exists>d ch. fl_tasks s t = Some (Asking d ch)")
      case True
      then obtain d ch where d: "fl_tasks s t = Some (Asking d ch)" by blast
      obtain r m where r: "resolve_upstream_internal env pick primary ut d (fl_cache s) = (r, m)" by fastforce
      have asked: "asked E t d" "norm_domain d = d" using i(1) [OF d] by simp_all
      have got: "taken primary E d ip" if "first_answer primary (ut_id ut) (ut_datagrams ut) = Some ip" for ip
        using that asked assms(2) Answer unfolding taken_def asked_def by blast
      have "answers_ok primary E own (s\<lparr>fl_cache := m\<rparr>)"
        using i cache_after_answer [OF r _ asked(2)] got by (intro answers_okI) (auto, metis)
      moreover have "holds (Answered d ch r) = Some ip \<Longrightarrow> taken primary E d ip" for ip
        using r got by (auto simp: resolve_upstream_internal_def split: if_splits option.splits)
      ultimately have "answers_ok primary E own (set_task t (Answered d ch r) (s\<lparr>fl_cache := m\<rparr>))"
        using asked i(3) [OF d] by (intro answers_move) auto
      with Answer d r show ?thesis by (auto simp: flight_step_def)
    next
      case False
      with Answer assms show ?thesis by (auto simp: flight_step_def split: option.split flight_task.split)
    qed
  next
    case ClearCache
    have "answers_ok primary E own (flight_step env pick primary e s)"
      using i by (intro answers_okI) (auto simp: ClearCache flight_step_def)
    then show ?thesis by (rule exI [of _ own])
  next
    case (Join t)
    show ?thesis
    proof (cases "\<exists>d. fl_tasks s t = Some (Missed d)")
      case True
      then obtain d where d: "fl_tasks s t = Some (Missed d)" by blast
      have asked: "asked E t d" "norm_domain d = d" using i(1) [OF d] by simp_all
      show ?thesis
      proof (cases "fl_map s d")
        case None
        let ?own = "own(fl_next s := d)"
        let ?s = "s\<lparr>fl_map := (fl_map s)(d \<mapsto> fl_next s), fl_next := fl_next s + 1,
            fl_value := (fl_value s)(fl_next s := None), fl_touched := (fl_touched s)(fl_next s := False)\<rparr>"
        have "answers_ok primary E ?own ?s"
          by (intro answers_okI) (use i in \<open>fastforce split: if_splits\<close>)+
        then have "answers_ok primary E ?own (set_task t (Asking d (fl_next s)) ?s)"
          using asked by (intro answers_move) auto
        with Join d None show ?thesis by (auto simp: flight_step_def join_flight_def Let_def)
      next
        case (Some ch)
        have "answers_ok primary E own (set_task t (Waiting d ch) s)"
          using asked i(4) [OF Some] by (intro move) auto
        with Join d Some show ?thesis by (auto simp: flight_step_def join_flight_def)
      qed
    next
      case False
      with Join assms show ?thesis by (auto simp: flight_step_def split: option.split flight_task.split)
    qed
  next
    case (Publish t)
    show ?thesis
    proof (cases "\<exists>d ch r. fl_tasks s t = Some (Answered d ch r)")
      case True
      then obtain d ch r where d: "fl_tasks s t = Some (Answered d ch r)" by blast
      have asked: "asked E t d" "norm_domain d = d" using i(1) [OF d] by simp_all
      have own: "own ch = d" "ch < fl_next s" using i(3) [OF d] by simp_all
      have got: "taken primary E d ip" if "r = Some ip" for ip using i(2) [OF d] that by auto
      have "answers_ok primary E own (s\<lparr>fl_value := (fl_value s)(ch := r), fl_touched := (fl_touched s)(ch := True)\<rparr>)"
        by (intro answers_okI) (use i own got in \<open>fastforce split: if_splits\<close>)+
      then have "answers_ok primary E own (set_task t (Releasing d ch (Some r))
          (s\<lparr>fl_value := (fl_value s)(ch := r), fl_touched := (fl_touched s)(ch := True)\<rparr>))"
        using asked own got by (intro answers_move) auto
      with Publish d show ?thesis by (auto simp: flight_step_def)
    next
      case False
      with Publish assms show ?thesis by (auto simp: flight_step_def split: option.split flight_task.split)
    qed
  next
    case (Cancel t)
    have touched: "answers_ok primary E own (s\<lparr>fl_touched := b\<rparr>)" for b
      using assms(1) by (simp add: answers_ok_def)
    have "answers_ok primary E own (flight_step env pick primary e s)"
      using Cancel assms(1) i(1,3)
      by (auto simp: flight_step_def intro!: move answers_move [OF touched] split: option.split flight_task.split)
    then show ?thesis by (rule exI [of _ own])
  next
    case (Release t)
    show ?thesis
    proof (cases "\<exists>d ch r. fl_tasks s t = Some (Releasing d ch r)")
      case True
      then obtain d ch r where d: "fl_tasks s t = Some (Releasing d ch r)" by blast
      let ?x = "case r of Some x \<Rightarrow> Finished x | None \<Rightarrow> Gone"
      have "answers_ok primary E own (drop_guard d ch s)"
        by (intro answers_okI) (use i in \<open>fastforce split: if_splits\<close>)+
      moreover have "\<exists>d. asked E t d \<and> taken primary E d ip" if "holds ?x = Some ip" for ip
        using i(2) [OF d, of ip] that by (auto split: option.splits)
      ultimately have "answers_ok primary E own (set_task t ?x (drop_guard d ch s))"
        by (intro answers_move) (auto split: option.splits)
      with Release d show ?thesis by (auto simp: flight_step_def)
    next
      case False
      with Release assms show ?thesis by (auto simp: flight_step_def split: option.split flight_task.split)
    qed
  next
    case (Return t b)
    show ?thesis
    proof (cases "\<exists>d ch. fl_tasks s t = Some (Waiting d ch)")
      case True
      then obtain d ch where d: "fl_tasks s t = Some (Waiting d ch)" by blast
      have "own ch = d" "ch < fl_next s" "asked E t d" using i(3) [OF d] i(1) [OF d] by simp_all
      with i(5) [of ch] have "answers_ok primary E own (set_task t (Finished (fl_value s ch)) s)"
        by (intro move) auto
      with Return d assms(1) show ?thesis by (auto simp: flight_step_def)
    next
      case False
      with Return assms show ?thesis by (auto simp: flight_step_def split: option.split flight_task.split)
    qed
  qed
qed

lemma answers_run:
  assumes "answers_ok primary E own s" "set es \<subseteq> E"
  shows "\<exists>own'. answers_ok primary E own' (fold (flight_step env pick primary) es s)"
  using assms
proof (induction es arbitrary: s own)
  case (Cons e es)
  then obtain own' where "answers_ok primary E own' (flight_step env pick primary e s)"
    using answers_step [of primary E own s e env pick] by auto
  with Cons show ?case by simp
qed auto

lemma flights_init_answers: "answers_ok primary E own flights_init"
  by (simp add: answers_ok_def flights_init_def)

text \<open>C39. Answers belong to the name (\<open>resolve_upstream_with\<close>, dns.rs): however lookups interleave, share
answers, are cancelled or cut short by clearing the cache, a task that asked for a name ends with no address,
or with one that a resolver's datagram carried for a task asking for that same name; and so does every
entry of the cache.\<close>
theorem answers_belong_to_name:
  assumes "s = fold (flight_step env pick primary) es flights_init"
  shows "(\<forall>t ip. fl_tasks s t = Some (Finished (Some ip)) \<longrightarrow>
       (\<exists>now domain. Ask t now domain \<in> set es \<and> taken primary (set es) (norm_domain domain) ip))
    \<and> (\<forall>d ip direct at. fl_cache s d = Some (ip, direct, at) \<longrightarrow> taken primary (set es) d ip)"
proof -
  from answers_run [OF flights_init_answers subset_refl] obtain own where
    ok: "answers_ok primary (set es) own s" unfolding assms by blast
  have "\<exists>d. asked (set es) t d \<and> taken primary (set es) d ip" if "fl_tasks s t = Some (Finished (Some ip))" for t ip
    using answers_okD(2) [OF ok that, of ip] by auto
  moreover have "taken primary (set es) d ip" if "fl_cache s d = Some (ip, direct, at)" for d ip direct at
    using answers_okD(6) [OF ok that] by simp
  ultimately show ?thesis unfolding asked_def by blast
qed

text \<open>A lookup with nobody else about is the one of \<open>Dns\<close>.\<close>

lemma lone_lookup:
  assumes "fl_tasks s t = None" "fl_map s (norm_domain domain) = None"
    and "resolve_upstream env pick (\<lambda>_. None) primary ut domain (fl_cache s) = (r, m)"
    and "s' = fold (flight_step env pick primary) [Ask t (ut_now ut) domain, Join t, Answer t ut, Publish t, Release t] s"
  shows "fl_tasks s' t = Some (Finished r) \<and> fl_cache s' = m \<and> fl_map s' (norm_domain domain) = None"
proof (cases "direct_dns_lookup (ut_now ut) (norm_domain domain) (fl_cache s)")
  case None
  with assms show ?thesis
    by (auto simp: flight_step_def ask_def join_flight_def drop_guard_def resolve_upstream_def Let_def split: prod.splits)
next
  case (Some ip)
  then obtain v where v: "ip = V4 v" by (auto simp: direct_dns_lookup_def split: option.splits prod.splits if_splits)
  with Some assms show ?thesis
    by (auto simp: flight_step_def ask_def resolve_upstream_def Let_def set_task_def)
qed

text \<open>A lookup under way when the cache is cleared writes its answer into the cleared cache: one that has
been asked of the servers set before, for instance.\<close>

lemma cleared_cache_refilled:
  assumes "first_answer primary (ut_id ut) (ut_datagrams ut) = Some ip" "ut_ready ut"
    and "s = fold (flight_step env pick primary) [Ask 0 now d, Join 0, ClearCache, Answer 0 ut] flights_init"
  shows "\<exists>direct at. fl_cache s (norm_domain d) = Some (ip, direct, at)"
  using assms
  by (simp add: flight_step_def ask_def join_flight_def flights_init_def direct_dns_lookup_def Let_def set_task_def
      resolve_upstream_internal_def insert_direct_cache_def)

subsection \<open>DNS over TCP\<close>

text \<open>\<open>relay_tcp_dns\<close> over all the client sends: queries behind their lengths, until one is empty, longer
than 4096 bytes or cut off. \<open>upstream k\<close> answers the lookups of the \<open>k\<close>th query, \<open>rt k\<close> is the router
in force then.\<close>

function relay_tcp_dns :: "('r \<Rightarrow> string \<Rightarrow> bool) \<Rightarrow> 'r router_env \<Rightarrow> (string \<Rightarrow> string) \<Rightarrow> (nat \<Rightarrow> string \<Rightarrow> u32 option)
    \<Rightarrow> (nat \<Rightarrow> 'r router) \<Rightarrow> nat \<Rightarrow> bytes \<Rightarrow> fake_ip_mapper \<Rightarrow> bytes \<times> fake_ip_mapper" where
  "relay_tcp_dns re_match env lc upstream rt k inp mp =
     (if length inp < 2 then ([], mp)
      else
        let qlen = unat (of_be16 (inp ! 0) (inp ! 1))
        in if qlen = 0 \<or> 4096 < qlen \<or> length inp < 2 + qlen then ([], mp)
           else case tcp_dns_query re_match env lc (upstream k) (take qlen (drop 2 inp)) (rt k) mp of
                  (out, mp) \<Rightarrow>
                    (case relay_tcp_dns re_match env lc upstream rt (k + 1) (drop (2 + qlen) inp) mp of
                       (outs, mp) \<Rightarrow> (out @ outs, mp)))"
  by pat_completeness auto
termination relay_tcp_dns
  by (relation "measure (\<lambda>(_, _, _, _, _, _, inp, _). length inp)") auto

declare relay_tcp_dns.simps [simp del]

definition tcp_frame :: "bytes \<Rightarrow> bytes" where
  "tcp_frame q = be16 (of_nat (length q)) @ q"

fun answers_in_turn :: "(nat \<Rightarrow> bytes \<Rightarrow> fake_ip_mapper \<Rightarrow> bytes \<times> fake_ip_mapper) \<Rightarrow> nat \<Rightarrow> bytes list
    \<Rightarrow> fake_ip_mapper \<Rightarrow> bytes \<times> fake_ip_mapper" where
  "answers_in_turn f k [] mp = ([], mp)"
| "answers_in_turn f k (q # qs) mp =
     (case f k q mp of (out, mp) \<Rightarrow> (case answers_in_turn f (k + 1) qs mp of (outs, mp) \<Rightarrow> (out @ outs, mp)))"

lemma relay_tcp_step:
  assumes "q \<noteq> []" "length q \<le> 4096"
  shows "relay_tcp_dns re_match env lc upstream rt k (tcp_frame q @ rest) mp =
    (case tcp_dns_query re_match env lc (upstream k) q (rt k) mp of
       (out, mp) \<Rightarrow> (case relay_tcp_dns re_match env lc upstream rt (k + 1) rest mp of (outs, mp) \<Rightarrow> (out @ outs, mp)))"
proof -
  have n: "unat (of_nat (length q) :: u16) = length q" using assms(2) by (simp add: unat_of_nat)
  obtain a b where ab: "be16 (of_nat (length q)) = [a, b]" "unat (of_be16 a b) = length q"
    using n of_be16_be16 [of "of_nat (length q)"] by (simp add: be16_def)
  have "tcp_frame q @ rest = a # b # q @ rest" by (simp add: tcp_frame_def ab(1))
  then show ?thesis
    using assms by (subst relay_tcp_dns.simps) (simp add: ab(2) Let_def not_less [symmetric])
qed

text \<open>C40. Every query of a TCP connection is answered once and in order (\<open>relay_tcp_dns\<close>, dns.rs), each with the
mapper as the one before left it; a query without length, too long or cut off ends the connection.\<close>
theorem tcp_queries_answered_in_order:
  assumes "\<forall>q\<in>set qs. q \<noteq> [] \<and> length q \<le> 4096"
    and "length rest < 2 \<or> (let n = unat (of_be16 (rest ! 0) (rest ! 1)) in n = 0 \<or> 4096 < n \<or> length rest < 2 + n)"
  shows "relay_tcp_dns re_match env lc upstream rt k (concat (map tcp_frame qs) @ rest) mp
    = answers_in_turn (\<lambda>k q mp. tcp_dns_query re_match env lc (upstream k) q (rt k) mp) k qs mp"
  using assms(1)
proof (induction qs arbitrary: k mp)
  case Nil
  from assms(2) show ?case by (subst relay_tcp_dns.simps) (auto simp: Let_def)
next
  case (Cons q qs)
  then show ?case by (simp add: relay_tcp_step)
qed

subsection \<open>Concrete runs\<close>

text \<open>Two tasks ask for one name; the second one waits for the first.\<close>

definition shared_lookup :: "flight_event list" where
  "shared_lookup = [Ask 0 5 ''A.CN.'', Join 0, Ask 1 5 ''a.cn'', Join 1, Answer 0 demo_try, Publish 0]"

lemma shared_names: "norm_domain ''A.CN.'' = ''a.cn''" "norm_domain ''a.cn'' = ''a.cn''"
  by code_simp+

abbreviation shared_state :: flights where
  "shared_state \<equiv> fold (flight_step demo_env (\<lambda>_. None) 0xDF050505) shared_lookup flights_init"

lemma shared_tasks: "fl_tasks shared_state = [0 \<mapsto> Releasing ''a.cn'' 0 (Some (Some 0x01000401)), 1 \<mapsto> Waiting ''a.cn'' 0]"
    and shared_value: "fl_value shared_state 0 = Some 0x01000401"
  by (auto simp: shared_lookup_def flight_step_def ask_def join_flight_def flights_init_def set_task_def
      direct_dns_lookup_def Let_def resolve_upstream_internal_def shared_names demo_try_def demo_answer_accepted
      fun_eq_iff)


theorem answers_belong_to_name_witness:
  "\<exists>now domain. Ask 1 now domain \<in> set (shared_lookup @ [Return 1 False])
    \<and> taken 0xDF050505 (set (shared_lookup @ [Return 1 False])) (norm_domain domain) 0x01000401"
proof (rule answers_belong_to_name [OF refl, THEN conjunct1, rule_format])
  show "fl_tasks (fold (flight_step demo_env (\<lambda>_. None) 0xDF050505) (shared_lookup @ [Return 1 False]) flights_init) 1
      = Some (Finished (Some 0x01000401))"
    by (simp add: flight_step_def shared_tasks shared_value set_task_def)
qed

theorem tcp_queries_answered_in_order_witness:
  "relay_tcp_dns no_re demo_env ascii_lower (\<lambda>_ _. None) (\<lambda>_. router_init) 0
      (concat (map tcp_frame [demo_query, [1], demo_query]) @ [0, 0, 9]) demo_mapper
    = answers_in_turn (\<lambda>k q mp. tcp_dns_query no_re demo_env ascii_lower (\<lambda>_. None) q router_init mp) 0
        [demo_query, [1], demo_query] demo_mapper"
  by (rule tcp_queries_answered_in_order) (simp_all add: demo_query_def of_be16_def)

end
