(* ===== verification/Sniffer.thy ===== *)
theory Sniffer
  imports NetTypes
begin

text \<open>The traffic sniffer (\<open>src/native/mirage-core/src/tun/sniffer.rs\<close>): the server name of a
TLS ClientHello, the Host header of an HTTP request, and the scan of a QUIC packet.
\<open>client_hello\<close> is the message as the RFC lays it out, the specification the TLS parser
is checked against.\<close>

datatype sniff_protocol = SniffUnknown | Tls | Http | Quic

record sniff_result =
  sr_protocol :: sniff_protocol
  sr_host :: "string option"

definition sniff_default :: sniff_result where
  "sniff_default = \<lparr>sr_protocol = SniffUnknown, sr_host = None\<rparr>"

definition word_be :: "bytes \<Rightarrow> nat \<Rightarrow> nat" where
  "word_be buf i = unat (of_be16 (buf ! i) (buf ! (i + 1)))"

definition clean_host :: "string \<Rightarrow> string" where
  "clean_host h = ascii_lower (trim_end_matches (CHR ''.'') h)"

subsection \<open>TLS\<close>

text \<open>The server names of one extension, from \<open>cur\<close> on.\<close>

function sni_names :: "bytes \<Rightarrow> nat \<Rightarrow> string option" where
  "sni_names ext cur =
     (if length ext < cur + 3 then None
      else
        let name_type = ext ! cur;
            name_len = word_be ext (cur + 1);
            cur = cur + 3;
            name = map chr_of (take name_len (drop cur ext))
        in if name_type = 0 \<and> cur + name_len \<le> length ext \<and> utf8_ok name
           then Some (clean_host name)
           else sni_names ext (cur + name_len))"
  by pat_completeness auto
termination
  by (relation "measure (\<lambda>(ext, cur). length ext - cur)") auto

declare sni_names.simps [simp del]

text \<open>The extensions between \<open>cur\<close> and \<open>ext_end\<close>.\<close>

function hello_extensions :: "bytes \<Rightarrow> nat \<Rightarrow> nat \<Rightarrow> string option" where
  "hello_extensions data ext_end cur =
     (if ext_end < cur + 4 then None
      else
        let ext_type = of_be16 (data ! cur) (data ! (cur + 1));
            ext_len = word_be data (cur + 2);
            cur = cur + 4
        in if ext_end < cur + ext_len then None
           else
             let ext = take ext_len (drop cur data);
                 host = (if ext_type = 0 \<and> 2 \<le> length ext then sni_names ext 2 else None)
             in case host of
                  Some h \<Rightarrow> Some h
                | None \<Rightarrow> hello_extensions data ext_end (cur + ext_len))"
  by pat_completeness auto
termination
  by (relation "measure (\<lambda>(_, e, cur). e - cur)") auto

declare hello_extensions.simps [simp del]

definition parse_client_hello_payload :: "bytes \<Rightarrow> string option" where
  "parse_client_hello_payload data =
     (if length data < 4 \<or> data ! 0 \<noteq> 0x01 then None
      else let cur = 4 in if length data < cur + 2 then None
      else let cur = cur + 2 in if length data < cur + 32 then None
      else let cur = cur + 32 in if length data \<le> cur then None
      else let cur = cur + (1 + unat (data ! cur)) in if length data < cur + 2 then None
      else let cur = cur + (2 + word_be data cur) in if length data \<le> cur then None
      else let cur = cur + (1 + unat (data ! cur)) in if length data < cur + 2 then None
      else let extensions_len = word_be data cur; cur = cur + 2
           in hello_extensions data (min (cur + extensions_len) (length data)) cur)"

definition parse_tls_sni :: "bytes \<Rightarrow> string option" where
  "parse_tls_sni buf =
     (if length buf < 5 \<or> buf ! 0 \<noteq> 0x16 then None
      else
        let record_len = word_be buf 3
        in parse_client_hello_payload
             (if 5 + record_len \<le> length buf then drop 5 (take (5 + record_len) buf) else drop 5 buf))"

subsection \<open>HTTP\<close>

definition http_methods :: "string list" where
  "http_methods = [''GET '', ''POST '', ''HEAD '', ''PUT '', ''DELETE '', ''OPTIONS '', ''CONNECT '', ''PATCH '']"

definition is_bracket :: "char \<Rightarrow> bool" where
  "is_bracket c \<longleftrightarrow> c = CHR ''['' \<or> c = CHR '']''"

definition trim_brackets :: "string \<Rightarrow> string" where
  "trim_brackets s = rev (dropWhile is_bracket (rev (dropWhile is_bracket s)))"

text \<open>The value of a Host header without its port.\<close>

definition strip_port :: "string \<Rightarrow> string" where
  "strip_port v =
     (case rsplit_once (CHR '':'') v of
        None \<Rightarrow> v
      | Some (h, _) \<Rightarrow> if \<not> starts_with ''['' v \<or> ends_with '']'' v then h else v)"

fun host_of_lines :: "string list \<Rightarrow> string option" where
  "host_of_lines [] = None"
| "host_of_lines (line # rest) =
     (let trimmed = trim line
      in if trimmed = [] then None
         else case split_once (CHR '':'') trimmed of
                None \<Rightarrow> host_of_lines rest
              | Some (k, v) \<Rightarrow>
                  if ascii_lower (trim k) = ascii_lower ''Host'' then
                    (let cleaned = trim_end_matches (CHR ''.'') (trim_brackets (strip_port (trim v)))
                     in if cleaned \<noteq> [] then Some (ascii_lower cleaned) else host_of_lines rest)
                  else host_of_lines rest)"

definition parse_http_host :: "bytes \<Rightarrow> string option" where
  "parse_http_host buf =
     (let text = map chr_of buf
      in if \<not> list_ex (\<lambda>m. starts_with m text) http_methods then None
         else
           let header = take (min (length buf) 1024) text
           in if utf8_ok header then host_of_lines (str_lines header) else None)"

subsection \<open>QUIC and the entry points\<close>

function quic_scan :: "bytes \<Rightarrow> nat \<Rightarrow> nat \<Rightarrow> string option" where
  "quic_scan buf limit i =
     (if i < limit - 40 then
        case (if buf ! i = 0x01 \<and> i + 1 < limit \<and> buf ! (i + 1) = 0x00
              then parse_client_hello_payload (drop i buf) else None) of
          Some sni \<Rightarrow> Some sni
        | None \<Rightarrow> quic_scan buf limit (i + 1)
      else None)"
  by pat_completeness auto
termination
  by (relation "measure (\<lambda>(_, limit, i). limit - i)") auto

declare quic_scan.simps [simp del]

definition parse_quic_sni :: "bytes \<Rightarrow> string option" where
  "parse_quic_sni buf = quic_scan buf (min (length buf) 1200) 0"

definition sniff_tcp :: "bytes \<Rightarrow> sniff_result" where
  "sniff_tcp payload =
     (if payload = [] then sniff_default
      else case parse_tls_sni payload of
             Some sni \<Rightarrow> \<lparr>sr_protocol = Tls, sr_host = Some sni\<rparr>
           | None \<Rightarrow>
               (case parse_http_host payload of
                  Some host \<Rightarrow> \<lparr>sr_protocol = Http, sr_host = Some host\<rparr>
                | None \<Rightarrow> sniff_default))"

definition sniff_udp :: "bytes \<Rightarrow> sniff_result" where
  "sniff_udp payload =
     (if length payload < 12 then sniff_default
      else if (payload ! 0) AND 0x80 \<noteq> 0 \<and> (payload ! 0) AND 0x40 \<noteq> 0 then
        (case parse_quic_sni payload of
           Some sni \<Rightarrow> \<lparr>sr_protocol = Quic, sr_host = Some sni\<rparr>
         | None \<Rightarrow> sniff_default)
      else sniff_default)"

subsection \<open>A ClientHello and its name\<close>

text \<open>The message as RFC 8446 lays it out; an extension is its type and body.\<close>

definition enc_ext :: "u16 \<times> bytes \<Rightarrow> bytes" where
  "enc_ext e = be16 (fst e) @ be16 (of_nat (length (snd e))) @ snd e"

definition sni_ext :: "string \<Rightarrow> u16 \<times> bytes" where
  "sni_ext h = (0, be16 (of_nat (3 + length h)) @ [0] @ be16 (of_nat (length h)) @ map byte_of h)"

definition client_hello :: "bytes \<Rightarrow> bytes \<Rightarrow> bytes \<Rightarrow> bytes \<Rightarrow> bytes \<Rightarrow> (u16 \<times> bytes) list \<Rightarrow> bytes" where
  "client_hello head6 random sid suites cmps exts =
     head6 @ random @ [of_nat (length sid)] @ sid
     @ be16 (of_nat (length suites)) @ suites @ [of_nat (length cmps)] @ cmps
     @ be16 (of_nat (length (concat (map enc_ext exts)))) @ concat (map enc_ext exts)"

lemma word_be_be16:
  "n < 65536 \<Longrightarrow> word_be (a @ be16 (of_nat n) @ b) (length a) = n"
proof -
  assume n: "n < 65536"
  obtain x y where xy: "be16 (of_nat n) = [x, y]" by (simp add: be16_def)
  then have "of_be16 x y = of_nat n" by (auto simp: be16_def of_be16_be16)
  then have "unat (of_be16 x y) = n" using n by (simp add: unat_of_nat)
  then show ?thesis by (simp add: word_be_def xy nth_append)
qed

lemma sni_names_ext:
  assumes "length h < 65536" "utf8_ok h"
  shows "sni_names (snd (sni_ext h)) 2 = Some (clean_host h)"
proof -
  obtain a b where ab: "be16 (of_nat (3 + length h)) = [a, b]" by (simp add: be16_def)
  obtain x y where xy: "be16 (of_nat (length h)) = [x, y]" by (simp add: be16_def)
  have w: "word_be ([a, b, 0] @ be16 (of_nat (length h)) @ map byte_of h) 3 = length h"
    using word_be_be16 [OF assms(1), of "[a, b, 0]" "map byte_of h"] by (simp add: numeral_3_eq_3)
  show ?thesis
    using w assms(2) unfolding sni_ext_def snd_conv ab xy
    by (subst sni_names.simps) (simp add: comp_def)
qed

lemma hello_extensions_skip:
  assumes "t \<noteq> 0" "length b < 65536" "length pre + length (enc_ext (t, b)) \<le> e"
  shows "hello_extensions (pre @ enc_ext (t, b) @ rest) e (length pre)
       = hello_extensions (pre @ enc_ext (t, b) @ rest) e (length pre + length (enc_ext (t, b)))"
proof -
  obtain x y where xy: "be16 t = [x, y]" by (simp add: be16_def)
  then have t: "of_be16 x y = t" by (auto simp: be16_def of_be16_be16)
  have w: "word_be (pre @ enc_ext (t, b) @ rest) (length pre + 2) = length b"
    using word_be_be16 [OF assms(2), of "pre @ [x, y]" "b @ rest"] by (simp add: enc_ext_def xy)
  have n: "of_be16 ((pre @ enc_ext (t, b) @ rest) ! length pre)
      ((pre @ enc_ext (t, b) @ rest) ! (length pre + 1)) = t"
    by (simp add: enc_ext_def xy nth_append t)
  have l: "length (enc_ext (t, b)) = 4 + length b" by (simp add: enc_ext_def)
  show ?thesis
    using assms(1,3) n w unfolding l
    by (subst hello_extensions.simps) (simp add: Let_def add.assoc)
qed

lemma hello_extensions_sni:
  assumes "length h < 65530" "utf8_ok h" "length pre + length (enc_ext (sni_ext h)) \<le> e"
  shows "hello_extensions (pre @ enc_ext (sni_ext h) @ rest) e (length pre) = Some (clean_host h)"
proof -
  define b where "b = snd (sni_ext h)"
  have bl: "length b = 5 + length h" by (simp add: b_def sni_ext_def)
  have en: "enc_ext (sni_ext h) = [0, 0] @ be16 (of_nat (length b)) @ b"
    by (simp add: enc_ext_def b_def sni_ext_def) (simp add: be16_def)
  have w: "word_be (pre @ enc_ext (sni_ext h) @ rest) (length pre + 2) = length b"
    using word_be_be16 [of "length b" "pre @ [0, 0]" "b @ rest"] assms(1) bl by (simp add: en)
  have z: "of_be16 0 0 = 0" by code_simp
  have n: "of_be16 ((pre @ enc_ext (sni_ext h) @ rest) ! length pre)
      ((pre @ enc_ext (sni_ext h) @ rest) ! (length pre + 1)) = 0"
    by (simp add: en nth_append z)
  have t: "take (length b) (drop (length pre + 4) (pre @ enc_ext (sni_ext h) @ rest)) = b"
    by (simp add: en)
  have s: "sni_names b 2 = Some (clean_host h)"
    using sni_names_ext [of h] assms(1,2) by (simp add: b_def)
  have l: "length (enc_ext (sni_ext h)) = 4 + length b" by (simp add: en)
  show ?thesis
    using assms(3) n w t s bl unfolding l
    by (subst hello_extensions.simps) (simp add: Let_def add.assoc)
qed

lemma hello_extensions_find:
  assumes "\<forall>(t, b)\<in>set es. t \<noteq> 0 \<and> length b < 65536" and "length h < 65530" "utf8_ok h"
    and "length pre + length (concat (map enc_ext es)) + length (enc_ext (sni_ext h)) \<le> e"
  shows "hello_extensions (pre @ concat (map enc_ext es) @ enc_ext (sni_ext h) @ rest) e (length pre)
      = Some (clean_host h)"
  using assms
proof (induction es arbitrary: pre)
  case Nil
  then show ?case using hello_extensions_sni by simp
next
  case (Cons x es)
  obtain t b where x: "x = (t, b)" by (cases x)
  have "hello_extensions (pre @ enc_ext (t, b) @ concat (map enc_ext es) @ enc_ext (sni_ext h) @ rest) e
        (length pre)
      = hello_extensions (pre @ enc_ext (t, b) @ concat (map enc_ext es) @ enc_ext (sni_ext h) @ rest) e
        (length pre + length (enc_ext (t, b)))"
    using Cons.prems by (intro hello_extensions_skip) (auto simp: x)
  also have "\<dots> = Some (clean_host h)"
    using Cons.IH [of "pre @ enc_ext (t, b)"] Cons.prems by (simp add: x add.assoc)
  finally show ?case by (simp add: x)
qed


lemma parse_client_hello_eq:
  assumes "length head6 = 6" "head6 ! 0 = 1" "length random = 32" "length sid < 256"
    and "length suites < 65536" "length cmps < 256" "length (concat (map enc_ext exts)) < 65536"
  defines "E \<equiv> concat (map enc_ext exts)"
    and "pre \<equiv> head6 @ random @ [of_nat (length sid)] @ sid @ be16 (of_nat (length suites)) @ suites
      @ [of_nat (length cmps)] @ cmps @ be16 (of_nat (length (concat (map enc_ext exts))))"
  shows "parse_client_hello_payload (client_hello head6 random sid suites cmps exts)
      = hello_extensions (pre @ E) (length (pre @ E)) (length pre)"
proof -
  define a where "a = head6 @ random"
  define b where "b = a @ [of_nat (length sid) :: u8] @ sid"
  define c where "c = b @ be16 (of_nat (length suites)) @ suites"
  define d where "d = c @ [of_nat (length cmps)] @ cmps"
  have eq: "client_hello head6 random sid suites cmps exts = pre @ E"
    by (simp add: client_hello_def pre_def E_def)
  let ?m = "pre @ E"
  have la: "length a = 38" using assms(1,3) by (simp add: a_def)
  have lb: "length b = 39 + length sid" using la by (simp add: b_def)
  have lc: "length c = length b + 2 + length suites" by (simp add: c_def)
  have ld: "length d = length c + 1 + length cmps" by (simp add: d_def)
  have lp: "length pre = length d + 2" by (simp add: pre_def d_def c_def b_def a_def)
  have ea: "?m = a @ [of_nat (length sid)] @ sid @ be16 (of_nat (length suites)) @ suites
      @ [of_nat (length cmps)] @ cmps @ be16 (of_nat (length E)) @ E"
    by (simp add: pre_def a_def E_def)
  have eb: "?m = b @ be16 (of_nat (length suites)) @ suites
      @ [of_nat (length cmps)] @ cmps @ be16 (of_nat (length E)) @ E"
    by (simp add: ea b_def)
  have ec: "?m = c @ [of_nat (length cmps)] @ cmps @ be16 (of_nat (length E)) @ E"
    by (simp add: eb c_def)
  have ed: "?m = d @ be16 (of_nat (length E)) @ E" by (simp add: ec d_def)
  have u1: "unat (?m ! 38) = length sid"
    unfolding ea using la assms(4) by (simp add: nth_append unat_of_nat)
  have u2: "word_be ?m (39 + length sid) = length suites"
    unfolding eb lb [symmetric] by (rule word_be_be16) (use assms(5) in simp)
  have u3: "unat (?m ! length c) = length cmps"
    unfolding ec using assms(6) by (simp add: nth_append unat_of_nat)
  have u4: "word_be ?m (length d) = length E"
    unfolding ed using assms(7) by (intro word_be_be16) (simp add: E_def)
  have m0: "?m ! 0 = 1" unfolding ea a_def using assms(1,2) by (simp add: nth_append)
  have lm: "length ?m = length d + 2 + length E" using lp by simp
  have c1: "41 + length sid + length suites = length c" using lc lb by simp
  have d1: "42 + length sid + length suites + length cmps = length d" using ld lc lb by simp
  have d2: "Suc (length c + length cmps) = length d" using ld by simp
  show ?thesis
    unfolding eq parse_client_hello_payload_def Let_def
    using m0 u1 u2 u3 u4 lm lc lb lp c1 d1 d2
    by (simp add: add.assoc add.commute add.left_commute)
qed


lemma parse_client_hello_sni:
  assumes "length head6 = 6" "head6 ! 0 = 1" "length random = 32" "length sid < 256"
    and "length suites < 65536" "length cmps < 256"
    and "exts = es @ sni_ext h # es'" "length (concat (map enc_ext exts)) < 65536"
    and "\<forall>(t, b)\<in>set es. t \<noteq> 0 \<and> length b < 65536" "utf8_ok h"
  shows "parse_client_hello_payload (client_hello head6 random sid suites cmps exts) = Some (clean_host h)"
proof -
  define pre where "pre = head6 @ random @ [of_nat (length sid)] @ sid @ be16 (of_nat (length suites)) @ suites
      @ [of_nat (length cmps)] @ cmps @ be16 (of_nat (length (concat (map enc_ext exts))))"
  have E: "concat (map enc_ext exts)
      = concat (map enc_ext es) @ enc_ext (sni_ext h) @ concat (map enc_ext es')"
    by (simp add: assms(7))
  have "length (enc_ext (sni_ext h)) < 65536" using assms(8) by (simp add: E)
  then have h: "length h < 65530" by (simp add: enc_ext_def sni_ext_def)
  show ?thesis
    unfolding parse_client_hello_eq [OF assms(1-6,8), folded pre_def] E
    by (rule hello_extensions_find [OF assms(9) h assms(10)]) simp
qed

lemma sniff_record:
  assumes "length head6 = 6" "head6 ! 0 = 1" "length random = 32" "length sid < 256"
    and "length suites < 65536" "length cmps < 256"
    and "exts = es @ sni_ext h # es'" "length (concat (map enc_ext exts)) < 65536"
    and "\<forall>(t, b)\<in>set es. t \<noteq> 0 \<and> length b < 65536" "utf8_ok h"
    and "msg = client_hello head6 random sid suites cmps exts" "length msg < 65536"
  shows "sniff_tcp ([0x16, maj, mi] @ be16 (of_nat (length msg)) @ msg @ rest)
       = \<lparr>sr_protocol = Tls, sr_host = Some (clean_host h)\<rparr>"
proof -
  let ?r = "[0x16, maj, mi] @ be16 (of_nat (length msg)) @ msg @ rest"
  have w: "word_be ?r 3 = length msg"
    using word_be_be16 [OF assms(12), of "[0x16, maj, mi]" "msg @ rest"] by (simp add: numeral_3_eq_3)
  define p where "p = [0x16, maj, mi] @ be16 (of_nat (length msg))"
  have "length p = 5" by (simp add: p_def)
  then have "drop 5 (take (5 + length msg) (p @ msg @ rest)) = msg" by simp
  then have "drop 5 (take (5 + length msg) ?r) = msg" by (simp add: p_def)
  moreover have "5 + length msg \<le> length ?r" "\<not> length ?r < 5" "?r ! 0 = 0x16" by simp_all
  ultimately have "parse_tls_sni ?r = parse_client_hello_payload msg"
    unfolding parse_tls_sni_def w Let_def by simp
  then show ?thesis
    using parse_client_hello_sni [OF assms(1-10)] assms(11) by (simp add: sniff_tcp_def)
qed

text \<open>The sniffer finds the server name: for any ClientHello whose first server-name
extension (after any others) carries a UTF-8 host name, a TCP segment that starts with the
TLS record of that message is recognised as TLS with exactly that host, lower-cased and
without trailing dots; what follows the record does not matter.\<close>
theorem sni_found:
  assumes "length head6 = 6" "head6 ! 0 = 1" "length random = 32" "length sid < 256"
    and "length suites < 65536" "length cmps < 256"
    and "exts = es @ sni_ext h # es'" "length (concat (map enc_ext exts)) < 65536"
    and "\<forall>(t, b)\<in>set es. t \<noteq> 0 \<and> length b < 65536" "utf8_ok h"
    and "msg = client_hello head6 random sid suites cmps exts" "length msg < 65536"
  shows "sniff_tcp ([0x16, maj, mi] @ be16 (of_nat (length msg)) @ msg @ rest)
       = \<lparr>sr_protocol = Tls, sr_host = Some (clean_host h)\<rparr>"
  by (rule sniff_record [OF assms])

theorem sni_found_witness:
  "sr_host (sniff_tcp ([0x16, 3, 1] @ be16 66 @ client_hello [1, 0, 0, 62, 3, 3] (replicate 32 7) []
      [0x13, 1] [0] [(10, [0]), sni_ext ''A.cn.''] @ [1, 2, 3])) = Some ''a.cn''"
proof -
  have l: "length (client_hello [1, 0, 0, 62, 3, 3] (replicate 32 7) [] [0x13, 1] [0]
      [(10, [0]), sni_ext ''A.cn.'']) = 66"
    by (simp add: client_hello_def enc_ext_def sni_ext_def)
  have h: "clean_host ''A.cn.'' = ''a.cn''" "utf8_ok ''A.cn.''" by code_simp+
  have "sniff_tcp ([0x16, 3, 1] @ be16 (of_nat (length (client_hello [1, 0, 0, 62, 3, 3] (replicate 32 7) []
      [0x13, 1] [0] [(10, [0]), sni_ext ''A.cn.'']))) @ client_hello [1, 0, 0, 62, 3, 3] (replicate 32 7) []
      [0x13, 1] [0] [(10, [0]), sni_ext ''A.cn.''] @ [1, 2, 3])
      = \<lparr>sr_protocol = Tls, sr_host = Some (clean_host ''A.cn.'')\<rparr>"
    by (rule sni_found [where es = "[(10, [0])]" and es' = "[]", OF _ _ _ _ _ _ _ _ _ h(2) refl])
      (simp_all add: l, simp_all add: enc_ext_def sni_ext_def)
  then show ?thesis by (simp add: l h)
qed

text \<open>A Host header with an IPv6 literal is misread in both of its forms: a port after
the bracket is kept, and without a port the last group of the address is cut off.\<close>
theorem http_host_ipv6:
  "sr_host (sniff_tcp (map byte_of (''GET / HTTP/1.1'' @ [CHR 0x0D, CHR 0x0A] @ ''Host: [2001:db8::1]:80'')))
     = Some ''2001:db8::1]:80''
   \<and> sr_host (sniff_tcp (map byte_of (''GET / HTTP/1.1'' @ [CHR 0x0D, CHR 0x0A] @ ''Host: [2001:db8::1]'')))
     = Some ''2001:db8:''"
  by code_simp

end
