(* ===== verification/FlowPath.thy ===== *)
theory FlowPath
  imports Dns Sniffer UdpMux
begin

text \<open>What becomes of a flow once it is routed (\<open>src/native/mirage-core/src/tun/tcp.rs\<close>
and \<open>tun/udp.rs\<close>): the name a flow is known by, the real target of a direct flow with
its leak guards and the double-confidence gate, and the UDP engine that admits,
refuses and queues datagrams. The relays that copy bytes afterwards are in \<open>TcpRelay\<close> and
\<open>UdpRelay\<close>.\<close>

subsection \<open>Fake addresses of the engine\<close>

fun fake_ip_reverse :: "ip_addr \<Rightarrow> fake_ip_mapper \<Rightarrow> string option" where
  "fake_ip_reverse (V4 w) mp = lookup_domain w mp"
| "fake_ip_reverse (V6 _) mp = None"

fun engine_is_fake_ip :: "ip_addr \<Rightarrow> fake_ip_mapper \<Rightarrow> bool" where
  "engine_is_fake_ip (V4 w) mp = is_fake_ip w mp"
| "engine_is_fake_ip (V6 _) mp = False"

subsection \<open>The real target of a direct flow\<close>

datatype direct_target = Ip ip_addr | RouterIp ip_addr | FallbackProxy | DropTarget

text \<open>\<open>rs_cached\<close> is the direct cache, \<open>rs_system\<close> the system resolver within its timeout,
\<open>rs_upstream\<close> the race of the domestic resolvers.\<close>

record resolvers =
  rs_cached :: "string \<Rightarrow> ip_addr option"
  rs_system :: "string \<Rightarrow> ip_addr option"
  rs_upstream :: "string \<Rightarrow> u32 option"

definition may_query_upstream ::
    "('r \<Rightarrow> string \<Rightarrow> bool) \<Rightarrow> 'r router_env \<Rightarrow> 'r router \<Rightarrow> string \<Rightarrow> decision_source \<Rightarrow> bool" where
  "may_query_upstream re_match env rt dname src =
     (if is_known_non_cn_domain dname \<or> is_lan_or_router_domain dname then False
      else src = Rule \<or> should_resolve_upstream re_match env dname rt)"

text \<open>The target and the names asked at the domestic resolvers on the way.\<close>

definition resolve_direct_target ::
    "('r \<Rightarrow> string \<Rightarrow> bool) \<Rightarrow> 'r router_env \<Rightarrow> 'r router \<Rightarrow> resolvers \<Rightarrow> string \<Rightarrow> decision_source
     \<Rightarrow> direct_target \<times> string list" where
  "resolve_direct_target re_match env rt rs dname src =
     (case rs_cached rs dname of
        Some ip \<Rightarrow> (Ip ip, [])
      | None \<Rightarrow>
          if is_lan_or_router_domain dname then
            (case default_router_ip_for_domain dname of
               Some ip \<Rightarrow> (RouterIp ip, [])
             | None \<Rightarrow>
                 (case rs_system rs dname of
                    Some ip \<Rightarrow> if is_private_ip ip then (Ip ip, []) else (DropTarget, [])
                  | None \<Rightarrow> (DropTarget, [])))
          else if src = Default then (FallbackProxy, [])
          else if may_query_upstream re_match env rt dname src then
            (case rs_upstream rs dname of
               Some w \<Rightarrow> (Ip (V4 w), [dname])
             | None \<Rightarrow> (FallbackProxy, [dname]))
          else (FallbackProxy, []))"

subsection \<open>What happens to a flow\<close>

text \<open>\<open>Dial\<close> connects outside the tunnel, \<open>Tunnel\<close> hands the flow to the proxy under a name
or an address, \<open>Reject\<close> closes it.\<close>

datatype flow_plan = Dial ip_addr | Tunnel "string option" | Reject

text \<open>The double-confidence gate: a resolved address is dialled only if it is private or
Chinese, otherwise the flow falls back to the tunnel; an address the client used itself
is dialled as it is.\<close>

definition confidence_gate :: "'r router_env \<Rightarrow> bool \<Rightarrow> string option \<Rightarrow> ip_addr \<Rightarrow> flow_plan" where
  "confidence_gate env is_fake dname ip =
     (if is_private_ip ip \<or> is_cn_ip env ip then Dial ip
      else if is_fake then Tunnel dname
      else Dial ip)"

definition relay_direct ::
    "('r \<Rightarrow> string \<Rightarrow> bool) \<Rightarrow> 'r router_env \<Rightarrow> 'r router \<Rightarrow> resolvers \<Rightarrow> fake_ip_mapper \<Rightarrow> ip_addr
     \<Rightarrow> string option \<Rightarrow> decision_source \<Rightarrow> flow_plan \<times> string list" where
  "relay_direct re_match env rt rs mp dst direct_domain src =
     (let is_fake = engine_is_fake_ip dst mp
      in if is_fake then
           (case direct_domain of
              None \<Rightarrow> (Reject, [])
            | Some dname \<Rightarrow>
                (case resolve_direct_target re_match env rt rs dname src of
                   (Ip ip, asked) \<Rightarrow> (confidence_gate env is_fake direct_domain ip, asked)
                 | (RouterIp ip, asked) \<Rightarrow> (confidence_gate env is_fake direct_domain ip, asked)
                 | (FallbackProxy, asked) \<Rightarrow> (Tunnel direct_domain, asked)
                 | (DropTarget, asked) \<Rightarrow> (Reject, asked)))
         else (confidence_gate env is_fake direct_domain dst, []))"

text \<open>A TCP connection: the name comes from the fake-address map, or from the first bytes
when the address is neither Chinese nor private; \<open>first_bytes\<close> is what arrived in time.\<close>

definition tcp_domain ::
    "'r router_env \<Rightarrow> fake_ip_mapper \<Rightarrow> ip_addr \<Rightarrow> bytes \<Rightarrow> string option" where
  "tcp_domain env mp dst first_bytes =
     (case fake_ip_reverse dst mp of
        Some d \<Rightarrow> Some d
      | None \<Rightarrow>
          if \<not> is_cn_ip env dst \<and> \<not> is_private_ip dst \<and> first_bytes \<noteq> []
          then sr_host (sniff_tcp (take 2048 first_bytes))
          else None)"

definition relay_tcp ::
    "('r \<Rightarrow> string \<Rightarrow> bool) \<Rightarrow> 'r router_env \<Rightarrow> resolvers \<Rightarrow> fake_ip_mapper \<Rightarrow> ip_addr \<times> u16 \<Rightarrow> bytes
     \<Rightarrow> 'r router \<Rightarrow> (flow_plan \<times> string list) \<times> 'r router" where
  "relay_tcp re_match env rs mp dst first_bytes rt =
     (let dname = tcp_domain env mp (fst dst) first_bytes
      in case route_decision_sourced re_match env
                \<lparr>fl_domain = dname, fl_ip = Some (fst dst), fl_port = Some (unat (snd dst)),
                 fl_protocol = Some ''tcp''\<rparr> rt of
           ((action, src, _), rt') \<Rightarrow>
             (if action = Block then (Reject, [])
              else if action = Direct then relay_direct re_match env rt' rs mp (fst dst) dname src
              else (Tunnel dname, []), rt'))"

text \<open>A UDP flow; the direct branch repeats the TCP one.\<close>

definition udp_flow_direct ::
    "('r \<Rightarrow> string \<Rightarrow> bool) \<Rightarrow> 'r router_env \<Rightarrow> 'r router \<Rightarrow> resolvers \<Rightarrow> fake_ip_mapper \<Rightarrow> flow_key
     \<Rightarrow> string option \<Rightarrow> decision_source \<Rightarrow> flow_plan \<times> string list" where
  "udp_flow_direct re_match env rt rs mp key reverse_domain src =
     (let is_fake = engine_is_fake_ip (fk_dst key) mp;
          gate = (\<lambda>target. if is_private_ip target \<or> is_cn_ip env target then Dial target
                    else if is_fake then Tunnel reverse_domain else Dial target)
      in if is_fake then
           (case reverse_domain of
              Some dname \<Rightarrow>
                (case resolve_direct_target re_match env rt rs dname src of
                   (Ip ip, asked) \<Rightarrow> (gate ip, asked)
                 | (RouterIp ip, asked) \<Rightarrow> (gate ip, asked)
                 | (FallbackProxy, asked) \<Rightarrow> (Tunnel reverse_domain, asked)
                 | (DropTarget, asked) \<Rightarrow> (Reject, asked))
            | None \<Rightarrow> (Reject, []))
         else (gate (fk_dst key), []))"

definition udp_flow_relay ::
    "('r \<Rightarrow> string \<Rightarrow> bool) \<Rightarrow> 'r router_env \<Rightarrow> resolvers \<Rightarrow> fake_ip_mapper \<Rightarrow> flow_key
     \<Rightarrow> 'r router \<Rightarrow> (flow_plan \<times> string list) \<times> 'r router" where
  "udp_flow_relay re_match env rs mp key rt =
     (let dname = fake_ip_reverse (fk_dst key) mp
      in case route_decision_sourced re_match env
                \<lparr>fl_domain = dname, fl_ip = Some (fk_dst key), fl_port = Some (unat (fk_dst_port key)),
                 fl_protocol = Some ''udp''\<rparr> rt of
           ((action, src, _), rt') \<Rightarrow>
             (if action = Block then (Reject, [])
              else if action = Direct then udp_flow_direct re_match env rt' rs mp key dname src
              else (Tunnel dname, []), rt'))"

lemma udp_direct_as_tcp:
  "udp_flow_direct re_match env rt rs mp key dname src = relay_direct re_match env rt rs mp (fk_dst key) dname src"
  by (simp add: udp_flow_direct_def relay_direct_def confidence_gate_def Let_def
      split: option.splits prod.splits direct_target.splits)

lemma gate_dial:
  "confidence_gate env True dname ip = Dial a \<Longrightarrow> is_private_ip a \<or> is_cn_ip env a"
  by (auto simp: confidence_gate_def split: if_splits)

lemma asked_names:
  assumes "resolve_direct_target re_match env rt rs dname src = (tg, asked)" "x \<in> set asked"
  shows "x = dname \<and> \<not> is_known_non_cn_domain dname \<and> \<not> is_lan_or_router_domain dname \<and> src \<noteq> Default"
  using assms
  by (auto simp: resolve_direct_target_def may_query_upstream_def split: option.splits if_splits)

lemma direct_confident:
  assumes "relay_direct re_match env rt rs mp dst dname src = (plan, asked)"
  shows "engine_is_fake_ip dst mp \<Longrightarrow> plan = Dial a \<Longrightarrow> is_private_ip a \<or> is_cn_ip env a"
    and "x \<in> set asked \<Longrightarrow> dname = Some x \<and> \<not> is_known_non_cn_domain x
           \<and> \<not> is_lan_or_router_domain x \<and> src \<noteq> Default"
proof -
  show "is_private_ip a \<or> is_cn_ip env a" if "engine_is_fake_ip dst mp" "plan = Dial a"
    using assms that
    by (auto simp: relay_direct_def Let_def split: option.splits prod.splits direct_target.splits
        dest: gate_dial)
  show "dname = Some x \<and> \<not> is_known_non_cn_domain x \<and> \<not> is_lan_or_router_domain x \<and> src \<noteq> Default"
    if xs: "x \<in> set asked"
  proof (cases "engine_is_fake_ip dst mp")
    case True
    then obtain d where d: "dname = Some d"
      using assms xs by (cases dname) (auto simp: relay_direct_def Let_def)
    obtain tg qs where r: "resolve_direct_target re_match env rt rs d src = (tg, qs)" by fastforce
    have "asked = qs"
      using assms True d r by (auto simp: relay_direct_def Let_def split: direct_target.splits)
    with asked_names [OF r] xs d show ?thesis by auto
  next
    case False
    then show ?thesis using assms xs by (auto simp: relay_direct_def Let_def)
  qed
qed


lemma fake_flow_confined_parts:
  assumes "engine_is_fake_ip ip mp"
  shows "relay_tcp re_match env rs mp (ip, port) bs rt = ((plan, asked), rt') \<Longrightarrow>
      (\<forall>a. plan = Dial a \<longrightarrow> is_private_ip a \<or> is_cn_ip env a)
      \<and> (\<forall>x\<in>set asked. tcp_domain env mp ip bs = Some x
           \<and> \<not> is_known_non_cn_domain x \<and> \<not> is_lan_or_router_domain x)"
    and "udp_flow_relay re_match env rs mp key rt = ((plan, asked), rt') \<Longrightarrow> fk_dst key = ip \<Longrightarrow>
      (\<forall>a. plan = Dial a \<longrightarrow> is_private_ip a \<or> is_cn_ip env a)
      \<and> (\<forall>x\<in>set asked. fake_ip_reverse ip mp = Some x
           \<and> \<not> is_known_non_cn_domain x \<and> \<not> is_lan_or_router_domain x)"
proof -
  show "(\<forall>a. plan = Dial a \<longrightarrow> is_private_ip a \<or> is_cn_ip env a)
      \<and> (\<forall>x\<in>set asked. tcp_domain env mp ip bs = Some x
           \<and> \<not> is_known_non_cn_domain x \<and> \<not> is_lan_or_router_domain x)"
    if "relay_tcp re_match env rs mp (ip, port) bs rt = ((plan, asked), rt')"
    using that direct_confident [of re_match env rt' rs mp ip "tcp_domain env mp ip bs" _ plan asked] assms
    by (auto simp: relay_tcp_def Let_def split: prod.splits if_splits)
  show "(\<forall>a. plan = Dial a \<longrightarrow> is_private_ip a \<or> is_cn_ip env a)
      \<and> (\<forall>x\<in>set asked. fake_ip_reverse ip mp = Some x
           \<and> \<not> is_known_non_cn_domain x \<and> \<not> is_lan_or_router_domain x)"
    if "udp_flow_relay re_match env rs mp key rt = ((plan, asked), rt')" "fk_dst key = ip"
    using that direct_confident [of re_match env rt' rs mp ip "fake_ip_reverse ip mp" _ plan asked] assms
    by (auto simp: udp_flow_relay_def udp_direct_as_tcp Let_def split: prod.splits if_splits)
qed

text \<open>C7. A flow to a fake address never leaves the device outside the tunnel except to a
private or a Chinese address, whatever the caches and resolvers answer, for TCP and UDP
alike; and the only name such a flow can disclose to the domestic resolvers is its own,
when it is neither a known foreign service nor a LAN name.\<close>
theorem fake_flow_confined:
  assumes "engine_is_fake_ip ip mp"
  shows "(relay_tcp re_match env rs mp (ip, port) bs rt = ((plan, asked), rt') \<longrightarrow>
        (\<forall>a. plan = Dial a \<longrightarrow> is_private_ip a \<or> is_cn_ip env a)
        \<and> (\<forall>x\<in>set asked. tcp_domain env mp ip bs = Some x
             \<and> \<not> is_known_non_cn_domain x \<and> \<not> is_lan_or_router_domain x))
    \<and> (udp_flow_relay re_match env rs mp key rt = ((plan, asked), rt') \<and> fk_dst key = ip \<longrightarrow>
        (\<forall>a. plan = Dial a \<longrightarrow> is_private_ip a \<or> is_cn_ip env a)
        \<and> (\<forall>x\<in>set asked. fake_ip_reverse ip mp = Some x
             \<and> \<not> is_known_non_cn_domain x \<and> \<not> is_lan_or_router_domain x))"
  by (rule conjI; rule impI; (elim conjE)?;
      rule fake_flow_confined_parts(1) [OF assms] fake_flow_confined_parts(2) [OF assms]; assumption)

lemma router_ip_private: "default_router_ip_for_domain d = Some a \<Longrightarrow> is_private_ip a"
proof -
  have all: "list_all (\<lambda>e. is_private_ip (V4 (snd e))) router_ip_table" by code_simp
  assume "default_router_ip_for_domain d = Some a"
  then obtain e where "find (\<lambda>(roots, _). list_ex (\<lambda>r. under_root r (norm_domain d)) roots) router_ip_table = Some e"
      "a = V4 (snd e)" by (auto simp: default_router_ip_for_domain_def Let_def)
  then have "e \<in> set router_ip_table" by (metis find_Some_iff nth_mem)
  with all \<open>a = V4 (snd e)\<close> show ?thesis by (simp only: list_all_iff)
qed

lemma lan_direct_local:
  assumes "is_lan_or_router_domain d" "engine_is_fake_ip ip mp" "rs_cached rs d = None"
    and "relay_direct re_match env rt rs mp ip (Some d) src = (plan, asked)"
  shows "asked = [] \<and> ((\<exists>a. plan = Dial a \<and> is_private_ip a) \<or> plan = Reject)"
  using assms router_ip_private
  by (auto simp: relay_direct_def resolve_direct_target_def confidence_gate_def Let_def
      split: option.splits if_splits)

lemma lan_route:
  assumes "fl_domain f = Some d" "is_lan_or_router_domain d" "fl_ip f \<noteq> Some local_dns_vip"
  shows "\<exists>nm. route_decision_sourced re_match env f rt = ((Direct, Lan, nm), rt)"
  using assms by (auto simp: route_decision_sourced_def lan_decision_def on_some_def)

lemma lan_flow_stays_local_parts:
  assumes "fake_ip_reverse ip mp = Some d" and "is_lan_or_router_domain d"
    and "engine_is_fake_ip ip mp" and "rs_cached rs d = None" and "ip \<noteq> local_dns_vip"
  shows "\<exists>plan. fst (relay_tcp re_match env rs mp (ip, port) bs rt) = (plan, [])
      \<and> ((\<exists>a. plan = Dial a \<and> is_private_ip a) \<or> plan = Reject)"
    and "fk_dst key = ip \<Longrightarrow> \<exists>plan. fst (udp_flow_relay re_match env rs mp key rt) = (plan, [])
      \<and> ((\<exists>a. plan = Dial a \<and> is_private_ip a) \<or> plan = Reject)"
proof -
  have t: "tcp_domain env mp ip bs = Some d" by (simp add: tcp_domain_def assms(1))
  obtain plan asked where p: "relay_direct re_match env rt rs mp ip (Some d) Lan = (plan, asked)"
    by fastforce
  note l = lan_direct_local [OF assms(2-4) p]
  show "\<exists>plan. fst (relay_tcp re_match env rs mp (ip, port) bs rt) = (plan, [])
      \<and> ((\<exists>a. plan = Dial a \<and> is_private_ip a) \<or> plan = Reject)"
    using lan_route [of "\<lparr>fl_domain = Some d, fl_ip = Some ip, fl_port = Some (unat port),
        fl_protocol = Some ''tcp''\<rparr>" d re_match env rt] assms(2,5) l p
    by (auto simp: relay_tcp_def t)
  show "\<exists>plan. fst (udp_flow_relay re_match env rs mp key rt) = (plan, [])
      \<and> ((\<exists>a. plan = Dial a \<and> is_private_ip a) \<or> plan = Reject)" if "fk_dst key = ip"
    using lan_route [of "\<lparr>fl_domain = Some d, fl_ip = Some ip, fl_port = Some (unat (fk_dst_port key)),
        fl_protocol = Some ''udp''\<rparr>" d re_match env rt] assms(2,5) l p that
    by (auto simp: udp_flow_relay_def udp_direct_as_tcp assms(1))
qed

text \<open>A LAN name never leaves the local network: a TCP or UDP flow to the fake address
of a LAN or router name that has no cached answer is dialled at a private address or
closed, in every mode and under every rule set; it is never tunnelled and nothing is
asked at the domestic resolvers.\<close>
theorem lan_flow_stays_local:
  assumes "fake_ip_reverse ip mp = Some d" and "is_lan_or_router_domain d"
    and "engine_is_fake_ip ip mp" and "rs_cached rs d = None" and "ip \<noteq> local_dns_vip"
  shows "(\<exists>plan. fst (relay_tcp re_match env rs mp (ip, port) bs rt) = (plan, [])
        \<and> ((\<exists>a. plan = Dial a \<and> is_private_ip a) \<or> plan = Reject))
    \<and> (fk_dst key = ip \<longrightarrow> (\<exists>plan. fst (udp_flow_relay re_match env rs mp key rt) = (plan, [])
        \<and> ((\<exists>a. plan = Dial a \<and> is_private_ip a) \<or> plan = Reject)))"
  using lan_flow_stays_local_parts [OF assms] by blast

lemma rebinding_plan:
  assumes "fake_ip_reverse ip mp = Some d" and "engine_is_fake_ip ip mp"
    and "\<not> is_lan_or_router_domain d" and "\<not> is_known_non_cn_domain d"
    and "norm_domain d = d" and "ends_with ''.cn'' d"
    and "\<not> is_private_ip ip" and "ip \<noteq> local_dns_vip"
    and "rt_mode rt = 0" and "rt_rules rt = []"
    and "rs_cached rs d = None" and "rs_upstream rs d = Some w" and "is_private_ip (V4 w)"
  shows "fst (relay_tcp re_match env rs mp (ip, port) bs rt) = (Dial (V4 w), [d])"
proof -
  have t: "tcp_domain env mp ip bs = Some d" by (simp add: tcp_domain_def assms(1))
  have c: "is_cn_domain re_match env d"
    using assms(4-6) by (simp add: is_cn_domain_def cn_listed_def)
  have u: "may_query_upstream re_match env rt d CnDomain"
    using assms(3-6) assms(9)
    by (simp add: may_query_upstream_def should_resolve_upstream_def Let_def)
  have r: "route_decision_sourced re_match env \<lparr>fl_domain = Some d, fl_ip = Some ip,
      fl_port = Some (unat port), fl_protocol = Some ''tcp''\<rparr> rt
      = ((Direct, CnDomain, ''CN Domain (Direct)''), rt)"
    using assms(3,7-10) c
    by (simp add: route_decision_sourced_def lan_decision_def fallback_decision_def on_some_def)
  show ?thesis
    using assms(2,3,11-13) u
    by (simp add: relay_tcp_def t r relay_direct_def resolve_direct_target_def confidence_gate_def)
qed

text \<open>DNS rebinding passes the gate: a flow to a public Chinese name is dialled straight
at whatever private address the upstream resolvers return for it, because the gate
accepts private addresses without asking where they come from.\<close>
theorem rebinding_dials_lan:
  assumes "fake_ip_reverse ip mp = Some d" and "engine_is_fake_ip ip mp"
    and "\<not> is_lan_or_router_domain d" and "\<not> is_known_non_cn_domain d"
    and "norm_domain d = d" and "ends_with ''.cn'' d"
    and "\<not> is_private_ip ip" and "ip \<noteq> local_dns_vip"
    and "rt_mode rt = 0" and "rt_rules rt = []"
    and "rs_cached rs d = None" and "rs_upstream rs d = Some w" and "is_private_ip (V4 w)"
  shows "fst (relay_tcp re_match env rs mp (ip, port) bs rt) = (Dial (V4 w), [d])"
  by (rule rebinding_plan [OF assms])

definition demo_flow_mapper :: fake_ip_mapper where
  "demo_flow_mapper = (empty_mapper 0xC6120000 16 None)
     \<lparr>ip_to_domain := [0xC6120002 \<mapsto> ''home.lan'', 0xC6120003 \<mapsto> ''evil.cn'']\<rparr>"

definition demo_resolvers :: "u32 \<Rightarrow> resolvers" where
  "demo_resolvers w = \<lparr>rs_cached = (\<lambda>_. None), rs_system = (\<lambda>_. Some (V4 w)), rs_upstream = (\<lambda>_. Some w)\<rparr>"

lemma demo_mapper_fake:
  "engine_is_fake_ip (V4 0xC6120002) demo_flow_mapper" "engine_is_fake_ip (V4 0xC6120003) demo_flow_mapper"
  "fake_ip_reverse (V4 0xC6120002) demo_flow_mapper = Some ''home.lan''"
  "fake_ip_reverse (V4 0xC6120003) demo_flow_mapper = Some ''evil.cn''"
  by code_simp+

lemma demo_mapper_names:
  "is_lan_or_router_domain ''home.lan''" "\<not> is_lan_or_router_domain ''evil.cn''"
  "\<not> is_known_non_cn_domain ''evil.cn''" "norm_domain ''evil.cn'' = ''evil.cn''" "ends_with ''.cn'' ''evil.cn''"
  by code_simp+

lemma demo_mapper_addresses:
  "V4 0xC6120002 \<noteq> local_dns_vip" "V4 0xC6120003 \<noteq> local_dns_vip" "\<not> is_private_ip (V4 0xC6120003)"
  by code_simp+

theorem lan_flow_stays_local_witness:
  "\<exists>plan. fst (relay_tcp no_re demo_env (demo_resolvers 0x08080808) demo_flow_mapper (V4 0xC6120002, 80) []
      (router_init\<lparr>rt_mode := 1\<rparr>)) = (plan, []) \<and> ((\<exists>a. plan = Dial a \<and> is_private_ip a) \<or> plan = Reject)"
  by (rule lan_flow_stays_local [OF demo_mapper_fake(3) demo_mapper_names(1) demo_mapper_fake(1) _
        demo_mapper_addresses(1), THEN conjunct1]) (simp add: demo_resolvers_def)

lemma demo_rebinding:
  "fst (relay_tcp no_re demo_env (demo_resolvers 0xC0A80101) demo_flow_mapper (V4 0xC6120003, 80) []
      router_init) = (Dial (V4 0xC0A80101), [''evil.cn''])"
  by (rule rebinding_plan [OF demo_mapper_fake(4,2) demo_mapper_names(2-5)
        demo_mapper_addresses(3,2)])
    (simp_all add: demo_resolvers_def router_init_def demo_addresses)

theorem rebinding_dials_lan_witness:
  "fst (relay_tcp no_re demo_env (demo_resolvers 0xC0A80101) demo_flow_mapper (V4 0xC6120003, 80) []
      router_init) = (Dial (V4 0xC0A80101), [''evil.cn''])"
  by (rule rebinding_dials_lan [OF demo_mapper_fake(4,2) demo_mapper_names(2-5)
        demo_mapper_addresses(3,2)])
    (simp_all add: demo_resolvers_def router_init_def demo_addresses)

theorem fake_flow_confined_witness:
  "is_private_ip (V4 0xC0A80101) \<or> is_cn_ip demo_env (V4 0xC0A80101)"
proof -
  have "engine_is_fake_ip (V4 0xC6120003) demo_flow_mapper" by (rule demo_mapper_fake)
  moreover obtain rt' where "relay_tcp no_re demo_env (demo_resolvers 0xC0A80101) demo_flow_mapper
      (V4 0xC6120003, 80) [] router_init = ((Dial (V4 0xC0A80101), [''evil.cn'']), rt')"
    using demo_rebinding by (metis prod.collapse)
  ultimately show ?thesis using fake_flow_confined by blast
qed


subsection \<open>The UDP engine\<close>

type_synonym datagram = "sock_addr \<times> sock_addr \<times> bytes"

record 'r udp_state =
  us_flows :: "(flow_key, datagram list) map"
  us_count :: nat
  us_router :: "'r router"
  us_tun :: "bytes list"

definition max_flows :: nat where "max_flows = 128"
definition flow_queue :: nat where "flow_queue = 256"

definition key_of :: "sock_addr \<Rightarrow> sock_addr \<Rightarrow> flow_key" where
  "key_of src dst = \<lparr>fk_src = fst src, fk_src_port = snd src, fk_dst = fst dst, fk_dst_port = snd dst\<rparr>"

definition icmp_reply :: "bytes \<Rightarrow> bytes list \<Rightarrow> bytes list" where
  "icmp_reply raw tun = (case build_icmp_port_unreachable raw of None \<Rightarrow> tun | Some p \<Rightarrow> tun @ [p])"

text \<open>\<open>try_send\<close> on a bounded channel: a full queue drops the datagram.\<close>

definition try_send :: "datagram \<Rightarrow> datagram list \<Rightarrow> datagram list" where
  "try_send dg q = (if length q < flow_queue then q @ [dg] else q)"

definition feed ::
    "('r \<Rightarrow> string \<Rightarrow> bool) \<Rightarrow> 'r router_env \<Rightarrow> fake_ip_mapper \<Rightarrow> bool \<Rightarrow> datagram \<Rightarrow> bytes
     \<Rightarrow> 'r udp_state \<Rightarrow> 'r udp_state" where
  "feed re_match env mp block_quic dg raw s =
     (case dg of (src, dst, payload) \<Rightarrow>
        let fl = \<lparr>fl_domain = fake_ip_reverse (fst dst) mp, fl_ip = Some (fst dst), fl_port = None,
                  fl_protocol = None\<rparr>;
            (d1, rt1) = route_decision_sourced re_match env fl (us_router s)
        in if fst d1 = Block then s\<lparr>us_router := rt1, us_tun := icmp_reply raw (us_tun s)\<rparr>
           else
             let quic = (snd dst = 443 \<and> block_quic);
                 (d2, rt2) = (if quic then route_decision_sourced re_match env fl rt1 else (d1, rt1))
             in if quic \<and> fst d2 \<noteq> Direct
                then s\<lparr>us_router := rt2, us_tun := icmp_reply raw (us_tun s)\<rparr>
                else
                  let key = key_of src dst;
                      s1 = s\<lparr>us_router := rt2, us_count := card (dom (us_flows s))\<rparr>
                  in case us_flows s key of
                       Some q \<Rightarrow> s1\<lparr>us_flows := (us_flows s)(key \<mapsto> try_send dg q)\<rparr>
                     | None \<Rightarrow>
                         if max_flows \<le> card (dom (us_flows s)) then s1
                         else s1\<lparr>us_flows := (us_flows s)(key \<mapsto> try_send dg [])\<rparr>)"

text \<open>The flow's relay takes the next datagram, or ends and removes its flow.\<close>

definition relay_recv :: "flow_key \<Rightarrow> 'r udp_state \<Rightarrow> 'r udp_state" where
  "relay_recv key s =
     (case us_flows s key of
        Some (dg # q) \<Rightarrow> s\<lparr>us_flows := (us_flows s)(key \<mapsto> q)\<rparr>
      | _ \<Rightarrow> s)"

definition remove_flow :: "flow_key \<Rightarrow> 'r udp_state \<Rightarrow> 'r udp_state" where
  "remove_flow key s =
     (let flows = (us_flows s)(key := None)
      in s\<lparr>us_flows := flows, us_count := card (dom flows)\<rparr>)"

datatype udp_op = Feed bool datagram bytes | RelayRecv flow_key | RemoveFlow flow_key

fun udp_step ::
    "('r \<Rightarrow> string \<Rightarrow> bool) \<Rightarrow> 'r router_env \<Rightarrow> fake_ip_mapper \<Rightarrow> udp_op \<Rightarrow> 'r udp_state \<Rightarrow> 'r udp_state" where
  "udp_step re_match env mp (Feed bq dg raw) s = feed re_match env mp bq dg raw s"
| "udp_step re_match env mp (RelayRecv key) s = relay_recv key s"
| "udp_step re_match env mp (RemoveFlow key) s = remove_flow key s"

definition udp_inv :: "'r udp_state \<Rightarrow> bool" where
  "udp_inv s \<longleftrightarrow> finite (dom (us_flows s)) \<and> card (dom (us_flows s)) \<le> max_flows
     \<and> (\<forall>key q. us_flows s key = Some q \<longrightarrow>
          length q \<le> flow_queue \<and> (\<forall>dg\<in>set q. key_of (fst dg) (fst (snd dg)) = key))"

definition udp_init :: "'r udp_state" where
  "udp_init = \<lparr>us_flows = Map.empty, us_count = 0, us_router = router_init, us_tun = []\<rparr>"

text \<open>Counting a rule hit does not change later decisions.\<close>

lemma decision_stable:
  assumes "route_decision_sourced re_match env f rt = (d, rt1)"
  shows "fst (route_decision_sourced re_match env f rt1) = d"
proof -
  have "rt_rules rt1 = rt_rules rt \<and> rt_mode rt1 = rt_mode rt \<and> rt_default_action rt1 = rt_default_action rt"
    using assms
    by (auto simp: route_decision_sourced_def record_rule_hit_def Let_def split: option.splits if_splits)
  with assms show ?thesis
    by (auto simp: route_decision_sourced_def split: option.splits if_splits)
qed

lemma try_send_ok:
  "length q \<le> flow_queue \<Longrightarrow> length (try_send dg q) \<le> flow_queue"
  "set (try_send dg q) \<subseteq> insert dg (set q)"
  by (auto simp: try_send_def flow_queue_def)

lemma udp_inv_enqueue:
  assumes "udp_inv s" and "key = key_of (fst dg) (fst (snd dg))"
    and "q = [] \<and> us_flows s key = None \<and> card (dom (us_flows s)) < max_flows \<or> us_flows s key = Some q"
    and "us_flows s' = (us_flows s)(key \<mapsto> try_send dg q)"
  shows "udp_inv s'"
proof -
  have fin: "finite (dom (us_flows s))" using assms(1) by (simp add: udp_inv_def)
  have "card (dom (us_flows s')) \<le> max_flows"
    using assms(1,3,4) fin by (auto simp: udp_inv_def card_insert_if domIff)
  moreover have "length q \<le> flow_queue \<and> (\<forall>d\<in>set q. key_of (fst d) (fst (snd d)) = key)"
    using assms(1,3) by (auto simp: udp_inv_def)
  ultimately show ?thesis
    using assms(1,2,4) fin try_send_ok(1) [of q dg] try_send_ok(2) [of dg q] by (fastforce simp: udp_inv_def split: if_splits)
qed

lemma udp_inv_flows: "udp_inv s \<Longrightarrow> us_flows s' = us_flows s \<Longrightarrow> udp_inv s'"
  by (simp add: udp_inv_def)

lemma feed_flows:
  assumes "dg = (src, dst, p)" and "key = key_of src dst"
  shows "us_flows (feed re_match env mp bq dg raw s) = us_flows s
    \<or> (\<exists>q. (q = [] \<and> us_flows s key = None \<and> card (dom (us_flows s)) < max_flows
              \<or> us_flows s key = Some q)
           \<and> us_flows (feed re_match env mp bq dg raw s) = (us_flows s)(key \<mapsto> try_send dg q))"
  by (cases "us_flows s key")
    (simp_all add: feed_def assms Let_def not_le case_prod_beta)

lemma feed_inv: "udp_inv s \<Longrightarrow> udp_inv (feed re_match env mp bq dg raw s)"
proof -
  assume i: "udp_inv s"
  obtain src dst p where dg: "dg = (src, dst, p)" by (cases dg)
  consider "us_flows (feed re_match env mp bq dg raw s) = us_flows s"
    | q where "q = [] \<and> us_flows s (key_of src dst) = None \<and> card (dom (us_flows s)) < max_flows
              \<or> us_flows s (key_of src dst) = Some q"
        "us_flows (feed re_match env mp bq dg raw s) = (us_flows s)(key_of src dst \<mapsto> try_send dg q)"
    using feed_flows [OF dg refl, of re_match env mp bq raw s] by blast
  then show ?thesis
  proof cases
    case 1
    then show ?thesis by (rule udp_inv_flows [OF i])
  next
    case 2
    then show ?thesis by (intro udp_inv_enqueue [OF i]) (simp_all add: dg)
  qed
qed

lemma udp_step_inv: "udp_inv s \<Longrightarrow> udp_inv (udp_step re_match env mp op s)"
proof (cases op)
  case (RelayRecv key)
  assume i: "udp_inv s"
  show ?thesis
  proof (cases "us_flows s key")
    case (Some q)
    show ?thesis
    proof (cases q)
      case (Cons dg q')
      have "dom ((us_flows s)(key \<mapsto> q')) = dom (us_flows s)" using Some by auto
      moreover have "length q \<le> flow_queue \<and> (\<forall>d\<in>set q. key_of (fst d) (fst (snd d)) = key)"
        using i Some unfolding udp_inv_def by blast
      ultimately show ?thesis
        using i Some Cons RelayRecv by (simp add: relay_recv_def udp_inv_def)
    qed (use i Some RelayRecv in \<open>simp add: relay_recv_def\<close>)
  qed (use i RelayRecv in \<open>simp add: relay_recv_def\<close>)
next
  case (RemoveFlow key)
  assume i: "udp_inv s"
  have "card (dom (us_flows s) - {key}) \<le> card (dom (us_flows s))"
    using i by (intro card_mono) (auto simp: udp_inv_def)
  then show ?thesis using i RemoveFlow by (auto simp: remove_flow_def udp_inv_def Let_def)
qed (simp add: feed_inv)

interpretation udp_engine: invariant_machine "udp_step re_match env mp" udp_inv for re_match env mp
  by unfold_locales (rule udp_step_inv)

lemma udp_init_inv: "udp_inv udp_init"
  by (simp add: udp_inv_def udp_init_def)

lemma udp_engine_admission_parts:
  fixes re_match :: "'r \<Rightarrow> string \<Rightarrow> bool"
  shows "us_flows (fold (udp_step re_match env mp) ops udp_init) key = Some q \<Longrightarrow>
      card (dom (us_flows (fold (udp_step re_match env mp) ops udp_init))) \<le> 128 \<and> length q \<le> 256
      \<and> (\<forall>dg\<in>set q. key_of (fst dg) (fst (snd dg)) = key)"
    and "route_decision re_match env \<lparr>fl_domain = fake_ip_reverse (fst dst) mp, fl_ip = Some (fst dst),
        fl_port = None, fl_protocol = None\<rparr> (us_router s) = act \<Longrightarrow>
      act = Block \<or> act = Proxy \<and> snd dst = 443 \<and> block_quic \<Longrightarrow>
      us_flows (feed re_match env mp block_quic (src, dst, p) raw s) = us_flows s
      \<and> us_tun (feed re_match env mp block_quic (src, dst, p) raw s) = icmp_reply raw (us_tun s)"
proof -
  show "card (dom (us_flows (fold (udp_step re_match env mp) ops udp_init))) \<le> 128 \<and> length q \<le> 256
      \<and> (\<forall>dg\<in>set q. key_of (fst dg) (fst (snd dg)) = key)"
    if "us_flows (fold (udp_step re_match env mp) ops udp_init) key = Some q"
    using udp_engine.run_inv [OF udp_init_inv, of re_match env mp ops] that
    unfolding udp_inv_def max_flows_def flow_queue_def by blast
  let ?f = "\<lparr>fl_domain = fake_ip_reverse (fst dst) mp, fl_ip = Some (fst dst), fl_port = None,
      fl_protocol = None\<rparr>"
  show "us_flows (feed re_match env mp block_quic (src, dst, p) raw s) = us_flows s
      \<and> us_tun (feed re_match env mp block_quic (src, dst, p) raw s) = icmp_reply raw (us_tun s)"
    if a: "route_decision re_match env ?f (us_router s) = act"
      and c: "act = Block \<or> act = Proxy \<and> snd dst = 443 \<and> block_quic"
  proof -
    obtain d1 rt1 where r1: "route_decision_sourced re_match env ?f (us_router s) = (d1, rt1)" by fastforce
    have d1: "fst d1 = act" using a by (simp add: route_decision_def r1)
    have again: "fst (fst (route_decision_sourced re_match env ?f rt1)) = act"
      using decision_stable [OF r1] d1 by simp
    show ?thesis
      using c d1 again r1
      by (cases "route_decision_sourced re_match env ?f rt1") (auto simp: feed_def Let_def)
  qed
qed


text \<open>C9. The UDP engine holds at most 128 flows of at most 256 queued datagrams, each in
the queue of its own flow, whatever is fed; and a datagram whose flow is blocked, or that
is QUIC to a flow that is not direct while QUIC is being refused, opens no flow and is
answered with an ICMP port-unreachable built from it.\<close>
theorem udp_engine_admission:
  fixes re_match :: "'r \<Rightarrow> string \<Rightarrow> bool"
  shows "(us_flows (fold (udp_step re_match env mp) ops udp_init) key = Some q \<longrightarrow>
        card (dom (us_flows (fold (udp_step re_match env mp) ops udp_init))) \<le> 128 \<and> length q \<le> 256
        \<and> (\<forall>dg\<in>set q. key_of (fst dg) (fst (snd dg)) = key))
    \<and> (route_decision re_match env \<lparr>fl_domain = fake_ip_reverse (fst dst) mp, fl_ip = Some (fst dst),
          fl_port = None, fl_protocol = None\<rparr> (us_router s) = act
       \<and> (act = Block \<or> act = Proxy \<and> snd dst = 443 \<and> block_quic) \<longrightarrow>
        us_flows (feed re_match env mp block_quic (src, dst, p) raw s) = us_flows s
        \<and> us_tun (feed re_match env mp block_quic (src, dst, p) raw s) = icmp_reply raw (us_tun s))"
  by (rule conjI; rule impI; (elim conjE)?;
      rule udp_engine_admission_parts(1) udp_engine_admission_parts(2); assumption)

theorem udp_engine_admission_witness:
  "us_flows (feed no_re demo_env demo_mapper False ((V4 0x0A630002, 4000), (local_dns_vip, 853), [1]) []
      udp_init) = Map.empty"
proof -
  have "fake_ip_reverse local_dns_vip demo_mapper = None"
    by (simp add: local_dns_vip_def lookup_domain_def demo_mapper_def empty_mapper_demo)
  then have "route_decision no_re demo_env \<lparr>fl_domain = fake_ip_reverse (fst (local_dns_vip, 853 :: u16)) demo_mapper,
      fl_ip = Some (fst (local_dns_vip, 853 :: u16)), fl_port = None, fl_protocol = None\<rparr> (us_router udp_init) = Block"
    by (simp add: route_decision_def route_decision_sourced_def lan_decision_def)
  with udp_engine_admission [THEN conjunct2, rule_format, OF conjI, of no_re demo_env
      "(local_dns_vip, 853)" demo_mapper udp_init Block False "(V4 0x0A630002, 4000)" "[1]" "[]"]
  show ?thesis by (simp add: udp_init_def)
qed

end
