(* ===== verification/Cipher.thy ===== *)
theory Cipher
  imports RustParse Prelude
begin

text \<open>\<open>crypto/cipher.rs\<close>: the AEAD algorithms and their wire bytes, the padding
scheme and its configuration string, and the negotiation frames. Which algorithm the
processor accelerates is read from the CPU and is an argument.\<close>

datatype cipher = ChaCha20Poly1305 | Aes256Gcm

definition to_wire :: "cipher \<Rightarrow> u8" where
  "to_wire c = (case c of ChaCha20Poly1305 \<Rightarrow> 1 | Aes256Gcm \<Rightarrow> 2)"

definition from_wire :: "u8 \<Rightarrow> cipher option" where
  "from_wire b = (if b = 1 then Some ChaCha20Poly1305 else if b = 2 then Some Aes256Gcm else None)"

definition hkdf_suffix :: "cipher \<Rightarrow> bytes" where
  "hkdf_suffix c =
     (case c of ChaCha20Poly1305 \<Rightarrow> [] | Aes256Gcm \<Rightarrow> bytes_of ''-aes256gcm'')"

text \<open>The target's feature tests are the arguments: AES rounds and carry-less products.\<close>

definition detect_best_cipher :: "bool \<Rightarrow> bool \<Rightarrow> cipher" where
  "detect_best_cipher has_aes has_clmul =
     (if has_aes \<and> has_clmul then Aes256Gcm else ChaCha20Poly1305)"

definition local_supports_aes :: "bool \<Rightarrow> bool \<Rightarrow> bool" where
  "local_supports_aes has_aes has_clmul \<longleftrightarrow> detect_best_cipher has_aes has_clmul = Aes256Gcm"

subsection \<open>Padding schemes\<close>

type_synonym pad_scheme = "(nat \<times> nat) list"

definition max_record_size :: nat where "max_record_size = 16384"

definition default_pad_scheme :: pad_scheme where
  "default_pad_scheme =
     [(64, 256), (256, 800), (100, 1400), (600, 1200), (128, 512), (900, 1400), (64, 700),
      (400, 1400)]"

definition set_padding_scheme :: "pad_scheme \<Rightarrow> pad_scheme" where
  "set_padding_scheme scheme = (if scheme = [] then default_pad_scheme else scheme)"

definition usize_max :: nat where "usize_max = 2 ^ 64 - 1"

text \<open>One range of the configuration string.\<close>

definition parse_range :: "string \<Rightarrow> (nat \<times> nat) option" where
  "parse_range part =
     (case split_once CHR ''-'' part of
        None \<Rightarrow> None
      | Some (lo, hi) \<Rightarrow>
          (case parse_radix 10 usize_max (trim lo) of
             None \<Rightarrow> None
           | Some lo \<Rightarrow>
               (case parse_radix 10 usize_max (trim hi) of
                  None \<Rightarrow> None
                | Some hi \<Rightarrow>
                    if lo < 1 \<or> hi < lo \<or> max_record_size < hi then None else Some (lo, hi))))"

fun parse_ranges :: "string list \<Rightarrow> pad_scheme option" where
  "parse_ranges [] = Some []"
| "parse_ranges (p # ps) =
     (case parse_range p of
        None \<Rightarrow> None
      | Some r \<Rightarrow> (case parse_ranges ps of None \<Rightarrow> None | Some rs \<Rightarrow> Some (r # rs)))"

definition parse_padding_scheme :: "string \<Rightarrow> pad_scheme option" where
  "parse_padding_scheme s =
     (case parse_ranges (filter (\<lambda>p. p \<noteq> []) (map trim (split_char CHR '';'' s))) of
        None \<Rightarrow> None
      | Some out \<Rightarrow> if out = [] then None else Some out)"

subsection \<open>Negotiation frames\<close>

definition cipher_nego_sentinel :: bytes where "cipher_nego_sentinel = [0xFF, 0xFF]"
definition cipher_ack_type :: u8 where "cipher_ack_type = 3"

definition build_cipher_nego :: "bool \<Rightarrow> bytes" where
  "build_cipher_nego client_supports_aes =
     cipher_nego_sentinel @ [if client_supports_aes then 1 else 0]"

definition parse_cipher_nego :: "bytes \<Rightarrow> bool option" where
  "parse_cipher_nego frame =
     (if length frame = 3 \<and> frame ! 0 = cipher_nego_sentinel ! 0
        \<and> frame ! 1 = cipher_nego_sentinel ! 1
      then Some (frame ! 2 \<noteq> 0) else None)"

definition negotiate :: "bool \<Rightarrow> bool \<Rightarrow> cipher" where
  "negotiate client_aes server_aes =
     (if client_aes \<and> server_aes then Aes256Gcm else ChaCha20Poly1305)"

definition build_cipher_ack :: "cipher \<Rightarrow> bytes" where
  "build_cipher_ack c = [cipher_ack_type, to_wire c]"

definition parse_cipher_ack :: "bytes \<Rightarrow> cipher option" where
  "parse_cipher_ack frame =
     (if length frame = 2 \<and> frame ! 0 = cipher_ack_type then from_wire (frame ! 1) else None)"

subsection \<open>Facts\<close>

lemma from_wire_to_wire [codec_simps]: "from_wire (to_wire c) = Some c"
  by (cases c) (simp_all add: from_wire_def to_wire_def)

lemma from_wire_Some: "from_wire b = Some c \<longleftrightarrow> b = to_wire c"
  by (cases c) (auto simp: from_wire_def to_wire_def)

lemma parse_build_cipher_nego [codec_simps]: "parse_cipher_nego (build_cipher_nego a) = Some a"
  by (simp add: parse_cipher_nego_def build_cipher_nego_def cipher_nego_sentinel_def)

lemma parse_build_cipher_ack [codec_simps]: "parse_cipher_ack (build_cipher_ack c) = Some c"
  by (simp add: parse_cipher_ack_def build_cipher_ack_def codec_simps)

lemma hkdf_suffix_inj: "hkdf_suffix c = hkdf_suffix d \<longleftrightarrow> c = d"
  by (cases c; cases d) (simp_all add: hkdf_suffix_def bytes_of_def)

text \<open>What the scheme parser promises to the record writer.\<close>

definition pad_scheme_ok :: "pad_scheme \<Rightarrow> bool" where
  "pad_scheme_ok scheme \<longleftrightarrow>
     list_all (\<lambda>(lo, hi). 1 \<le> lo \<and> lo \<le> hi \<and> hi \<le> max_record_size) scheme"

lemma parse_range_ok:
  "parse_range p = Some (lo, hi) \<Longrightarrow> 1 \<le> lo \<and> lo \<le> hi \<and> hi \<le> max_record_size"
  by (auto simp: parse_range_def split: option.splits prod.splits if_splits)

lemma parse_ranges_ok: "parse_ranges ps = Some rs \<Longrightarrow> pad_scheme_ok rs"
  by (induction ps arbitrary: rs)
    (auto simp: pad_scheme_ok_def split: option.splits dest!: parse_range_ok)

lemma default_pad_scheme_ok [simp]: "pad_scheme_ok default_pad_scheme"
  by (simp add: pad_scheme_ok_def default_pad_scheme_def max_record_size_def)

lemma parse_padding_scheme_ok: "parse_padding_scheme s = Some rs \<Longrightarrow> pad_scheme_ok rs \<and> rs \<noteq> []"
  by (auto simp: parse_padding_scheme_def parse_ranges_ok split: option.splits if_splits)

lemma set_padding_scheme_ok:
  "pad_scheme_ok scheme \<Longrightarrow> pad_scheme_ok (set_padding_scheme scheme) \<and> set_padding_scheme scheme \<noteq> []"
  by (simp add: set_padding_scheme_def) (simp add: default_pad_scheme_def)

lemma pad_scheme_ok_nth:
  "pad_scheme_ok scheme \<Longrightarrow> i < length scheme \<Longrightarrow> scheme ! i = (lo, hi)
     \<Longrightarrow> 1 \<le> lo \<and> lo \<le> hi \<and> hi \<le> max_record_size"
  by (auto simp: pad_scheme_ok_def list_all_length)

end
