(* ===== verification/TlsRecord.thy ===== *)
theory TlsRecord
  imports Cipher Complex_Main
begin

text \<open>\<open>crypto/aead.rs\<close>: the record layer of a tunnel. A writer cuts what it is given into
TLS 1.3 application-data records, the first ones shaped by the padding scheme, seals each
under a key and a counting nonce, and can be switched once to another algorithm; the reader
undoes it. HKDF-Expand, the AEAD and the random generator are third-party code: \<open>hkdf\<close>,
\<open>seal\<close>, \<open>opn\<close> and the two draws of \<open>rng_ops\<close>. The transport takes every byte it is given.\<close>

type_synonym aead_key = "cipher \<times> bytes"

definition tag_size :: nat where "tag_size = 16"

definition expand_key :: "(bytes \<Rightarrow> bytes \<Rightarrow> bytes) \<Rightarrow> bytes \<Rightarrow> bytes \<Rightarrow> cipher \<Rightarrow> aead_key" where
  "expand_key hkdf master info c = (c, hkdf master (info @ hkdf_suffix c))"

definition format_nonce :: "u64 \<Rightarrow> bytes" where
  "format_nonce n = [0, 0, 0, 0] @ be64 n"

datatype record_error =
    NonceExhausted
  | EncryptFailed
  | UnexpectedEof
  | BadMagic
  | RecordTooBig
  | DecryptFailed
  | EmptyPlaintext
  | PaddingOnly
  | CloseNotify
  | UnknownType u8

text \<open>The process-wide counters of \<open>monitor.rs\<close> that the record layer updates.\<close>

record traffic =
  tf_up :: u64
  tf_down :: u64
  tf_last_active :: u64

definition add_up :: "u64 \<Rightarrow> traffic \<Rightarrow> traffic" where
  "add_up n t = t\<lparr>tf_up := tf_up t + n\<rparr>"

definition add_down :: "u64 \<Rightarrow> traffic \<Rightarrow> traffic" where
  "add_down n t = t\<lparr>tf_down := tf_down t + n\<rparr>"

definition mark_tunnel_active :: "u64 \<Rightarrow> traffic \<Rightarrow> traffic" where
  "mark_tunnel_active now t = t\<lparr>tf_last_active := now\<rparr>"

record 'g rng_ops =
  rng_usize :: "nat \<Rightarrow> nat \<Rightarrow> 'g \<Rightarrow> nat \<times> 'g"
  rng_f64 :: "'g \<Rightarrow> rat \<times> 'g"

text \<open>\<open>cw_sealed\<close> is a history variable: the keys and nonces given to the AEAD, latest first.\<close>

record 'g crypto_writer =
  cw_out :: bytes
  cw_cipher :: aead_key
  cw_nonce :: u64
  cw_master :: bytes
  cw_kind :: cipher
  cw_initiator :: bool
  cw_rng :: 'g
  cw_padding :: bool
  cw_records_sent :: u32
  cw_scheme :: pad_scheme
  cw_traffic :: traffic
  cw_sealed :: "(aead_key \<times> u64) list"

record crypto_reader =
  cr_in :: bytes
  cr_cipher :: aead_key
  cr_nonce :: u64
  cr_master :: bytes
  cr_kind :: cipher
  cr_initiator :: bool
  cr_traffic :: traffic

definition c2s :: bytes where "c2s = bytes_of ''c2s''"
definition s2c :: bytes where "s2c = bytes_of ''s2c''"

subsection \<open>The writer\<close>

definition writer_new ::
    "(bytes \<Rightarrow> bytes \<Rightarrow> bytes) \<Rightarrow> bool \<Rightarrow> pad_scheme \<Rightarrow> 'g \<Rightarrow> traffic \<Rightarrow> bytes \<Rightarrow> bool \<Rightarrow> 'g crypto_writer" where
  "writer_new hkdf tls_padding padding_scheme g tf master is_initiator =
     (let info = (if is_initiator then c2s else s2c)
      in \<lparr>cw_out = [], cw_cipher = expand_key hkdf master info ChaCha20Poly1305, cw_nonce = 0,
         cw_master = master, cw_kind = ChaCha20Poly1305, cw_initiator = is_initiator, cw_rng = g,
         cw_padding = tls_padding, cw_records_sent = 0, cw_scheme = padding_scheme,
         cw_traffic = tf, cw_sealed = []\<rparr>)"

definition writer_rekey ::
    "(bytes \<Rightarrow> bytes \<Rightarrow> bytes) \<Rightarrow> cipher \<Rightarrow> 'g crypto_writer \<Rightarrow> 'g crypto_writer" where
  "writer_rekey hkdf c w =
     (if c = cw_kind w \<or> c = ChaCha20Poly1305 then w
      else let info = (if cw_initiator w then c2s else s2c)
           in w\<lparr>cw_cipher := expand_key hkdf (cw_master w) info c, cw_kind := c, cw_nonce := 0\<rparr>)"

text \<open>The plaintext of the next record: what it takes of the data, its type and its padding.
The constants of the size draw are the binary64 values 0.5 and 0.85.\<close>

definition bucket_limit :: "rat \<Rightarrow> nat" where
  "bucket_limit r =
     (if r \<le> 1 / 2 then 16384
      else if r \<le> 7656119366529843 / 9007199254740992 then 8192 else 4096)"

definition frame_plaintext ::
    "'g rng_ops \<Rightarrow> bytes \<Rightarrow> 'g crypto_writer \<Rightarrow> bytes \<times> bytes \<times> 'g crypto_writer" where
  "frame_plaintext rng data w =
     (let idx = unat (cw_records_sent w)
      in if cw_padding w \<and> idx < length (cw_scheme w) then
           case cw_scheme w ! idx of (lo, hi) \<Rightarrow>
           case rng_usize rng lo hi (cw_rng w) of (target, g) \<Rightarrow>
             let tk = min (target - 1) (length data);
                 buf = take tk data @ [0x17]
             in (if length buf < target then buf @ replicate (target - length buf) 0 else buf,
                 drop tk data, w\<lparr>cw_rng := g\<rparr>)
         else
           case rng_f64 rng (cw_rng w) of (r, g) \<Rightarrow>
             (take (bucket_limit r) data @ [0x17], drop (bucket_limit r) data, w\<lparr>cw_rng := g\<rparr>))"

definition record_header :: "nat \<Rightarrow> bytes" where
  "record_header n = [0x17, 0x03, 0x03] @ be16 (of_nat n)"

definition seal_record ::
    "(aead_key \<Rightarrow> bytes \<Rightarrow> bytes \<Rightarrow> bytes option) \<Rightarrow> bytes \<Rightarrow> 'g crypto_writer
     \<Rightarrow> (record_error, unit) result \<times> 'g crypto_writer" where
  "seal_record seal buffer w =
     (if cw_nonce w = - 1 then (Inl NonceExhausted, w)
      else
        let w1 = w\<lparr>cw_nonce := cw_nonce w + 1, cw_sealed := (cw_cipher w, cw_nonce w) # cw_sealed w\<rparr>
        in case seal (cw_cipher w) (format_nonce (cw_nonce w)) buffer of
             None \<Rightarrow> (Inl EncryptFailed, w1)
           | Some c \<Rightarrow> (Inr (), w1\<lparr>cw_out := cw_out w @ record_header (length c) @ c\<rparr>))"

lemma seal_record_Inr:
  assumes "seal_record seal buf w = (Inr u, w')"
  shows "cw_nonce w \<noteq> - 1"
    and "\<exists>c. seal (cw_cipher w) (format_nonce (cw_nonce w)) buf = Some c
      \<and> w' = w\<lparr>cw_nonce := cw_nonce w + 1, cw_sealed := (cw_cipher w, cw_nonce w) # cw_sealed w,
            cw_out := cw_out w @ record_header (length c) @ c\<rparr>"
  using assms by (auto simp: seal_record_def Let_def split: if_splits option.splits)

lemma frame_plaintext_nonce:
  "frame_plaintext rng data w = (buf, rest, w') \<Longrightarrow> cw_nonce w' = cw_nonce w"
  by (auto simp: frame_plaintext_def Let_def split: if_splits prod.splits)

function send_loop ::
    "(aead_key \<Rightarrow> bytes \<Rightarrow> bytes \<Rightarrow> bytes option) \<Rightarrow> 'g rng_ops \<Rightarrow> bytes \<Rightarrow> 'g crypto_writer
     \<Rightarrow> (record_error, unit) result \<times> 'g crypto_writer" where
  "send_loop seal rng data w =
     (if data = [] then (Inr (), w)
      else case frame_plaintext rng data w of (buf, rest, w1) \<Rightarrow>
        let w2 = w1\<lparr>cw_records_sent := saturating_succ (cw_records_sent w1)\<rparr>
        in case seal_record seal buf w2 of
             (Inl e, w3) \<Rightarrow> (Inl e, w3)
           | (Inr _, w3) \<Rightarrow> send_loop seal rng rest w3)"
  by pat_completeness auto
termination
proof (relation "measure (\<lambda>(_, _, _, w). 2 ^ 64 - unat (cw_nonce w))", goal_cases)
  case (2 seal rng data w buf y rest w1 w2 r w3 u)
  then have "cw_nonce w1 = cw_nonce w"
    by (simp add: frame_plaintext_nonce [of rng data w buf rest w1])
  moreover have "cw_nonce w1 \<noteq> - 1" and "cw_nonce w3 = cw_nonce w1 + 1"
    using 2 by (auto dest!: sym [of "(Inr (), w3)"] dest: seal_record_Inr)
  ultimately show ?case
    using unat_less_max [of "cw_nonce w"] by (simp add: unat_succ)
qed simp

declare send_loop.simps [simp del]

definition send_data ::
    "(aead_key \<Rightarrow> bytes \<Rightarrow> bytes \<Rightarrow> bytes option) \<Rightarrow> 'g rng_ops \<Rightarrow> bytes \<Rightarrow> 'g crypto_writer
     \<Rightarrow> (record_error, unit) result \<times> 'g crypto_writer" where
  "send_data seal rng plaintext w =
     (let n = of_nat (length plaintext);
          count = (if cw_initiator w then add_up n else add_down n)
      in send_loop seal rng plaintext (w\<lparr>cw_traffic := count (cw_traffic w)\<rparr>))"

definition send_close_notify ::
    "(aead_key \<Rightarrow> bytes \<Rightarrow> bytes \<Rightarrow> bytes option) \<Rightarrow> 'g crypto_writer
     \<Rightarrow> (record_error, unit) result \<times> 'g crypto_writer" where
  "send_close_notify seal w = seal_record seal [0x01, 0x00, 0x15] w"

subsection \<open>The reader\<close>

definition reader_new :: "(bytes \<Rightarrow> bytes \<Rightarrow> bytes) \<Rightarrow> traffic \<Rightarrow> bytes \<Rightarrow> bool \<Rightarrow> bytes \<Rightarrow> crypto_reader" where
  "reader_new hkdf tf master is_initiator incoming =
     (let info = (if is_initiator then s2c else c2s)
      in \<lparr>cr_in = incoming, cr_cipher = expand_key hkdf master info ChaCha20Poly1305, cr_nonce = 0,
         cr_master = master, cr_kind = ChaCha20Poly1305, cr_initiator = is_initiator,
         cr_traffic = tf\<rparr>)"

definition reader_rekey ::
    "(bytes \<Rightarrow> bytes \<Rightarrow> bytes) \<Rightarrow> cipher \<Rightarrow> crypto_reader \<Rightarrow> crypto_reader" where
  "reader_rekey hkdf c r =
     (if c = cr_kind r \<or> c = ChaCha20Poly1305 then r
      else let info = (if cr_initiator r then s2c else c2s)
           in r\<lparr>cr_cipher := expand_key hkdf (cr_master r) info c, cr_kind := c, cr_nonce := 0\<rparr>)"

text \<open>One record from the wire to its plaintext. \<open>cr_in\<close> is what the transport still
delivers before its end; \<open>read_exact\<close> past the end consumes what is left.\<close>

definition open_record ::
    "(aead_key \<Rightarrow> bytes \<Rightarrow> bytes \<Rightarrow> bytes option) \<Rightarrow> crypto_reader
     \<Rightarrow> (record_error, bytes) result \<times> crypto_reader" where
  "open_record opn r =
     (let header = take 5 (cr_in r); r1 = r\<lparr>cr_in := drop 5 (cr_in r)\<rparr>
      in if length header < 5 then (Inl UnexpectedEof, r1)
         else if header ! 0 \<noteq> 0x17 \<or> header ! 1 \<noteq> 0x03 \<or> header ! 2 \<noteq> 0x03 then (Inl BadMagic, r1)
         else
           let len = unat (of_be16 (header ! 3) (header ! 4))
           in if max_record_size + 1 + tag_size < len then (Inl RecordTooBig, r1)
              else
                let body = take len (cr_in r1); r2 = r1\<lparr>cr_in := drop len (cr_in r1)\<rparr>
                in if length body < len then (Inl UnexpectedEof, r2)
                   else if cr_nonce r2 = - 1 then (Inl NonceExhausted, r2)
                   else
                     let r3 = r2\<lparr>cr_nonce := cr_nonce r2 + 1\<rparr>
                     in case opn (cr_cipher r2) (format_nonce (cr_nonce r2)) body of
                          None \<Rightarrow> (Inl DecryptFailed, r3)
                        | Some pt \<Rightarrow> (Inr pt, r3))"

definition strip_zeros :: "bytes \<Rightarrow> bytes" where
  "strip_zeros pt = rev (dropWhile (\<lambda>b. b = 0) (rev pt))"

definition process_plaintext_mobile ::
    "u64 \<Rightarrow> bool \<Rightarrow> bytes \<Rightarrow> traffic \<Rightarrow> (record_error, nat option) result \<times> traffic" where
  "process_plaintext_mobile now is_initiator pt t =
     (if pt = [] then (Inl EmptyPlaintext, t)
      else
        let used = strip_zeros pt
        in if used = [] then (Inl PaddingOnly, t)
           else
             let inner_type = last used; content_len = length used - 1;
                 count = (if is_initiator then add_down else add_up) (of_nat content_len);
                 t1 = mark_tunnel_active now (count t)
             in (if inner_type = 0x17 then Inr (Some content_len)
                 else if inner_type = 0x15 then Inr None
                 else Inl (UnknownType inner_type), t1))"

definition process_plaintext ::
    "u64 \<Rightarrow> bool \<Rightarrow> bytes \<Rightarrow> traffic \<Rightarrow> (record_error, nat) result \<times> traffic" where
  "process_plaintext now is_initiator pt t =
     (case process_plaintext_mobile now is_initiator pt t of
        (Inl e, t1) \<Rightarrow> (Inl e, t1)
      | (Inr (Some n), t1) \<Rightarrow> (Inr n, t1)
      | (Inr None, t1) \<Rightarrow> (Inl CloseNotify, t1))"

definition recv_data ::
    "u64 \<Rightarrow> (aead_key \<Rightarrow> bytes \<Rightarrow> bytes \<Rightarrow> bytes option) \<Rightarrow> crypto_reader
     \<Rightarrow> (record_error, bytes) result \<times> crypto_reader" where
  "recv_data now opn r =
     (case open_record opn r of
        (Inl e, r1) \<Rightarrow> (Inl e, r1)
      | (Inr pt, r1) \<Rightarrow>
          (case process_plaintext now (cr_initiator r1) pt (cr_traffic r1) of
             (Inl e, t) \<Rightarrow> (Inl e, r1\<lparr>cr_traffic := t\<rparr>)
           | (Inr n, t) \<Rightarrow> (Inr (take n pt), r1\<lparr>cr_traffic := t\<rparr>)))"

text \<open>The relay's variant appends to \<open>sink\<close> and tells a regular close from an error.\<close>

definition recv_data_to ::
    "u64 \<Rightarrow> (aead_key \<Rightarrow> bytes \<Rightarrow> bytes \<Rightarrow> bytes option) \<Rightarrow> bytes \<Rightarrow> crypto_reader
     \<Rightarrow> (record_error, nat option) result \<times> bytes \<times> crypto_reader" where
  "recv_data_to now opn sink r =
     (case open_record opn r of
        (Inl e, r1) \<Rightarrow> (Inl e, sink, r1)
      | (Inr pt, r1) \<Rightarrow>
          (case process_plaintext_mobile now (cr_initiator r1) pt (cr_traffic r1) of
             (Inl e, t) \<Rightarrow> (Inl e, sink, r1\<lparr>cr_traffic := t\<rparr>)
           | (Inr (Some n), t) \<Rightarrow> (Inr (Some n), sink @ take n pt, r1\<lparr>cr_traffic := t\<rparr>)
           | (Inr None, t) \<Rightarrow> (Inr None, sink, r1\<lparr>cr_traffic := t\<rparr>)))"

subsection \<open>What the AEAD and the generator promise\<close>

definition aead_ok ::
    "(aead_key \<Rightarrow> bytes \<Rightarrow> bytes \<Rightarrow> bytes option) \<Rightarrow> (aead_key \<Rightarrow> bytes \<Rightarrow> bytes \<Rightarrow> bytes option) \<Rightarrow> bool" where
  "aead_ok seal opn \<longleftrightarrow>
     (\<forall>k n p. length p \<le> max_record_size + 1 \<longrightarrow>
        (\<exists>c. seal k n p = Some c \<and> length c = length p + tag_size \<and> opn k n c = Some p))"

definition rng_ok :: "'g rng_ops \<Rightarrow> bool" where
  "rng_ok rng \<longleftrightarrow>
     (\<forall>lo hi g. lo \<le> hi \<longrightarrow> lo \<le> fst (rng_usize rng lo hi g) \<and> fst (rng_usize rng lo hi g) \<le> hi)"

lemma aead_okE:
  assumes "aead_ok seal opn" "length p \<le> max_record_size + 1"
  obtains c where "seal k n p = Some c" "length c = length p + tag_size" "opn k n c = Some p"
  using assms unfolding aead_ok_def by blast

lemma rng_okD:
  "rng_ok rng \<Longrightarrow> lo \<le> hi \<Longrightarrow> rng_usize rng lo hi g = (target, g') \<Longrightarrow> lo \<le> target \<and> target \<le> hi"
  unfolding rng_ok_def by (metis fst_conv)

text \<open>The reader of the other end, ready for what the writer sends next.\<close>

definition in_sync :: "'g crypto_writer \<Rightarrow> crypto_reader \<Rightarrow> bool" where
  "in_sync w r \<longleftrightarrow> cr_cipher r = cw_cipher w \<and> cr_nonce r = cw_nonce w \<and> cr_kind r = cw_kind w
     \<and> cr_master r = cw_master w \<and> cr_initiator r = (\<not> cw_initiator w)"

lemma in_sync_new: "in_sync (writer_new hkdf pad scheme g tf master i) (reader_new hkdf tf' master (\<not> i) inp)"
  by (simp add: in_sync_def writer_new_def reader_new_def)

lemma in_sync_rekey: "in_sync w r \<Longrightarrow> in_sync (writer_rekey hkdf c w) (reader_rekey hkdf c r)"
  by (auto simp: in_sync_def writer_rekey_def reader_rekey_def Let_def)

subsection \<open>One record\<close>

lemma strip_zeros_type [simp]:
  "t \<noteq> 0 \<Longrightarrow> strip_zeros (chunk @ t # replicate z 0) = chunk @ [t]"
  by (simp add: strip_zeros_def dropWhile_append)

lemma frame_plaintext_spec:
  assumes "rng_ok rng" "pad_scheme_ok (cw_scheme w)"
    and "frame_plaintext rng data w = (buf, rest, w')"
  obtains chunk z g where "buf = chunk @ 0x17 # replicate z 0" "data = chunk @ rest"
    "length buf \<le> max_record_size + 1" "w' = w\<lparr>cw_rng := g\<rparr>"
proof (cases "cw_padding w \<and> unat (cw_records_sent w) < length (cw_scheme w)")
  case True
  obtain lo hi where lh: "cw_scheme w ! unat (cw_records_sent w) = (lo, hi)" by fastforce
  obtain target g where tg: "rng_usize rng lo hi (cw_rng w) = (target, g)" by fastforce
  have "1 \<le> lo" "lo \<le> hi" "hi \<le> max_record_size"
    using pad_scheme_ok_nth [OF assms(2) _ lh] True by auto
  moreover from this have "lo \<le> target" "target \<le> hi"
    using rng_okD [OF assms(1) _ tg] by auto
  ultimately have "target \<le> max_record_size" by simp
  with assms(3) True lh tg show ?thesis
    by (intro that [of "take (target - 1) data" "target - length (take (target - 1) data @ [0x17])" g])
      (auto simp: frame_plaintext_def Let_def min_def split: if_splits)
next
  case False
  obtain r g where rg: "rng_f64 rng (cw_rng w) = (r, g)" by fastforce
  have "bucket_limit r \<le> max_record_size" by (simp add: bucket_limit_def max_record_size_def)
  with assms(3) False rg show ?thesis
    by (intro that [of "take (bucket_limit r) data" 0 g])
      (auto simp: frame_plaintext_def Let_def)
qed

lemma open_sealed:
  assumes "aead_ok seal opn" "length buf \<le> max_record_size + 1"
    and "seal_record seal buf w = (Inr u, w')" "in_sync w r"
  obtains B where "cw_out w' = cw_out w @ B"
    "\<And>later. open_record opn (r\<lparr>cr_in := B @ later\<rparr>) = (Inr buf, r\<lparr>cr_in := later, cr_nonce := cw_nonce w'\<rparr>)"
    "\<And>later t. in_sync w' (r\<lparr>cr_in := later, cr_nonce := cw_nonce w', cr_traffic := t\<rparr>)"
proof -
  obtain c where c: "seal (cw_cipher w) (format_nonce (cw_nonce w)) buf = Some c"
      "length c = length buf + tag_size" "opn (cw_cipher w) (format_nonce (cw_nonce w)) c = Some buf"
    by (rule aead_okE [OF assms(1,2)])
  have n: "cw_nonce w \<noteq> - 1"
    and w': "w' = w\<lparr>cw_nonce := cw_nonce w + 1, cw_sealed := (cw_cipher w, cw_nonce w) # cw_sealed w,
            cw_out := cw_out w @ record_header (length c) @ c\<rparr>"
    using seal_record_Inr [OF assms(3)] c by auto
  have len: "length c \<le> max_record_size + 1 + tag_size"
    using c(2) assms(2) by simp
  then have "length c < 2 ^ 16" by (simp add: max_record_size_def tag_size_def)
  then have len16: "unat (of_nat (length c) :: u16) = length c"
    by (simp add: unat_of_nat)
  show ?thesis
  proof (rule that [of "record_header (length c) @ c"])
    show "open_record opn (r\<lparr>cr_in := (record_header (length c) @ c) @ later\<rparr>)
      = (Inr buf, r\<lparr>cr_in := later, cr_nonce := cw_nonce w'\<rparr>)" for later
      using assms(4) n c(3) len len16
      by (simp add: open_record_def record_header_def be16_def of_be16_be16 in_sync_def w' Let_def)
  qed (use assms(4) in \<open>simp_all add: w' in_sync_def\<close>)
qed

subsection \<open>Reading a stream of records\<close>

text \<open>The relay's loop: records are received until the bytes at hand run out.\<close>

lemma recv_data_consumes:
  "recv_data now opn r = (Inr d, r') \<Longrightarrow> length (cr_in r') < length (cr_in r)"
  by (auto simp: recv_data_def open_record_def Let_def split: prod.splits sum.splits if_splits option.splits)

function recv_all ::
    "u64 \<Rightarrow> (aead_key \<Rightarrow> bytes \<Rightarrow> bytes \<Rightarrow> bytes option) \<Rightarrow> crypto_reader
     \<Rightarrow> bytes list \<times> record_error option \<times> crypto_reader" where
  "recv_all now opn r =
     (if cr_in r = [] then ([], None, r)
      else case recv_data now opn r of
        (Inl e, r1) \<Rightarrow> ([], Some e, r1)
      | (Inr d, r1) \<Rightarrow> (case recv_all now opn r1 of (ds, e, r2) \<Rightarrow> (d # ds, e, r2)))"
  by pat_completeness auto
termination
  by (relation "measure (\<lambda>(_, _, r). length (cr_in r))")
    (auto dest!: recv_data_consumes sym [of "(Inr _, _)"])

declare recv_all.simps [simp del]

inductive reads ::
    "u64 \<Rightarrow> (aead_key \<Rightarrow> bytes \<Rightarrow> bytes \<Rightarrow> bytes option) \<Rightarrow> crypto_reader \<Rightarrow> bytes list \<Rightarrow> crypto_reader \<Rightarrow> bool"
  for now opn where
  reads_Nil: "reads now opn r [] r"
| reads_Cons: "recv_data now opn r = (Inr d, r1) \<Longrightarrow> reads now opn r1 ds r' \<Longrightarrow> reads now opn r (d # ds) r'"

inductive_simps reads_Nil_iff [simp]: "reads now opn r [] r'"
inductive_cases reads_ConsE: "reads now opn r (d # ds) r'"

lemma reads_append:
  "reads now opn r ds r1 \<Longrightarrow> reads now opn r1 es r2 \<Longrightarrow> reads now opn r (ds @ es) r2"
  by (induction rule: reads.induct) (auto intro: reads_Cons)

lemma recv_all_reads:
  "reads now opn r ds r' \<Longrightarrow> cr_in r' = [] \<Longrightarrow> recv_all now opn r = (ds, None, r')"
proof (induction rule: reads.induct)
  case (reads_Cons r d r1 ds r')
  from recv_data_consumes [OF reads_Cons.hyps(1)] have "cr_in r \<noteq> []" by auto
  with reads_Cons show ?case by (simp add: recv_all.simps [of _ _ r])
qed (simp add: recv_all.simps)

lemma recv_sealed:
  assumes "aead_ok seal opn" "length (chunk @ 0x17 # replicate z 0) \<le> max_record_size + 1"
    and "seal_record seal (chunk @ 0x17 # replicate z 0) w = (Inr u, w')" "in_sync w r"
  shows "\<exists>B. cw_out w' = cw_out w @ B \<and> (\<forall>later. \<exists>r'. in_sync w' r' \<and> cr_in r' = later
    \<and> recv_data now opn (r\<lparr>cr_in := B @ later\<rparr>) = (Inr chunk, r'))"
proof -
  obtain B where B: "cw_out w' = cw_out w @ B"
    "\<And>later. open_record opn (r\<lparr>cr_in := B @ later\<rparr>)
      = (Inr (chunk @ 0x17 # replicate z 0), r\<lparr>cr_in := later, cr_nonce := cw_nonce w'\<rparr>)"
    "\<And>later t. in_sync w' (r\<lparr>cr_in := later, cr_nonce := cw_nonce w', cr_traffic := t\<rparr>)"
    using open_sealed [OF assms] by metis
  show ?thesis
  proof (rule exI [of _ B], intro conjI allI)
    fix later
    show "\<exists>r'. in_sync w' r' \<and> cr_in r' = later
      \<and> recv_data now opn (r\<lparr>cr_in := B @ later\<rparr>) = (Inr chunk, r')"
      using B(3) by (simp add: recv_data_def B(2) process_plaintext_def
          process_plaintext_mobile_def Let_def)
  qed (fact B(1))
qed

lemma in_sync_cr_in [simp]: "in_sync w (r\<lparr>cr_in := b\<rparr>) = in_sync w r"
  by (simp add: in_sync_def)

lemma in_sync_fields [simp]:
  "in_sync (w\<lparr>cw_rng := g\<rparr>) r = in_sync w r"
  "in_sync (w\<lparr>cw_records_sent := n\<rparr>) r = in_sync w r"
  "in_sync (w\<lparr>cw_traffic := t\<rparr>) r = in_sync w r"
  by (simp_all add: in_sync_def)

lemma seal_record_scheme:
  "seal_record seal buf w = (x, w') \<Longrightarrow> cw_scheme w' = cw_scheme w \<and> cw_padding w' = cw_padding w
     \<and> cw_records_sent w' = cw_records_sent w"
  by (auto simp: seal_record_def Let_def split: if_splits option.splits)

lemma send_loop_step:
  assumes "data \<noteq> []" "frame_plaintext rng data w = (buf, rest, w1)"
  shows "send_loop seal rng data w =
    (case seal_record seal buf (w1\<lparr>cw_records_sent := saturating_succ (cw_records_sent w1)\<rparr>) of
       (Inl e, w3) \<Rightarrow> (Inl e, w3)
     | (Inr _, w3) \<Rightarrow> send_loop seal rng rest w3)"
  using assms by (simp add: send_loop.simps [of seal rng data w] Let_def)

lemma send_loop_induct [consumes 1, case_names Done Sealed Refused]:
  assumes "send_loop seal rng data w = (x, w')"
    and "\<And>w. P [] w (Inr ()) w"
    and "\<And>data w buf rest w1 w2 u w3 x w'. data \<noteq> [] \<Longrightarrow> frame_plaintext rng data w = (buf, rest, w1)
      \<Longrightarrow> w2 = w1\<lparr>cw_records_sent := saturating_succ (cw_records_sent w1)\<rparr>
      \<Longrightarrow> seal_record seal buf w2 = (Inr u, w3) \<Longrightarrow> P rest w3 x w' \<Longrightarrow> P data w x w'"
    and "\<And>data w buf rest w1 w2 e w'. data \<noteq> [] \<Longrightarrow> frame_plaintext rng data w = (buf, rest, w1)
      \<Longrightarrow> w2 = w1\<lparr>cw_records_sent := saturating_succ (cw_records_sent w1)\<rparr>
      \<Longrightarrow> seal_record seal buf w2 = (Inl e, w') \<Longrightarrow> P data w (Inl e) w'"
  shows "P data w x w'"
  using assms(1)
proof (induction "2 ^ 64 - unat (cw_nonce w)" arbitrary: data w rule: less_induct)
  case less
  show ?case
  proof (cases "data = []")
    case True
    with less.prems assms(2) show ?thesis by (simp add: send_loop.simps)
  next
    case False
    obtain buf rest w1 where fp: "frame_plaintext rng data w = (buf, rest, w1)"
      by (metis prod_cases3)
    define w2 where "w2 = w1\<lparr>cw_records_sent := saturating_succ (cw_records_sent w1)\<rparr>"
    obtain y w3 where y: "seal_record seal buf w2 = (y, w3)" by fastforce
    show ?thesis
    proof (cases y)
      case (Inl e)
      with y fp False less.prems have "x = Inl e" "w' = w3"
        by (simp_all add: send_loop_step [OF False fp] flip: w2_def)
      with assms(4) [OF False fp w2_def] y Inl show ?thesis by simp
    next
      case (Inr u)
      with y have n: "cw_nonce w2 \<noteq> - 1" "cw_nonce w3 = cw_nonce w2 + 1"
        by (auto dest: seal_record_Inr)
      have w: "cw_nonce w2 = cw_nonce w" using frame_plaintext_nonce [OF fp] by (simp add: w2_def)
      from n have "2 ^ 64 - unat (cw_nonce w3) < 2 ^ 64 - unat (cw_nonce w)"
        using unat_less_max [of "cw_nonce w"] unfolding w by (simp add: unat_succ)
      moreover have "send_loop seal rng rest w3 = (x, w')"
        using y fp False less.prems Inr by (simp add: send_loop_step [OF False fp] flip: w2_def)
      ultimately have "P rest w3 x w'" by (rule less.hyps)
      with assms(3) [OF False fp w2_def] y Inr show ?thesis by simp
    qed
  qed
qed

lemma send_loop_read:
  assumes "send_loop seal rng data w = (x, w')" "aead_ok seal opn" "rng_ok rng"
  shows "x = Inr () \<Longrightarrow> pad_scheme_ok (cw_scheme w) \<Longrightarrow> in_sync w r
    \<Longrightarrow> \<exists>B. cw_out w' = cw_out w @ B \<and> (\<forall>later. \<exists>ds r'. in_sync w' r' \<and> cr_in r' = later
      \<and> concat ds = data \<and> reads now opn (r\<lparr>cr_in := B @ later\<rparr>) ds r')"
  using assms(1)
proof (induction arbitrary: r rule: send_loop_induct)
  case (Done w)
  then show ?case by (auto intro: exI [of _ "[]"])
next
  case (Sealed data w buf rest w1 w2 u w3 x w')
  obtain chunk z g where fr: "buf = chunk @ 0x17 # replicate z 0" "data = chunk @ rest"
      "length buf \<le> max_record_size + 1" "w1 = w\<lparr>cw_rng := g\<rparr>"
    by (rule frame_plaintext_spec [OF assms(3) Sealed.prems(2) Sealed.hyps(2)])
  have "in_sync w2 r" using Sealed.prems(3) by (simp add: Sealed.hyps(3) fr(4))
  then obtain B where B: "cw_out w3 = cw_out w2 @ B"
      "\<And>later. \<exists>r'. in_sync w3 r' \<and> cr_in r' = later
        \<and> recv_data now opn (r\<lparr>cr_in := B @ later\<rparr>) = (Inr chunk, r')"
    using recv_sealed [OF assms(2)] fr(1,3) Sealed.hyps(4) by blast
  have sch: "pad_scheme_ok (cw_scheme w3)"
    using seal_record_scheme [OF Sealed.hyps(4)] Sealed.prems(2) by (simp add: Sealed.hyps(3) fr(4))
  obtain r0 where "in_sync w3 r0" using B(2) by blast
  from Sealed.IH [OF Sealed.prems(1) sch this] obtain C where "cw_out w' = cw_out w3 @ C" by blast
  show ?case
  proof (rule exI [of _ "B @ C"], intro conjI allI)
    show "cw_out w' = cw_out w @ B @ C"
      using B(1) \<open>cw_out w' = cw_out w3 @ C\<close> by (simp add: Sealed.hyps(3) fr(4))
    fix later
    obtain r1 where r1: "in_sync w3 r1" "cr_in r1 = C @ later"
        "recv_data now opn (r\<lparr>cr_in := B @ C @ later\<rparr>) = (Inr chunk, r1)"
      using B(2) by blast
    obtain C' where "cw_out w' = cw_out w3 @ C'"
        "\<forall>later. \<exists>ds r'. in_sync w' r' \<and> cr_in r' = later \<and> concat ds = rest
          \<and> reads now opn (r1\<lparr>cr_in := C' @ later\<rparr>) ds r'"
      using Sealed.IH [OF Sealed.prems(1) sch r1(1)] by blast
    moreover have "C' = C" using calculation(1) \<open>cw_out w' = cw_out w3 @ C\<close> by simp
    moreover have "r1\<lparr>cr_in := C @ later\<rparr> = r1" using r1(2) by simp
    ultimately obtain ds r' where "in_sync w' r'" "cr_in r' = later" "concat ds = rest" "reads now opn r1 ds r'"
      by metis
    then show "\<exists>ds r'. in_sync w' r' \<and> cr_in r' = later \<and> concat ds = data
        \<and> reads now opn (r\<lparr>cr_in := (B @ C) @ later\<rparr>) ds r'"
      using r1(3) fr(2) by (intro exI [of _ "chunk # ds"] exI [of _ r']) (auto intro: reads_Cons)
  qed
next
  case Refused
  then show ?case by simp
qed

end
