(* ===== verification/TlsSession.thy ===== *)
theory TlsSession
  imports TlsRecord
begin

text \<open>What the record layer promises to the tunnels over it: a send returns while nonces
last, the peer reads exactly the bytes that were sent, across the switch of algorithms, and
no key and nonce meet twice.\<close>

subsection \<open>Sends return\<close>

text \<open>The records a send may still need: the shaped ones left, and one per 4096 bytes.\<close>

definition pad_left :: "'g crypto_writer \<Rightarrow> nat" where
  "pad_left w = (if cw_padding w then length (cw_scheme w) - unat (cw_records_sent w) else 0)"

definition ceil_4k :: "nat \<Rightarrow> nat" where "ceil_4k n = (n + 4095) div 4096"

definition writer_ok :: "'g crypto_writer \<Rightarrow> bool" where
  "writer_ok w \<longleftrightarrow> pad_scheme_ok (cw_scheme w) \<and> length (cw_scheme w) < 2 ^ 32"

lemma ceil_4k_drop:
  "0 < n \<Longrightarrow> Suc (ceil_4k (n - bucket_limit r)) \<le> ceil_4k n"
proof -
  assume n: "0 < n"
  have "4096 \<le> bucket_limit r" by (simp add: bucket_limit_def)
  then have "ceil_4k (n - bucket_limit r) \<le> ceil_4k (n - 4096)"
    unfolding ceil_4k_def by (intro div_le_mono) simp
  also have "Suc \<dots> \<le> ceil_4k n"
  proof (cases "n \<le> 4096")
    case True
    with n show ?thesis unfolding ceil_4k_def by (simp add: Suc_le_eq div_greater_zero_iff)
  next
    case False
    then obtain m where "n = m + 4096" by (metis le_add_diff_inverse2 nat_le_linear)
    then show ?thesis by (simp add: ceil_4k_def)
  qed
  finally show ?thesis by simp
qed

lemma frame_plaintext_fields:
  assumes "frame_plaintext rng data w = (buf, rest, w1)"
  shows "\<exists>g. w1 = w\<lparr>cw_rng := g\<rparr>"
  using assms by (auto simp: frame_plaintext_def Let_def split: if_splits prod.splits)

lemma frame_plaintext_progress:
  assumes "frame_plaintext rng data w = (buf, rest, w1)" "data \<noteq> []" "length (cw_scheme w) < 2 ^ 32"
    and "w2 = w1\<lparr>cw_records_sent := saturating_succ (cw_records_sent w1)\<rparr>"
  shows "Suc (pad_left w2 + ceil_4k (length rest)) \<le> pad_left w + ceil_4k (length data)"
proof (cases "cw_padding w \<and> unat (cw_records_sent w) < length (cw_scheme w)")
  case True
  then have "cw_records_sent w \<noteq> - 1"
    using assms(3) by (auto simp: unat_max_word)
  moreover have "length rest \<le> length data"
    using assms(1) True by (auto simp: frame_plaintext_def Let_def split: prod.splits)
  then have "ceil_4k (length rest) \<le> ceil_4k (length data)"
    unfolding ceil_4k_def by (intro div_le_mono) simp
  ultimately show ?thesis
    using True frame_plaintext_fields [OF assms(1)]
    by (auto simp: pad_left_def assms(4) unat_saturating_succ)
next
  case False
  then have "pad_left w = 0" by (auto simp: pad_left_def)
  moreover have "pad_left w2 = 0"
    using False frame_plaintext_fields [OF assms(1)]
    by (auto simp: pad_left_def assms(4) unat_saturating_succ)
  moreover have "\<exists>r. length rest = length data - bucket_limit r"
    using assms(1) False by (auto simp: frame_plaintext_def Let_def split: prod.splits if_splits)
  then have "Suc (ceil_4k (length rest)) \<le> ceil_4k (length data)"
    using ceil_4k_drop [of "length data"] assms(2) by auto
  ultimately show ?thesis by simp
qed

lemma seal_record_returns:
  assumes "aead_ok seal opn" "length buf \<le> max_record_size + 1" "cw_nonce w \<noteq> - 1"
  shows "\<exists>w'. seal_record seal buf w = (Inr (), w')"
proof -
  obtain c where "seal (cw_cipher w) (format_nonce (cw_nonce w)) buf = Some c"
    by (rule aead_okE [OF assms(1,2)])
  with assms(3) show ?thesis by (simp add: seal_record_def)
qed

lemma send_loop_returns:
  assumes "send_loop seal rng data w = (x, w')" "aead_ok seal opn" "rng_ok rng"
  shows "writer_ok w \<Longrightarrow> unat (cw_nonce w) + pad_left w + ceil_4k (length data) < 2 ^ 64
    \<Longrightarrow> x = Inr () \<and> unat (cw_nonce w') + pad_left w' \<le> unat (cw_nonce w) + pad_left w + ceil_4k (length data)"
  using assms(1)
proof (induction rule: send_loop_induct)
  case (Sealed data w buf rest w1 w2 u w3 x w')
  note progress = frame_plaintext_progress [OF Sealed.hyps(2,1) _ Sealed.hyps(3)]
  have "length (cw_scheme w) < 2 ^ 32" using Sealed.prems(1) by (simp add: writer_ok_def)
  note progress = progress [OF this]
  have "pad_left w3 = pad_left w2" "writer_ok w3"
    using seal_record_scheme [OF Sealed.hyps(4)] frame_plaintext_fields [OF Sealed.hyps(2)] Sealed.prems(1)
    by (auto simp: pad_left_def writer_ok_def Sealed.hyps(3))
  moreover have "cw_nonce w \<noteq> - 1" "cw_nonce w3 = cw_nonce w + 1"
    using seal_record_Inr [OF Sealed.hyps(4)] frame_plaintext_fields [OF Sealed.hyps(2)]
    by (auto simp: Sealed.hyps(3))
  then have "unat (cw_nonce w3) = Suc (unat (cw_nonce w))" by (simp add: unat_succ)
  ultimately show ?case using Sealed.IH Sealed.prems(2) progress by auto
next
  case (Refused data w buf rest w1 w2 e w')
  obtain chunk z g where fr: "buf = chunk @ 0x17 # replicate z 0" "data = chunk @ rest"
      "length buf \<le> max_record_size + 1" "w1 = w\<lparr>cw_rng := g\<rparr>"
    using frame_plaintext_spec [OF assms(3) _ Refused.hyps(2)] Refused.prems(1)
    by (auto simp: writer_ok_def)
  have "1 \<le> ceil_4k (length data)" using Refused.hyps(1) by (cases data) (simp_all add: ceil_4k_def)
  then have "cw_nonce w \<noteq> - 1" using Refused.prems(2) by (auto simp: unat_max_word)
  then have "\<exists>w'. seal_record seal buf w2 = (Inr (), w')"
    by (intro seal_record_returns [OF assms(2) fr(3)]) (simp add: Refused.hyps(3) fr(4))
  with Refused.hyps(4) show ?case by simp
qed simp

lemma send_data_returns:
  assumes "aead_ok seal opn" "rng_ok rng" "writer_ok w"
    and "unat (cw_nonce w) + pad_left w + ceil_4k (length data) < 2 ^ 64"
  shows "\<exists>w'. send_data seal rng data w = (Inr (), w')
    \<and> unat (cw_nonce w') + pad_left w' \<le> unat (cw_nonce w) + pad_left w + ceil_4k (length data)"
proof -
  define w0 where "w0 = w\<lparr>cw_traffic := (if cw_initiator w then add_up (of_nat (length data))
    else add_down (of_nat (length data))) (cw_traffic w)\<rparr>"
  obtain x w' where x: "send_loop seal rng data w0 = (x, w')" by fastforce
  have "writer_ok w0" "pad_left w0 = pad_left w" "cw_nonce w0 = cw_nonce w"
    using assms(3) by (simp_all add: w0_def writer_ok_def pad_left_def)
  with send_loop_returns [OF x assms(1,2)] assms(4) have "x = Inr ()
    \<and> unat (cw_nonce w') + pad_left w' \<le> unat (cw_nonce w) + pad_left w + ceil_4k (length data)"
    by simp
  with x show ?thesis by (simp add: send_data_def Let_def w0_def)
qed

text \<open>C12. A send always comes to an end, and with success: if the nonces left cover the shaped
records left and one record per 4096 bytes of data, \<open>send_data\<close> returns \<open>Ok\<close>, whatever sizes
the generator draws, and uses no more nonces than that (a scheme entry that allows a record of
one byte, which carries no data, included).\<close>
theorem send_returns_within_budget:
  assumes "aead_ok seal opn" "rng_ok rng" "writer_ok w"
    and "unat (cw_nonce w) + pad_left w + ceil_4k (length data) < 2 ^ 64"
  shows "\<exists>w'. send_data seal rng data w = (Inr (), w')
    \<and> unat (cw_nonce w') \<le> unat (cw_nonce w) + pad_left w + ceil_4k (length data)"
  using send_data_returns [OF assms] by force

subsection \<open>The stream arrives\<close>
lemma seal_record_static:
  "seal_record seal buf w = (x, w') \<Longrightarrow> cw_kind w' = cw_kind w \<and> cw_cipher w' = cw_cipher w
     \<and> cw_master w' = cw_master w \<and> cw_initiator w' = cw_initiator w"
  by (auto simp: seal_record_def Let_def split: if_splits option.splits)

lemma send_loop_static:
  "send_loop seal rng data w = (x, w') \<Longrightarrow> cw_kind w' = cw_kind w \<and> cw_cipher w' = cw_cipher w
     \<and> cw_master w' = cw_master w \<and> cw_initiator w' = cw_initiator w
     \<and> cw_scheme w' = cw_scheme w \<and> cw_padding w' = cw_padding w"
proof (induction rule: send_loop_induct)
  case (Sealed data w buf rest w1 w2 u w3 x w')
  then show ?case
    using seal_record_static [OF Sealed.hyps(4)] seal_record_scheme [OF Sealed.hyps(4)]
      frame_plaintext_fields [OF Sealed.hyps(2)] by (auto simp: Sealed.hyps(3))
next
  case (Refused data w buf rest w1 w2 e w')
  then show ?case
    using seal_record_static [OF Refused.hyps(4)] seal_record_scheme [OF Refused.hyps(4)]
      frame_plaintext_fields [OF Refused.hyps(2)] by (auto simp: Refused.hyps(3))
qed simp

lemma send_data_static:
  "send_data seal rng data w = (x, w') \<Longrightarrow> cw_kind w' = cw_kind w \<and> cw_cipher w' = cw_cipher w
     \<and> cw_master w' = cw_master w \<and> cw_initiator w' = cw_initiator w
     \<and> cw_scheme w' = cw_scheme w \<and> cw_padding w' = cw_padding w"
  by (auto simp: send_data_def Let_def dest!: send_loop_static)

lemma send_data_received:
  assumes "send_data seal rng data w = (Inr u, w')" "aead_ok seal opn" "rng_ok rng"
    and "pad_scheme_ok (cw_scheme w)" "in_sync w r"
  obtains wire ds r' where "cw_out w' = cw_out w @ wire"
    "recv_all now opn (r\<lparr>cr_in := wire\<rparr>) = (ds, None, r')" "concat ds = data" "in_sync w' r'"
proof -
  define w0 where "w0 = w\<lparr>cw_traffic := (if cw_initiator w then add_up (of_nat (length data))
    else add_down (of_nat (length data))) (cw_traffic w)\<rparr>"
  have loop: "send_loop seal rng data w0 = (Inr u, w')"
    using assms(1) by (simp add: send_data_def Let_def w0_def)
  have "in_sync w0 r" "pad_scheme_ok (cw_scheme w0)" "cw_out w0 = cw_out w"
    using assms(4,5) by (simp_all add: w0_def)
  with send_loop_read [OF loop assms(2,3)] obtain B where B: "cw_out w' = cw_out w @ B"
      "\<And>later. \<exists>ds r'. in_sync w' r' \<and> cr_in r' = later
        \<and> concat ds = data \<and> reads now opn (r\<lparr>cr_in := B @ later\<rparr>) ds r'"
    by fastforce
  from B(2) [of "[]"] obtain ds r' where "in_sync w' r'" "cr_in r' = []" "concat ds = data"
      "reads now opn (r\<lparr>cr_in := B\<rparr>) ds r'"
    by auto
  with that B(1) recv_all_reads show ?thesis by blast
qed

text \<open>A session of both ends: what is sent is read by the peer, and both ends switch the
algorithm between two sends.\<close>

datatype session_op = Send bytes | Switch cipher

fun session ::
    "u64 \<Rightarrow> (bytes \<Rightarrow> bytes \<Rightarrow> bytes) \<Rightarrow> (aead_key \<Rightarrow> bytes \<Rightarrow> bytes \<Rightarrow> bytes option)
     \<Rightarrow> (aead_key \<Rightarrow> bytes \<Rightarrow> bytes \<Rightarrow> bytes option) \<Rightarrow> 'g rng_ops \<Rightarrow> session_op list
     \<Rightarrow> 'g crypto_writer \<times> crypto_reader \<Rightarrow> (bytes \<times> 'g crypto_writer \<times> crypto_reader) option" where
  "session now hkdf seal opn rng [] (w, r) = Some ([], w, r)"
| "session now hkdf seal opn rng (Send data # ops) (w, r) =
     (case send_data seal rng data w of
        (Inl _, _) \<Rightarrow> None
      | (Inr _, w1) \<Rightarrow>
          (case recv_all now opn (r\<lparr>cr_in := drop (length (cw_out w)) (cw_out w1)\<rparr>) of
             (_, Some _, _) \<Rightarrow> None
           | (ds, None, r1) \<Rightarrow>
               (case session now hkdf seal opn rng ops (w1, r1) of
                  None \<Rightarrow> None
                | Some (d, wr) \<Rightarrow> Some (concat ds @ d, wr))))"
| "session now hkdf seal opn rng (Switch c # ops) (w, r) =
     session now hkdf seal opn rng ops (writer_rekey hkdf c w, reader_rekey hkdf c r)"

fun payload :: "session_op \<Rightarrow> bytes" where
  "payload (Send data) = data"
| "payload (Switch c) = []"

lemma writer_rekey_budget:
  "writer_ok (writer_rekey hkdf c w) = writer_ok w"
  "unat (cw_nonce (writer_rekey hkdf c w)) + pad_left (writer_rekey hkdf c w)
     \<le> unat (cw_nonce w) + pad_left w"
  by (simp_all add: writer_rekey_def writer_ok_def pad_left_def Let_def)

lemma session_delivers:
  assumes "aead_ok seal opn" "rng_ok rng"
  shows "writer_ok w \<Longrightarrow> in_sync w r
    \<Longrightarrow> unat (cw_nonce w) + pad_left w + sum_list (map (\<lambda>op. ceil_4k (length (payload op))) ops) < 2 ^ 64
    \<Longrightarrow> \<exists>w' r'. session now hkdf seal opn rng ops (w, r) = Some (concat (map payload ops), w', r')
      \<and> in_sync w' r'"
proof (induction ops arbitrary: w r)
  case (Cons op ops)
  show ?case
  proof (cases op)
    case (Send data)
    then obtain w1 where w1: "send_data seal rng data w = (Inr (), w1)"
        "unat (cw_nonce w1) + pad_left w1 \<le> unat (cw_nonce w) + pad_left w + ceil_4k (length data)"
      using send_data_returns [OF assms Cons.prems(1), of data] Cons.prems(3) by auto
    have "pad_scheme_ok (cw_scheme w)" using Cons.prems(1) by (simp add: writer_ok_def)
    then obtain wire ds r1 where d: "cw_out w1 = cw_out w @ wire"
        "recv_all now opn (r\<lparr>cr_in := wire\<rparr>) = (ds, None, r1)" "concat ds = data" "in_sync w1 r1"
      by (rule send_data_received [OF w1(1) assms _ Cons.prems(2)])
    have "writer_ok w1" using send_data_static [OF w1(1)] Cons.prems(1) by (simp add: writer_ok_def)
    from Cons.IH [OF this d(4)] w1(2) Cons.prems(3) show ?thesis
      by (fastforce simp: Send w1(1) d)
  next
    case (Switch c)
    with Cons.IH [of "writer_rekey hkdf c w" "reader_rekey hkdf c r"] Cons.prems in_sync_rekey
      writer_rekey_budget [of hkdf c w]
    show ?thesis by fastforce
  qed
qed simp

text \<open>C10. The tunnel is a byte stream: for fresh ends that share a master key, any sequence
of sends and switches of algorithm, any padding scheme and any draws, every send succeeds and
the peer reads exactly the bytes sent, in order, and both ends stay in step; the budget of
nonces is the only bound.\<close>
theorem tunnel_refines_stream:
  assumes "aead_ok seal opn" "rng_ok rng" "pad_scheme_ok scheme" "length scheme < 2 ^ 32"
    and "length scheme + sum_list (map (\<lambda>op. ceil_4k (length (payload op))) ops) < 2 ^ 64"
  shows "\<exists>w r. session now hkdf seal opn rng ops
      (writer_new hkdf pad scheme g tf master i, reader_new hkdf tf' master (\<not> i) inp)
        = Some (concat (map payload ops), w, r) \<and> in_sync w r"
proof (rule session_delivers [OF assms(1,2) _ in_sync_new])
  show "writer_ok (writer_new hkdf pad scheme g tf master i)"
    using assms(3,4) by (simp add: writer_ok_def writer_new_def)
  show "unat (cw_nonce (writer_new hkdf pad scheme g tf master i))
      + pad_left (writer_new hkdf pad scheme g tf master i)
      + sum_list (map (\<lambda>op. ceil_4k (length (payload op))) ops) < 2 ^ 64"
    using assms(5) by (simp add: writer_new_def pad_left_def)
qed

subsection \<open>Nonces\<close>

datatype writer_op = OpSend bytes | OpClose | OpRekey cipher

fun writer_step ::
    "(bytes \<Rightarrow> bytes \<Rightarrow> bytes) \<Rightarrow> (aead_key \<Rightarrow> bytes \<Rightarrow> bytes \<Rightarrow> bytes option) \<Rightarrow> 'g rng_ops
     \<Rightarrow> writer_op \<Rightarrow> 'g crypto_writer \<Rightarrow> 'g crypto_writer" where
  "writer_step hkdf seal rng (OpSend data) w = snd (send_data seal rng data w)"
| "writer_step hkdf seal rng OpClose w = snd (send_close_notify seal w)"
| "writer_step hkdf seal rng (OpRekey c) w = writer_rekey hkdf c w"

definition nonces_fresh :: "'g crypto_writer \<Rightarrow> bool" where
  "nonces_fresh w \<longleftrightarrow> distinct (cw_sealed w) \<and> fst (cw_cipher w) = cw_kind w
     \<and> (\<forall>(k, n)\<in>set (cw_sealed w).
          k = cw_cipher w \<and> n < cw_nonce w \<or> fst k = ChaCha20Poly1305 \<and> cw_kind w = Aes256Gcm)"

lemma word_less_succ: "n \<noteq> - 1 \<Longrightarrow> m < n \<or> m = n \<Longrightarrow> m < n + 1" for n :: u64
  by (auto simp: word_less_nat_alt unat_succ)

lemma nonces_fresh_fields [simp]:
  "nonces_fresh (w\<lparr>cw_out := b\<rparr>) = nonces_fresh w"
  "nonces_fresh (w\<lparr>cw_rng := g\<rparr>) = nonces_fresh w"
  "nonces_fresh (w\<lparr>cw_records_sent := k\<rparr>) = nonces_fresh w"
  "nonces_fresh (w\<lparr>cw_traffic := t\<rparr>) = nonces_fresh w"
  by (simp_all add: nonces_fresh_def)

lemma seal_record_fresh:
  assumes "nonces_fresh w" "seal_record seal buf w = (x, w')"
  shows "nonces_fresh w'"
proof (cases "cw_nonce w = - 1")
  case False
  have "(cw_cipher w, cw_nonce w) \<notin> set (cw_sealed w)"
    using assms(1) by (auto simp: nonces_fresh_def)
  then have "nonces_fresh (w\<lparr>cw_nonce := cw_nonce w + 1, cw_sealed := (cw_cipher w, cw_nonce w) # cw_sealed w\<rparr>)"
    using assms(1) False by (auto simp: nonces_fresh_def intro: word_less_succ)
  then show ?thesis
    using assms(2) False nonces_fresh_fields(1)
    by (auto simp: seal_record_def Let_def split: option.splits simp flip: nonces_fresh_fields(1))
qed (use assms in \<open>simp add: seal_record_def\<close>)

lemma send_loop_fresh:
  "send_loop seal rng data w = (x, w') \<Longrightarrow> nonces_fresh w \<Longrightarrow> nonces_fresh w'"
proof (induction rule: send_loop_induct)
  case (Sealed data w buf rest w1 w2 u w3 x w')
  obtain g where "w1 = w\<lparr>cw_rng := g\<rparr>" using frame_plaintext_fields [OF Sealed.hyps(2)] by blast
  with Sealed seal_record_fresh [OF _ Sealed.hyps(4)] show ?case by simp
next
  case (Refused data w buf rest w1 w2 e w')
  obtain g where "w1 = w\<lparr>cw_rng := g\<rparr>" using frame_plaintext_fields [OF Refused.hyps(2)] by blast
  with Refused seal_record_fresh [OF _ Refused.hyps(4)] show ?case by simp
qed

lemma rekey_fresh: "nonces_fresh w \<Longrightarrow> nonces_fresh (writer_rekey hkdf c w)"
  by (cases c; cases "cw_kind w") (auto simp: nonces_fresh_def writer_rekey_def expand_key_def Let_def)

interpretation record_writer: invariant_machine
  "writer_step hkdf seal (rng :: 'g rng_ops)" "nonces_fresh :: 'g crypto_writer \<Rightarrow> bool"
proof
  fix s :: "'g crypto_writer" and op assume "nonces_fresh s"
  then show "nonces_fresh (writer_step hkdf seal rng op s)"
  proof (cases op)
    case (OpSend data)
    then show ?thesis using \<open>nonces_fresh s\<close>
      by (auto simp: send_data_def Let_def intro!: send_loop_fresh [OF prod.collapse [symmetric]])
  next
    case OpClose
    then show ?thesis using \<open>nonces_fresh s\<close>
      by (auto simp: send_close_notify_def intro!: seal_record_fresh [OF _ prod.collapse [symmetric]])
  qed (simp add: rekey_fresh)
qed

text \<open>C11. No key and nonce are ever given to the AEAD twice: whatever a writer is asked to
send, to close and to switch, in any order and with any failures, the pairs of key (with its
algorithm) and nonce it has sealed with are pairwise distinct, although a switch starts the
nonces again at zero.\<close>
theorem nonces_never_repeat:
  "distinct (cw_sealed (fold (writer_step hkdf seal rng) ops (writer_new hkdf pad scheme g tf master i)))"
proof -
  have "nonces_fresh (writer_new hkdf pad scheme g tf master i)"
    by (simp add: nonces_fresh_def writer_new_def expand_key_def Let_def)
  from record_writer.run_inv [OF this] show ?thesis by (simp add: nonces_fresh_def)
qed

subsection \<open>Shaped records\<close>

text \<open>While the padding scheme lasts, the length of the next record does not depend on the
data: it is the size the generator draws from the scheme's range, whatever is sent.\<close>
theorem shaped_length_independent:
  assumes "rng_ok rng" "pad_scheme_ok (cw_scheme w)" "cw_padding w"
    and "unat (cw_records_sent w) < length (cw_scheme w)"
  shows "length (fst (frame_plaintext rng data w)) = length (fst (frame_plaintext rng data' w))
    \<and> fst (cw_scheme w ! unat (cw_records_sent w)) \<le> length (fst (frame_plaintext rng data w))
    \<and> length (fst (frame_plaintext rng data w)) \<le> snd (cw_scheme w ! unat (cw_records_sent w))"
proof -
  obtain lo hi where lh: "cw_scheme w ! unat (cw_records_sent w) = (lo, hi)" by fastforce
  obtain target g where tg: "rng_usize rng lo hi (cw_rng w) = (target, g)" by fastforce
  have "1 \<le> lo" "lo \<le> target" "target \<le> hi"
    using pad_scheme_ok_nth [OF assms(2,4) lh] rng_okD [OF assms(1) _ tg] by auto
  moreover from this have "length (fst (frame_plaintext rng d w)) = target" for d
    using assms(3,4) lh tg by (auto simp: frame_plaintext_def Let_def min_def)
  ultimately show ?thesis by (simp add: lh)
qed

subsection \<open>Witnesses\<close>

definition demo_seal :: "aead_key \<Rightarrow> bytes \<Rightarrow> bytes \<Rightarrow> bytes option" where
  "demo_seal k n p = Some (p @ replicate 16 0xAA)"

definition demo_open :: "aead_key \<Rightarrow> bytes \<Rightarrow> bytes \<Rightarrow> bytes option" where
  "demo_open k n c = Some (take (length c - 16) c)"

definition demo_rng :: "unit rng_ops" where
  "demo_rng = \<lparr>rng_usize = \<lambda>lo hi g. (lo, g), rng_f64 = \<lambda>g. (0, g)\<rparr>"

lemma demo_aead_ok: "aead_ok demo_seal demo_open"
  by (simp add: aead_ok_def demo_seal_def demo_open_def tag_size_def)

lemma demo_rng_ok: "rng_ok demo_rng"
  by (simp add: rng_ok_def demo_rng_def)

definition demo_writer :: "unit crypto_writer" where
  "demo_writer = writer_new (\<lambda>m i. m @ i) True [(1, 1), (4, 8)] () \<lparr>tf_up = 0, tf_down = 0, tf_last_active = 0\<rparr>
     [7] True"

lemma demo_writer_ok: "writer_ok demo_writer"
  by (simp add: writer_ok_def demo_writer_def writer_new_def pad_scheme_ok_def max_record_size_def)

lemma send_returns_within_budget_witness:
  "\<exists>w'. send_data demo_seal demo_rng [1, 2, 3] demo_writer = (Inr (), w') \<and> unat (cw_nonce w') \<le> 0 + 2 + 1"
proof -
  have "\<exists>w'. send_data demo_seal demo_rng [1, 2, 3] demo_writer = (Inr (), w')
    \<and> unat (cw_nonce w') \<le> unat (cw_nonce demo_writer) + pad_left demo_writer + ceil_4k (length [1, 2, 3 :: u8])"
    by (rule send_returns_within_budget [OF demo_aead_ok demo_rng_ok demo_writer_ok])
      (simp add: demo_writer_def writer_new_def pad_left_def ceil_4k_def)
  moreover have "unat (cw_nonce demo_writer) = 0" "pad_left demo_writer = 2" "ceil_4k (length [1, 2, 3 :: u8]) = 1"
    by (simp_all add: demo_writer_def writer_new_def pad_left_def ceil_4k_def)
  ultimately show ?thesis by (simp only:)
qed

lemma tunnel_refines_stream_witness:
  "\<exists>w r. session 9 (\<lambda>m i. m @ i) demo_seal demo_open demo_rng
     [Send [1, 0], Switch Aes256Gcm, Send [], Send [0, 0, 3]]
      (writer_new (\<lambda>m i. m @ i) True [(1, 1), (4, 8)] () \<lparr>tf_up = 0, tf_down = 0, tf_last_active = 0\<rparr> [7] True,
       reader_new (\<lambda>m i. m @ i) \<lparr>tf_up = 0, tf_down = 0, tf_last_active = 0\<rparr> [7] (\<not> True) [])
    = Some ([1, 0, 0, 0, 3], w, r) \<and> in_sync w r"
  using tunnel_refines_stream [OF demo_aead_ok demo_rng_ok, of "[(1, 1), (4, 8)]"
      "[Send [1, 0], Switch Aes256Gcm, Send [], Send [0, 0, 3]]" 9 "\<lambda>m i. m @ i" True "()"
      "\<lparr>tf_up = 0, tf_down = 0, tf_last_active = 0\<rparr>" "[7]" True "\<lparr>tf_up = 0, tf_down = 0, tf_last_active = 0\<rparr>" "[]"]
  by (simp add: pad_scheme_ok_def max_record_size_def ceil_4k_def)

lemma shaped_length_independent_witness:
  "length (fst (frame_plaintext demo_rng [1, 2, 3] demo_writer))
     = length (fst (frame_plaintext demo_rng [] demo_writer))"
  using shaped_length_independent [OF demo_rng_ok, of demo_writer "[1, 2, 3]" "[]"] demo_writer_ok
  by (simp add: writer_ok_def) (simp add: demo_writer_def writer_new_def)

end
