(* ===== verification/HelloAuth.thy ===== *)
theory HelloAuth
  imports RustStr
begin

text \<open>\<open>crypto/hello_auth.rs\<close> and \<open>time_sync.rs\<close>: the session token hidden in a
ClientHello, its check with the window of time and the cache of seen tokens, and the clock
offset a client learns. SHA-256, HMAC and Poly1305 are third-party code: \<open>sha\<close>, \<open>hmac\<close> and
\<open>poly\<close>. The clocks and the random prefix are arguments.\<close>

subsection \<open>The clock\<close>

type_synonym i64 = "64 word"

definition i64_min :: i64 where "i64_min = push_bit 63 1"

text \<open>\<open>i64::abs\<close> of a release build: the least value has no opposite and stays.\<close>

definition i64_abs :: "i64 \<Rightarrow> i64" where
  "i64_abs x = (if sint x < 0 then - x else x)"

definition now_sec :: "i64 \<Rightarrow> u64 \<Rightarrow> u64" where
  "now_sec time_offset local = (let t = local + time_offset in if sint t < 0 then 0 else t)"

definition set_offset_from_server_time :: "u64 \<Rightarrow> u64 \<Rightarrow> i64 \<Rightarrow> i64" where
  "set_offset_from_server_time local server_time old =
     (let offset = server_time - local
      in if 86400 < sint (i64_abs offset) then old else offset)"

subsection \<open>Tokens\<close>

text \<open>The primitives: SHA-256, HMAC-SHA256 (key, message) and Poly1305 (key, message).\<close>

record primitives =
  pr_sha :: "bytes \<Rightarrow> bytes"
  pr_hmac :: "bytes \<Rightarrow> bytes \<Rightarrow> bytes"
  pr_poly :: "bytes \<Rightarrow> bytes \<Rightarrow> bytes"

definition token_domain :: bytes where "token_domain = bytes_of ''mirage-token-v2''"

definition ts_mask :: "primitives \<Rightarrow> string \<Rightarrow> bytes \<Rightarrow> bytes" where
  "ts_mask pr password random_prefix =
     take 8 (pr_hmac pr (pr_sha pr (bytes_of password)) random_prefix)"

definition poly1305_tag :: "primitives \<Rightarrow> bytes \<Rightarrow> bytes \<Rightarrow> bytes \<Rightarrow> bytes \<Rightarrow> bytes" where
  "poly1305_tag pr password_bytes ts_bytes random_prefix bind =
     (let one_time_key = pr_sha pr (password_bytes @ ts_bytes @ random_prefix @ token_domain)
      in pr_poly pr one_time_key (ts_bytes @ bind))"

definition xor_bytes :: "bytes \<Rightarrow> bytes \<Rightarrow> bytes" where
  "xor_bytes a b = map2 (XOR) a b"

definition make_session_token :: "primitives \<Rightarrow> bytes \<Rightarrow> u64 \<Rightarrow> string \<Rightarrow> bytes \<Rightarrow> bytes" where
  "make_session_token pr random_prefix ts password bind =
     (let ts_bytes = be64 ts;
          hidden_ts = xor_bytes ts_bytes (ts_mask pr password random_prefix);
          tag = poly1305_tag pr (bytes_of password) ts_bytes random_prefix bind
      in random_prefix @ hidden_ts @ tag)"

subsection \<open>The cache of seen tokens\<close>

definition replay_bucket_secs :: u64 where "replay_bucket_secs = 10"
definition bucket_cap :: nat where "bucket_cap = 100000"

record replay_cache =
  rc_hwm :: u64
  rc_buckets :: "u64 \<rightharpoonup> bytes set"

definition replay_new :: replay_cache where
  "replay_new = \<lparr>rc_hwm = 0, rc_buckets = Map.empty\<rparr>"

definition check_and_insert :: "u64 \<Rightarrow> bytes \<Rightarrow> u64 \<Rightarrow> replay_cache \<Rightarrow> bool \<times> replay_cache" where
  "check_and_insert ts token retain_buckets c =
     (let current_bucket = ts div replay_bucket_secs;
          (hwm, cache) =
            (if saturating_add current_bucket retain_buckets < rc_hwm c
             then (current_bucket, Map.empty)
             else (max (rc_hwm c) current_bucket, rc_buckets c));
          cache = cache |` {k. saturating_sub hwm k \<le> retain_buckets};
          bucket = (case cache current_bucket of None \<Rightarrow> {} | Some b \<Rightarrow> b)
      in if bucket_cap < card bucket
         then (False, \<lparr>rc_hwm = hwm, rc_buckets = cache(current_bucket \<mapsto> bucket)\<rparr>)
         else (token \<notin> bucket,
               \<lparr>rc_hwm = hwm, rc_buckets = cache(current_bucket \<mapsto> insert token bucket)\<rparr>))"

definition ts_within_tolerance :: "u64 \<Rightarrow> u64 \<Rightarrow> u64 \<Rightarrow> bool" where
  "ts_within_tolerance ts now tol \<longleftrightarrow>
     now \<le> saturating_add ts tol \<and> ts \<le> saturating_add now tol"

definition of_be64 :: "bytes \<Rightarrow> u64" where
  "of_be64 bs = fold (\<lambda>b w. push_bit 8 w OR ucast b) bs 0"

definition retain_buckets_for :: "u64 \<Rightarrow> u64" where
  "retain_buckets_for tol = 2 * tol div replay_bucket_secs + 2"

text \<open>The timestamp a token claims to one password, and whether its tag vouches for it.\<close>

definition token_ts_bytes :: "primitives \<Rightarrow> string \<Rightarrow> bytes \<Rightarrow> bytes" where
  "token_ts_bytes pr password token =
     xor_bytes (take 8 (drop 8 token)) (ts_mask pr password (take 8 token))"

definition token_tag_ok :: "primitives \<Rightarrow> string \<Rightarrow> bytes \<Rightarrow> bytes \<Rightarrow> bool" where
  "token_tag_ok pr password token bind \<longleftrightarrow>
     poly1305_tag pr (bytes_of password) (token_ts_bytes pr password token) (take 8 token) bind
       = take 16 (drop 16 token)"

definition verify_session_token ::
    "primitives \<Rightarrow> u64 \<Rightarrow> string \<Rightarrow> bytes \<Rightarrow> bytes \<Rightarrow> u64 \<Rightarrow> replay_cache \<Rightarrow> bool \<times> replay_cache" where
  "verify_session_token pr now password token bind tol c =
     (if \<not> token_tag_ok pr password token bind then (False, c)
      else
        let ts = of_be64 (token_ts_bytes pr password token)
        in if \<not> ts_within_tolerance ts now tol then (False, c)
           else
             (case check_and_insert ts token (retain_buckets_for tol) c of
                (fresh, c1) \<Rightarrow> if \<not> fresh then (False, c1) else (True, c1)))"

fun identify_from ::
    "primitives \<Rightarrow> u64 \<Rightarrow> nat \<Rightarrow> string list \<Rightarrow> bytes \<Rightarrow> bytes \<Rightarrow> u64 \<Rightarrow> replay_cache
     \<Rightarrow> nat option \<times> replay_cache" where
  "identify_from pr now i [] token bind tol c = (None, c)"
| "identify_from pr now i (pw # pws) token bind tol c =
     (case verify_session_token pr now pw token bind tol c of
        (True, c1) \<Rightarrow> (Some i, c1)
      | (False, c1) \<Rightarrow> identify_from pr now (Suc i) pws token bind tol c1)"

definition identify_session_token ::
    "primitives \<Rightarrow> u64 \<Rightarrow> string list \<Rightarrow> bytes \<Rightarrow> bytes \<Rightarrow> u64 \<Rightarrow> replay_cache \<Rightarrow> nat option \<times> replay_cache" where
  "identify_session_token pr now passwords token bind tol c =
     identify_from pr now 0 passwords token bind tol c"

subsection \<open>The cache and the ledger\<close>

text \<open>The ledger remembers every token ever accepted, with its timestamp; \<open>slot\<close> are those of
one ten-second bucket.\<close>

type_synonym ledger = "(u64 \<times> bytes) set"

definition slot :: "u64 \<Rightarrow> ledger \<Rightarrow> bytes set" where
  "slot b A = snd ` {e \<in> A. fst e div replay_bucket_secs = b}"

lemma slot_insert:
  "slot b (insert (ts, x) A) = (if ts div replay_bucket_secs = b then insert x (slot b A) else slot b A)"
proof -
  have "{e \<in> insert (ts, x) A. fst e div replay_bucket_secs = b}
    = (if ts div replay_bucket_secs = b then insert (ts, x) {e \<in> A. fst e div replay_bucket_secs = b}
       else {e \<in> A. fst e div replay_bucket_secs = b})"
    by auto
  then show ?thesis by (simp add: slot_def)
qed

lemma slot_empty [simp]: "slot b {} = {}" by (simp add: slot_def)

definition ledger_verify ::
    "primitives \<Rightarrow> u64 \<Rightarrow> string \<Rightarrow> bytes \<Rightarrow> bytes \<Rightarrow> u64 \<Rightarrow> ledger \<Rightarrow> bool \<times> ledger" where
  "ledger_verify pr now password token bind tol A =
     (let ts = of_be64 (token_ts_bytes pr password token); s = slot (ts div replay_bucket_secs) A
      in if token_tag_ok pr password token bind \<and> ts_within_tolerance ts now tol
           \<and> token \<notin> s \<and> card s \<le> bucket_cap
         then (True, insert (ts, token) A) else (False, A))"

definition bucket_of :: "replay_cache \<Rightarrow> u64 \<Rightarrow> bytes set" where
  "bucket_of c b = (case rc_buckets c b of None \<Rightarrow> {} | Some s \<Rightarrow> s)"

text \<open>The cache represents the ledger at time \<open>n\<close>: no bucket is further ahead than the window
allows, and the buckets that are kept are exact.\<close>

definition represents :: "u64 \<Rightarrow> u64 \<Rightarrow> ledger \<Rightarrow> replay_cache \<Rightarrow> bool" where
  "represents tol n A c \<longleftrightarrow> unat (rc_hwm c) * 10 \<le> unat n + unat tol
     \<and> (\<forall>b. unat (rc_hwm c) - unat b \<le> unat (retain_buckets_for tol) \<longrightarrow> bucket_of c b = slot b A)"

lemma unat_bucket: "unat (ts div replay_bucket_secs) = unat ts div 10" for ts :: u64
  by (simp add: replay_bucket_secs_def unat_div)

lemma unat_retain: "unat tol < 2 ^ 60 \<Longrightarrow> unat (retain_buckets_for tol) = 2 * unat tol div 10 + 2"
  by (simp add: retain_buckets_for_def replay_bucket_secs_def unat_div unat_word_ariths)

lemma ts_within_nat:
  "ts_within_tolerance ts now tol \<Longrightarrow> unat now \<le> unat ts + unat tol \<and> unat ts \<le> unat now + unat tol"
  by (simp add: ts_within_tolerance_def word_le_nat_alt unat_saturating_add)

lemma check_represents:
  assumes "unat tol < 2 ^ 60" "represents tol n A c" "n \<le> n'" "ts_within_tolerance ts n' tol"
    and "check_and_insert ts token (retain_buckets_for tol) c = (ok, c')"
  shows "ok \<longleftrightarrow> token \<notin> slot (ts div replay_bucket_secs) A \<and> card (slot (ts div replay_bucket_secs) A) \<le> bucket_cap"
    and "represents tol n' (if ok then insert (ts, token) A else A) c'"
proof -
  let ?b = "ts div replay_bucket_secs" and ?r = "retain_buckets_for tol"
  let ?h = "max (rc_hwm c) ?b"
  have w: "unat n' \<le> unat ts + unat tol" "unat ts \<le> unat n' + unat tol"
    using ts_within_nat [OF assms(4)] by auto
  have h: "unat (rc_hwm c) * 10 \<le> unat n + unat tol" "unat n \<le> unat n'"
    and exact: "unat (rc_hwm c) - unat b \<le> unat ?r \<Longrightarrow> bucket_of c b = slot b A" for b
    using assms(2,3) by (auto simp: represents_def word_le_nat_alt)
  have r: "unat ?r = 2 * unat tol div 10 + 2" by (rule unat_retain [OF assms(1)])
  have ahead: "unat (rc_hwm c) \<le> unat ?b + unat ?r"
    using w(1) h unfolding r unat_bucket by linarith
  then have noreset: "\<not> saturating_add ?b ?r < rc_hwm c"
    using unsigned_less [where 'a = nat and w = "rc_hwm c"]
    by (auto simp: word_less_nat_alt unat_saturating_add min_def)
  have umax: "unat ?h = max (unat (rc_hwm c)) (unat ?b)"
    by (simp add: max_def word_le_nat_alt)
  define kept where "kept = rc_buckets c |` {k. saturating_sub ?h k \<le> ?r}"
  define s where "s = (case kept ?b of None \<Rightarrow> {} | Some s \<Rightarrow> s)"
  have keep: "(case kept b of None \<Rightarrow> {} | Some s \<Rightarrow> s) = slot b A" if "unat ?h - unat b \<le> unat ?r" for b
  proof -
    have "unat (rc_hwm c) - unat b \<le> unat ?r" using that umax by linarith
    then show ?thesis using exact [of b] that
      by (simp add: kept_def bucket_of_def restrict_map_def word_le_nat_alt unat_saturating_sub)
  qed
  have s: "s = slot ?b A" unfolding s_def using keep [of ?b] ahead umax by simp
  have step: "check_and_insert ts token ?r c =
      (if bucket_cap < card s then (False, \<lparr>rc_hwm = ?h, rc_buckets = kept(?b \<mapsto> s)\<rparr>)
       else (token \<notin> s, \<lparr>rc_hwm = ?h, rc_buckets = kept(?b \<mapsto> insert token s)\<rparr>))"
    using noreset by (simp add: check_and_insert_def Let_def s_def kept_def)
  show ok: "ok \<longleftrightarrow> token \<notin> slot ?b A \<and> card (slot ?b A) \<le> bucket_cap"
    using step assms(5) s by (auto split: if_splits)
  have hwm: "unat ?h * 10 \<le> unat n' + unat tol"
    using h w unfolding umax unat_bucket by linarith
  have b': "bucket_of c' b = slot b (if ok then insert (ts, token) A else A)"
    if "unat ?h - unat b \<le> unat ?r" for b
    using step assms(5) s keep [OF that] by (auto simp: bucket_of_def slot_insert split: if_splits)
  have "rc_hwm c' = ?h" using step assms(5) by (auto split: if_splits)
  with hwm b' show "represents tol n' (if ok then insert (ts, token) A else A) c'"
    by (simp add: represents_def)
qed

lemma verify_represents:
  assumes "unat tol < 2 ^ 60" "represents tol n A c" "n \<le> n'"
    and "verify_session_token pr n' pw token bind tol c = (ok, c')"
  shows "\<exists>A'. ledger_verify pr n' pw token bind tol A = (ok, A') \<and> represents tol n' A' c'"
proof -
  let ?ts = "of_be64 (token_ts_bytes pr pw token)"
  have later: "represents tol n' A c"
    using assms(2,3) by (auto simp: represents_def word_le_nat_alt)
  show ?thesis
  proof (cases "token_tag_ok pr pw token bind \<and> ts_within_tolerance ?ts n' tol")
    case True
    obtain f c1 where f: "check_and_insert ?ts token (retain_buckets_for tol) c = (f, c1)" by fastforce
    then have "ok = f" "c' = c1" using assms(4) True
      by (auto simp: verify_session_token_def Let_def split: if_splits)
    with check_represents [OF assms(1-3) _ f] True show ?thesis
      by (auto simp: ledger_verify_def Let_def)
  next
    case False
    then have "ok = False" "c' = c"
      using assms(4) by (auto simp: verify_session_token_def Let_def split: if_splits prod.splits)
    with later False show ?thesis by (auto simp: ledger_verify_def Let_def)
  qed
qed

subsection \<open>Runs of a server\<close>

text \<open>A request to check a token: the server's clock, the password, the token and what it is
bound to.\<close>

type_synonym auth_event = "u64 \<times> string \<times> bytes \<times> bytes"

fun verify_run :: "primitives \<Rightarrow> u64 \<Rightarrow> auth_event list \<Rightarrow> replay_cache \<Rightarrow> bool list" where
  "verify_run pr tol [] c = []"
| "verify_run pr tol ((now, pw, token, bind) # es) c =
     (case verify_session_token pr now pw token bind tol c of
        (ok, c1) \<Rightarrow> ok # verify_run pr tol es c1)"

fun ledger_run :: "primitives \<Rightarrow> u64 \<Rightarrow> auth_event list \<Rightarrow> ledger \<Rightarrow> bool list" where
  "ledger_run pr tol [] A = []"
| "ledger_run pr tol ((now, pw, token, bind) # es) A =
     (case ledger_verify pr now pw token bind tol A of
        (ok, A1) \<Rightarrow> ok # ledger_run pr tol es A1)"

lemma verify_run_ledger:
  assumes "unat tol < 2 ^ 60"
  shows "represents tol n A c \<Longrightarrow> sorted (n # map fst es) \<Longrightarrow> verify_run pr tol es c = ledger_run pr tol es A"
proof (induction es arbitrary: n A c)
  case (Cons e es)
  obtain now pw token bind where e: "e = (now, pw, token, bind)" by (cases e)
  obtain ok c1 where v: "verify_session_token pr now pw token bind tol c = (ok, c1)" by fastforce
  have "n \<le> now" using Cons.prems(2) by (simp add: e)
  from verify_represents [OF assms Cons.prems(1) this v] obtain A1
    where l: "ledger_verify pr now pw token bind tol A = (ok, A1)" and "represents tol now A1 c1"
    by blast
  moreover have "sorted (now # map fst es)" using Cons.prems(2) by (simp add: e)
  ultimately have "verify_run pr tol es c1 = ledger_run pr tol es A1" by (intro Cons.IH)
  then show ?case by (simp add: e v l)
qed simp

lemma represents_new: "represents tol 0 {} replay_new"
  by (simp add: represents_def replay_new_def bucket_of_def)

lemma verify_run_new:
  "unat tol < 2 ^ 60 \<Longrightarrow> sorted (map fst es) \<Longrightarrow> verify_run pr tol es replay_new = ledger_run pr tol es {}"
  by (rule verify_run_ledger [OF _ represents_new]) auto

lemma length_ledger_run [simp]: "length (ledger_run pr tol es A) = length es"
  by (induction pr tol es A rule: ledger_run.induct) (simp_all split: prod.split)

lemma ledger_run_seen:
  "(of_be64 (token_ts_bytes pr pw token), token) \<in> A \<Longrightarrow> j < length es \<Longrightarrow> es ! j = (now, pw, token, bind)
    \<Longrightarrow> \<not> ledger_run pr tol es A ! j"
proof (induction es arbitrary: A j)
  case (Cons e es)
  obtain n p t b where e: "e = (n, p, t, b)" by (cases e)
  obtain ok A1 where l: "ledger_verify pr n p t b tol A = (ok, A1)" by fastforce
  have "A \<subseteq> A1" using l by (auto simp: ledger_verify_def Let_def split: if_splits)
  show ?case
  proof (cases j)
    case 0
    then have "token \<in> slot (of_be64 (token_ts_bytes pr p t) div replay_bucket_secs) A"
      using Cons.prems by (force simp: e slot_def)
    then show ?thesis using l 0 Cons.prems(3) by (auto simp: e ledger_verify_def Let_def split: if_splits)
  next
    case (Suc k)
    with Cons.IH [of A1 k] Cons.prems \<open>A \<subseteq> A1\<close> l show ?thesis by (auto simp: e)
  qed
qed simp

lemma ledger_run_once:
  "i < j \<Longrightarrow> j < length es \<Longrightarrow> es ! i = (n1, pw, token, b1) \<Longrightarrow> es ! j = (n2, pw, token, b2)
    \<Longrightarrow> ledger_run pr tol es A ! i \<Longrightarrow> \<not> ledger_run pr tol es A ! j"
proof (induction es arbitrary: A i j)
  case (Cons e es)
  obtain n p t b where e: "e = (n, p, t, b)" by (cases e)
  obtain ok A1 where l: "ledger_verify pr n p t b tol A = (ok, A1)" by fastforce
  obtain j' where j: "j = Suc j'" using Cons.prems(1) by (cases j) auto
  show ?case
  proof (cases i)
    case 0
    then have "(of_be64 (token_ts_bytes pr pw token), token) \<in> A1"
      using l Cons.prems by (auto simp: e ledger_verify_def Let_def split: if_splits)
    from ledger_run_seen [OF this, of j' es] Cons.prems show ?thesis by (simp add: e l j)
  next
    case (Suc i')
    with Cons.IH [of i' j' A1] Cons.prems show ?thesis by (simp add: e l j)
  qed
qed simp

definition claimed :: "primitives \<Rightarrow> auth_event \<Rightarrow> u64 \<times> bytes" where
  "claimed pr e = (case e of (n, pw, t, b) \<Rightarrow> (of_be64 (token_ts_bytes pr pw t), t))"

lemma ledger_run_append:
  "\<exists>A'. ledger_run pr tol (es @ fs) A = ledger_run pr tol es A @ ledger_run pr tol fs A'
    \<and> A' \<subseteq> A \<union> claimed pr ` set es
    \<and> (finite A \<longrightarrow> finite A' \<and> card A' \<le> card A + length es)"
proof (induction es arbitrary: A)
  case (Cons e es)
  obtain n p t b where e: "e = (n, p, t, b)" by (cases e)
  obtain ok A1 where l: "ledger_verify pr n p t b tol A = (ok, A1)" by fastforce
  have A1: "A1 \<subseteq> insert (of_be64 (token_ts_bytes pr p t), t) A" "finite A \<Longrightarrow> finite A1 \<and> card A1 \<le> Suc (card A)"
    using l by (auto simp: ledger_verify_def Let_def card_insert_if split: if_splits)
  obtain A' where A': "ledger_run pr tol (es @ fs) A1 = ledger_run pr tol es A1 @ ledger_run pr tol fs A'"
      "A' \<subseteq> A1 \<union> claimed pr ` set es"
      "finite A1 \<longrightarrow> finite A' \<and> card A' \<le> card A1 + length es"
    using Cons.IH by blast
  show ?case
  proof (intro exI [of _ A'] conjI)
    show "A' \<subseteq> A \<union> claimed pr ` set (e # es)"
      using A'(2) A1(1) by (auto simp: e claimed_def)
    show "finite A \<longrightarrow> finite A' \<and> card A' \<le> card A + length (e # es)"
      using A'(3) A1(2) by auto
  qed (simp add: e l A'(1))
qed auto

subsection \<open>Tokens read back\<close>

definition primitives_ok :: "primitives \<Rightarrow> bool" where
  "primitives_ok pr \<longleftrightarrow> (\<forall>k m. length (pr_hmac pr k m) = 32 \<and> length (pr_poly pr k m) = 16)"

lemma xor_bytes_twice:
  "length a \<le> length m \<Longrightarrow> xor_bytes (xor_bytes a m) m = a"
proof (induction a arbitrary: m)
  case (Cons x a)
  then obtain y m' where "m = y # m'" by (cases m) auto
  with Cons show ?case by (simp add: xor_bytes_def xor.assoc)
qed (simp add: xor_bytes_def)

lemma push_byte:
  "push_bit 8 (drop_bit (k + 8) w) OR ucast (ucast (drop_bit k w) :: u8) = drop_bit k w" for w :: u64
  by (rule bit_word_eqI) (auto simp: bit_simps)

lemma of_be64_be64 [codec_simps]: "of_be64 (be64 w) = w"
proof -
  have "(0 :: u64) = drop_bit (56 + 8) w" by (rule bit_word_eqI) (auto simp: bit_simps dest: bit_imp_le_length)
  then show ?thesis
    using push_byte [of 56 w] push_byte [of 48 w] push_byte [of 40 w] push_byte [of 32 w]
      push_byte [of 24 w] push_byte [of 16 w] push_byte [of 8 w] push_byte [of 0 w]
    by (simp add: of_be64_def be64_def)
qed

lemma made_token:
  assumes "primitives_ok pr" "length rp = 8"
  shows "token_ts_bytes pr pw (make_session_token pr rp ts pw bind) = be64 ts"
    and "token_tag_ok pr pw (make_session_token pr rp ts pw bind) bind"
    and "length (make_session_token pr rp ts pw bind) = 32"
proof -
  have m: "length (ts_mask pr pw rp) = 8" using assms(1) by (simp add: primitives_ok_def ts_mask_def)
  have x: "length (xor_bytes (be64 ts) (ts_mask pr pw rp)) = 8" using m by (simp add: xor_bytes_def)
  show ts: "token_ts_bytes pr pw (make_session_token pr rp ts pw bind) = be64 ts"
    using m x assms(2) by (simp add: token_ts_bytes_def make_session_token_def Let_def xor_bytes_twice)
  have "length (poly1305_tag pr (bytes_of pw) (be64 ts) rp bind) = 16"
    using assms(1) by (simp add: poly1305_tag_def primitives_ok_def)
  then show "token_tag_ok pr pw (make_session_token pr rp ts pw bind) bind"
    and "length (make_session_token pr rp ts pw bind) = 32"
    using x assms(2) unfolding token_tag_ok_def ts by (simp_all add: make_session_token_def Let_def)
qed

subsection \<open>The learned clock\<close>

lemma sint_word_of_int64:
  "- (2 ^ 63) \<le> y \<Longrightarrow> y < 2 ^ 63 \<Longrightarrow> sint (word_of_int y :: i64) = y"
  unfolding sint_sbintrunc' signed_take_bit_eq_take_bit_shift
  by (simp add: take_bit_int_eq_self)

lemma sint_range64: "- (2 ^ 63) \<le> sint x \<and> sint x < 2 ^ 63" for x :: i64
  using sint_greater_eq [of x] sint_less [of x] by simp

lemma sint_i64_min: "sint i64_min = - (2 ^ 63)"
  by (simp add: i64_min_def)

lemma sint_uminus64: "x \<noteq> i64_min \<Longrightarrow> sint (- x) = - sint x" for x :: i64
proof -
  assume "x \<noteq> i64_min"
  then have "sint x \<noteq> - (2 ^ 63)"
    using sint_i64_min by (metis signed_word_eqI)
  moreover have "- x = word_of_int (- sint x)" by simp
  ultimately show ?thesis using sint_range64 [of x] sint_word_of_int64 [of "- sint x"] by simp
qed

lemma sint_abs64: "sint (i64_abs x) = (if x = i64_min then sint x else \<bar>sint x\<bar>)"
  by (auto simp: i64_abs_def sint_uminus64) (simp add: i64_min_def)

text \<open>An offset of \<open>i64::MIN\<close> stops the corrected clock at zero.\<close>

lemma offset_min_stops_clock:
  assumes "0 \<le> sint local"
  shows "now_sec i64_min local = 0"
proof -
  have "local + i64_min = word_of_int (sint local - 2 ^ 63)"
    by (simp add: i64_min_def)
  moreover have "sint (word_of_int (sint local - 2 ^ 63) :: i64) = sint local - 2 ^ 63"
    using assms sint_range64 [of local] by (intro sint_word_of_int64) simp_all
  ultimately have "sint (local + i64_min) < 0" using sint_range64 [of local] by (simp only:) simp
  then show ?thesis by (simp add: now_sec_def Let_def)
qed

text \<open>The clock offset: a server's time is taken exactly when it is within a day of the
local clock, with one exception: the difference \<open>i64::MIN\<close>, whose absolute value overflows in a
release build, passes the guard too (and the client's clock then reads zero).\<close>
theorem time_offset_guard:
  "set_offset_from_server_time local server_time old
     = (if \<bar>sint (server_time - local)\<bar> \<le> 86400 \<or> server_time - local = i64_min
        then server_time - local else old)"
  by (auto simp: set_offset_from_server_time_def Let_def sint_abs64 sint_i64_min)

lemma synced_clock:
  assumes "\<bar>sint (s - l)\<bar> \<le> 86400" "unat (s + k) < 2 ^ 63"
  shows "now_sec (set_offset_from_server_time l s old) (l + k) = s + k"
proof -
  have "set_offset_from_server_time l s old = s - l"
    using assms(1) by (auto simp: set_offset_from_server_time_def Let_def sint_abs64)
  moreover have "0 \<le> sint (s + k)"
  proof -
    have "uint (s + k) < 2 ^ 63"
      using assms(2) unfolding uint_nat by (metis of_nat_less_iff of_nat_numeral of_nat_power)
    then have "sint (word_of_int (uint (s + k)) :: i64) = uint (s + k)"
      by (intro sint_word_of_int64 order_trans [OF _ unsigned_greater_eq]) simp_all
    then show ?thesis by simp
  qed
  ultimately show ?thesis by (simp add: now_sec_def Let_def ac_simps)
qed

subsection \<open>Properties\<close>

text \<open>C13. The replay cache with its evictions, its high-water mark and its reset answers as a
ledger that remembers every accepted token for ever: over any run of checks at times that do not
go back, a token is accepted exactly when its tag and its time are right, it was never accepted
before and its ten seconds have seen at most 100000 others.\<close>
theorem replay_cache_refines_ledger:
  assumes "unat tol < 2 ^ 60" "sorted (map fst es)"
  shows "verify_run pr tol es replay_new = ledger_run pr tol es {}"
  by (rule verify_run_new [OF assms])

text \<open>No token is accepted twice: in any run of checks at times that do not go back, a
token that one password accepted is refused ever after, whatever it is bound to.\<close>
theorem token_accepted_once:
  assumes "unat tol < 2 ^ 60" "sorted (map fst es)" "i < j" "j < length es"
    and "es ! i = (n1, pw, token, b1)" "es ! j = (n2, pw, token, b2)"
  shows "\<not> (verify_run pr tol es replay_new ! i \<and> verify_run pr tol es replay_new ! j)"
  using ledger_run_once [OF assms(3-6), of pr tol "{}"] verify_run_new [OF assms(1,2), of pr] by auto

lemma last_nth_append: "last (xs @ [x]) = x" by simp

text \<open>C14. A client that knows the password gets in: its token, made with the clock it learned
from the server and a fresh random prefix, is accepted after any delay up to the tolerance, after
any run of at most 100000 other checks.\<close>
theorem synced_client_accepted:
  assumes "primitives_ok pr" "length rp = 8" "unat tol < 2 ^ 60"
    and "\<bar>sint (s - l)\<bar> \<le> 86400" "unat s + unat k + unat delay < 2 ^ 63" "delay \<le> tol"
    and "ts = now_sec (set_offset_from_server_time l s old) (l + k)"
    and "token = make_session_token pr rp ts pw bind"
    and "sorted (map fst es)" "\<forall>e\<in>set es. fst e \<le> s + k + delay \<and> snd (claimed pr e) \<noteq> token"
    and "length es \<le> bucket_cap"
  shows "last (verify_run pr tol (es @ [(s + k + delay, pw, token, bind)]) replay_new)"
proof -
  let ?e = "(s + k + delay, pw, token, bind)"
  have u: "unat (s + k) = unat s + unat k" "unat (s + k + delay) = unat s + unat k + unat delay"
    using assms(5) by (simp_all add: unat_word_ariths)
  have ts: "ts = s + k" unfolding assms(7) using assms(5) u by (intro synced_clock [OF assms(4)]) simp
  have tok: "of_be64 (token_ts_bytes pr pw token) = ts" "token_tag_ok pr pw token bind"
    unfolding assms(8) made_token(1) [OF assms(1,2)] by (simp_all add: codec_simps made_token(2) [OF assms(1,2)])
  have win: "ts_within_tolerance ts (s + k + delay) tol"
    using assms(5,6) u by (simp add: ts ts_within_tolerance_def word_le_nat_alt unat_saturating_add)
  have "sorted (map fst (es @ [?e]))" using assms(9,10) by (auto simp: sorted_append)
  then have run: "verify_run pr tol (es @ [?e]) replay_new = ledger_run pr tol (es @ [?e]) {}"
    by (rule verify_run_new [OF assms(3)])
  obtain A where A: "ledger_run pr tol (es @ [?e]) {} = ledger_run pr tol es {} @ ledger_run pr tol [?e] A"
      "A \<subseteq> claimed pr ` set es" "finite A" "card A \<le> length es"
    using ledger_run_append [of pr tol es "[?e]" "{}"] by auto
  have "token \<notin> slot b A" for b
    using A(2) assms(10) unfolding slot_def by fastforce
  moreover have "card (slot b A) \<le> bucket_cap" for b
  proof -
    have "card (slot b A) \<le> card A"
      unfolding slot_def by (rule order_trans [OF card_image_le]) (auto intro: card_mono simp: A(3))
    with A(4) assms(11) show ?thesis by simp
  qed
  ultimately have "ledger_verify pr (s + k + delay) pw token bind tol A = (True, insert (ts, token) A)"
    using tok win by (simp add: ledger_verify_def Let_def)
  then show ?thesis by (simp add: run A(1))
qed

subsection \<open>Witnesses\<close>

definition demo_primitives :: primitives where
  "demo_primitives = \<lparr>pr_sha = \<lambda>m. m, pr_hmac = \<lambda>k m. map (\<lambda>i. sum_list k + of_nat i * sum_list m) [0..<32],
     pr_poly = \<lambda>k m. map (\<lambda>i. sum_list m + of_nat i * sum_list k) [0..<16]\<rparr>"

lemma demo_primitives_ok: "primitives_ok demo_primitives"
  by (simp add: primitives_ok_def demo_primitives_def)

lemma demo_token_neq:
  "[1] \<noteq> make_session_token demo_primitives [1, 2, 3, 4, 5, 6, 7, 8] ts pw bind"
proof
  assume a: "[1] = make_session_token demo_primitives [1, 2, 3, 4, 5, 6, 7, 8] ts pw bind"
  have "length (make_session_token demo_primitives [1, 2, 3, 4, 5, 6, 7, 8] ts pw bind) = 32"
    by (rule made_token(3) [OF demo_primitives_ok]) simp
  then show False unfolding a [symmetric] by simp
qed

lemma replay_cache_refines_ledger_witness:
  "verify_run demo_primitives 60 [(100, ''pw'', [1, 2], []), (170, ''pw'', [1, 2], [])] replay_new
     = ledger_run demo_primitives 60 [(100, ''pw'', [1, 2], []), (170, ''pw'', [1, 2], [])] {}"
  by (rule replay_cache_refines_ledger) simp_all

lemma token_accepted_once_witness:
  "let es = [(100, ''pw'', [1, 2], []), (130, ''q'', [5], []), (170, ''pw'', [1, 2], [9])]
   in \<not> (verify_run demo_primitives 60 es replay_new ! 0 \<and> verify_run demo_primitives 60 es replay_new ! 2)"
  unfolding Let_def by (rule token_accepted_once) simp_all

lemma synced_client_accepted_witness:
  "last (verify_run demo_primitives 60
     ([(1000, ''pw'', [1], [])] @ [(1700000000 + 7 + 30, ''pw'', make_session_token demo_primitives
        [1, 2, 3, 4, 5, 6, 7, 8]
        (now_sec (set_offset_from_server_time 1700003600 1700000000 0) (1700003600 + 7)) ''pw'' [9], [9])])
     replay_new)"
  by (rule synced_client_accepted [OF demo_primitives_ok, where l = 1700003600 and s = 1700000000
        and k = 7 and delay = 30 and old = 0])
    (simp_all add: bucket_cap_def claimed_def demo_token_neq)

end
