(* ===== verification/Pool.thy ===== *)
theory Pool
  imports HelloAuth
begin

text \<open>\<open>proxy/pool.rs\<close> and the tunnels of \<open>proxy/tunnel.rs\<close> it keeps: the pause after
authentication failures, the statistics, the feedback on the target size, and the pool with its
builder, its manager and the takers of tunnels, each a step of one state machine. Time is
counted in milliseconds; what a dial brings, whether a socket is stale and every random draw
are arguments.\<close>

subsection \<open>Pausing after authentication failures\<close>

definition auth_pause_duration :: nat where "auth_pause_duration = 300000"
definition auth_failures_threshold :: u32 where "auth_failures_threshold = 5"

record auth_pause_tracker =
  ap_failures :: u32
  ap_paused_at :: "nat option"

definition tracker_new :: auth_pause_tracker where
  "tracker_new = \<lparr>ap_failures = 0, ap_paused_at = None\<rparr>"

definition record_auth_failure :: "nat \<Rightarrow> auth_pause_tracker \<Rightarrow> bool \<times> auth_pause_tracker" where
  "record_auth_failure now t =
     (let t = t\<lparr>ap_failures := ap_failures t + 1\<rparr>
      in if auth_failures_threshold \<le> ap_failures t \<and> ap_paused_at t = None
         then (True, t\<lparr>ap_paused_at := Some now\<rparr>) else (False, t))"

definition record_non_auth_failure :: "auth_pause_tracker \<Rightarrow> auth_pause_tracker" where
  "record_non_auth_failure t = t\<lparr>ap_failures := 0\<rparr>"

definition record_success :: "auth_pause_tracker \<Rightarrow> bool \<times> auth_pause_tracker" where
  "record_success t = (ap_paused_at t \<noteq> None, t\<lparr>ap_failures := 0, ap_paused_at := None\<rparr>)"

definition tracker_purge :: "auth_pause_tracker \<Rightarrow> bool \<times> auth_pause_tracker" where
  "tracker_purge t = (ap_paused_at t \<noteq> None, t\<lparr>ap_failures := 0, ap_paused_at := None\<rparr>)"

definition check_paused :: "nat \<Rightarrow> auth_pause_tracker \<Rightarrow> (bool \<times> bool) \<times> auth_pause_tracker" where
  "check_paused now t =
     (case ap_paused_at t of
        Some p \<Rightarrow>
          if auth_pause_duration \<le> now - p
          then ((False, True), t\<lparr>ap_paused_at := None, ap_failures := 0\<rparr>)
          else ((True, False), t)
      | None \<Rightarrow> ((False, False), t))"

definition is_paused :: "nat \<Rightarrow> auth_pause_tracker \<Rightarrow> bool" where
  "is_paused now t =
     (case ap_paused_at t of Some p \<Rightarrow> now - p < auth_pause_duration | None \<Rightarrow> False)"

text \<open>The wait after failed dials; \<open>draw lo hi\<close> is the generator's number.\<close>

definition backoff_base :: "u32 \<Rightarrow> nat" where
  "backoff_base failures = min (500 * 2 ^ min (unat failures - 1) 10) 60000"

definition builder_backoff :: "(nat \<Rightarrow> nat \<Rightarrow> nat) \<Rightarrow> u32 \<Rightarrow> nat" where
  "builder_backoff draw failures =
     (if failures = 0 then 0
      else draw (backoff_base failures * 80 div 100) (backoff_base failures * 120 div 100))"

subsection \<open>Statistics\<close>

record pool_stats =
  ps_latency :: "u64 list"
  ps_failures :: u32
  ps_auth_failures :: u32
  ps_tracker :: auth_pause_tracker
  ps_last_sample :: "nat option"

definition stats_new :: pool_stats where
  "stats_new = \<lparr>ps_latency = [], ps_failures = 0, ps_auth_failures = 0, ps_tracker = tracker_new,
     ps_last_sample = None\<rparr>"

definition record_latency :: "nat \<Rightarrow> u64 \<Rightarrow> pool_stats \<Rightarrow> bool \<times> pool_stats" where
  "record_latency now ms s =
     (let samples = (if length (ps_latency s) = 10 then tl (ps_latency s) else ps_latency s) @ [ms];
          (unpaused, t) = record_success (ps_tracker s)
      in (unpaused, s\<lparr>ps_latency := samples, ps_last_sample := Some now, ps_failures := 0,
            ps_tracker := t, ps_auth_failures := ap_failures t\<rparr>))"

definition record_failure_typed :: "nat \<Rightarrow> bool \<Rightarrow> pool_stats \<Rightarrow> bool \<times> pool_stats" where
  "record_failure_typed now is_auth s =
     (let (just_paused, t) =
            (if is_auth then record_auth_failure now (ps_tracker s)
             else (False, record_non_auth_failure (ps_tracker s)))
      in (just_paused, s\<lparr>ps_failures := ps_failures s + 1, ps_tracker := t,
            ps_auth_failures := ap_failures t\<rparr>))"

definition purge_auth_pause :: "pool_stats \<Rightarrow> bool \<times> pool_stats" where
  "purge_auth_pause s =
     (let (unpaused, t) = tracker_purge (ps_tracker s)
      in (unpaused, s\<lparr>ps_tracker := t, ps_auth_failures := ap_failures t\<rparr>))"

definition check_auth_pause :: "nat \<Rightarrow> pool_stats \<Rightarrow> (bool \<times> bool) \<times> pool_stats" where
  "check_auth_pause now s =
     (let (r, t) = check_paused now (ps_tracker s)
      in (r, s\<lparr>ps_tracker := t, ps_auth_failures := ap_failures t\<rparr>))"

definition latency_ms :: "pool_stats \<Rightarrow> u64 option" where
  "latency_ms s =
     (if ps_latency s = [] then None
      else Some (sort (ps_latency s) ! (length (ps_latency s) div 2)))"

definition stats_healthy :: "pool_stats \<Rightarrow> bool" where
  "stats_healthy s \<longleftrightarrow> ps_failures s < 3"

subsection \<open>Target size\<close>

text \<open>The quotient of the counters is compared with 0.2 and 0.0 in binary64; below
\<open>2 ^ 50\<close> gets a period, rounding cannot change either comparison, and they are those of
the exact quotient.\<close>

definition decide_new_target :: "nat \<Rightarrow> nat \<Rightarrow> nat \<Rightarrow> nat \<Rightarrow> nat \<Rightarrow> nat" where
  "decide_new_target cur_target wait_events total_gets expired_unused max_size =
     (let pressed = (total_gets \<noteq> 0 \<and> total_gets < 5 * wait_events);
          calm = (total_gets = 0 \<or> wait_events = 0);
          floor = min (max (max_size div 2) 2) max_size
      in if pressed \<and> cur_target < max_size
         then min (cur_target + max (cur_target div 5) 1) max_size
         else if calm \<and> total_gets div 2 \<le> expired_unused \<and> floor < cur_target
         then cur_target - 1
         else min (max cur_target floor) max_size)"

subsection \<open>The pool\<close>

record tunnel =
  tn_id :: nat
  tn_created :: nat
  tn_max_age :: nat

text \<open>\<open>wp_planned\<close> is what the builder has decided to dial and not yet started (it may sleep in
between); \<open>wp_made\<close> counts the tunnels ever made and numbers them.\<close>

record warm_pool =
  wp_queue :: "tunnel list"
  wp_stats :: pool_stats
  wp_wait_events :: nat
  wp_total_gets :: nat
  wp_expired_unused :: nat
  wp_target :: nat
  wp_max :: nat
  wp_shutdown :: bool
  wp_in_flight :: nat
  wp_planned :: nat
  wp_made :: nat

definition pool_new :: "nat \<Rightarrow> warm_pool" where
  "pool_new pool_size =
     (let initial_size = max pool_size 1
      in \<lparr>wp_queue = [], wp_stats = stats_new, wp_wait_events = 0, wp_total_gets = 0,
         wp_expired_unused = 0, wp_target = initial_size, wp_max = initial_size,
         wp_shutdown = False, wp_in_flight = 0, wp_planned = 0, wp_made = 0\<rparr>)"

definition on_demand_limit :: "nat \<Rightarrow> nat" where
  "on_demand_limit pool_size = (let initial_size = max pool_size 1 in min (max initial_size 16) 32)"

text \<open>\<open>elapsed().as_secs() > max_age_sec\<close>; \<open>jitter\<close> is below ten.\<close>

definition tunnel_expired :: "nat \<Rightarrow> tunnel \<Rightarrow> bool" where
  "tunnel_expired now t \<longleftrightarrow> tn_max_age t < (now - tn_created t) div 1000"

definition tunnel_new :: "nat \<Rightarrow> nat \<Rightarrow> nat \<Rightarrow> tunnel" where
  "tunnel_new i now jitter = \<lparr>tn_id = i, tn_created = now, tn_max_age = 20 + jitter\<rparr>"

definition manager_tick :: "nat \<Rightarrow> warm_pool \<Rightarrow> warm_pool" where
  "manager_tick now p =
     (if wp_shutdown p then p
      else
        let wait = wp_wait_events p; gets = wp_total_gets p;
            to_drop = filter (tunnel_expired now) (wp_queue p);
            alive = filter (\<lambda>t. \<not> tunnel_expired now t) (wp_queue p);
            expired_total = wp_expired_unused p + length to_drop
        in p\<lparr>wp_wait_events := 0, wp_total_gets := 0, wp_expired_unused := 0, wp_queue := alive,
             wp_target := decide_new_target (wp_target p) wait gets expired_total (wp_max p)\<rparr>)"

text \<open>The builder's loop, up to its decision how many dials to start, and their start.\<close>

definition burst_count :: "warm_pool \<Rightarrow> nat" where
  "burst_count p =
     (if 0 < ps_failures (wp_stats p) then 1
      else if length (wp_queue p) = 0
        then min (max (wp_target p - (length (wp_queue p) + wp_in_flight p)) 1) 8
      else 1)"

definition builder_plan :: "nat \<Rightarrow> warm_pool \<Rightarrow> warm_pool" where
  "builder_plan now p =
     (if wp_shutdown p \<or> wp_planned p \<noteq> 0 then p
      else case check_auth_pause now (wp_stats p) of ((paused, _), stats) \<Rightarrow>
        let p = p\<lparr>wp_stats := stats\<rparr>; busy = length (wp_queue p) + wp_in_flight p
        in if paused then p
           else if wp_target p \<le> busy \<or> wp_max p \<le> busy then p
           else p\<lparr>wp_planned := burst_count p\<rparr>)"

definition builder_spawn :: "warm_pool \<Rightarrow> warm_pool" where
  "builder_spawn p = p\<lparr>wp_in_flight := wp_in_flight p + wp_planned p, wp_planned := 0\<rparr>"

text \<open>A dial that the builder started ends: it sees the shutdown before it dials, or succeeds
after \<open>ms\<close> with a tunnel, or fails.\<close>

datatype dial_end = Aborted | Dialled u64 nat | DialFailed bool

definition dial_done :: "nat \<Rightarrow> dial_end \<Rightarrow> warm_pool \<Rightarrow> warm_pool" where
  "dial_done now r p =
     (if wp_in_flight p = 0 then p
      else
        let q = p\<lparr>wp_in_flight := wp_in_flight p - 1\<rparr>
        in case r of
             Aborted \<Rightarrow> if wp_shutdown p then q else p
           | Dialled ms jitter \<Rightarrow>
               let q = q\<lparr>wp_stats := snd (record_latency now ms (wp_stats q)), wp_made := wp_made q + 1\<rparr>
               in if wp_shutdown p then q
                  else q\<lparr>wp_queue := wp_queue q @ [tunnel_new (wp_made p) now jitter]\<rparr>
           | DialFailed is_auth \<Rightarrow> q\<lparr>wp_stats := snd (record_failure_typed now is_auth (wp_stats q))\<rparr>)"

definition pool_shutdown :: "bool \<Rightarrow> warm_pool \<Rightarrow> warm_pool" where
  "pool_shutdown queue_locked p =
     (if wp_shutdown p then p
      else (if queue_locked then p else p\<lparr>wp_queue := []\<rparr>)\<lparr>wp_shutdown := True\<rparr>)"

definition purge_idle :: "bool \<Rightarrow> warm_pool \<Rightarrow> warm_pool" where
  "purge_idle queue_locked p =
     (let p = p\<lparr>wp_stats := snd (purge_auth_pause (wp_stats p))\<rparr>
      in if queue_locked then p else p\<lparr>wp_queue := []\<rparr>)"

definition set_pool_size :: "nat \<Rightarrow> warm_pool \<Rightarrow> warm_pool" where
  "set_pool_size new_size p =
     (let size = max new_size 1; old_max = wp_max p; cur = wp_target p;
          new_target = (if old_max < size then max (min (max cur (size div 2)) size) 1
                        else max (min cur size) 1)
      in p\<lparr>wp_max := size, wp_target := new_target\<rparr>)"

text \<open>The takers: the first tunnel that is neither expired nor stale; the others before it are
closed.\<close>

fun pop_valid :: "nat \<Rightarrow> (nat \<Rightarrow> bool) \<Rightarrow> tunnel list \<Rightarrow> tunnel option \<times> tunnel list" where
  "pop_valid now stale [] = (None, [])"
| "pop_valid now stale (t # q) =
     (if tunnel_expired now t then pop_valid now stale q
      else if stale (tn_id t) then pop_valid now stale q
      else (Some t, q))"

definition pop_valid_tunnel ::
    "nat \<Rightarrow> (nat \<Rightarrow> bool) \<Rightarrow> warm_pool \<Rightarrow> tunnel option \<times> warm_pool" where
  "pop_valid_tunnel now stale p =
     (case pop_valid now stale (wp_queue p) of (r, q) \<Rightarrow> (r, p\<lparr>wp_queue := q\<rparr>))"

definition get_fast :: "nat \<Rightarrow> (nat \<Rightarrow> bool) \<Rightarrow> warm_pool \<Rightarrow> tunnel option \<times> warm_pool" where
  "get_fast now stale p = pop_valid_tunnel now stale (p\<lparr>wp_total_gets := wp_total_gets p + 1\<rparr>)"

definition refill_or_take ::
    "nat \<Rightarrow> (nat \<Rightarrow> bool) \<Rightarrow> tunnel \<Rightarrow> warm_pool \<Rightarrow> tunnel option \<times> warm_pool" where
  "refill_or_take now stale t p =
     (if length (wp_queue p) < wp_target p
      then pop_valid_tunnel now stale (p\<lparr>wp_queue := wp_queue p @ [t]\<rparr>)
      else (Some t, p))"

definition note_wait :: "nat \<Rightarrow> nat \<Rightarrow> warm_pool \<Rightarrow> warm_pool" where
  "note_wait now wait_start p =
     (if 50 < now - wait_start then p\<lparr>wp_wait_events := wp_wait_events p + 1\<rparr> else p)"

text \<open>A taker's own dial succeeds; its wait for the queue is woken (a wait that races a dial
counts as such); it gives up.\<close>

definition on_demand_done ::
    "nat \<Rightarrow> (nat \<Rightarrow> bool) \<Rightarrow> nat \<Rightarrow> u64 \<Rightarrow> nat \<Rightarrow> warm_pool \<Rightarrow> tunnel option \<times> warm_pool" where
  "on_demand_done now stale wait_start ms jitter p =
     (let t = tunnel_new (wp_made p) now jitter;
          p = p\<lparr>wp_stats := snd (record_latency now ms (wp_stats p)), wp_made := wp_made p + 1\<rparr>
      in refill_or_take now stale t (note_wait now wait_start p))"

definition wait_woken ::
    "nat \<Rightarrow> (nat \<Rightarrow> bool) \<Rightarrow> bool \<Rightarrow> nat \<Rightarrow> warm_pool \<Rightarrow> tunnel option \<times> warm_pool" where
  "wait_woken now stale raced wait_start p =
     (case pop_valid_tunnel now stale p of
        (None, p1) \<Rightarrow> (None, p1)
      | (Some t, p1) \<Rightarrow> (Some t, if raced then note_wait now wait_start p1 else p1))"

definition get_failed :: "warm_pool \<Rightarrow> warm_pool" where
  "get_failed p = p\<lparr>wp_wait_events := wp_wait_events p + 1\<rparr>"

subsection \<open>One state machine\<close>

datatype pool_op =
    ManagerTick nat
  | BuilderPlan nat
  | BuilderSpawn
  | DialDone nat dial_end
  | Shutdown bool
  | PurgeIdle bool
  | SetPoolSize nat
  | GetFast nat "nat \<Rightarrow> bool"
  | OnDemandDone nat "nat \<Rightarrow> bool" nat u64 nat
  | WaitWoken nat "nat \<Rightarrow> bool" bool nat
  | GetFailed

fun pool_op_result :: "pool_op \<Rightarrow> warm_pool \<Rightarrow> tunnel option \<times> warm_pool" where
  "pool_op_result (ManagerTick now) p = (None, manager_tick now p)"
| "pool_op_result (BuilderPlan now) p = (None, builder_plan now p)"
| "pool_op_result BuilderSpawn p = (None, builder_spawn p)"
| "pool_op_result (DialDone now r) p = (None, dial_done now r p)"
| "pool_op_result (Shutdown l) p = (None, pool_shutdown l p)"
| "pool_op_result (PurgeIdle l) p = (None, purge_idle l p)"
| "pool_op_result (SetPoolSize n) p = (None, set_pool_size n p)"
| "pool_op_result (GetFast now stale) p = get_fast now stale p"
| "pool_op_result (OnDemandDone now stale start ms j) p = on_demand_done now stale start ms j p"
| "pool_op_result (WaitWoken now stale raced start) p = wait_woken now stale raced start p"
| "pool_op_result GetFailed p = (None, get_failed p)"

text \<open>The tunnels handed out so far are kept beside the pool.\<close>

definition pool_step :: "pool_op \<Rightarrow> warm_pool \<times> tunnel list \<Rightarrow> warm_pool \<times> tunnel list" where
  "pool_step op s =
     (case pool_op_result op (fst s) of
        (None, p) \<Rightarrow> (p, snd s)
      | (Some t, p) \<Rightarrow> (p, snd s @ [t]))"

definition tunnels_once :: "warm_pool \<times> tunnel list \<Rightarrow> bool" where
  "tunnels_once s \<longleftrightarrow>
     (case s of (p, given) \<Rightarrow>
        distinct (map tn_id (given @ wp_queue p)) \<and> (\<forall>t\<in>set (given @ wp_queue p). tn_id t < wp_made p))"

lemma pop_valid_split:
  "pop_valid now stale q = (r, q') \<Longrightarrow>
     (case r of
        None \<Rightarrow> q' = [] \<and> (\<forall>t\<in>set q. tunnel_expired now t \<or> stale (tn_id t))
      | Some t \<Rightarrow> \<not> tunnel_expired now t \<and> \<not> stale (tn_id t)
          \<and> (\<exists>bad. q = bad @ t # q' \<and> (\<forall>b\<in>set bad. tunnel_expired now b \<or> stale (tn_id b))))"
proof (induction q)
  case (Cons t q)
  show ?case
  proof (cases "tunnel_expired now t \<or> stale (tn_id t)")
    case True
    with Cons.prems have "pop_valid now stale q = (r, q')" by (auto split: if_splits)
    note IH = Cons.IH [OF this]
    show ?thesis
    proof (cases r)
      case (Some u)
      with IH obtain bad where "q = bad @ u # q'" "\<forall>b\<in>set bad. tunnel_expired now b \<or> stale (tn_id b)"
        by auto
      with True have "t # q = (t # bad) @ u # q' \<and> (\<forall>b\<in>set (t # bad). tunnel_expired now b \<or> stale (tn_id b))"
        by simp
      with IH Some show ?thesis by (simp only: option.case) blast
    qed (use IH True in simp)
  next
    case False
    with Cons.prems show ?thesis by (auto intro: exI [of _ "[]"])
  qed
qed simp

lemma pop_valid_once:
  assumes "tunnels_once (p, given)" "pop_valid_tunnel now stale p = (r, p')"
  shows "tunnels_once (p', given @ (case r of None \<Rightarrow> [] | Some t \<Rightarrow> [t]))"
proof -
  obtain q where q: "pop_valid now stale (wp_queue p) = (r, q)" "p' = p\<lparr>wp_queue := q\<rparr>"
    using assms(2) by (auto simp: pop_valid_tunnel_def split: prod.splits)
  from pop_valid_split [OF q(1)] show ?thesis
    using assms(1) by (auto simp: tunnels_once_def q(2) split: option.splits)
qed

lemma tunnels_once_fields:
  assumes "tunnels_once (p, given)" "wp_made p \<le> wp_made p'"
    and "\<exists>f. wp_queue p' = filter f (wp_queue p)"
  shows "tunnels_once (p', given)"
proof -
  obtain f where f: "wp_queue p' = filter f (wp_queue p)" using assms(3) by blast
  have "distinct (map tn_id (given @ filter f (wp_queue p)))"
    using assms(1) unfolding tunnels_once_def by (auto simp: distinct_map_filter)
  moreover have "\<forall>t\<in>set (given @ filter f (wp_queue p)). tn_id t < wp_made p'"
    using assms(1,2) by (auto simp: tunnels_once_def intro: less_le_trans)
  ultimately show ?thesis by (simp add: tunnels_once_def f)
qed

lemma tunnels_once_cong:
  "tunnels_once (p, g) \<Longrightarrow> wp_queue p' = wp_queue p \<Longrightarrow> wp_made p' = wp_made p \<Longrightarrow> tunnels_once (p', g)"
  by (simp add: tunnels_once_def)

lemma tunnels_once_dropped:
  "tunnels_once (p, g) \<Longrightarrow> wp_queue p' = [] \<Longrightarrow> wp_made p' = wp_made p \<Longrightarrow> tunnels_once (p', g)"
  by (simp add: tunnels_once_def)

lemma push_once:
  assumes "tunnels_once (p, given)" "tn_id t = wp_made p"
    and "wp_queue p' = wp_queue p @ [t]" "wp_made p' = wp_made p + 1"
  shows "tunnels_once (p', given)"
  using assms by (auto simp: tunnels_once_def less_Suc_eq)

lemma tunnel_new_id [simp]: "tn_id (tunnel_new i now j) = i"
  by (simp add: tunnel_new_def)

lemma note_wait_fields [simp]:
  "wp_queue (note_wait now st p) = wp_queue p" "wp_made (note_wait now st p) = wp_made p"
  "wp_target (note_wait now st p) = wp_target p" "wp_max (note_wait now st p) = wp_max p"
  "wp_in_flight (note_wait now st p) = wp_in_flight p" "wp_planned (note_wait now st p) = wp_planned p"
  by (simp_all add: note_wait_def)

lemma note_wait_made: "note_wait now st (p\<lparr>wp_made := n\<rparr>) = (note_wait now st p)\<lparr>wp_made := n\<rparr>"
  by (cases p) (simp add: note_wait_def)

lemma refill_once:
  assumes "tunnels_once (p, given)" "tn_id t = wp_made p"
    and "refill_or_take now stale t (p\<lparr>wp_made := wp_made p + 1\<rparr>) = (r, p')"
  shows "tunnels_once (p', given @ (case r of None \<Rightarrow> [] | Some t \<Rightarrow> [t]))"
proof (cases "length (wp_queue p) < wp_target p")
  case True
  have "tunnels_once (p\<lparr>wp_made := wp_made p + 1, wp_queue := wp_queue p @ [t]\<rparr>, given)"
    by (rule push_once [OF assms(1,2)]) simp_all
  from pop_valid_once [OF this] assms(3) True show ?thesis by (simp add: refill_or_take_def)
next
  case False
  then have "r = Some t" "p' = p\<lparr>wp_made := wp_made p + 1\<rparr>"
    using assms(3) by (auto simp: refill_or_take_def)
  moreover have "tn_id x \<noteq> tn_id t" if "x \<in> set (given @ wp_queue p)" for x
  proof -
    have "tn_id x < wp_made p" using assms(1) that by (auto simp: tunnels_once_def)
    then show ?thesis by (simp add: assms(2))
  qed
  then have "tn_id t \<notin> tn_id ` set given" "tn_id t \<notin> tn_id ` set (wp_queue p)"
    unfolding image_iff by (metis UnCI set_append)+
  ultimately show ?thesis using assms(1,2) by (auto simp: tunnels_once_def less_Suc_eq)
qed

lemma pop_valid_fields:
  "pop_valid_tunnel now stale p = (r, p') \<Longrightarrow> wp_made p' = wp_made p \<and> wp_target p' = wp_target p
     \<and> wp_max p' = wp_max p \<and> wp_in_flight p' = wp_in_flight p \<and> wp_planned p' = wp_planned p"
  by (auto simp: pop_valid_tunnel_def split: prod.splits)

lemma dial_done_once:
  assumes "tunnels_once (p, g)"
  shows "tunnels_once (dial_done now r p, g)"
proof (cases "wp_in_flight p = 0")
  case False
  show ?thesis
  proof (cases r)
    case (Dialled ms j)
    show ?thesis
    proof (cases "wp_shutdown p")
      case True
      with False Dialled show ?thesis
        by (intro tunnels_once_fields [OF assms]) (auto simp: dial_done_def Let_def intro: exI [of _ "\<lambda>_. True"])
    next
      case live: False
      with False Dialled show ?thesis
        by (intro push_once [OF assms, of "tunnel_new (wp_made p) now j"]) (simp_all add: dial_done_def Let_def)
    qed
  qed (use False assms in \<open>auto simp: dial_done_def Let_def intro: tunnels_once_cong\<close>)
qed (use assms in \<open>simp add: dial_done_def\<close>)

lemma on_demand_once:
  assumes "tunnels_once (p, g)" "on_demand_done now stale st ms j p = (r, p')"
  shows "tunnels_once (p', g @ (case r of None \<Rightarrow> [] | Some t \<Rightarrow> [t]))"
proof -
  define p1 where "p1 = note_wait now st (p\<lparr>wp_stats := snd (record_latency now ms (wp_stats p))\<rparr>)"
  have "tunnels_once (p1, g)" by (rule tunnels_once_cong [OF assms(1)]) (simp_all add: p1_def)
  moreover have "refill_or_take now stale (tunnel_new (wp_made p) now j) (p1\<lparr>wp_made := wp_made p1 + 1\<rparr>) = (r, p')"
    using assms(2) by (simp add: on_demand_done_def Let_def p1_def note_wait_made)
  moreover have "tn_id (tunnel_new (wp_made p) now j) = wp_made p1" by (simp add: p1_def)
  ultimately show ?thesis by (intro refill_once)
qed

lemma wait_woken_once:
  assumes "tunnels_once (p, g)" "wait_woken now stale raced st p = (r, p')"
  shows "tunnels_once (p', g @ (case r of None \<Rightarrow> [] | Some t \<Rightarrow> [t]))"
proof -
  obtain r1 p1 where p1: "pop_valid_tunnel now stale p = (r1, p1)" by fastforce
  from pop_valid_once [OF assms(1) this] have "tunnels_once (p1, g @ (case r1 of None \<Rightarrow> [] | Some t \<Rightarrow> [t]))" .
  with assms(2) p1 show ?thesis
    by (auto simp: wait_woken_def split: option.splits intro: tunnels_once_cong)
qed

lemma pool_step_once:
  assumes "tunnels_once s"
  shows "tunnels_once (pool_step op s)"
proof -
  obtain p g where s: "s = (p, g)" by (cases s)
  obtain r p' where r: "pool_op_result op p = (r, p')" by fastforce
  have inv: "tunnels_once (p, g)" using assms by (simp add: s)
  have "tunnels_once (p', g @ (case r of None \<Rightarrow> [] | Some t \<Rightarrow> [t]))"
  proof (cases op)
    case (ManagerTick now)
    with r have p': "p' = manager_tick now p" and none: "r = None" by auto
    have "tunnels_once (manager_tick now p, g)"
      by (rule tunnels_once_fields [OF inv])
        (auto simp: manager_tick_def Let_def intro: exI [of _ "\<lambda>_. True"])
    then show ?thesis by (simp add: p' none)
  next
    case (BuilderPlan now)
    with r show ?thesis
      by (auto simp: builder_plan_def Let_def split: prod.splits if_splits
          intro!: tunnels_once_cong [OF inv])
  next
    case (GetFast now stale)
    have "tunnels_once (p\<lparr>wp_total_gets := wp_total_gets p + 1\<rparr>, g)"
      by (rule tunnels_once_cong [OF inv]) simp_all
    from pop_valid_once [OF this] GetFast r show ?thesis by (simp add: get_fast_def)
  next
    case (Shutdown l)
    with r have p': "p' = pool_shutdown l p" and none: "r = None" by auto
    have "tunnels_once (pool_shutdown l p, g)"
      by (auto simp: pool_shutdown_def inv intro: tunnels_once_cong [OF inv] tunnels_once_dropped [OF inv])
    then show ?thesis by (simp add: p' none)
  next
    case (PurgeIdle l)
    with r have p': "p' = purge_idle l p" and none: "r = None" by auto
    have "tunnels_once (purge_idle l p, g)"
      by (auto simp: purge_idle_def Let_def intro: tunnels_once_cong [OF inv] tunnels_once_dropped [OF inv])
    then show ?thesis by (simp add: p' none)
  qed (use r inv in \<open>auto simp: builder_spawn_def get_failed_def set_pool_size_def Let_def
      intro: dial_done_once on_demand_once wait_woken_once tunnels_once_cong\<close>)
  then show ?thesis by (auto simp: pool_step_def s r split: option.splits)
qed

interpretation pool_tunnels: invariant_machine pool_step tunnels_once
  by unfold_locales (rule pool_step_once)

subsection \<open>Bounds\<close>

definition pool_within :: "nat \<Rightarrow> warm_pool \<Rightarrow> bool" where
  "pool_within M p \<longleftrightarrow> 1 \<le> wp_target p \<and> wp_target p \<le> wp_max p \<and> wp_max p \<le> M
     \<and> wp_in_flight p + wp_planned p \<le> M \<and> length (wp_queue p) + wp_in_flight p + wp_planned p \<le> 2 * M"

lemma decide_new_target_range:
  "1 \<le> cur \<Longrightarrow> cur \<le> mx \<Longrightarrow> 1 \<le> decide_new_target cur w g e mx \<and> decide_new_target cur w g e mx \<le> mx"
  by (auto simp: decide_new_target_def Let_def min_def max_def)

lemma pop_valid_length: "pop_valid now stale q = (r, q') \<Longrightarrow> length q' \<le> length q"
  by (induction q) (auto split: if_splits)

lemma pool_within_shrink:
  assumes "pool_within M p" "wp_target p' = wp_target p" "wp_max p' = wp_max p"
    "wp_in_flight p' = wp_in_flight p" "wp_planned p' = wp_planned p" "length (wp_queue p') \<le> length (wp_queue p)"
  shows "pool_within M p'"
  using assms by (simp add: pool_within_def)

lemma pop_valid_within:
  "pool_within M p \<Longrightarrow> pop_valid_tunnel now stale p = (r, p') \<Longrightarrow> pool_within M p'"
  by (erule pool_within_shrink)
    (auto simp: pop_valid_tunnel_def split: prod.splits dest: pop_valid_length)

lemma burst_count_room:
  "wp_planned p = 0 \<Longrightarrow> length (wp_queue p) + wp_in_flight p < wp_target p
    \<Longrightarrow> length (wp_queue p) + wp_in_flight p + burst_count p \<le> wp_target p"
  by (auto simp: burst_count_def min_def max_def)

fun op_within :: "nat \<Rightarrow> pool_op \<Rightarrow> bool" where
  "op_within M (SetPoolSize n) = (max n 1 \<le> M)"
| "op_within M _ = True"

lemma dial_done_within: "pool_within M p \<Longrightarrow> pool_within M (dial_done now r p)"
  by (cases r) (auto simp: dial_done_def pool_within_def Let_def)

lemma refill_within:
  assumes "pool_within M p" "refill_or_take now stale t p = (r, p')"
  shows "pool_within M p'"
proof (cases "length (wp_queue p) < wp_target p")
  case True
  then have "pool_within M (p\<lparr>wp_queue := wp_queue p @ [t]\<rparr>)"
    using assms(1) by (auto simp: pool_within_def)
  with True assms(2) show ?thesis by (auto simp: refill_or_take_def intro: pop_valid_within)
qed (use assms in \<open>simp add: refill_or_take_def\<close>)

lemma pool_step_within:
  assumes "pool_within M (fst s)" "op_within M op"
  shows "pool_within M (fst (pool_step op s))"
proof -
  obtain p g where s: "s = (p, g)" by (cases s)
  obtain r p' where r: "pool_op_result op p = (r, p')" by fastforce
  have inv: "pool_within M p" using assms(1) by (simp add: s)
  have "pool_within M p'"
  proof (cases op)
    case (ManagerTick now)
    with r have p': "p' = manager_tick now p" by simp
    show ?thesis
    proof (cases "wp_shutdown p")
      case False
      define n where "n = decide_new_target (wp_target p) (wp_wait_events p) (wp_total_gets p)
        (wp_expired_unused p + length (filter (tunnel_expired now) (wp_queue p))) (wp_max p)"
      have "pool_within M (p\<lparr>wp_target := n\<rparr>)"
        using inv decide_new_target_range [of "wp_target p" "wp_max p"] by (simp add: pool_within_def n_def)
      then show ?thesis
        by (rule pool_within_shrink) (simp_all add: p' manager_tick_def Let_def n_def False)
    qed (use inv in \<open>simp add: p' manager_tick_def\<close>)
  next
    case (BuilderPlan now)
    obtain b e st where c: "check_auth_pause now (wp_stats p) = ((b, e), st)" by (metis prod_cases3 prod.collapse)
    with BuilderPlan r inv burst_count_room [of "p\<lparr>wp_stats := st\<rparr>"] show ?thesis
      by (auto simp: builder_plan_def Let_def pool_within_def)
  next
    case (OnDemandDone now stale st ms j)
    define p1 where "p1 = note_wait now st (p\<lparr>wp_stats := snd (record_latency now ms (wp_stats p)),
      wp_made := wp_made p + 1\<rparr>)"
    have "pool_within M p1" using inv by (simp add: p1_def pool_within_def)
    with OnDemandDone r refill_within show ?thesis
      by (auto simp: on_demand_done_def Let_def p1_def)
  next
    case (WaitWoken now stale raced st)
    obtain r1 p1 where p1: "pop_valid_tunnel now stale p = (r1, p1)" by fastforce
    from pop_valid_within [OF inv this] have "pool_within M p1" .
    with WaitWoken r p1 show ?thesis
      by (auto simp: wait_woken_def pool_within_def split: option.splits)
  next
    case (GetFast now stale)
    have "pool_within M (p\<lparr>wp_total_gets := wp_total_gets p + 1\<rparr>)" using inv by (simp add: pool_within_def)
    with GetFast r show ?thesis by (auto simp: get_fast_def intro: pop_valid_within)
  next
    case (SetPoolSize n)
    with r inv assms(2) show ?thesis by (auto simp: set_pool_size_def Let_def pool_within_def)
  next
    case (Shutdown l)
    with r have "p' = pool_shutdown l p" by simp
    then show ?thesis by (intro pool_within_shrink [OF inv]) (simp_all add: pool_shutdown_def)
  next
    case (PurgeIdle l)
    with r have "p' = purge_idle l p" by simp
    then show ?thesis by (intro pool_within_shrink [OF inv]) (simp_all add: purge_idle_def Let_def)
  next
    case (DialDone now e)
    with r dial_done_within [OF inv] show ?thesis by auto
  next
    case BuilderSpawn
    with r inv show ?thesis by (auto simp: builder_spawn_def pool_within_def)
  next
    case GetFailed
    with r inv show ?thesis by (auto simp: get_failed_def pool_within_def)
  qed
  then show ?thesis by (auto simp: pool_step_def s r split: option.splits)
qed

lemma pool_run_within:
  "pool_within M (fst s) \<Longrightarrow> list_all (op_within M) ops \<Longrightarrow> pool_within M (fst (fold pool_step ops s))"
  by (induction ops arbitrary: s) (simp_all add: pool_step_within)

subsection \<open>The pause holds\<close>

fun keeps_pause :: "nat \<Rightarrow> pool_op \<Rightarrow> bool" where
  "keeps_pause t0 (BuilderPlan now) = (now < t0 + auth_pause_duration)"
| "keeps_pause t0 (PurgeIdle l) = False"
| "keeps_pause t0 (OnDemandDone now stale st ms j) = False"
| "keeps_pause t0 (DialDone now (Dialled ms j)) = False"
| "keeps_pause t0 _ = True"

definition paused_since :: "nat \<Rightarrow> warm_pool \<Rightarrow> bool" where
  "paused_since t0 p \<longleftrightarrow> ap_paused_at (ps_tracker (wp_stats p)) = Some t0 \<and> wp_planned p = 0"

lemma check_auth_pause_paused:
  "ap_paused_at (ps_tracker st) = Some t0 \<Longrightarrow> now < t0 + auth_pause_duration \<Longrightarrow> 0 < auth_pause_duration
    \<Longrightarrow> \<exists>st'. check_auth_pause now st = ((True, False), st') \<and> ap_paused_at (ps_tracker st') = Some t0"
  by (auto simp: check_auth_pause_def check_paused_def Let_def)

lemma plan_while_paused:
  assumes "paused_since t0 p" "now < t0 + auth_pause_duration"
  shows "paused_since t0 (builder_plan now p)"
proof -
  obtain st' where "check_auth_pause now (wp_stats p) = ((True, False), st')"
      "ap_paused_at (ps_tracker st') = Some t0"
    using check_auth_pause_paused [of "wp_stats p" t0 now] assms
    by (auto simp: paused_since_def auth_pause_duration_def)
  with assms(1) show ?thesis by (simp add: builder_plan_def paused_since_def Let_def)
qed

lemma paused_since_cong:
  "paused_since t0 p \<Longrightarrow> ap_paused_at (ps_tracker (wp_stats p')) = ap_paused_at (ps_tracker (wp_stats p))
    \<Longrightarrow> wp_planned p' = wp_planned p \<Longrightarrow> paused_since t0 p'"
  by (simp add: paused_since_def)

lemma pop_valid_stats: "pop_valid_tunnel now stale p = (r, p') \<Longrightarrow> wp_stats p' = wp_stats p"
  by (auto simp: pop_valid_tunnel_def split: prod.splits)

lemma dial_failed_paused:
  "paused_since t0 p \<Longrightarrow> paused_since t0 (dial_done now (DialFailed a) p)"
  by (auto simp: paused_since_def dial_done_def record_failure_typed_def record_auth_failure_def
      record_non_auth_failure_def Let_def)

lemma pause_step:
  assumes "paused_since t0 (fst s)" "keeps_pause t0 op"
  shows "paused_since t0 (fst (pool_step op s))"
proof -
  obtain p g where s: "s = (p, g)" by (cases s)
  obtain r p' where r: "pool_op_result op p = (r, p')" by fastforce
  have inv: "paused_since t0 p" using assms(1) by (simp add: s)
  have "paused_since t0 p'"
  proof (cases op)
    case (BuilderPlan now)
    with r assms(2) plan_while_paused [OF inv] show ?thesis by auto
  next
    case (DialDone now e)
    with r assms(2) inv dial_failed_paused [OF inv] show ?thesis
      by (cases e) (auto simp: dial_done_def Let_def paused_since_def)
  next
    case (GetFast now stale)
    with r have "pop_valid_tunnel now stale (p\<lparr>wp_total_gets := wp_total_gets p + 1\<rparr>) = (r, p')"
      by (simp add: get_fast_def)
    from pop_valid_stats [OF this] pop_valid_fields [OF this] inv show ?thesis by (simp add: paused_since_def)
  next
    case (WaitWoken now stale raced st)
    obtain r1 p1 where p1: "pop_valid_tunnel now stale p = (r1, p1)" by fastforce
    from pop_valid_stats [OF this] pop_valid_fields [OF this] inv have "paused_since t0 p1"
      by (simp add: paused_since_def)
    with WaitWoken r p1 show ?thesis
      by (auto simp: wait_woken_def paused_since_def note_wait_def split: option.splits)
  next
    case (ManagerTick now)
    with r inv show ?thesis by (auto simp: manager_tick_def Let_def paused_since_def)
  next
    case BuilderSpawn
    with r inv show ?thesis by (auto simp: builder_spawn_def paused_since_def)
  next
    case (SetPoolSize n)
    with r inv show ?thesis by (auto simp: set_pool_size_def Let_def paused_since_def)
  next
    case (Shutdown l)
    with r inv show ?thesis by (auto simp: pool_shutdown_def paused_since_def)
  next
    case GetFailed
    with r inv show ?thesis by (auto simp: get_failed_def paused_since_def)
  qed (use assms(2) in simp_all)
  then show ?thesis by (auto simp: pool_step_def s r split: option.splits)
qed

lemma pause_run:
  "paused_since t0 (fst s) \<Longrightarrow> list_all (keeps_pause t0) ops \<Longrightarrow> paused_since t0 (fst (fold pool_step ops s))"
  by (induction ops arbitrary: s) (simp_all add: pause_step)

definition refused :: "u32 \<Rightarrow> nat \<Rightarrow> warm_pool \<Rightarrow> bool" where
  "refused k busy p \<longleftrightarrow> ap_failures (ps_tracker (wp_stats p)) = k
     \<and> ap_paused_at (ps_tracker (wp_stats p)) = None \<and> busy \<le> wp_in_flight p \<and> wp_planned p = 0"

lemma refused_again:
  "refused k (Suc busy) p \<Longrightarrow> k + 1 < 5 \<Longrightarrow> refused (k + 1) busy (dial_done t (DialFailed True) p)"
  by (auto simp: refused_def dial_done_def record_failure_typed_def record_auth_failure_def
      auth_failures_threshold_def Let_def)

lemma refused_last:
  "refused 4 (Suc busy) p \<Longrightarrow> paused_since t (dial_done t (DialFailed True) p)"
  by (simp add: refused_def paused_since_def dial_done_def record_failure_typed_def record_auth_failure_def
      auth_failures_threshold_def Let_def)

lemma Suc_1_2: "Suc (Suc 0) = 2" by simp

lemma refused_five:
  assumes "refused 0 5 p"
  shows "paused_since t0 (fold (\<lambda>t. dial_done t (DialFailed True)) [t1, t2, t3, t4, t0] p)"
proof -
  have "refused 0 (Suc 4) p" using assms by simp
  then have "refused 1 (Suc 3) (dial_done t1 (DialFailed True) p)"
    using refused_again [of 0 4 p t1] by simp
  then have "refused 2 (Suc 2) (dial_done t2 (DialFailed True) (dial_done t1 (DialFailed True) p))"
    using refused_again [of 1 3 _ t2] by simp
  then have "refused 3 2 (dial_done t3 (DialFailed True) (dial_done t2 (DialFailed True)
      (dial_done t1 (DialFailed True) p)))"
    using refused_again [of 2 2 _ t3] by simp
  then have "refused 4 (Suc 0) (dial_done t4 (DialFailed True) (dial_done t3 (DialFailed True)
      (dial_done t2 (DialFailed True) (dial_done t1 (DialFailed True) p))))"
    using refused_again [of 3 1 _ t4] by (simp add: Suc_1_2)
  from refused_last [OF this] show ?thesis by simp
qed

subsection \<open>Properties\<close>


text \<open>The pool stays within its size: with every resize at most \<open>M\<close>, the target lies between
one and the maximum, at most \<open>M\<close> dials are under way, and the idle tunnels with them are at most
twice \<open>M\<close>, although the takers put their own dials back into the pool.\<close>
theorem pool_stays_within:
  assumes "max n 1 \<le> M" "list_all (op_within M) ops"
    and "p = fst (fold pool_step ops (pool_new n, []))"
  shows "1 \<le> wp_target p \<and> wp_target p \<le> wp_max p \<and> wp_max p \<le> M \<and> wp_in_flight p \<le> M
    \<and> length (wp_queue p) + wp_in_flight p \<le> 2 * M"
proof -
  have "pool_within M (fst (pool_new n, []))"
    using assms(1) by (simp add: pool_within_def pool_new_def Let_def)
  from pool_run_within [OF this assms(2)] show ?thesis by (simp add: pool_within_def assms(3))
qed

text \<open>Five refused logins in a row stop the builder: from then on it plans no dial for five
minutes, whatever else happens except a successful dial or a purge, and at the end of them the
pause is over.\<close>
theorem auth_pause_policy:
  assumes "ap_failures (ps_tracker (wp_stats p)) = 0" "ap_paused_at (ps_tracker (wp_stats p)) = None"
    and "5 \<le> wp_in_flight p" "wp_planned p = 0"
    and "p1 = fold (\<lambda>t. dial_done t (DialFailed True)) [t1, t2, t3, t4, t0] p"
    and "list_all (keeps_pause t0) ops" "p2 = fst (fold pool_step ops (p1, given))"
  shows "(now < t0 + 300000 \<longrightarrow> wp_planned (builder_plan now p2) = 0)
    \<and> (t0 + 300000 \<le> now \<longrightarrow> fst (check_auth_pause now (wp_stats p2)) = (False, True))"
proof -
  have "paused_since t0 p1"
    unfolding assms(5) using assms(1-4) by (intro refused_five) (simp add: refused_def)
  with pause_run [of t0 "(p1, given)" ops] assms(6) have p2: "paused_since t0 p2" by (simp add: assms(7))
  have "wp_planned (builder_plan now p2) = 0" if "now < t0 + 300000"
    using plan_while_paused [OF p2] that by (simp add: auth_pause_duration_def paused_since_def)
  moreover have "fst (check_auth_pause now (wp_stats p2)) = (False, True)" if "t0 + 300000 \<le> now"
    using p2 that by (simp add: paused_since_def check_auth_pause_def check_paused_def auth_pause_duration_def)
  ultimately show ?thesis by blast
qed

lemma backoff_bounds:
  assumes "\<And>lo hi. lo \<le> hi \<Longrightarrow> lo \<le> draw lo hi \<and> draw lo hi \<le> hi"
  shows "builder_backoff draw f \<le> 72000" "f \<noteq> 0 \<Longrightarrow> 400 \<le> builder_backoff draw f"
proof -
  have b: "backoff_base f \<le> 60000" "500 \<le> backoff_base f"
    by (simp_all add: backoff_base_def)
  have d: "backoff_base f * 80 div 100 \<le> backoff_base f * 120 div 100" by (rule div_le_mono) simp
  have "backoff_base f * 120 div 100 \<le> 72000" "400 \<le> backoff_base f * 80 div 100" using b by linarith+
  with assms [OF d] show "builder_backoff draw f \<le> 72000" "f \<noteq> 0 \<Longrightarrow> 400 \<le> builder_backoff draw f"
    by (auto simp: builder_backoff_def intro: order_trans)
qed

lemma dead_pool_stays_unhealthy:
  "3 \<le> ps_failures st \<Longrightarrow> ps_failures st \<noteq> - 1
    \<Longrightarrow> \<not> stats_healthy (snd (record_failure_typed now a st)) \<and> \<not> stats_healthy (snd (check_auth_pause now st))"
  by (auto simp: stats_healthy_def record_failure_typed_def check_auth_pause_def word_less_nat_alt word_le_nat_alt
      unat_succ split: prod.splits)

subsection \<open>Witnesses\<close>
lemma pool_stays_within_witness:
  "1 \<le> wp_target (fst (fold pool_step [BuilderPlan 0, BuilderSpawn, SetPoolSize 4, DialDone 9 (Dialled 9 3),
      GetFast 10 (\<lambda>_. False)] (pool_new 2, []))) \<and>
   wp_in_flight (fst (fold pool_step [BuilderPlan 0, BuilderSpawn, SetPoolSize 4, DialDone 9 (Dialled 9 3),
      GetFast 10 (\<lambda>_. False)] (pool_new 2, []))) \<le> 4"
  using pool_stays_within [of 2 4 "[BuilderPlan 0, BuilderSpawn, SetPoolSize 4, DialDone 9 (Dialled 9 3),
      GetFast 10 (\<lambda>_. False)]", OF _ _ refl] by simp

lemma auth_pause_policy_witness:
  "wp_planned (builder_plan 200000 (fst (fold pool_step [GetFast 30 (\<lambda>_. False), BuilderPlan 100, GetFailed]
     (fold (\<lambda>t. dial_done t (DialFailed True)) [1, 2, 3, 4, 5] ((pool_new 8)\<lparr>wp_in_flight := 6\<rparr>), [])))) = 0"
  using auth_pause_policy [of "(pool_new 8)\<lparr>wp_in_flight := 6\<rparr>", OF _ _ _ _ refl _ refl,
      of 5 "[GetFast 30 (\<lambda>_. False), BuilderPlan 100, GetFailed]" 200000 1 2 3 4 "[]"]
  by (simp add: pool_new_def stats_new_def tracker_new_def auth_pause_duration_def)

end
