(* ===== verification/ClientHello.thy ===== *)
theory ClientHello
  imports Sniffer Complex_Main "HOL-Library.Multiset"
begin

text \<open>\<open>crypto/tls_raw.rs\<close>: the ClientHellos that imitate Chromium, Firefox and OkHttp and
carry the session token as session id, and the patching of a captured template. Every random
draw is an argument; a loop that redraws until two values differ takes the list of its draws and
is \<open>None\<close> while they last.\<close>

subsection \<open>Constants\<close>

definition grease_values :: "u16 list" where
  "grease_values = [0x0A0A, 0x1A1A, 0x2A2A, 0x3A3A, 0x4A4A, 0x5A5A, 0x6A6A, 0x7A7A, 0x8A8A, 0x9A9A,
     0xAAAA, 0xBABA, 0xCACA, 0xDADA, 0xEAEA, 0xFAFA]"

definition get_grease :: "nat \<Rightarrow> u16" where
  "get_grease i = grease_values ! i"

definition chromium_ciphers :: "u16 list" where
  "chromium_ciphers = [0x1301, 0x1302, 0x1303, 0xC02B, 0xC02F, 0xC02C, 0xC030, 0xCCA9, 0xCCA8, 0xC013,
     0xC014, 0x009C, 0x009D, 0x002F, 0x0035]"

definition chromium_groups :: "u16 list" where
  "chromium_groups = [0x11EC, 0x001D, 0x0017, 0x0018]"

definition sigalgs :: bytes where
  "sigalgs = [0x00, 0x16, 0x09, 0x04, 0x09, 0x05, 0x09, 0x06, 0x04, 0x03, 0x08, 0x04, 0x04, 0x01, 0x05,
     0x03, 0x08, 0x05, 0x05, 0x01, 0x08, 0x06, 0x06, 0x01]"

definition alpn :: bytes where
  "alpn = [0x00, 0x0c, 0x02] @ bytes_of ''h2'' @ [0x08] @ bytes_of ''http/1.1''"

definition alps :: bytes where "alps = [0x00, 0x03, 0x02] @ bytes_of ''h2''"
definition cert_compress :: bytes where "cert_compress = [0x02, 0x00, 0x02]"
definition status_request :: bytes where "status_request = [0x01, 0x00, 0x00, 0x00, 0x00]"
definition ec_point_formats :: bytes where "ec_point_formats = [0x01, 0x00]"
definition psk_modes :: bytes where "psk_modes = [0x01, 0x01]"
definition hybrid_keyshare_len :: nat where "hybrid_keyshare_len = 1216"
definition mlkem768_ek_len :: nat where "mlkem768_ek_len = 1184"

definition be16s :: "u16 list \<Rightarrow> bytes" where
  "be16s ws = concat (map be16 ws)"

text \<open>An encapsulation key from 384 pairs of coefficients and 32 bytes.\<close>

definition pack_pair :: "u16 \<times> u16 \<Rightarrow> bytes" where
  "pack_pair c = (case c of (c0, c1) \<Rightarrow>
     [ucast (c0 AND 0xFF),
      ucast (drop_bit 8 c0 AND 0x0F) OR push_bit 4 (ucast (c1 AND 0x0F)),
      ucast (drop_bit 4 c1 AND 0xFF)])"

definition mlkem768_valid_encap_key :: "(u16 \<times> u16) list \<Rightarrow> bytes \<Rightarrow> bytes" where
  "mlkem768_valid_encap_key coeffs rho = concat (map pack_pair coeffs) @ rho"

subsection \<open>Extensions\<close>

definition ext :: "u16 \<Rightarrow> bytes \<Rightarrow> bytes" where
  "ext ext_type data = be16 ext_type @ be16 (of_nat (length data)) @ data"

definition server_name_ext :: "bytes \<Rightarrow> bytes" where
  "server_name_ext sni_bytes =
     (let entry = [0] @ be16 (of_nat (length sni_bytes)) @ sni_bytes;
          data = be16 (of_nat (length entry)) @ entry
      in ext 0x0000 data)"

definition list_ext :: "u16 \<Rightarrow> bytes \<Rightarrow> bytes" where
  "list_ext ext_type l = ext ext_type (be16 (of_nat (length l)) @ l)"

definition supported_versions_ext :: "u16 \<Rightarrow> bytes" where
  "supported_versions_ext grease_val = ext 0x002b ([6] @ be16 grease_val @ be16 0x0304 @ be16 0x0303)"

definition supported_groups_ext :: "u16 \<Rightarrow> bytes" where
  "supported_groups_ext grease_val = list_ext 0x000a (be16 grease_val @ be16s chromium_groups)"

definition key_share_ext :: "u16 \<Rightarrow> bytes \<Rightarrow> bytes \<Rightarrow> bytes \<Rightarrow> bytes" where
  "key_share_ext grease_val mlkem x_hybrid x25519 =
     list_ext 0x0033 (be16 grease_val @ be16 1 @ [0x00]
       @ be16 0x11EC @ be16 (of_nat hybrid_keyshare_len) @ mlkem @ x_hybrid
       @ be16 0x001D @ be16 32 @ x25519)"

definition ech_body :: "u16 \<Rightarrow> bytes \<Rightarrow> bytes \<Rightarrow> nat \<Rightarrow> bytes \<Rightarrow> bytes" where
  "ech_body aead cid enc payload_len payload =
     [0x00] @ be16 0x0001 @ be16 aead @ cid @ be16 32 @ enc @ be16 (of_nat payload_len) @ payload"

definition ech_grease_ext :: "bytes \<Rightarrow> bytes \<Rightarrow> bytes \<Rightarrow> bytes" where
  "ech_grease_ext cid enc payload = ext 0xfe0d (ech_body 0x0001 cid enc 208 payload)"

definition assemble :: "bytes \<Rightarrow> bytes \<Rightarrow> bytes \<Rightarrow> bytes \<Rightarrow> bytes" where
  "assemble session_id client_random cipher_suites extensions =
     (let hello_body = [0x03, 0x03] @ client_random @ [of_nat (length session_id)] @ session_id
            @ be16 (of_nat (length cipher_suites)) @ cipher_suites @ [0x01, 0x00]
            @ be16 (of_nat (length extensions)) @ extensions;
          hs = [0x01] @ be24 (of_nat (length hello_body)) @ hello_body
      in [0x16, 0x03, 0x01] @ be16 (of_nat (length hs)) @ hs)"

subsection \<open>Chromium\<close>

text \<open>The shuffle: \<open>js\<close> are the draws for \<open>i\<close> from the last index down to 1.\<close>

definition swap :: "nat \<Rightarrow> nat \<Rightarrow> 'a list \<Rightarrow> 'a list" where
  "swap i j xs = xs[i := xs ! j, j := xs ! i]"

definition shuffle :: "nat list \<Rightarrow> 'a list \<Rightarrow> 'a list" where
  "shuffle js xs = fold (\<lambda>(i, j). swap i j) (zip (rev [1..<length xs]) js) xs"

text \<open>The loop that draws until the value differs.\<close>

definition other_grease :: "u16 \<Rightarrow> nat list \<Rightarrow> u16 option" where
  "other_grease g_first draws = find (\<lambda>g. g \<noteq> g_first) (map get_grease draws)"

record chromium_draws =
  cd_cipher :: nat
  cd_sv :: nat
  cd_groups :: nat
  cd_ks :: nat
  cd_first :: nat
  cd_last :: "nat list"
  cd_shuffle :: "nat list"
  cd_coeffs :: "(u16 \<times> u16) list"
  cd_rho :: bytes
  cd_x_hybrid :: bytes
  cd_x25519 :: bytes
  cd_cid :: bytes
  cd_enc :: bytes
  cd_payload :: bytes

definition chromium_middle :: "chromium_draws \<Rightarrow> bytes \<Rightarrow> bytes list" where
  "chromium_middle d sni_bytes =
     [supported_versions_ext (get_grease (cd_sv d)),
      ech_grease_ext (cd_cid d) (cd_enc d) (cd_payload d),
      ext 0x000b ec_point_formats,
      ext 0x0017 [],
      supported_groups_ext (get_grease (cd_groups d)),
      ext 0x002d psk_modes,
      ext 0x0023 [],
      ext 0xff01 [0x00],
      ext 0x0010 alpn,
      ext 0x0005 status_request,
      ext 0x0012 [],
      server_name_ext sni_bytes,
      ext 0x44cd alps,
      ext 0x000d sigalgs,
      key_share_ext (get_grease (cd_ks d)) (mlkem768_valid_encap_key (cd_coeffs d) (cd_rho d))
        (cd_x_hybrid d) (cd_x25519 d),
      ext 0x001b cert_compress]"

definition build_chromium :: "chromium_draws \<Rightarrow> bytes \<Rightarrow> bytes \<Rightarrow> bytes \<Rightarrow> bytes option" where
  "build_chromium d sni_bytes session_id client_random =
     (let ciphers = be16 (get_grease (cd_cipher d)) @ be16s chromium_ciphers;
          middle = shuffle (cd_shuffle d) (chromium_middle d sni_bytes);
          g_first = get_grease (cd_first d)
      in case other_grease g_first (cd_last d) of
           None \<Rightarrow> None
         | Some g_last \<Rightarrow>
             Some (assemble session_id client_random ciphers
               (ext g_first [] @ concat middle @ ext g_last [0x00])))"

subsection \<open>Firefox\<close>

definition firefox_ciphers :: "u16 list" where
  "firefox_ciphers = [0x1301, 0x1303, 0x1302, 0xc02b, 0xc02f, 0xcca9, 0xcca8, 0xc02c, 0xc030, 0xc00a,
     0xc013, 0xc014, 0x009c, 0x009d, 0x002f, 0x0035]"

definition firefox_groups :: "u16 list" where
  "firefox_groups = [0x11ec, 0x001d, 0x0017, 0x0018, 0x0019, 0x0100, 0x0101]"

definition firefox_sigalgs :: bytes where
  "firefox_sigalgs = [0x00, 0x16, 0x04, 0x03, 0x05, 0x03, 0x06, 0x03, 0x08, 0x04, 0x08, 0x05, 0x08,
     0x06, 0x04, 0x01, 0x05, 0x01, 0x06, 0x01, 0x02, 0x03, 0x02, 0x01]"

definition firefox_deleg_creds :: bytes where
  "firefox_deleg_creds = [0x00, 0x08, 0x04, 0x03, 0x05, 0x03, 0x06, 0x03, 0x02, 0x03]"

definition firefox_cert_compress :: bytes where
  "firefox_cert_compress = [0x06, 0x00, 0x01, 0x00, 0x02, 0x00, 0x03]"

definition ff_supported_versions_ext :: bytes where
  "ff_supported_versions_ext = ext 0x002b [0x04, 0x03, 0x04, 0x03, 0x03]"

definition ff_supported_groups_ext :: bytes where
  "ff_supported_groups_ext = list_ext 0x000a (be16s firefox_groups)"

text \<open>The P-256 point: 65 random bytes, of which the first is then set.\<close>

definition ff_key_share_ext :: "bytes \<Rightarrow> bytes \<Rightarrow> bytes \<Rightarrow> bytes \<Rightarrow> bytes" where
  "ff_key_share_ext mlkem xh x p =
     list_ext 0x0033 (be16 0x11EC @ be16 (of_nat hybrid_keyshare_len) @ mlkem @ xh
       @ be16 0x001D @ be16 32 @ x @ be16 0x0017 @ be16 65 @ p[0 := 0x04])"

definition ff_ech_ext :: "bool \<Rightarrow> bytes \<Rightarrow> bytes \<Rightarrow> bytes \<Rightarrow> bytes" where
  "ff_ech_ext coin cid enc payload =
     ext 0xfe0d (ech_body (if coin then 0x0001 else 0x0003) cid enc 239 payload)"

record firefox_draws =
  fd_coeffs :: "(u16 \<times> u16) list"
  fd_rho :: bytes
  fd_x_hybrid :: bytes
  fd_x25519 :: bytes
  fd_point :: bytes
  fd_coin :: bool
  fd_cid :: bytes
  fd_enc :: bytes
  fd_payload :: bytes

definition build_firefox :: "firefox_draws \<Rightarrow> bytes \<Rightarrow> bytes \<Rightarrow> bytes \<Rightarrow> bytes" where
  "build_firefox d sni_bytes session_id client_random =
     (let exts_list =
        [server_name_ext sni_bytes,
         ext 0x0017 [],
         ext 0xff01 [0x00],
         ff_supported_groups_ext,
         ext 0x000b ec_point_formats,
         ext 0x0023 [],
         ext 0x0010 alpn,
         ext 0x0005 status_request,
         ext 0x0022 firefox_deleg_creds,
         ext 0x0012 [],
         ff_key_share_ext (mlkem768_valid_encap_key (fd_coeffs d) (fd_rho d)) (fd_x_hybrid d)
           (fd_x25519 d) (fd_point d),
         ff_supported_versions_ext,
         ext 0x000d firefox_sigalgs,
         ext 0x002d psk_modes,
         ext 0x001c [0x40, 0x01],
         ext 0x001b firefox_cert_compress,
         ff_ech_ext (fd_coin d) (fd_cid d) (fd_enc d) (fd_payload d)]
      in assemble session_id client_random (be16s firefox_ciphers) (concat exts_list))"

subsection \<open>OkHttp\<close>

definition okhttp_sigalgs :: bytes where
  "okhttp_sigalgs = [0x00, 0x10, 0x04, 0x03, 0x08, 0x04, 0x04, 0x01, 0x05, 0x03, 0x08, 0x05, 0x05, 0x01,
     0x08, 0x06, 0x06, 0x01]"

definition okhttp_pad_target :: nat where "okhttp_pad_target = 512"

definition ok_supported_groups_ext :: "u16 \<Rightarrow> bytes" where
  "ok_supported_groups_ext grease = list_ext 0x000a (be16 grease @ be16s [0x001d, 0x0017, 0x0018])"

definition ok_supported_versions_ext :: "u16 \<Rightarrow> bytes" where
  "ok_supported_versions_ext grease =
     ext 0x002b ([10] @ be16 grease @ be16s [0x0304, 0x0303, 0x0302, 0x0301])"

definition ok_key_share_ext :: "u16 \<Rightarrow> bytes \<Rightarrow> bytes" where
  "ok_key_share_ext grease x =
     list_ext 0x0033 (be16 grease @ be16 1 @ [0x00] @ be16 0x001D @ be16 32 @ x)"

record okhttp_draws =
  od_cipher :: nat
  od_first :: nat
  od_last :: "nat list"
  od_groups :: nat
  od_ks :: nat
  od_x25519 :: bytes
  od_sv :: nat

definition okhttp_exts :: "okhttp_draws \<Rightarrow> u16 \<Rightarrow> u16 \<Rightarrow> bytes \<Rightarrow> bytes list" where
  "okhttp_exts d g_first g_last sni_bytes =
     [ext g_first [],
      server_name_ext sni_bytes,
      ext 0x0017 [],
      ext 0xff01 [0x00],
      ok_supported_groups_ext (get_grease (od_groups d)),
      ext 0x000b ec_point_formats,
      ext 0x0023 [],
      ext 0x0010 alpn,
      ext 0x0005 status_request,
      ext 0x000d okhttp_sigalgs,
      ext 0x0012 [],
      ok_key_share_ext (get_grease (od_ks d)) (od_x25519 d),
      ext 0x002d psk_modes,
      ok_supported_versions_ext (get_grease (od_sv d)),
      ext 0x001b cert_compress,
      ext g_last [0x00]]"

definition build_okhttp :: "okhttp_draws \<Rightarrow> bytes \<Rightarrow> bytes \<Rightarrow> bytes \<Rightarrow> bytes option" where
  "build_okhttp d sni_bytes session_id client_random =
     (let ciphers = be16 (get_grease (od_cipher d)) @ be16s chromium_ciphers;
          g_first = get_grease (od_first d)
      in case other_grease g_first (od_last d) of
           None \<Rightarrow> None
         | Some g_last \<Rightarrow>
             let exts_bytes = concat (okhttp_exts d g_first g_last sni_bytes);
                 trial = assemble session_id client_random ciphers exts_bytes;
                 payload = length trial - 5;
                 padded = (if payload + 4 < okhttp_pad_target
                   then exts_bytes @ ext 0x0015 (replicate (okhttp_pad_target - payload - 4) 0)
                   else exts_bytes)
             in Some (assemble session_id client_random ciphers padded))"

subsection \<open>A captured template\<close>

definition u16be :: "bytes \<Rightarrow> nat \<Rightarrow> nat option" where
  "u16be b off = (if off + 1 < length b then Some (word_be b off) else None)"

definition patch_u16 :: "nat \<Rightarrow> int \<Rightarrow> bytes \<Rightarrow> bytes" where
  "patch_u16 off delta b =
     take off b @ be16 (word_of_int (int (word_be b off) + delta)) @ drop (off + 2) b"

definition patch_u24 :: "nat \<Rightarrow> int \<Rightarrow> bytes \<Rightarrow> bytes" where
  "patch_u24 off delta b =
     (let cur = unat (b ! off) * 65536 + unat (b ! (off + 1)) * 256 + unat (b ! (off + 2))
      in take off b @ be24 (word_of_int (int cur + delta)) @ drop (off + 3) b)"

definition copy_at :: "nat \<Rightarrow> bytes \<Rightarrow> bytes \<Rightarrow> bytes" where
  "copy_at off src b = take off b @ src @ drop (off + length src) b"

text \<open>The first server-name extension from \<open>p\<close> on: its offset and its length with its head.\<close>

function template_sni :: "bytes \<Rightarrow> nat \<Rightarrow> nat \<Rightarrow> (nat \<times> nat) option" where
  "template_sni tpl ext_end p =
     (if ext_end < p + 4 then None
      else case (u16be tpl p, u16be tpl (p + 2)) of
        (Some etype, Some elen) \<Rightarrow>
          if etype = 0 then Some (p, 4 + elen) else template_sni tpl ext_end (p + 4 + elen)
      | _ \<Rightarrow> None)"
  by pat_completeness auto
termination
  by (relation "measure (\<lambda>(_, e, p). e - p)") auto

declare template_sni.simps [simp del]

definition build_from_template :: "bytes \<Rightarrow> bytes \<Rightarrow> bytes \<Rightarrow> bytes \<Rightarrow> bytes option" where
  "build_from_template tpl server_name session_id client_random =
     (if length tpl < 44 \<or> tpl ! 0 \<noteq> 0x16 \<or> tpl ! 5 \<noteq> 0x01 then None
      else if tpl ! 43 \<noteq> 32 then None
      else case u16be tpl 76 of None \<Rightarrow> None
      | Some cs_len \<Rightarrow>
          let p = 76 + (2 + cs_len) in if length tpl \<le> p then None
          else
            let p = p + (1 + unat (tpl ! p)); ext_total_off = p
            in case u16be tpl p of None \<Rightarrow> None
            | Some ext_total \<Rightarrow>
                let p = p + 2; ext_end = p + ext_total
                in if length tpl < ext_end then None
                   else case template_sni tpl ext_end p of None \<Rightarrow> None
                   | Some (sni_off, sni_total) \<Rightarrow>
                       if ext_end < sni_off + sni_total then None
                       else
                         let new_ext = server_name_ext server_name;
                             delta = int (length new_ext) - int sni_total;
                             out = take sni_off tpl @ new_ext @ drop (sni_off + sni_total) tpl;
                             out = copy_at 11 client_random out;
                             out = copy_at 44 session_id out;
                             out = patch_u16 3 delta out;
                             out = patch_u24 6 delta out
                         in Some (patch_u16 ext_total_off delta out))"

subsection \<open>The choice of the hello\<close>

datatype profile = Chromium | Firefox | OkHttp

text \<open>\<open>r\<close> is drawn from the unit interval; the bounds are the binary64 values 0.60 and 0.85.\<close>

definition pick_profile :: "rat \<Rightarrow> profile" where
  "pick_profile r =
     (if r < 5404319552844595 / 9007199254740992 then Chromium
      else if r < 7656119366529843 / 9007199254740992 then Firefox
      else OkHttp)"

record hello_draws =
  hd_share :: rat
  hd_chromium :: chromium_draws
  hd_firefox :: firefox_draws
  hd_okhttp :: okhttp_draws

definition build_with_profile :: "hello_draws \<Rightarrow> profile \<Rightarrow> bytes \<Rightarrow> bytes \<Rightarrow> bytes \<Rightarrow> bytes option" where
  "build_with_profile d pr server_name session_id client_random =
     (case pr of
        Chromium \<Rightarrow> build_chromium (hd_chromium d) server_name session_id client_random
      | Firefox \<Rightarrow> Some (build_firefox (hd_firefox d) server_name session_id client_random)
      | OkHttp \<Rightarrow> build_okhttp (hd_okhttp d) server_name session_id client_random)"

definition build_client_hello_with_random ::
    "bytes option \<Rightarrow> hello_draws \<Rightarrow> string \<Rightarrow> bytes \<Rightarrow> bytes \<Rightarrow> bytes option" where
  "build_client_hello_with_random custom_template d server_name session_id client_random =
     (case (case custom_template of None \<Rightarrow> None
            | Some tpl \<Rightarrow> build_from_template tpl (bytes_of server_name) session_id client_random) of
        Some ch \<Rightarrow> Some ch
      | None \<Rightarrow> build_with_profile d (pick_profile (hd_share d)) (bytes_of server_name) session_id client_random)"

text \<open>The forged end of the client's flight; its body is random.\<close>

definition fake_tail_len :: "u16 \<Rightarrow> nat" where
  "fake_tail_len suite = (if suite = 0x1302 then 69 else 53)"

definition build_fake_client_tail :: "u16 \<Rightarrow> bytes \<Rightarrow> bytes" where
  "build_fake_client_tail suite finished_body =
     [0x14, 0x03, 0x03, 0x00, 0x01, 0x01, 0x17, 0x03, 0x03]
     @ be16 (of_nat (fake_tail_len suite)) @ finished_body"

subsection \<open>Shuffling\<close>

lemma length_swap [simp]: "length (swap i j xs) = length xs"
  by (simp add: swap_def)

lemma mset_swap_list: "i < length xs \<Longrightarrow> j < length xs \<Longrightarrow> mset (swap i j xs) = mset xs"
  unfolding swap_def using mset_swap [of i xs j] by (cases "i = j") (simp_all add: list_update_swap)

lemma map_swap: "i < length xs \<Longrightarrow> j < length xs \<Longrightarrow> map f (swap i j xs) = swap i j (map f xs)"
  by (simp add: swap_def map_update)

text \<open>Draws as the loop makes them: the draw for index \<open>i\<close> is at most \<open>i\<close>.\<close>

definition shuffle_draws :: "nat \<Rightarrow> nat list \<Rightarrow> bool" where
  "shuffle_draws n js \<longleftrightarrow> list_all (\<lambda>(i, j). j \<le> i) (zip (rev [1..<n]) js)"

lemma shuffle_steps:
  assumes "list_all (\<lambda>(i, j). i < length xs \<and> j \<le> i) steps"
  shows "mset (fold (\<lambda>(i, j). swap i j) steps xs) = mset xs"
    and "map f (fold (\<lambda>(i, j). swap i j) steps xs) = fold (\<lambda>(i, j). swap i j) steps (map f xs)"
  using assms by (induction steps arbitrary: xs) (auto simp: mset_swap_list map_swap)

lemma shuffle_spec:
  assumes "shuffle_draws (length xs) js"
  shows "mset (shuffle js xs) = mset xs" and "map f (shuffle js xs) = shuffle js (map f xs)"
proof -
  have "list_all (\<lambda>(i, j). i < length xs \<and> j \<le> i) (zip (rev [1..<length xs]) js)"
  proof -
    have "i < length xs \<and> j \<le> i" if "(i, j) \<in> set (zip (rev [1..<length xs]) js)" for i j
      using that set_zip_leftD [OF that] assms by (auto simp: shuffle_draws_def list_all_iff)
    then show ?thesis by (auto simp: list_all_iff)
  qed
  from shuffle_steps [OF this] show "mset (shuffle js xs) = mset xs"
      "map f (shuffle js xs) = shuffle js (map f xs)"
    by (simp_all add: shuffle_def)
qed

subsection \<open>What a hello carries\<close>

text \<open>The record is TLS with the cleaned server name for the sniffer, and its random and its
session id stand where the server reads them.\<close>

definition carries :: "bytes \<Rightarrow> string \<Rightarrow> bytes \<Rightarrow> bytes \<Rightarrow> bool" where
  "carries r h session_id client_random \<longleftrightarrow>
     (\<forall>rest. sniff_tcp (r @ rest) = \<lparr>sr_protocol = Tls, sr_host = Some (clean_host h)\<rparr>)
     \<and> take 32 (drop 11 r) = client_random \<and> r ! 43 = 32 \<and> take 32 (drop 44 r) = session_id"

lemma ext_enc: "ext t b = enc_ext (t, b)"
  by (simp add: ext_def enc_ext_def)

lemma server_name_ext_enc: "server_name_ext (bytes_of h) = enc_ext (sni_ext h)"
  by (simp add: server_name_ext_def ext_def enc_ext_def sni_ext_def bytes_of_def Let_def add.commute)

lemma assemble_hello:
  assumes "hello_body = [0x03, 0x03] @ rnd @ [of_nat (length sid)] @ sid
      @ be16 (of_nat (length suites)) @ suites @ [0x01, 0x00]
      @ be16 (of_nat (length (concat (map enc_ext es)))) @ concat (map enc_ext es)"
    and "msg = client_hello ([1] @ be24 (of_nat (length hello_body)) @ [3, 3]) rnd sid suites [0] es"
  shows "assemble sid rnd suites (concat (map enc_ext es)) = [0x16, 3, 1] @ be16 (of_nat (length msg)) @ msg"
  unfolding assms by (simp add: assemble_def client_hello_def Let_def)

lemma assembled_carries:
  assumes "length rnd = 32" "length sid = 32" "length suites < 1000"
    and "es = es1 @ sni_ext h # es2" "length (concat (map enc_ext es)) < 64000"
    and "\<forall>(t, b)\<in>set es1. t \<noteq> 0 \<and> length b < 65536" "utf8_ok h"
  shows "carries (assemble sid rnd suites (concat (map enc_ext es))) h sid rnd"
proof -
  define body where "body = [0x03, 0x03] @ rnd @ [of_nat (length sid) :: u8] @ sid
      @ be16 (of_nat (length suites)) @ suites @ [0x01, 0x00]
      @ be16 (of_nat (length (concat (map enc_ext es)))) @ concat (map enc_ext es)"
  define head6 where "head6 = [1 :: u8] @ be24 (of_nat (length body)) @ [3, 3]"
  define msg where "msg = client_hello head6 rnd sid suites [0] es"
  note r = assemble_hello [OF body_def msg_def [unfolded head6_def]]
  have h6: "length head6 = 6" "head6 ! 0 = 1" by (simp_all add: head6_def)
  have len: "length msg < 65536"
    using assms by (simp add: msg_def client_hello_def h6)
  have "sniff_tcp ([0x16, 3, 1] @ be16 (of_nat (length msg)) @ msg @ rest)
      = \<lparr>sr_protocol = Tls, sr_host = Some (clean_host h)\<rparr>" for rest
    by (rule sniff_record [OF h6 assms(1) _ _ _ assms(4) _ assms(6,7) msg_def len])
      (use assms in simp_all)
  moreover have "take 32 (drop 11 ([0x16, 3, 1] @ be16 (of_nat (length msg)) @ msg)) = rnd"
    using assms(1) by (simp add: msg_def client_hello_def h6)
  moreover have "([0x16, 3, 1] @ be16 (of_nat (length msg)) @ msg) ! 43 = 32"
    using assms(1,2) by (simp add: msg_def client_hello_def h6 nth_append)
  moreover have "take 32 (drop 44 ([0x16, 3, 1] @ be16 (of_nat (length msg)) @ msg)) = sid"
    using assms(1,2) by (simp add: msg_def client_hello_def h6)
  ultimately show ?thesis unfolding carries_def r by simp
qed

lemma split_sni:
  assumes "sni_ext h \<in> set ps" "\<forall>x\<in>set ps. x = sni_ext h \<or> fst x \<noteq> 0 \<and> length (snd x) < 65536"
  obtains es1 es2 where "ps = es1 @ sni_ext h # es2" "\<forall>(t, b)\<in>set es1. t \<noteq> 0 \<and> length b < 65536"
proof -
  obtain es1 es2 where s: "ps = es1 @ sni_ext h # es2" "sni_ext h \<notin> set es1"
    using split_list_first [OF assms(1)] by blast
  have "fst x \<noteq> 0 \<and> length (snd x) < 65536" if "x \<in> set es1" for x
    using assms(2) s that by (metis UnCI set_append)
  then have "\<forall>(t, b)\<in>set es1. t \<noteq> 0 \<and> length b < 65536" by (auto simp: case_prod_unfold)
  from that [OF s(1) this] show ?thesis .
qed

lemma length_concat_mset: "mset xs = mset ys \<Longrightarrow> length (concat xs) = length (concat ys)"
proof -
  assume "mset xs = mset ys"
  then have "mset (map length xs) = mset (map length ys)" by simp
  then show ?thesis by (metis length_concat sum_mset_sum_list)
qed

definition grease_ok :: "nat list \<Rightarrow> bool" where
  "grease_ok is \<longleftrightarrow> list_all (\<lambda>i. i < 16) is"

lemma get_grease_nonzero: "i < 16 \<Longrightarrow> get_grease i \<noteq> 0"
proof -
  assume "i < 16"
  then have "get_grease i \<in> set grease_values"
    unfolding get_grease_def by (intro nth_mem) (simp add: grease_values_def)
  then show ?thesis by (auto simp: grease_values_def)
qed

lemma other_grease_nonzero:
  "other_grease g is = Some g' \<Longrightarrow> grease_ok is \<Longrightarrow> g' \<noteq> 0 \<and> g' \<noteq> g"
  by (auto simp: other_grease_def find_Some_iff grease_ok_def list_all_length get_grease_nonzero)

definition chromium_draws_ok :: "chromium_draws \<Rightarrow> bool" where
  "chromium_draws_ok d \<longleftrightarrow> grease_ok (cd_first d # cd_last d)
     \<and> shuffle_draws 16 (cd_shuffle d) \<and> length (cd_coeffs d) = 384 \<and> length (cd_rho d) = 32
     \<and> length (cd_x_hybrid d) = 32 \<and> length (cd_x25519 d) = 32 \<and> length (cd_cid d) = 1
     \<and> length (cd_enc d) = 32 \<and> length (cd_payload d) = 208"

text \<open>An extension with a type that is not the server name.\<close>

definition plain_ext :: "bytes \<Rightarrow> bool" where
  "plain_ext e \<longleftrightarrow> (\<exists>t b. e = ext t b \<and> t \<noteq> 0 \<and> length b < 65536)"

lemma plain_extI: "t \<noteq> 0 \<Longrightarrow> length b < 65536 \<Longrightarrow> plain_ext (ext t b)"
  by (auto simp: plain_ext_def)

lemma plain_list_ext: "t \<noteq> 0 \<Longrightarrow> length b < 65534 \<Longrightarrow> plain_ext (list_ext t b)"
  by (simp add: list_ext_def plain_extI)

lemma vectors_pairs:
  assumes "\<forall>e\<in>set L. e = server_name_ext (bytes_of h) \<or> plain_ext e"
  shows "\<exists>ps. L = map enc_ext ps
    \<and> (\<forall>x\<in>set ps. x = sni_ext h \<or> fst x \<noteq> 0 \<and> length (snd x) < 65536)
    \<and> (server_name_ext (bytes_of h) \<in> set L \<longrightarrow> sni_ext h \<in> set ps)"
  using assms
proof (induction L)
  case (Cons e L)
  then obtain ps where ps: "L = map enc_ext ps"
      "\<forall>x\<in>set ps. x = sni_ext h \<or> fst x \<noteq> 0 \<and> length (snd x) < 65536"
      "server_name_ext (bytes_of h) \<in> set L \<longrightarrow> sni_ext h \<in> set ps"
    by auto
  show ?case
  proof (cases "e = server_name_ext (bytes_of h)")
    case True
    with ps show ?thesis by (intro exI [of _ "sni_ext h # ps"]) (auto simp: server_name_ext_enc)
  next
    case False
    with Cons.prems obtain t b where "e = ext t b" "t \<noteq> 0" "length b < 65536"
      by (auto simp: plain_ext_def)
    with ps False show ?thesis by (intro exI [of _ "(t, b) # ps"]) (auto simp: ext_enc)
  qed
qed simp

lemma vectors_carry:
  assumes "length rnd = 32" "length sid = 32" "length suites < 1000"
    and "\<forall>e\<in>set L. e = server_name_ext (bytes_of h) \<or> plain_ext e"
    and "server_name_ext (bytes_of h) \<in> set L" "length (concat L) < 64000" "utf8_ok h"
  shows "carries (assemble sid rnd suites (concat L)) h sid rnd"
proof -
  obtain ps where ps: "L = map enc_ext ps" "sni_ext h \<in> set ps"
      "\<forall>x\<in>set ps. x = sni_ext h \<or> fst x \<noteq> 0 \<and> length (snd x) < 65536"
    using vectors_pairs [OF assms(4)] assms(5) by blast
  obtain es1 es2 where es: "ps = es1 @ sni_ext h # es2" "\<forall>(t, b)\<in>set es1. t \<noteq> 0 \<and> length b < 65536"
    by (rule split_sni [OF ps(2,3)])
  show ?thesis unfolding ps(1)
    by (rule assembled_carries [OF assms(1-3) es(1) _ es(2) assms(7)]) (use assms(6) ps(1) in simp)
qed

lemma length_ext [simp]: "length (ext t b) = 4 + length b"
  by (simp add: ext_def)

lemma length_list_ext [simp]: "length (list_ext t b) = 6 + length b"
  by (simp add: list_ext_def)

lemma length_server_name_ext [simp]: "length (server_name_ext b) = 9 + length b"
  by (simp add: server_name_ext_def Let_def)

lemma length_bytes_of [simp]: "length (bytes_of h) = length h"
  by (simp add: bytes_of_def)

lemma length_be16s [simp]: "length (be16s ws) = 2 * length ws"
  by (induction ws) (simp_all add: be16s_def)

lemma length_encap_key [simp]:
  "length (mlkem768_valid_encap_key cs rho) = 3 * length cs + length rho"
proof -
  have "length (concat (map pack_pair cs)) = 3 * length cs"
    by (induction cs) (simp_all add: pack_pair_def split_beta)
  then show ?thesis by (simp add: mlkem768_valid_encap_key_def)
qed

lemma length_ech_body [simp]:
  "length (ech_body aead cid enc n payload) = 9 + length cid + length enc + length payload"
  by (simp add: ech_body_def)

lemmas ext_builders = supported_versions_ext_def supported_groups_ext_def key_share_ext_def
  ech_grease_ext_def ff_supported_versions_ext_def ff_supported_groups_ext_def ff_key_share_ext_def
  ff_ech_ext_def ok_supported_groups_ext_def ok_supported_versions_ext_def ok_key_share_ext_def

lemmas hello_consts = ec_point_formats_def psk_modes_def alpn_def status_request_def alps_def sigalgs_def
  cert_compress_def chromium_groups_def chromium_ciphers_def firefox_ciphers_def firefox_groups_def
  firefox_sigalgs_def firefox_deleg_creds_def firefox_cert_compress_def okhttp_sigalgs_def

lemma chromium_middle_facts:
  assumes "chromium_draws_ok d"
  shows "length (chromium_middle d (bytes_of h)) = 16"
    and "\<forall>e\<in>set (chromium_middle d (bytes_of h)). e = server_name_ext (bytes_of h) \<or> plain_ext e"
    and "server_name_ext (bytes_of h) \<in> set (chromium_middle d (bytes_of h))"
    and "length (concat (chromium_middle d (bytes_of h))) < 2000 + length h"
proof -
  note len = assms [unfolded chromium_draws_ok_def]
  show "length (chromium_middle d (bytes_of h)) = 16"
    and "server_name_ext (bytes_of h) \<in> set (chromium_middle d (bytes_of h))"
    by (simp_all add: chromium_middle_def)
  show "\<forall>e\<in>set (chromium_middle d (bytes_of h)). e = server_name_ext (bytes_of h) \<or> plain_ext e"
    using len by (simp add: chromium_middle_def ext_builders plain_extI plain_list_ext hello_consts)
  show "length (concat (chromium_middle d (bytes_of h))) < 2000 + length h"
    using len by (simp add: chromium_middle_def ext_builders hello_consts)
qed

lemma chromium_carries:
  assumes "chromium_draws_ok d" "length rnd = 32" "length sid = 32" "length h < 60000" "utf8_ok h"
    and "build_chromium d (bytes_of h) sid rnd = Some r"
  shows "carries r h sid rnd"
proof -
  note mid = chromium_middle_facts [OF assms(1), of h]
  define middle where "middle = shuffle (cd_shuffle d) (chromium_middle d (bytes_of h))"
  have m: "mset middle = mset (chromium_middle d (bytes_of h))"
    unfolding middle_def using assms(1) mid(1) by (intro shuffle_spec) (simp add: chromium_draws_ok_def)
  then have set_m: "set middle = set (chromium_middle d (bytes_of h))" by (rule mset_eq_setD)
  obtain g where g: "other_grease (get_grease (cd_first d)) (cd_last d) = Some g"
      "r = assemble sid rnd (be16 (get_grease (cd_cipher d)) @ be16s chromium_ciphers)
        (concat (ext (get_grease (cd_first d)) [] # middle @ [ext g [0x00]]))"
    using assms(6) by (auto simp: build_chromium_def Let_def middle_def split: option.splits)
  have nz: "get_grease (cd_first d) \<noteq> 0" "g \<noteq> 0"
    using assms(1) other_grease_nonzero [OF g(1)]
    by (auto simp: chromium_draws_ok_def grease_ok_def get_grease_nonzero)
  show ?thesis unfolding g(2)
  proof (rule vectors_carry [OF assms(2,3) _ _ _ _ assms(5)])
    show "length (concat (ext (get_grease (cd_first d)) [] # middle @ [ext g [0x00]])) < 64000"
      using mid(4) length_concat_mset [OF m] assms(4) by simp
  qed (use mid set_m nz in \<open>auto simp: plain_extI chromium_ciphers_def\<close>)
qed

definition firefox_draws_ok :: "firefox_draws \<Rightarrow> bool" where
  "firefox_draws_ok d \<longleftrightarrow> length (fd_coeffs d) = 384 \<and> length (fd_rho d) = 32
     \<and> length (fd_x_hybrid d) = 32 \<and> length (fd_x25519 d) = 32 \<and> length (fd_point d) = 65
     \<and> length (fd_cid d) = 1 \<and> length (fd_enc d) = 32 \<and> length (fd_payload d) = 239"

definition okhttp_draws_ok :: "okhttp_draws \<Rightarrow> bool" where
  "okhttp_draws_ok d \<longleftrightarrow> grease_ok (od_first d # od_last d) \<and> length (od_x25519 d) = 32"

lemma firefox_carries:
  assumes "firefox_draws_ok d" "length rnd = 32" "length sid = 32" "length h < 60000" "utf8_ok h"
  shows "carries (build_firefox d (bytes_of h) sid rnd) h sid rnd"
  unfolding build_firefox_def Let_def
proof (rule vectors_carry [OF assms(2,3) _ _ _ _ assms(5)], goal_cases)
  case 2
  show ?case using assms(1) unfolding firefox_draws_ok_def
    by (simp add: ext_builders plain_extI plain_list_ext hello_consts)
next
  case 4
  show ?case using assms(1,4) unfolding firefox_draws_ok_def
    by (simp add: ext_builders hello_consts)
qed (simp_all add: firefox_ciphers_def)

lemma okhttp_exts_facts:
  assumes "okhttp_draws_ok d" "g1 \<noteq> 0" "g2 \<noteq> 0"
  shows "\<forall>e\<in>set (okhttp_exts d g1 g2 (bytes_of h)). e = server_name_ext (bytes_of h) \<or> plain_ext e"
    and "server_name_ext (bytes_of h) \<in> set (okhttp_exts d g1 g2 (bytes_of h))"
    and "length (concat (okhttp_exts d g1 g2 (bytes_of h))) < 2000 + length h"
proof -
  have l: "length (od_x25519 d) = 32" using assms(1) by (simp add: okhttp_draws_ok_def)
  show "\<forall>e\<in>set (okhttp_exts d g1 g2 (bytes_of h)). e = server_name_ext (bytes_of h) \<or> plain_ext e"
    using l assms(2,3) by (simp add: okhttp_exts_def ext_builders plain_extI plain_list_ext hello_consts)
  show "server_name_ext (bytes_of h) \<in> set (okhttp_exts d g1 g2 (bytes_of h))"
    by (simp add: okhttp_exts_def)
  show "length (concat (okhttp_exts d g1 g2 (bytes_of h))) < 2000 + length h"
    using l by (simp add: okhttp_exts_def ext_builders hello_consts)
qed

lemma okhttp_carries:
  assumes "okhttp_draws_ok d" "length rnd = 32" "length sid = 32" "length h < 60000" "utf8_ok h"
    and "build_okhttp d (bytes_of h) sid rnd = Some r"
  shows "carries r h sid rnd"
proof -
  obtain g where g: "other_grease (get_grease (od_first d)) (od_last d) = Some g"
    using assms(6) by (auto simp: build_okhttp_def Let_def split: option.splits)
  define L where "L = okhttp_exts d (get_grease (od_first d)) g (bytes_of h)"
  have nz: "get_grease (od_first d) \<noteq> 0" "g \<noteq> 0"
    using assms(1) other_grease_nonzero [OF g]
    by (auto simp: okhttp_draws_ok_def grease_ok_def get_grease_nonzero)
  note facts = okhttp_exts_facts [OF assms(1) nz, of h, folded L_def]
  define cs where "cs = be16 (get_grease (od_cipher d)) @ be16s chromium_ciphers"
  define n where "n = okhttp_pad_target - (length (assemble sid rnd cs (concat L)) - 5) - 4"
  have n: "n \<le> 512" by (simp add: n_def okhttp_pad_target_def)
  have r: "r = assemble sid rnd cs (concat (L @ [ext 0x0015 (replicate n 0)]))
    \<or> r = assemble sid rnd cs (concat L)"
    using assms(6) g by (simp add: build_okhttp_def Let_def flip: L_def cs_def n_def)
      (auto simp: n_def okhttp_pad_target_def split: if_splits)
  have "carries (assemble sid rnd cs (concat L')) h sid rnd"
    if "L' = L \<or> L' = L @ [ext 0x0015 (replicate n 0)]" for L'
    by (rule vectors_carry [OF assms(2,3) _ _ _ _ assms(5)])
      (use that facts n assms(4) in \<open>auto simp: plain_extI cs_def chromium_ciphers_def\<close>)
  with r show ?thesis by blast
qed

definition hello_draws_ok :: "hello_draws \<Rightarrow> bool" where
  "hello_draws_ok d \<longleftrightarrow> chromium_draws_ok (hd_chromium d) \<and> firefox_draws_ok (hd_firefox d)
     \<and> okhttp_draws_ok (hd_okhttp d)"

lemma profile_carries:
  assumes "hello_draws_ok d" "length rnd = 32" "length sid = 32" "length h < 60000" "utf8_ok h"
    and "build_with_profile d pr (bytes_of h) sid rnd = Some r"
  shows "carries r h sid rnd"
  using assms chromium_carries firefox_carries okhttp_carries
  by (cases pr) (auto simp: build_with_profile_def hello_draws_ok_def)

text \<open>Every encapsulation key is valid for the check of FIPS 203: the coefficients it decodes to
are those drawn, below the modulus.\<close>

fun unpack :: "bytes \<Rightarrow> u16 list" where
  "unpack (b0 # b1 # b2 # bs) =
     (ucast b0 OR push_bit 8 (ucast (b1 AND 0x0F))) # (ucast (drop_bit 4 b1) OR push_bit 4 (ucast b2)) # unpack bs"
| "unpack _ = []"

lemma unpack_pair:
  assumes "c0 < 4096" "c1 < 4096"
  shows "unpack (pack_pair (c0, c1) @ bs) = c0 # c1 # unpack bs"
proof -
  have hi: "\<not> bit c n" if "c < 4096" "12 \<le> n" for c :: u16 and n
  proof -
    have "unat c < 2 ^ 12" using that(1) by (simp add: word_less_nat_alt)
    then have "unat (take_bit 12 c) = unat c"
      by (simp only: unsigned_take_bit_eq take_bit_nat_eq_self)
    then have "take_bit 12 c = c" by (rule unsigned_word_eqI)
    with that(2) show ?thesis by (metis bit_take_bit_iff not_less)
  qed
  have lt: "bit c n \<Longrightarrow> n < 12" if "c < 4096" for c :: u16 and n
    using hi [OF that, of n] by (cases "n < 12") simp_all
  have m: "(0xFF :: u16) = mask 8" "(0x0F :: u16) = mask 4" "(0x0F :: u8) = mask 4"
    by (simp_all add: mask_eq_exp_minus_1)
  have 1: "ucast (ucast (c0 AND 0xFF) :: u8) OR push_bit 8 (ucast ((ucast (drop_bit 8 c0 AND 0x0F)
      OR push_bit 4 (ucast (c1 AND 0x0F)) :: u8) AND 0x0F)) = c0"
    unfolding m by (rule bit_word_eqI) (auto simp: bit_simps not_less dest: lt [OF assms(1)])
  have 2: "ucast (drop_bit 4 (ucast (drop_bit 8 c0 AND 0x0F) OR push_bit 4 (ucast (c1 AND 0x0F)) :: u8))
      OR push_bit 4 (ucast (ucast (drop_bit 4 c1 AND 0xFF) :: u8)) = c1"
    unfolding m by (rule bit_word_eqI) (auto simp: bit_simps not_less dest: lt [OF assms(2)])
  show ?thesis by (simp only: pack_pair_def prod.case append_Cons append_Nil unpack.simps 1 2)
qed

lemma unpack_rho: "length rho < 3 \<Longrightarrow> unpack rho = []"
  by (cases rho rule: unpack.cases) auto

lemma unpack_pairs:
  "\<forall>(c0, c1)\<in>set cs. c0 < 4096 \<and> c1 < 4096
    \<Longrightarrow> unpack (concat (map pack_pair cs)) = concat (map (\<lambda>(c0, c1). [c0, c1]) cs)"
  by (induction cs) (auto simp: unpack_pair)



subsection \<open>Patching a template\<close>

lemma u16be_at: "n < 65536 \<Longrightarrow> u16be (a @ be16 (of_nat n) @ b) (length a) = Some n"
  by (simp add: u16be_def word_be_be16)

lemma u16be_at': "n < 65536 \<Longrightarrow> length a = k \<Longrightarrow> u16be (a @ be16 (of_nat n) @ b) k = Some n"
  using u16be_at by blast

lemma u16be_type: "u16be (a @ be16 t @ b) (length a) = Some (unat t)"
proof -
  obtain x y where "be16 t = [x, y]" by (simp add: be16_def)
  moreover from this have "of_be16 x y = t" by (auto simp: be16_def of_be16_be16)
  ultimately show ?thesis by (simp add: u16be_def word_be_def nth_append)
qed

lemma template_sni_find:
  assumes "\<forall>(t, b)\<in>set es. t \<noteq> 0 \<and> length b < 65536" "length old < 65536"
    and "length pre + length (concat (map enc_ext es)) + length (enc_ext (0, old)) \<le> e"
  shows "template_sni (pre @ concat (map enc_ext es) @ enc_ext (0, old) @ rest) e (length pre)
      = Some (length pre + length (concat (map enc_ext es)), 4 + length old)"
  using assms(1,3)
proof (induction es arbitrary: pre)
  case Nil
  have "u16be (pre @ be16 0 @ be16 (of_nat (length old)) @ old @ rest) (length pre) = Some 0"
    using u16be_type [of pre 0] by simp
  moreover have "u16be ((pre @ be16 0) @ be16 (of_nat (length old)) @ old @ rest) (length (pre @ be16 0))
      = Some (length old)"
    by (rule u16be_at [OF assms(2)])
  ultimately show ?case using Nil.prems(2)
    by (subst template_sni.simps) (simp add: enc_ext_def)
next
  case (Cons x es)
  obtain t b where x: "x = (t, b)" by (cases x)
  let ?r = "concat (map enc_ext es) @ enc_ext (0, old) @ rest"
  have t: "unat t \<noteq> 0" "length b < 65536" using Cons.prems(1) by (auto simp: x unat_eq_zero)
  have "u16be (pre @ be16 t @ be16 (of_nat (length b)) @ b @ ?r) (length pre) = Some (unat t)"
    using u16be_type [of pre t] by simp
  moreover have "u16be ((pre @ be16 t) @ be16 (of_nat (length b)) @ b @ ?r) (length (pre @ be16 t))
      = Some (length b)"
    by (rule u16be_at [OF t(2)])
  ultimately have "template_sni (pre @ enc_ext (t, b) @ ?r) e (length pre)
      = template_sni (pre @ enc_ext (t, b) @ ?r) e (length (pre @ enc_ext (t, b)))"
    using t(1) Cons.prems(2)
    by (subst template_sni.simps) (simp add: enc_ext_def x numeral_eq_Suc)
  also have "\<dots> = Some (length (pre @ enc_ext (t, b)) + length (concat (map enc_ext es)), 4 + length old)"
    using Cons.IH [of "pre @ enc_ext (t, b)"] Cons.prems by (simp add: x add.assoc)
  finally show ?case by (simp add: x)
qed

lemma copy_at_append: "length a = k \<Longrightarrow> length x = length y \<Longrightarrow> copy_at k y (a @ x @ b) = a @ y @ b"
  by (simp add: copy_at_def)

lemma patch_u16_append:
  assumes "length a = k" "n < 65536" "int n + d = int m"
  shows "patch_u16 k d (a @ be16 (of_nat n) @ b) = a @ be16 (of_nat m) @ b"
proof -
  have "word_be (a @ be16 (of_nat n) @ b) k = n" using word_be_be16 [OF assms(2), of a b] assms(1) by simp
  then show ?thesis by (simp add: patch_u16_def assms(1,3))
qed

lemma patch_u24_append:
  assumes "length a = k" "n < 65536" "int n + d = int m"
  shows "patch_u24 k d (a @ be24 (of_nat n) @ b) = a @ be24 (of_nat m) @ b"
proof -
  have u: "unat (of_nat n :: u32) = n" using assms(2) by (simp add: unat_of_nat)
  have b0: "unat (ucast (drop_bit 16 (of_nat n :: u32)) :: u8) = n div 65536 mod 256"
    by (simp add: unsigned_ucast_eq take_bit_eq_mod unat_drop_bit u)
  have b1: "unat (ucast (drop_bit 8 (of_nat n :: u32)) :: u8) = n div 256 mod 256"
    by (simp add: unsigned_ucast_eq take_bit_eq_mod unat_drop_bit u)
  have b2: "unat (ucast (of_nat n :: u32) :: u8) = n mod 256"
    by (simp only: unsigned_ucast_eq take_bit_eq_mod u) simp
  have z: "n div 65536 = 0" "n div 256 mod 256 = n div 256"
    using assms(2) by (simp_all add: less_mult_imp_div_less)
  have cur: "unat ((a @ be24 (of_nat n) @ b) ! k) * 65536 + unat ((a @ be24 (of_nat n) @ b) ! (k + 1)) * 256
      + unat ((a @ be24 (of_nat n) @ b) ! (k + 2)) = n"
    using assms(1) div_mult_mod_eq [of n 256] by (simp add: be24_def nth_append b0 b1 b2 z)
  have len: "length (be24 (of_nat n)) = 3" by simp
  show ?thesis
    unfolding patch_u24_def cur Let_def assms(3) using assms(1) len by simp
qed

lemma template_patched:
  assumes "length rnd0 = 32" "length sid0 = 32" "length rnd = 32" "length sid = 32"
    and "length suites < 65536" "length cmps < 256" "length vs = 2"
    and "\<forall>(t, b)\<in>set es1. t \<noteq> 0 \<and> length b < 65536" "length old < 65536"
    and "msg0 = client_hello ([1] @ be24 (of_nat (length msg0 - 4)) @ vs) rnd0 sid0 suites cmps (es1 @ (0, old) # es2)"
    and "msg1 = client_hello ([1] @ be24 (of_nat (length msg1 - 4)) @ vs) rnd sid suites cmps (es1 @ sni_ext h # es2)"
    and "length msg0 < 65536" "length msg1 < 65536"
  shows "build_from_template ([0x16, a, b] @ be16 (of_nat (length msg0)) @ msg0 @ trail) (bytes_of h) sid rnd
    = Some ([0x16, a, b] @ be16 (of_nat (length msg1)) @ msg1 @ trail)"
proof -
  define L0 where "L0 = length msg0 - 4"
  define L1 where "L1 = length msg1 - 4"
  define E1 where "E1 = concat (map enc_ext es1)"
  define E2 where "E2 = concat (map enc_ext es2)"
  define X where "X = enc_ext (0, old)"
  define N where "N = enc_ext (sni_ext h)"
  define T0 where "T0 = length (E1 @ X @ E2)"
  define T1 where "T1 = length (E1 @ N @ E2)"
  let ?pre = "\<lambda>l L r s T. [0x16, a, b] @ be16 (of_nat l) @ [1] @ be24 (of_nat L) @ vs @ r @ [32] @ s
    @ be16 (of_nat (length suites)) @ suites @ [of_nat (length cmps)] @ cmps @ be16 (of_nat T)"
  have m0: "msg0 = [1] @ be24 (of_nat L0) @ vs @ rnd0 @ [32] @ sid0 @ be16 (of_nat (length suites)) @ suites
      @ [of_nat (length cmps)] @ cmps @ be16 (of_nat T0) @ E1 @ X @ E2"
    using assms(10) by (simp add: client_hello_def L0_def E1_def E2_def X_def T0_def assms(2))
  have m1: "msg1 = [1] @ be24 (of_nat L1) @ vs @ rnd @ [32] @ sid @ be16 (of_nat (length suites)) @ suites
      @ [of_nat (length cmps)] @ cmps @ be16 (of_nat T1) @ E1 @ N @ E2"
    using assms(11) by (simp add: client_hello_def L1_def E1_def E2_def N_def T1_def assms(4))
  have len0: "length msg0 = 76 + length suites + length cmps + T0"
    using arg_cong [OF m0, of length] assms(1,2,7) by (simp add: T0_def)
  have len1: "length msg1 = 76 + length suites + length cmps + T1"
    using arg_cong [OF m1, of length] assms(3,4,7) by (simp add: T1_def)
  have bounds: "T0 < 65536" "T1 < 65536" "L0 < 65536" using len0 len1 assms(12,13) by (auto simp: L0_def)
  define tpl where "tpl = ?pre (length msg0) L0 rnd0 sid0 T0 @ E1 @ X @ E2 @ trail"
  have tpl: "[0x16, a, b] @ be16 (of_nat (length msg0)) @ msg0 @ trail = tpl"
    unfolding tpl_def by (subst (2) m0) simp
  have p76: "tpl = ([0x16, a, b] @ be16 (of_nat (length msg0)) @ [1] @ be24 (of_nat L0) @ vs @ rnd0 @ [32] @ sid0)
      @ be16 (of_nat (length suites)) @ (suites @ [of_nat (length cmps)] @ cmps @ be16 (of_nat T0) @ E1 @ X @ E2 @ trail)"
    by (simp add: tpl_def)
  have cs: "u16be tpl 76 = Some (length suites)"
    unfolding p76 by (rule u16be_at' [OF assms(5)]) (use assms(1,2,7) in simp)
  define k1 where "k1 = 78 + length suites"
  have c1: "tpl ! k1 = of_nat (length cmps)"
    using assms(1,2,7) unfolding tpl_def k1_def by (simp add: nth_append)
  have u: "unat (of_nat (length cmps) :: u8) = length cmps"
    using assms(6) by (simp add: unat_of_nat)
  define k2 where "k2 = k1 + (1 + length cmps)"
  have pk2: "tpl = ([0x16, a, b] @ be16 (of_nat (length msg0)) @ [1] @ be24 (of_nat L0) @ vs @ rnd0 @ [32] @ sid0
      @ be16 (of_nat (length suites)) @ suites @ [of_nat (length cmps)] @ cmps)
      @ be16 (of_nat T0) @ (E1 @ X @ E2 @ trail)"
    by (simp add: tpl_def)
  have et: "u16be tpl k2 = Some T0"
    unfolding pk2 by (rule u16be_at' [OF bounds(1)]) (use assms(1,2,7) in \<open>simp add: k2_def k1_def\<close>)
  let ?p0 = "?pre (length msg0) L0 rnd0 sid0 T0"
  have lp: "length ?p0 = k2 + 2" using assms(1,2,7) by (simp add: k2_def k1_def)
  have find: "template_sni tpl (k2 + 2 + T0) (k2 + 2) = Some (k2 + 2 + length E1, 4 + length old)"
    using template_sni_find [OF assms(8,9), of ?p0 "k2 + 2 + T0" "E2 @ trail"]
    unfolding lp by (simp add: tpl_def E1_def X_def T0_def)
  have ltpl: "length tpl = k2 + 2 + T0 + length trail"
    using lp by (simp add: tpl_def T0_def)
  have lX: "length X = 4 + length old" by (simp add: X_def enc_ext_def)
  have Nn: "server_name_ext (bytes_of h) = N" by (simp add: N_def server_name_ext_enc)
  define dl where "dl = int (length N) - int (4 + length old)"
  have d1: "int T0 + dl = int T1" "int (length msg0) + dl = int (length msg1)" "int L0 + dl = int L1"
    using len0 len1 lX by (simp_all add: T0_def T1_def dl_def L0_def L1_def)
  have o1: "take (k2 + 2 + length E1) tpl @ N @ drop (k2 + 2 + length E1 + (4 + length old)) tpl
      = ?pre (length msg0) L0 rnd0 sid0 T0 @ E1 @ N @ E2 @ trail"
  proof -
    define q where "q = ?p0 @ E1"
    have "length q = k2 + 2 + length E1" using lp by (simp add: q_def)
    moreover have "tpl = q @ X @ E2 @ trail" by (simp add: q_def tpl_def)
    ultimately have "take (k2 + 2 + length E1) tpl = q" "drop (k2 + 2 + length E1 + (4 + length old)) tpl = E2 @ trail"
      using lX by simp_all
    then show ?thesis by (simp add: q_def)
  qed
  have o2: "copy_at 11 rnd (?pre (length msg0) L0 rnd0 sid0 T0 @ E1 @ N @ E2 @ trail)
      = ?pre (length msg0) L0 rnd sid0 T0 @ E1 @ N @ E2 @ trail"
    using copy_at_append [of "[0x16, a, b] @ be16 (of_nat (length msg0)) @ [1] @ be24 (of_nat L0) @ vs" 11 rnd0 rnd]
      assms(1,3,7) by simp
  have o3: "copy_at 44 sid (?pre (length msg0) L0 rnd sid0 T0 @ E1 @ N @ E2 @ trail)
      = ?pre (length msg0) L0 rnd sid T0 @ E1 @ N @ E2 @ trail"
    using copy_at_append [of "[0x16, a, b] @ be16 (of_nat (length msg0)) @ [1] @ be24 (of_nat L0) @ vs @ rnd @ [32]"
        44 sid0 sid] assms(2,3,4,7) by simp
  have o4: "patch_u16 3 dl (?pre (length msg0) L0 rnd sid T0 @ E1 @ N @ E2 @ trail)
      = ?pre (length msg1) L0 rnd sid T0 @ E1 @ N @ E2 @ trail"
    using patch_u16_append [OF _ assms(12) d1(2), of "[0x16, a, b]" 3] by simp
  have o5: "patch_u24 6 dl (?pre (length msg1) L0 rnd sid T0 @ E1 @ N @ E2 @ trail)
      = ?pre (length msg1) L1 rnd sid T0 @ E1 @ N @ E2 @ trail"
    using patch_u24_append [OF _ bounds(3) d1(3), of "[0x16, a, b] @ be16 (of_nat (length msg1)) @ [1]" 6] by simp
  have o6: "patch_u16 k2 dl (?pre (length msg1) L1 rnd sid T0 @ E1 @ N @ E2 @ trail)
      = ?pre (length msg1) L1 rnd sid T1 @ E1 @ N @ E2 @ trail"
    using patch_u16_append [OF _ bounds(1) d1(1), of "[0x16, a, b] @ be16 (of_nat (length msg1)) @ [1]
      @ be24 (of_nat L1) @ vs @ rnd @ [32] @ sid @ be16 (of_nat (length suites)) @ suites
      @ [of_nat (length cmps)] @ cmps" k2] assms(3,4,7) by (simp add: k2_def k1_def)
  have head: "\<not> length tpl < 44" "tpl ! 0 = 0x16" "tpl ! 5 = 0x01" "tpl ! 43 = 32"
    using ltpl assms(1,7) by (simp_all add: k2_def k1_def, simp_all add: tpl_def nth_append)
  have kk: "\<not> length tpl \<le> 76 + (2 + length suites)" "76 + (2 + length suites) = k1"
    using ltpl by (simp_all add: k2_def k1_def)
  have fits: "\<not> length tpl < k2 + 2 + T0" "\<not> k2 + 2 + T0 < k2 + 2 + length E1 + (4 + length old)"
    using ltpl lX by (simp_all add: T0_def)
  have "build_from_template tpl (bytes_of h) sid rnd = Some (?pre (length msg1) L1 rnd sid T1 @ E1 @ N @ E2 @ trail)"
    unfolding build_from_template_def Let_def Nn
    using head kk fits cs c1 u et find o1 o2 o3 o4 o5 o6 k2_def dl_def by simp
  also have "?pre (length msg1) L1 rnd sid T1 @ E1 @ N @ E2 @ trail
      = [0x16, a, b] @ be16 (of_nat (length msg1)) @ msg1 @ trail"
    by (subst (2) m1) simp
  finally show ?thesis unfolding tpl .
qed

subsection \<open>Properties\<close>

text \<open>Every ML-KEM key in a hello passes the modulus check of FIPS 203: of its 1184 bytes
the first 1152 decode to exactly the 768 coefficients drawn, all below 3329.\<close>
theorem mlkem_key_valid:
  assumes "length cs = 384" "length rho = 32" "\<forall>(c0, c1)\<in>set cs. c0 < 3329 \<and> c1 < 3329"
  shows "length (mlkem768_valid_encap_key cs rho) = mlkem768_ek_len
    \<and> unpack (take 1152 (mlkem768_valid_encap_key cs rho)) = concat (map (\<lambda>(c0, c1). [c0, c1]) cs)
    \<and> list_all (\<lambda>c. c < 3329) (unpack (take 1152 (mlkem768_valid_encap_key cs rho)))"
proof -
  have l: "length (concat (map pack_pair cs)) = 1152"
    using length_encap_key [of cs "[]"] assms(1) by (simp add: mlkem768_valid_encap_key_def)
  have "\<forall>(c0, c1)\<in>set cs. c0 < 4096 \<and> c1 < 4096"
    using assms(3) by (auto intro: less_trans [of _ 3329])
  from unpack_pairs [OF this] have u: "unpack (take 1152 (mlkem768_valid_encap_key cs rho))
      = concat (map (\<lambda>(c0, c1). [c0, c1]) cs)"
    using l by (simp add: mlkem768_valid_encap_key_def)
  show ?thesis unfolding u
    using assms by (auto simp: mlkem768_ek_len_def list_all_iff)
qed

text \<open>C17. Every built hello reads back: whatever the profile and the draws, the sniffer's parser
takes it for TLS with the camouflage host as server name, and the client random and the session
token stand at the offsets 11 and 44 where the server looks for them.\<close>
theorem built_hello_reads_back:
  assumes "hello_draws_ok d" "length client_random = 32" "length token = 32"
    and "length h < 60000" "utf8_ok h"
    and "build_client_hello_with_random None d h token client_random = Some r"
  shows "sniff_tcp (r @ rest) = \<lparr>sr_protocol = Tls, sr_host = Some (clean_host h)\<rparr>
    \<and> take 32 (drop 11 r) = client_random \<and> take 32 (drop 44 r) = token"
proof -
  have "build_with_profile d (pick_profile (hd_share d)) (bytes_of h) token client_random = Some r"
    using assms(6) by (simp add: build_client_hello_with_random_def)
  from profile_carries [OF assms(1-5) this] show ?thesis by (simp add: carries_def)
qed

text \<open>C16. A captured template keeps its fingerprint: for every well-formed ClientHello record with
a session id of 32 bytes and a server-name extension, whatever the other extensions and whatever
follows the record, the patched template is that record with the client random, the session token
and the server name exchanged, every length field right, and not another byte changed.\<close>
theorem template_keeps_fingerprint:
  assumes "length rnd0 = 32" "length sid0 = 32" "length rnd = 32" "length sid = 32"
    and "length suites < 65536" "length cmps < 256" "length vs = 2"
    and "\<forall>(t, b)\<in>set es1. t \<noteq> 0 \<and> length b < 65536" "length old < 65536"
    and "msg0 = client_hello ([1] @ be24 (of_nat (length msg0 - 4)) @ vs) rnd0 sid0 suites cmps (es1 @ (0, old) # es2)"
    and "msg1 = client_hello ([1] @ be24 (of_nat (length msg1 - 4)) @ vs) rnd sid suites cmps (es1 @ sni_ext h # es2)"
    and "length msg0 < 65536" "length msg1 < 65536"
  shows "build_from_template ([0x16, a, b] @ be16 (of_nat (length msg0)) @ msg0 @ trail) (bytes_of h) sid rnd
    = Some ([0x16, a, b] @ be16 (of_nat (length msg1)) @ msg1 @ trail)"
  by (rule template_patched [OF assms])

subsection \<open>Witnesses\<close>

definition demo_hello_draws :: hello_draws where
  "demo_hello_draws =
     \<lparr>hd_share = 7 / 10,
      hd_chromium = \<lparr>cd_cipher = 1, cd_sv = 2, cd_groups = 3, cd_ks = 4, cd_first = 5, cd_last = [5, 6],
        cd_shuffle = replicate 15 0, cd_coeffs = replicate 384 (1, 2), cd_rho = replicate 32 3,
        cd_x_hybrid = replicate 32 4, cd_x25519 = replicate 32 5, cd_cid = [6], cd_enc = replicate 32 7,
        cd_payload = replicate 208 8\<rparr>,
      hd_firefox = \<lparr>fd_coeffs = replicate 384 (1, 2), fd_rho = replicate 32 3, fd_x_hybrid = replicate 32 4,
        fd_x25519 = replicate 32 5, fd_point = replicate 65 6, fd_coin = True, fd_cid = [6],
        fd_enc = replicate 32 7, fd_payload = replicate 239 8\<rparr>,
      hd_okhttp = \<lparr>od_cipher = 1, od_first = 2, od_last = [3], od_groups = 4, od_ks = 5,
        od_x25519 = replicate 32 6, od_sv = 7\<rparr>\<rparr>"

lemma shuffle_draws_zero: "shuffle_draws n (replicate m 0)"
  by (auto simp: shuffle_draws_def list_all_iff dest: set_zip_rightD)

lemma demo_hello_draws_ok: "hello_draws_ok demo_hello_draws"
  unfolding hello_draws_ok_def chromium_draws_ok_def firefox_draws_ok_def okhttp_draws_ok_def
    demo_hello_draws_def hello_draws.simps chromium_draws.simps firefox_draws.simps okhttp_draws.simps
  by (intro conjI) (simp_all only: length_replicate shuffle_draws_zero, simp_all add: grease_ok_def)

lemma built_hello_reads_back_witness:
  "sr_host (sniff_tcp (the (build_client_hello_with_random None demo_hello_draws ''a.cn'' (replicate 32 9)
     (replicate 32 1)) @ [1])) = Some ''a.cn''"
proof -
  have "build_client_hello_with_random None demo_hello_draws ''a.cn'' (replicate 32 9) (replicate 32 1)
      = Some (the (build_client_hello_with_random None demo_hello_draws ''a.cn'' (replicate 32 9) (replicate 32 1)))"
    by (simp add: build_client_hello_with_random_def demo_hello_draws_def pick_profile_def build_with_profile_def
)
  from built_hello_reads_back [OF demo_hello_draws_ok _ _ _ _ this, of "[1]"]
  have "sniff_tcp (the (build_client_hello_with_random None demo_hello_draws ''a.cn'' (replicate 32 9)
     (replicate 32 1)) @ [1]) = \<lparr>sr_protocol = Tls, sr_host = Some (clean_host ''a.cn'')\<rparr>"
    by (simp)
  moreover have "clean_host ''a.cn'' = ''a.cn''" by code_simp
  ultimately show ?thesis by (simp)
qed

lemma mlkem_key_valid_witness:
  "length (mlkem768_valid_encap_key (replicate 384 (1, 3328)) (replicate 32 0)) = mlkem768_ek_len"
  using mlkem_key_valid [of "replicate 384 (1, 3328)" "replicate 32 0"] by (simp)

lemma template_keeps_fingerprint_witness:
  "build_from_template ([0x16, 3, 1] @ be16 93 @ client_hello ([1] @ be24 89 @ [3, 3]) (replicate 32 1)
      (replicate 32 2) [0x13, 1] [0] [(10, [0]), (0, [1, 2, 3, 4, 5])] @ [7]) (bytes_of ''b.cn'')
      (replicate 32 4) (replicate 32 3)
   = Some ([0x16, 3, 1] @ be16 97 @ client_hello ([1] @ be24 93 @ [3, 3]) (replicate 32 3)
      (replicate 32 4) [0x13, 1] [0] [(10, [0]), sni_ext ''b.cn''] @ [7])"
proof -
  define m0 where "m0 = client_hello ([1] @ be24 89 @ [3, 3]) (replicate 32 1) (replicate 32 2) [0x13, 1] [0]
    ([(10, [0])] @ (0, [1, 2, 3, 4, 5]) # [])"
  define m1 where "m1 = client_hello ([1] @ be24 93 @ [3, 3]) (replicate 32 3) (replicate 32 4) [0x13, 1] [0]
    ([(10, [0])] @ sni_ext ''b.cn'' # [])"
  have l: "length m0 = 93" "length m1 = 97"
    by (simp_all add: m0_def m1_def client_hello_def enc_ext_def sni_ext_def)
  have "build_from_template ([0x16, 3, 1] @ be16 (of_nat (length m0)) @ m0 @ [7]) (bytes_of ''b.cn'')
      (replicate 32 4) (replicate 32 3) = Some ([0x16, 3, 1] @ be16 (of_nat (length m1)) @ m1 @ [7])"
    by (rule template_keeps_fingerprint [where ?rnd0.0 = "replicate 32 1" and ?sid0.0 = "replicate 32 2"
        and suites = "[0x13, 1]" and cmps = "[0]" and vs = "[3, 3]" and ?es1.0 = "[(10, [0])]"
        and old = "[1, 2, 3, 4, 5]" and ?es2.0 = "[]"])
      (simp_all add: l, simp_all add: m0_def m1_def)
  then show ?thesis by (simp add: l) (simp add: m0_def m1_def)
qed

end
