(* ===== verification/Flight.thy ===== *)
theory Flight
  imports ClientHello
begin

text \<open>The forged TLS flight of the server: \<open>crypto/handshake_cache.rs\<close>, which fetches, caches,
patches and forges it, and \<open>read_server_handshake\<close> of \<open>proxy/pool.rs\<close>, which reads it. What a
connection still delivers is a list of bytes with its end: the peer closes, or falls silent until
the time-out. Random draws are arguments.\<close>

datatype stream_end = Closed | Silent

subsection \<open>Templates\<close>

text \<open>\<open>(sh, ccs, enc)\<close>: the three types of record seen so far.\<close>

type_synonym seen = "bool \<times> bool \<times> bool"

definition see :: "u8 \<Rightarrow> seen \<Rightarrow> seen" where
  "see ct s =
     (case s of (sh, ccs, enc) \<Rightarrow> (sh \<or> ct = 0x16, ccs \<or> ct = 0x14, enc \<or> ct = 0x17))"

definition all_seen :: "seen \<Rightarrow> bool" where
  "all_seen s \<longleftrightarrow> (case s of (sh, ccs, enc) \<Rightarrow> sh \<and> ccs \<and> enc)"

definition header_len :: "bytes \<Rightarrow> nat" where
  "header_len header = unat (of_be16 (header ! 3) (header ! 4))"

function template_scan :: "bytes \<Rightarrow> seen \<Rightarrow> bool" where
  "template_scan t s =
     (if 5 \<le> length t then
        let len = header_len t
        in if length t < 5 + len then False
           else template_scan (drop (5 + len) t) (see (t ! 0) s)
      else t = [] \<and> all_seen s)"
  by pat_completeness auto
termination
  by (relation "measure (\<lambda>(t, _). length t)") auto

declare template_scan.simps [simp del]

definition template_is_complete :: "bytes \<Rightarrow> bool" where
  "template_is_complete t = template_scan t (False, False, False)"

subsection \<open>Fetching a template\<close>

datatype fetch_error = HeaderTimeout | NotHandshake u8 | BodyTimeout | IncompleteTemplate

text \<open>\<open>timeout(.., read_exact(buf))\<close> as the fetch uses it: only the time-out is an error
(\<open>None\<close>); after an end of file the buffer keeps what it held past the bytes that came.\<close>

definition read_into :: "stream_end \<Rightarrow> bytes \<Rightarrow> bytes \<Rightarrow> (bytes \<times> bytes) option" where
  "read_into e buf inp =
     (if length buf \<le> length inp then Some (take (length buf) inp, drop (length buf) inp)
      else case e of
        Silent \<Rightarrow> None
      | Closed \<Rightarrow> Some (inp @ drop (length inp) buf, []))"

text \<open>The loop over the later records, at most \<open>n\<close>; \<open>header\<close> is the buffer of the last header.\<close>

fun fetch_records :: "nat \<Rightarrow> stream_end \<Rightarrow> bytes \<Rightarrow> bytes \<Rightarrow> bytes \<Rightarrow> bytes" where
  "fetch_records 0 e header buf inp = buf"
| "fetch_records (Suc n) e header buf inp =
     (if template_is_complete buf then buf
      else case read_into e header inp of
        None \<Rightarrow> buf
      | Some (header1, inp1) \<Rightarrow>
          (case read_into e (replicate (header_len header1) 0) inp1 of
             None \<Rightarrow> buf
           | Some (body, inp2) \<Rightarrow> fetch_records n e header1 (buf @ header1 @ body) inp2))"

definition fetch_real_server_hello :: "stream_end \<Rightarrow> bytes \<Rightarrow> (fetch_error, bytes) result" where
  "fetch_real_server_hello e inp =
     (case read_into e (replicate 5 0) inp of
        None \<Rightarrow> Inl HeaderTimeout
      | Some (header, inp1) \<Rightarrow>
          if header ! 0 \<noteq> 0x16 then Inl (NotHandshake (header ! 0))
          else (case read_into e (replicate (header_len header) 0) inp1 of
             None \<Rightarrow> Inl BodyTimeout
           | Some (body, inp2) \<Rightarrow>
               let buf = fetch_records 8 e header (header @ body) inp2
               in if template_is_complete buf then Inr buf else Inl IncompleteTemplate))"

text \<open>Five connections; those that failed to connect are \<open>None\<close>.\<close>

definition fetch_batch :: "(stream_end \<times> bytes) option list \<Rightarrow> bytes list" where
  "fetch_batch conns =
     List.map_filter (\<lambda>c. case c of None \<Rightarrow> None
       | Some (e, inp) \<Rightarrow> (case fetch_real_server_hello e inp of Inl _ \<Rightarrow> None | Inr t \<Rightarrow> Some t)) conns"

subsection \<open>Replies\<close>

definition clamp_int :: "int \<Rightarrow> int \<Rightarrow> int \<Rightarrow> int" where
  "clamp_int lo hi x = (if x < lo then lo else if hi < x then hi else x)"

definition patch_server_hello :: "bytes \<Rightarrow> bytes \<Rightarrow> bytes \<Rightarrow> bytes" where
  "patch_server_hello new_random flight client_session_id =
     (if length flight < 44 \<or> flight ! 0 \<noteq> 0x16 then flight
      else
        let sid_len = unat (flight ! 43)
        in if length flight < 44 + sid_len then flight
           else
             let diff = int (length client_session_id) - int sid_len;
                 result = take 43 flight @ [of_nat (length client_session_id)]
                   @ client_session_id @ drop (44 + sid_len) flight;
                 result = copy_at 11 new_random result;
                 old_record_len = word_be flight 3;
                 old_hs_len = unat (flight ! 6) * 65536 + unat (flight ! 7) * 256 + unat (flight ! 8);
                 new_record_len = clamp_int 0 65535 (int old_record_len + diff);
                 new_hs_len = clamp_int 0 0xFFFFFF (int old_hs_len + diff);
                 result = copy_at 3 (be16 (word_of_int new_record_len)) result
             in copy_at 6 (be24 (word_of_int new_hs_len)) result)"

definition get_session_id :: "bytes \<Rightarrow> bytes option" where
  "get_session_id ch =
     (if length ch < 44 then None
      else
        let sid_len = unat (ch ! 43)
        in if 44 + sid_len \<le> length ch then Some (take sid_len (drop 44 ch)) else None)"

fun chunks2 :: "bytes \<Rightarrow> bytes list" where
  "chunks2 (a # b # rest) = [a, b] # chunks2 rest"
| "chunks2 _ = []"

definition pick_cipher :: "bytes \<Rightarrow> bytes" where
  "pick_cipher ch =
     (let default = [0x13, 0x01]
      in if length ch < 44 then default
         else
           let off = 44 + unat (ch ! 43)
           in if length ch < off + 2 then default
              else
                let cl = word_be ch off;
                    fin = min (off + 2 + cl) (length ch);
                    pairs = chunks2 (drop (off + 2) (take fin ch))
                in case find (\<lambda>pref. pref \<in> set pairs) [[0x13, 0x02], [0x13, 0x01], [0x13, 0x03]] of
                     Some pref \<Rightarrow> pref
                   | None \<Rightarrow> default)"

text \<open>The draws: the server random, the key share and the body of the encrypted record.\<close>

record fallback_draws =
  fb_random :: bytes
  fb_key_share :: bytes
  fb_flight :: bytes

definition fallback_server_hello :: "fallback_draws \<Rightarrow> bytes \<Rightarrow> bytes \<Rightarrow> bytes" where
  "fallback_server_hello d ch client_session_id =
     (let exts = [0x00, 0x2b, 0x00, 0x02, 0x03, 0x04]
            @ [0x00, 0x33, 0x00, 0x24, 0x00, 0x1d, 0x00, 0x20] @ fb_key_share d;
          hs_body = [0x03, 0x03] @ fb_random d @ [of_nat (length client_session_id)] @ client_session_id
            @ pick_cipher ch @ [0x00] @ be16 (of_nat (length exts)) @ exts
      in [0x16, 0x03, 0x03] @ be16 (of_nat (4 + length hs_body)) @ [0x02]
         @ be24 (of_nat (length hs_body)) @ hs_body
         @ [0x14, 0x03, 0x03, 0x00, 0x01, 0x01]
         @ [0x17, 0x03, 0x03] @ be16 (of_nat (length (fb_flight d))) @ fb_flight d)"

subsection \<open>The cache\<close>

record hs_cache =
  hc_templates :: "bytes list"
  hc_warming :: bool
  hc_refreshing :: bool

definition cache_new :: hs_cache where
  "cache_new = \<lparr>hc_templates = [], hc_warming = False, hc_refreshing = False\<rparr>"

definition spawn_refresh_task :: "hs_cache \<Rightarrow> hs_cache" where
  "spawn_refresh_task c = c\<lparr>hc_refreshing := True\<rparr>"

text \<open>One round of the refresh task.\<close>

definition refresh_round :: "bytes list \<Rightarrow> hs_cache \<Rightarrow> hs_cache" where
  "refresh_round templates c = (if templates \<noteq> [] then c\<lparr>hc_templates := templates\<rparr> else c)"

definition prewarm :: "bytes list \<Rightarrow> hs_cache \<Rightarrow> hs_cache" where
  "prewarm templates c =
     (if hc_templates c \<noteq> [] then c
      else if hc_warming c then c
      else spawn_refresh_task (if templates \<noteq> [] then c\<lparr>hc_templates := hc_templates c @ templates\<rparr> else c))"

definition override_random :: "bytes option \<Rightarrow> bytes \<Rightarrow> bytes" where
  "override_random pk flight =
     (case pk of None \<Rightarrow> flight
      | Some pk \<Rightarrow> if 43 \<le> length flight \<and> flight ! 0 = 0x16 then copy_at 11 pk flight else flight)"

text \<open>One reply. \<open>templates\<close> is what a fetch of its own brings, \<open>waited\<close> the cache after the wait
for the warm-up of another task, \<open>idx\<close> the draw among the templates.\<close>

definition cached_reply :: "nat \<Rightarrow> bytes \<Rightarrow> bytes option \<Rightarrow> bytes \<Rightarrow> hs_cache \<Rightarrow> bytes" where
  "cached_reply idx new_random pk sid c =
     override_random pk (patch_server_hello new_random (hc_templates c ! idx) sid)"

definition get_server_hello_pfs ::
    "bytes list \<Rightarrow> hs_cache \<Rightarrow> nat \<Rightarrow> fallback_draws \<Rightarrow> bytes \<Rightarrow> bytes \<Rightarrow> bytes option \<Rightarrow> hs_cache
     \<Rightarrow> bytes \<times> hs_cache" where
  "get_server_hello_pfs templates waited idx d new_random ch pk c =
     (let sid = (case get_session_id ch of None \<Rightarrow> [] | Some s \<Rightarrow> s)
      in if hc_templates c = [] then
           if \<not> hc_warming c then
             let c1 = (if templates \<noteq> [] then c\<lparr>hc_templates := hc_templates c @ templates\<rparr>
                       else c\<lparr>hc_templates := hc_templates c @ [fallback_server_hello d ch sid]\<rparr>);
                 c2 = spawn_refresh_task c1
             in (cached_reply idx new_random pk sid c2, c2)
           else if hc_templates waited = [] then
             (override_random pk (fallback_server_hello d ch sid), waited)
           else (cached_reply idx new_random pk sid waited, waited)
         else (cached_reply idx new_random pk sid c, c))"

subsection \<open>The client reads the flight\<close>

datatype flight_error =
    IncompleteHeader
  | IncompleteBody
  | FlightBodyTimeout
  | TimeoutBeforeCcs
  | ServerAlert
  | IncompleteFlight seen
  | ZeroRandom

record flight_state =
  fl_seen :: seen
  fl_random :: bytes
  fl_suite :: u16

record server_handshake =
  sh_random :: bytes
  sh_suite :: u16

definition zero32 :: bytes where "zero32 = replicate 32 0"

definition flight_start :: flight_state where
  "flight_start = \<lparr>fl_seen = (False, False, False), fl_random = zero32, fl_suite = 0x1301\<rparr>"

text \<open>The random and the suite are taken from the first handshake record, if it is long enough.\<close>

definition capture_hello :: "bytes \<Rightarrow> flight_state \<Rightarrow> flight_state" where
  "capture_hello body st =
     (if 38 \<le> length body then
        let st1 = st\<lparr>fl_random := take 32 (drop 6 body)\<rparr>
        in if 39 \<le> length body then
             let sid_len = unat (body ! 38)
             in if 39 + sid_len + 2 \<le> length body
                then st1\<lparr>fl_suite := of_be16 (body ! (39 + sid_len)) (body ! (40 + sid_len))\<rparr>
                else st1
           else st1
      else st)"

definition flight_record :: "u8 \<Rightarrow> bytes \<Rightarrow> flight_state \<Rightarrow> flight_state" where
  "flight_record ct body st =
     (let st1 = (if ct = 0x16 \<and> \<not> fst (fl_seen st) then capture_hello body st else st)
      in st1\<lparr>fl_seen := see ct (fl_seen st1)\<rparr>)"

definition flight_result :: "flight_state \<Rightarrow> (flight_error, server_handshake) result" where
  "flight_result st =
     (if fl_random st = zero32 then Inl ZeroRandom
      else Inr \<lparr>sh_random = fl_random st, sh_suite = fl_suite st\<rparr>)"

function read_flight ::
    "stream_end \<Rightarrow> bytes \<Rightarrow> flight_state \<Rightarrow> (flight_error, server_handshake) result \<times> bytes" where
  "read_flight e inp st =
     (if length inp < 5 then
        case e of
          Closed \<Rightarrow> (Inl IncompleteHeader, [])
        | Silent \<Rightarrow>
            (if \<not> fst (snd (fl_seen st)) then Inl TimeoutBeforeCcs
             else if \<not> all_seen (fl_seen st) then Inl (IncompleteFlight (fl_seen st))
             else flight_result st, [])
      else
        let ct = inp ! 0; len = header_len inp; rest = drop 5 inp
        in if length rest < len then
             (Inl (case e of Closed \<Rightarrow> IncompleteBody | Silent \<Rightarrow> FlightBodyTimeout), [])
           else if ct = 0x15 then (Inl ServerAlert, drop len rest)
           else
             let st1 = flight_record ct (take len rest) st
             in if all_seen (fl_seen st1) then (flight_result st1, drop len rest)
                else read_flight e (drop len rest) st1)"
  by pat_completeness auto
termination
  by (relation "measure (\<lambda>(_, inp, _). length inp)") auto

declare read_flight.simps [simp del]

definition read_server_handshake ::
    "stream_end \<Rightarrow> bytes \<Rightarrow> (flight_error, server_handshake) result \<times> bytes" where
  "read_server_handshake e inp = read_flight e inp flight_start"

subsection \<open>Flights as lists of records\<close>

text \<open>A record: its type, the two bytes of its version, its body.\<close>

type_synonym tls_record = "u8 \<times> u8 \<times> u8 \<times> bytes"

fun enc_rec :: "tls_record \<Rightarrow> bytes" where
  "enc_rec (ct, v1, v2, body) = [ct, v1, v2] @ be16 (of_nat (length body)) @ body"

fun rec_ok :: "tls_record \<Rightarrow> bool" where
  "rec_ok (ct, v1, v2, body) \<longleftrightarrow> length body < 65536"

definition flight_of :: "tls_record list \<Rightarrow> bytes" where
  "flight_of rs = concat (map enc_rec rs)"

definition seen_in :: "tls_record list \<Rightarrow> seen" where
  "seen_in rs = fold (\<lambda>r. see (fst r)) rs (False, False, False)"

lemma flight_of_simps [simp]:
  "flight_of [] = []" "flight_of (r # rs) = enc_rec r @ flight_of rs"
  "flight_of (rs @ qs) = flight_of rs @ flight_of qs"
  by (simp_all add: flight_of_def)

lemma header_len_enc:
  "length body < 65536 \<Longrightarrow> header_len ([a, b, c] @ be16 (of_nat (length body)) @ t) = length body"
  by (simp add: header_len_def be16_def of_be16_be16 unat_of_nat)

lemma header_len_enc_rec: "rec_ok (ct, v1, v2, body) \<Longrightarrow> header_len (enc_rec (ct, v1, v2, body) @ t) = length body"
  using header_len_enc [of body ct v1 v2 "body @ t"] by simp

lemma length_enc_rec: "length (enc_rec (ct, v1, v2, body)) = 5 + length body"
  by simp

lemma enc_rec_parts:
  "enc_rec (ct, v1, v2, body) @ t \<noteq> []" "(enc_rec (ct, v1, v2, body) @ t) ! 0 = ct"
  "drop (5 + length body) (enc_rec (ct, v1, v2, body) @ t) = t"
  "drop 5 (enc_rec (ct, v1, v2, body)) = body"
  by (simp, simp, metis length_enc_rec append_eq_conv_conj, simp add: be16_def)

lemma template_scan_enc:
  assumes "rec_ok r"
  shows "template_scan (enc_rec r @ t) s = template_scan t (see (fst r) s)"
proof (cases r)
  case (fields ct v1 v2 body)
  with assms header_len_enc_rec [of ct v1 v2 body t] show ?thesis
    by (subst template_scan.simps) (simp add: Let_def length_enc_rec enc_rec_parts del: enc_rec.simps)
qed

lemma template_scan_flight:
  "list_all rec_ok rs \<Longrightarrow> template_scan (flight_of rs) s = all_seen (fold (\<lambda>r. see (fst r)) rs s)"
proof (induction rs arbitrary: s)
  case Nil
  then show ?case by (simp add: template_scan.simps)
next
  case (Cons r rs)
  then show ?case by (simp add: template_scan_enc)
qed

lemma template_is_complete_flight:
  "list_all rec_ok rs \<Longrightarrow> template_is_complete (flight_of rs) = all_seen (seen_in rs)"
  by (simp add: template_is_complete_def template_scan_flight seen_in_def)

lemma see_mono: "all_seen s \<Longrightarrow> all_seen (see ct s)"
  by (auto simp: all_seen_def see_def split: prod.splits)

lemma read_flight_enc:
  assumes "rec_ok (ct, v1, v2, body)"
  shows "read_flight e (enc_rec (ct, v1, v2, body) @ t) st =
    (if ct = 0x15 then (Inl ServerAlert, t)
     else let st1 = flight_record ct body st
       in if all_seen (fl_seen st1) then (flight_result st1, t) else read_flight e t st1)"
  using assms header_len_enc_rec [OF assms, of t]
  by (subst read_flight.simps) (simp add: Let_def length_enc_rec enc_rec_parts del: enc_rec.simps)

lemma fl_seen_record [simp]: "fl_seen (flight_record ct body st) = see ct (fl_seen st)"
  by (simp add: flight_record_def capture_hello_def Let_def)

lemma fst_see: "fst (see ct s) = (fst s \<or> ct = 0x16)"
  by (simp add: see_def split: prod.splits)

text \<open>Once the first handshake record is read, the others only add their types.\<close>

lemma flight_record_later:
  "fst (fl_seen st) \<Longrightarrow> flight_record ct body st = st\<lparr>fl_seen := see ct (fl_seen st)\<rparr>"
  by (simp add: flight_record_def Let_def)

lemma read_flight_later:
  assumes "list_all rec_ok rs" "\<forall>r\<in>set rs. fst r \<noteq> 0x15" "fst (fl_seen st)"
    and "\<not> all_seen (fold (\<lambda>r. see (fst r)) (butlast rs) (fl_seen st))"
    and "all_seen (fold (\<lambda>r. see (fst r)) rs (fl_seen st))"
  shows "read_flight e (flight_of rs @ t) st = (flight_result st, t)"
  using assms
proof (induction rs arbitrary: st)
  case (Cons r rs)
  obtain ct v1 v2 body where r: "r = (ct, v1, v2, body)" by (cases r)
  let ?st1 = "st\<lparr>fl_seen := see ct (fl_seen st)\<rparr>"
  have res: "flight_result ?st1 = flight_result st" by (simp add: flight_result_def)
  have step: "read_flight e (flight_of (r # rs) @ t) st
      = (if all_seen (see ct (fl_seen st)) then (flight_result st, flight_of rs @ t)
         else read_flight e (flight_of rs @ t) ?st1)"
    using Cons.prems(1-3) read_flight_enc [of ct v1 v2 body e "flight_of rs @ t" st]
    by (simp add: r flight_record_later Let_def res)
  show ?case
  proof (cases "rs = []")
    case True
    with Cons.prems(5) show ?thesis unfolding step by (simp add: r)
  next
    case False
    have mono: "all_seen s \<Longrightarrow> all_seen (fold (\<lambda>r. see (fst r)) qs s)" for s and qs :: "tls_record list"
      by (induction qs arbitrary: s) (simp_all add: see_mono)
    have "\<not> all_seen (see ct (fl_seen st))"
      using Cons.prems(4) False mono [of "see ct (fl_seen st)" "butlast rs"] by (auto simp: r)
    moreover have "read_flight e (flight_of rs @ t) ?st1 = (flight_result ?st1, t)"
      using Cons.prems False by (intro Cons.IH) (simp_all add: r fst_see)
    ultimately show ?thesis unfolding step res by simp
  qed
qed simp

lemma fetch_records_complete:
  "template_is_complete buf \<Longrightarrow> fetch_records n e header buf inp = buf"
  by (cases n) simp_all

lemma fetch_records_Suc:
  "\<not> template_is_complete buf \<Longrightarrow> read_into e header inp = Some (header1, inp1)
   \<Longrightarrow> read_into e (replicate (header_len header1) 0) inp1 = Some (body, inp2)
   \<Longrightarrow> fetch_records (Suc n) e header buf inp = fetch_records n e header1 (buf @ header1 @ body) inp2"
  by simp

lemma length_enc_header: "length (take 5 (enc_rec r)) = 5"
  by (cases r) simp

lemma fetch_records_step:
  assumes "rec_ok (ct, v1, v2, body)" "\<not> template_is_complete buf" "length header = 5"
  shows "fetch_records (Suc n) e header buf (enc_rec (ct, v1, v2, body) @ t)
    = fetch_records n e (take 5 (enc_rec (ct, v1, v2, body))) (buf @ enc_rec (ct, v1, v2, body)) t"
proof -
  have "header_len [ct, v1, v2, be16 (of_nat (length body)) ! 0, be16 (of_nat (length body)) ! 1] = length body"
    using header_len_enc [of body ct v1 v2 "[]"] assms(1) by (simp add: be16_def)
  with assms show ?thesis by (simp add: read_into_def be16_def)
qed

text \<open>The fetch walks the records of the site and stops at the first that completes the flight.\<close>

lemma fetch_records_flight:
  assumes "list_all rec_ok (qs @ rs)" "all_seen (seen_in (qs @ rs))" "length rs \<le> n" "length header = 5"
    and "\<not> all_seen (seen_in qs)"
  shows "\<exists>k \<le> length rs. 0 < k \<and> fetch_records n e header (flight_of qs) (flight_of rs @ t) = flight_of (qs @ take k rs)
    \<and> all_seen (seen_in (qs @ take k rs)) \<and> \<not> all_seen (seen_in (qs @ take (k - 1) rs))"
  using assms
proof (induction rs arbitrary: qs n header)
  case (Cons r rs)
  obtain ct v1 v2 body where r: "r = (ct, v1, v2, body)" by (cases r)
  obtain m where m: "n = Suc m" "length rs \<le> m" using Cons.prems(3) by (cases n) auto
  have nc: "\<not> template_is_complete (flight_of qs)"
    using Cons.prems(1,5) by (simp add: template_is_complete_flight)
  have step: "fetch_records n e header (flight_of qs) (flight_of (r # rs) @ t)
      = fetch_records m e (take 5 (enc_rec r)) (flight_of (qs @ [r])) (flight_of rs @ t)"
    using fetch_records_step [OF _ nc Cons.prems(4), of ct v1 v2 body m e "flight_of rs @ t"] Cons.prems(1)
    unfolding m r by simp
  show ?case
  proof (cases "all_seen (seen_in (qs @ [r]))")
    case True
    then have "template_is_complete (flight_of (qs @ [r]))"
      using Cons.prems(1) by (subst template_is_complete_flight) simp_all
    with True Cons.prems(5) show ?thesis unfolding step
      by (intro exI [of _ 1]) (simp add: fetch_records_complete)
  next
    case False
    from Cons.IH [of "qs @ [r]" m "take 5 (enc_rec r)"] Cons.prems m False length_enc_header
    obtain k where k: "k \<le> length rs" "0 < k"
        "fetch_records m e (take 5 (enc_rec r)) (flight_of (qs @ [r])) (flight_of rs @ t)
           = flight_of (qs @ [r] @ take k rs)"
        "all_seen (seen_in (qs @ [r] @ take k rs))" "\<not> all_seen (seen_in (qs @ [r] @ take (k - 1) rs))"
      by auto
    then show ?thesis unfolding step
      by (intro exI [of _ "Suc k"]) (auto simp: take_Cons')
  qed
qed (simp)

subsection \<open>ServerHello records\<close>

text \<open>The body of a ServerHello record: its head, the version, the random, the session id, the
suite, and what else the record holds (\<open>trail\<close>).\<close>

definition hello_body :: "bytes \<Rightarrow> bytes \<Rightarrow> bytes \<Rightarrow> bytes \<Rightarrow> u16 \<Rightarrow> bytes \<Rightarrow> bytes" where
  "hello_body hs v rnd sid suite trail =
     hs @ v @ rnd @ [of_nat (length sid)] @ sid @ be16 suite @ trail"

lemma length_hello_body [simp]:
  "length (hello_body hs v rnd sid suite trail) = length hs + length v + length rnd + 3 + length sid + length trail"
  by (simp add: hello_body_def)

lemma capture_hello_body:
  assumes "length hs = 4" "length v = 2" "length rnd = 32" "length sid < 256"
  shows "capture_hello (hello_body hs v rnd sid suite trail) st = st\<lparr>fl_random := rnd, fl_suite := suite\<rparr>"
proof -
  have n: "unat (of_nat (length sid) :: u8) = length sid" using assms(4) by (simp add: unat_of_nat)
  have "hello_body hs v rnd sid suite trail ! 38 = of_nat (length sid)"
    using assms by (simp add: hello_body_def nth_append)
  moreover have "take 32 (drop 6 (hello_body hs v rnd sid suite trail)) = rnd"
    using assms by (simp add: hello_body_def)
  moreover have "hello_body hs v rnd sid suite trail ! (39 + length sid) = be16 suite ! 0"
    "hello_body hs v rnd sid suite trail ! (40 + length sid) = be16 suite ! 1"
    using assms by (simp_all add: hello_body_def nth_append be16_def)
  moreover have "of_be16 (be16 suite ! 0) (be16 suite ! 1) = suite"
    by (simp add: be16_def of_be16_be16)
  ultimately show ?thesis using assms n by (simp add: capture_hello_def Let_def)
qed

lemma patch_hello:
  assumes "length hs = 4" "length v = 2" "length rnd = 32" "length sid0 < 256" "length nr = 32"
    and "length sid < 256" "length trail < 60000"
  shows "\<exists>hs'. length hs' = 4
    \<and> patch_server_hello nr (enc_rec (0x16, a, b, hello_body hs v rnd sid0 suite trail) @ t) sid
      = enc_rec (0x16, a, b, hello_body hs' v nr sid suite trail) @ t"
proof -
  obtain h0 h1 h2 h3 where hs: "hs = [h0, h1, h2, h3]"
    using assms(1) by (auto simp: numeral_eq_Suc length_Suc_conv)
  let ?L = "\<lambda>s :: bytes. be16 (of_nat (41 + length s + length trail)) :: bytes"
  let ?f = "enc_rec (0x16, a, b, hello_body hs v rnd sid0 suite trail) @ t"
  let ?tail = "be16 suite @ trail @ t"
  have f: "?f = [0x16, a, b] @ ?L sid0 @ hs @ v @ rnd @ [of_nat (length sid0)] @ sid0 @ ?tail"
    using assms by (simp add: hello_body_def hs ac_simps)
  have n: "unat (of_nat (length sid0) :: u8) = length sid0" using assms(4) by (simp add: unat_of_nat)
  have i: "?f ! 0 = 0x16" "?f ! 43 = of_nat (length sid0)" "44 + length sid0 \<le> length ?f"
    unfolding f using assms by (simp_all add: nth_append)
  have w: "word_be ?f 3 = 41 + length sid0 + length trail"
  proof -
    define N where "N = 41 + length sid0 + length trail"
    have "unat (of_nat N :: u16) = N" using assms by (simp add: unat_of_nat N_def del: of_nat_add)
    then show ?thesis unfolding f N_def [symmetric]
      by (simp add: word_be_def nth_append be16_def of_be16_be16)
  qed
  have diff: "clamp_int 0 65535 (int (41 + length sid0 + length trail) + (int (length sid) - int (length sid0)))
      = int (41 + length sid + length trail)"
    using assms by (simp add: clamp_int_def)
  have be: "be16 (word_of_int (int (41 + length sid + length trail))) = ?L sid"
    by simp
  have t43: "take 43 ?f = [0x16, a, b] @ ?L sid0 @ hs @ v @ rnd"
    unfolding f using assms by simp
  have d44: "drop (44 + length sid0) ?f = ?tail"
  proof -
    have "?f = ([0x16, a, b] @ ?L sid0 @ hs @ v @ rnd @ [of_nat (length sid0)] @ sid0) @ ?tail"
      unfolding f by simp
    moreover have "length ([0x16, a, b] @ ?L sid0 @ hs @ v @ rnd @ [of_nat (length sid0)] @ sid0) = 44 + length sid0"
      using assms by simp
    ultimately show ?thesis by (metis append_eq_conv_conj)
  qed
  let ?r = "[of_nat (length sid)] @ sid @ ?tail"
  have c1: "copy_at 11 nr (([0x16, a, b] @ ?L sid0 @ hs @ v @ rnd) @ ?r)
      = [0x16, a, b] @ ?L sid0 @ hs @ v @ nr @ ?r"
    using copy_at_append [of "[0x16, a, b] @ ?L sid0 @ hs @ v" 11 rnd nr ?r] assms by simp
  have c2: "copy_at 3 (?L sid) ([0x16, a, b] @ ?L sid0 @ hs @ v @ nr @ ?r) = [0x16, a, b] @ ?L sid @ hs @ v @ nr @ ?r"
    using copy_at_append [of "[0x16, a, b]" 3 "?L sid0" "?L sid" "hs @ v @ nr @ ?r"] by simp
  have c3: "copy_at 6 (be24 x) ([0x16, a, b] @ ?L sid @ hs @ v @ nr @ ?r)
      = [0x16, a, b] @ ?L sid @ (h0 # be24 x) @ v @ nr @ ?r" for x
    using copy_at_append [of "[0x16, a, b] @ ?L sid @ [h0]" 6 "[h1, h2, h3]" "be24 x" "v @ nr @ ?r"]
    by (simp add: hs)
  define x where "x = (word_of_int (clamp_int 0 0xFFFFFF
    (int (unat (?f ! 6) * 65536 + unat (?f ! 7) * 256 + unat (?f ! 8)) + (int (length sid) - int (length sid0)))) :: u32)"
  have "patch_server_hello nr ?f sid = [0x16, a, b] @ ?L sid @ (h0 # be24 x) @ v @ nr @ ?r"
    unfolding patch_server_hello_def i(1,2) n w Let_def diff be t43 d44 x_def [symmetric]
    using i(3) by (simp only: c1 c2 c3) (simp)
  also have "\<dots> = enc_rec (0x16, a, b, hello_body (h0 # be24 x) v nr sid suite trail) @ t"
    using assms by (simp add: hello_body_def ac_simps)
  finally show ?thesis by (intro exI [of _ "h0 # be24 x"]) simp
qed

lemma override_hello:
  assumes "length hs = 4" "length v = 2" "length rnd = 32" "\<forall>k. pk = Some k \<longrightarrow> length k = 32"
  shows "override_random pk (enc_rec (0x16, a, b, hello_body hs v rnd sid suite trail) @ t)
    = enc_rec (0x16, a, b, hello_body hs v (case pk of None \<Rightarrow> rnd | Some k \<Rightarrow> k) sid suite trail) @ t"
proof (cases pk)
  case (Some k)
  let ?head = "[0x16, a, b] @ be16 (of_nat (41 + length sid + length trail)) @ hs @ v"
  let ?tail = "[of_nat (length sid)] @ sid @ be16 suite @ trail @ t"
  have f: "enc_rec (0x16, a, b, hello_body hs v x sid suite trail) @ t = ?head @ x @ ?tail"
    if "length x = 32" for x
    using assms that by (simp add: hello_body_def ac_simps)
  from Some assms(4) have k: "length k = 32" by simp
  have "copy_at 11 k (?head @ rnd @ ?tail) = ?head @ k @ ?tail"
    by (rule copy_at_append) (use assms k in simp_all)
  moreover have "43 \<le> length (?head @ rnd @ ?tail)" "(?head @ rnd @ ?tail) ! 0 = 0x16"
    using assms by simp_all
  ultimately show ?thesis unfolding Some option.case f [OF k] f [OF assms(3)]
    by (simp only: override_random_def option.case) simp
qed (simp add: override_random_def)

lemma read_hello_flight:
  assumes "length hs = 4" "length v = 2" "length rnd = 32" "rnd \<noteq> zero32" "length sid < 256" "length trail < 60000"
    and "list_all rec_ok rs" "\<forall>r\<in>set rs. fst r \<noteq> 0x15"
    and "all_seen (fold (\<lambda>r. see (fst r)) rs (True, False, False))"
    and "\<not> all_seen (fold (\<lambda>r. see (fst r)) (butlast rs) (True, False, False))"
  shows "read_server_handshake e (enc_rec (0x16, a, b, hello_body hs v rnd sid suite trail) @ flight_of rs @ rest)
    = (Inr \<lparr>sh_random = rnd, sh_suite = suite\<rparr>, rest)"
proof -
  let ?r = "(0x16, a, b, hello_body hs v rnd sid suite trail)"
  let ?st = "\<lparr>fl_seen = (True, False, False), fl_random = rnd, fl_suite = suite\<rparr>"
  have "rec_ok ?r" using assms by simp
  moreover have "flight_record 0x16 (hello_body hs v rnd sid suite trail) flight_start = ?st"
    using capture_hello_body [OF assms(1-3,5)]
    by (simp add: flight_record_def flight_start_def see_def)
  ultimately have "read_server_handshake e (enc_rec ?r @ flight_of rs @ rest)
      = read_flight e (flight_of rs @ rest) ?st"
    by (simp add: read_server_handshake_def read_flight_enc all_seen_def Let_def del: enc_rec.simps rec_ok.simps)
  also have "\<dots> = (flight_result ?st, rest)"
    by (rule read_flight_later) (use assms in simp_all)
  finally show ?thesis using assms(4) by (simp add: flight_result_def)
qed

text \<open>A cached flight, patched for a client, is read to its last byte and no further.\<close>

lemma read_patched_flight:
  assumes "length hs = 4" "length v = 2" "length rnd = 32" "length sid0 < 256" "length trail < 60000"
    and "list_all rec_ok rs" "\<forall>r\<in>set rs. fst r \<noteq> 0x15"
    and "all_seen (fold (\<lambda>r. see (fst r)) rs (True, False, False))"
    and "\<not> all_seen (fold (\<lambda>r. see (fst r)) (butlast rs) (True, False, False))"
    and "length nr = 32" "length sid < 256" "\<forall>k. pk = Some k \<longrightarrow> length k = 32"
    and "(case pk of None \<Rightarrow> nr | Some k \<Rightarrow> k) \<noteq> zero32"
  shows "read_server_handshake e (override_random pk (patch_server_hello nr
      (enc_rec (0x16, a, b, hello_body hs v rnd sid0 suite trail) @ flight_of rs) sid) @ rest)
    = (Inr \<lparr>sh_random = (case pk of None \<Rightarrow> nr | Some k \<Rightarrow> k), sh_suite = suite\<rparr>, rest)"
proof -
  obtain hs' where hs': "length hs' = 4"
      "patch_server_hello nr (enc_rec (0x16, a, b, hello_body hs v rnd sid0 suite trail) @ flight_of rs) sid
        = enc_rec (0x16, a, b, hello_body hs' v nr sid suite trail) @ flight_of rs"
    using patch_hello [OF assms(1-4,10,11,5)] by blast
  have "length (case pk of None \<Rightarrow> nr | Some k \<Rightarrow> k) = 32"
    using assms(10,12) by (simp split: option.splits)
  from read_hello_flight [OF hs'(1) assms(2) this assms(13,11,5-9)] show ?thesis
    unfolding hs'(2) override_hello [OF hs'(1) assms(2,10,12)] by simp
qed

subsection \<open>Fetching from a site\<close>

lemma read_into_enc:
  assumes "length header = 5" "rec_ok (ct, v1, v2, body)"
  shows "read_into e header (enc_rec (ct, v1, v2, body) @ t) = Some (take 5 (enc_rec (ct, v1, v2, body)), body @ t)"
    "header_len (take 5 (enc_rec (ct, v1, v2, body))) = length body"
  using assms header_len_enc [of body ct v1 v2 "[]"] by (simp_all add: read_into_def be16_def)

lemma fetch_first_record:
  assumes "rec_ok (0x16, a, b, body)"
  shows "fetch_real_server_hello e (enc_rec (0x16, a, b, body) @ t)
    = (let buf = fetch_records 8 e (take 5 (enc_rec (0x16, a, b, body))) (enc_rec (0x16, a, b, body)) t
       in if template_is_complete buf then Inr buf else Inl IncompleteTemplate)"
proof -
  have "take 5 (enc_rec (0x16, a, b, body)) ! 0 = 0x16" "take 5 (enc_rec (0x16, a, b, body)) @ body = enc_rec (0x16, a, b, body)"
    by (simp_all add: be16_def)
  with read_into_enc(1) [OF _ assms, where header = "replicate 5 0" and e = e and t = t]
    read_into_enc(2) [OF _ assms, where header = "replicate 5 0"]
  show ?thesis by (simp add: fetch_real_server_hello_def read_into_def del: enc_rec.simps)
qed

lemma fetch_site_flight:
  assumes "list_all rec_ok (r # rs)" "fst r = 0x16" "all_seen (seen_in (r # rs))" "length rs \<le> 8"
  obtains k where "k \<le> length rs" "0 < k"
    "fetch_real_server_hello e (enc_rec r @ flight_of rs @ later) = Inr (enc_rec r @ flight_of (take k rs))"
    "all_seen (seen_in (r # take k rs))" "\<not> all_seen (seen_in (r # take (k - 1) rs))"
proof -
  obtain a b body where r: "r = (0x16, a, b, body)" using assms(2) by (cases r) auto
  have n: "\<not> all_seen (seen_in [r])" by (simp add: r seen_in_def see_def all_seen_def)
  from fetch_records_flight [of "[r]" rs 8 "take 5 (enc_rec r)" e later] assms n length_enc_header
  obtain k where k: "k \<le> length rs" "0 < k"
      "fetch_records 8 e (take 5 (enc_rec r)) (enc_rec r) (flight_of rs @ later) = enc_rec r @ flight_of (take k rs)"
      "all_seen (seen_in (r # take k rs))" "\<not> all_seen (seen_in (r # take (k - 1) rs))"
    by auto
  have "list_all rec_ok (r # take k rs)"
    using assms(1) by (auto simp: list_all_iff dest: in_set_takeD)
  from template_is_complete_flight [OF this] k(4) have "template_is_complete (enc_rec r @ flight_of (take k rs))"
    by simp
  with k(3) fetch_first_record [of a b body e "flight_of rs @ later"] assms(1)
  have "fetch_real_server_hello e (enc_rec r @ flight_of rs @ later) = Inr (enc_rec r @ flight_of (take k rs))"
    by (simp add: r Let_def del: enc_rec.simps)
  with that k show ?thesis by blast
qed

subsection \<open>What the builders offer\<close>

lemma chunks2_be16s: "chunks2 (be16s ws) = map be16 ws"
  by (induction ws) (simp_all add: be16s_def be16_def)

lemma profile_suites:
  assumes "build_with_profile d pr h sid rnd = Some r"
  obtains ws es where "r = assemble sid rnd (be16s ws) es" "0x1302 \<in> set ws" "length ws < 100"
proof (cases pr)
  case Chromium
  with assms that [of "get_grease (cd_cipher (hd_chromium d)) # chromium_ciphers"] show ?thesis
    by (auto simp: build_with_profile_def build_chromium_def be16s_def chromium_ciphers_def Let_def
        split: option.splits)
next
  case Firefox
  with assms that [of firefox_ciphers] show ?thesis
    by (auto simp: build_with_profile_def build_firefox_def firefox_ciphers_def Let_def)
next
  case OkHttp
  with assms that [of "get_grease (od_cipher (hd_okhttp d)) # chromium_ciphers"] show ?thesis
    by (auto simp: build_with_profile_def build_okhttp_def be16s_def chromium_ciphers_def Let_def
        split: option.splits if_splits)
qed

lemma hello_read_by_server:
  assumes "length rnd = 32" "length sid = 32" "0x1302 \<in> set ws" "length ws < 100"
  shows "get_session_id (assemble sid rnd (be16s ws) es) = Some sid"
    and "pick_cipher (assemble sid rnd (be16s ws) es) = [0x13, 0x02]"
proof -
  obtain A R where r: "assemble sid rnd (be16s ws) es
      = A @ [32] @ sid @ be16 (of_nat (length (be16s ws))) @ be16s ws @ R" "length A = 43"
  proof
    show "assemble sid rnd (be16s ws) es = ([0x16, 0x03, 0x01]
        @ be16 (of_nat (4 + (41 + length (be16s ws) + length es + 32))) @ [0x01]
        @ be24 (of_nat (41 + length (be16s ws) + length es + 32)) @ [0x03, 0x03] @ rnd)
        @ [32] @ sid @ be16 (of_nat (length (be16s ws))) @ be16s ws
        @ [0x01, 0x00] @ be16 (of_nat (length es)) @ es"
      using assms by (simp add: assemble_def Let_def ac_simps)
  qed (use assms in simp)
  let ?h = "assemble sid rnd (be16s ws) es" and ?n = "length (be16s ws)"
  have n: "unat (of_nat ?n :: u16) = ?n" using assms(4) by (subst unat_of_nat) simp
  have i: "?h ! 43 = 32" "44 + 32 \<le> length ?h" "length ?h \<ge> 78 + ?n"
    unfolding r(1) using r(2) assms by (simp_all add: nth_append)
  show "get_session_id ?h = Some sid"
    using i assms(2) r(2) by (simp add: get_session_id_def) (simp add: r(1))
  have w: "word_be ?h 76 = ?n"
    unfolding r(1) using r(2) assms(2) n by (simp add: word_be_def nth_append be16_def of_be16_be16)
  have "drop 78 ?h = be16s ws @ R"
    unfolding r(1) using r(2) assms(2) by simp
  then have "drop 78 (take (78 + ?n) ?h) = be16s ws"
    by (simp add: drop_take del: length_be16s)
  then have c: "chunks2 (drop 78 (take (78 + ?n) ?h)) = map be16 ws"
    by (simp add: chunks2_be16s)
  have "[0x13, 0x02] = be16 0x1302" by (simp add: be16_def)
  with assms(3) have "[0x13, 0x02] \<in> set (map be16 ws)" by auto
  with i w c show "pick_cipher ?h = [0x13, 0x02]"
    by (simp add: pick_cipher_def min_absorb1)
qed

subsection \<open>Properties\<close>

text \<open>C18. What the server fetches from its camouflage site, its clients read: if the site answers
with a ServerHello of any session id and up to eight further records without an alert that
bring a ChangeCipherSpec and an encrypted record, then the fetch caches a template, and for every
client, draw, time-out behaviour and public key to be planted, the patched reply gives the client
exactly the random the server chose and the suite of the site, and not one byte of what the
server sends next is consumed.\<close>
theorem site_flight_replayed:
  assumes "length hs = 4" "length v = 2" "length rnd = 32" "length sid0 < 256" "length trail < 60000"
    and "list_all rec_ok rs" "\<forall>r\<in>set rs. fst r \<noteq> 0x15" "length rs \<le> 8"
    and "0x14 \<in> fst ` set rs" "0x17 \<in> fst ` set rs"
    and "length nr = 32" "length sid < 256" "\<forall>k. pk = Some k \<longrightarrow> length k = 32"
    and "(case pk of None \<Rightarrow> nr | Some k \<Rightarrow> k) \<noteq> zero32"
  shows "read_server_handshake e' (cached_reply 0 nr pk sid (refresh_round (fetch_batch
      [Some (e, enc_rec (0x16, a, b, hello_body hs v rnd sid0 suite trail) @ flight_of rs @ later)]) c) @ rest)
    = (Inr \<lparr>sh_random = (case pk of None \<Rightarrow> nr | Some k \<Rightarrow> k), sh_suite = suite\<rparr>, rest)"
proof -
  let ?r = "(0x16, a, b, hello_body hs v rnd sid0 suite trail) :: tls_record"
  have seen: "fold (\<lambda>r. see (fst r)) rs s = (fst s \<or> 0x16 \<in> fst ` set rs,
      fst (snd s) \<or> 0x14 \<in> fst ` set rs, snd (snd s) \<or> 0x17 \<in> fst ` set rs)" for rs :: "tls_record list" and s
    by (induction rs arbitrary: s) (auto simp: see_def split: prod.splits)
  have ok: "list_all rec_ok (?r # rs)" using assms by simp
  have start: "see 0x16 (False, False, False) = (True, False, False)" by (simp add: see_def)
  have "all_seen (seen_in (?r # rs))" using assms(9,10) by (simp add: seen_in_def start seen all_seen_def)
  from fetch_site_flight [OF ok _ this assms(8), of e later] obtain k where k: "k \<le> length rs" "0 < k"
      "fetch_real_server_hello e (enc_rec ?r @ flight_of rs @ later) = Inr (enc_rec ?r @ flight_of (take k rs))"
      "all_seen (seen_in (?r # take k rs))" "\<not> all_seen (seen_in (?r # take (k - 1) rs))"
    by auto
  have "butlast (take k rs) = take (k - 1) rs" using k(1) by (simp add: butlast_take)
  moreover have "list_all rec_ok (take k rs)" "\<forall>r\<in>set (take k rs). fst r \<noteq> 0x15"
    using assms(6,7) by (auto simp: list_all_iff dest: in_set_takeD)
  ultimately have "read_server_handshake e' (override_random pk (patch_server_hello nr
      (enc_rec ?r @ flight_of (take k rs)) sid) @ rest)
      = (Inr \<lparr>sh_random = (case pk of None \<Rightarrow> nr | Some k \<Rightarrow> k), sh_suite = suite\<rparr>, rest)"
    using k(4,5) by (intro read_patched_flight assms(1-5,11-14)) (simp_all add: seen_in_def start)
  then show ?thesis
    by (simp add: cached_reply_def refresh_round_def fetch_batch_def List.map_filter_def k(3)
        del: enc_rec.simps)
qed

text \<open>The forged flight stands in for an unreachable site: whatever hello the client built, the
server's parsers find its token and the one suite all profiles offer (0x1302), and the reply is
read by the client with that suite and the random the server chose, up to its last byte.\<close>
theorem fallback_flight_accepted:
  assumes "build_client_hello_with_random None d h token rnd = Some hello" "length rnd = 32" "length token = 32"
    and "length (fb_random fd) = 32" "length (fb_key_share fd) = 32" "length (fb_flight fd) < 65536"
    and "length nr = 32" "\<forall>k. pk = Some k \<longrightarrow> length k = 32"
    and "(case pk of None \<Rightarrow> nr | Some k \<Rightarrow> k) \<noteq> zero32"
  shows "get_session_id hello = Some token
    \<and> read_server_handshake e (fst (get_server_hello_pfs [] waited 0 fd nr hello pk cache_new) @ rest)
      = (Inr \<lparr>sh_random = (case pk of None \<Rightarrow> nr | Some k \<Rightarrow> k), sh_suite = 0x1302\<rparr>, rest)"
proof -
  from assms(1) obtain ws es where "hello = assemble token rnd (be16s ws) es" "0x1302 \<in> set ws" "length ws < 100"
    by (auto simp: build_client_hello_with_random_def elim: profile_suites)
  with hello_read_by_server [OF assms(2,3)] have h: "get_session_id hello = Some token"
      "pick_cipher hello = [0x13, 0x02]" by simp_all
  let ?trail = "[0x00] @ be16 (of_nat 46) @ [0x00, 0x2b, 0x00, 0x02, 0x03, 0x04]
    @ [0x00, 0x33, 0x00, 0x24, 0x00, 0x1d, 0x00, 0x20] @ fb_key_share fd"
  let ?hs = "0x02 # be24 (of_nat 118)"
  let ?rs = "[(0x14, 3, 3, [0x01]), (0x17, 3, 3, fb_flight fd)]"
  have "fallback_server_hello fd hello token = enc_rec (0x16, 3, 3, hello_body ?hs [3, 3] (fb_random fd) token 0x1302 ?trail)
      @ flight_of ?rs"
    using assms(3-5) h(2) by (simp add: fallback_server_hello_def hello_body_def be16_def Let_def)
  moreover have "fst (get_server_hello_pfs [] waited 0 fd nr hello pk cache_new)
      = override_random pk (patch_server_hello nr (fallback_server_hello fd hello token) token)"
    by (simp add: get_server_hello_pfs_def cache_new_def spawn_refresh_task_def cached_reply_def h(1) Let_def)
  moreover have "read_server_handshake e (override_random pk (patch_server_hello nr
      (enc_rec (0x16, 3, 3, hello_body ?hs [3, 3] (fb_random fd) token 0x1302 ?trail) @ flight_of ?rs) token) @ rest)
      = (Inr \<lparr>sh_random = (case pk of None \<Rightarrow> nr | Some k \<Rightarrow> k), sh_suite = 0x1302\<rparr>, rest)"
    by (rule read_patched_flight) (use assms in \<open>simp_all add: all_seen_def see_def\<close>)
  ultimately show ?thesis using h(1) by simp
qed

text \<open>A site that hangs up in the middle of its encrypted record poisons the cache: the fetch
asks only whether it timed out, so the missing bytes stay zero, the template counts as complete
and is cached as if the site had sent it.\<close>
theorem truncated_record_cached:
  assumes "rec_ok (0x16, a, b, sh)" "rec_ok (0x14, a, b, ccs)" "length part + missing < 65536"
  shows "fetch_batch [Some (Closed, enc_rec (0x16, a, b, sh) @ enc_rec (0x14, a, b, ccs)
      @ [0x17, 3, 3] @ be16 (of_nat (length part + missing)) @ part)]
    = [enc_rec (0x16, a, b, sh) @ enc_rec (0x14, a, b, ccs) @ enc_rec (0x17, 3, 3, part @ replicate missing 0)]"
proof -
  let ?r1 = "(0x16, a, b, sh) :: tls_record" and ?r2 = "(0x14, a, b, ccs) :: tls_record"
    and ?r3 = "(0x17, 3, 3, part @ replicate missing 0) :: tls_record"
  let ?cut = "[0x17, 3, 3] @ be16 (of_nat (length part + missing)) @ part"
  have ok: "list_all rec_ok [?r1, ?r2, ?r3]" using assms by simp
  have complete: "template_is_complete (enc_rec ?r1 @ enc_rec ?r2 @ enc_rec ?r3)"
    "\<not> template_is_complete (enc_rec ?r1)" "\<not> template_is_complete (enc_rec ?r1 @ enc_rec ?r2)"
    using template_is_complete_flight [OF ok] template_is_complete_flight [of "[?r1]"]
      template_is_complete_flight [of "[?r1, ?r2]"] ok
    by (simp_all add: seen_in_def see_def all_seen_def del: enc_rec.simps)
  have h3: "header_len ([0x17, 3, 3] @ be16 (of_nat (length part + missing))) = length part + missing"
    using header_len_enc [of "part @ replicate missing 0" "0x17" 3 3 "[]"] assms(3) by simp
  let ?h3 = "[0x17, 3, 3] @ be16 (of_nat (length part + missing))"
  have l5: "length (take 5 (enc_rec ?r2)) = 5" by (rule length_enc_header)
  have "read_into Closed (take 5 (enc_rec ?r2)) (?h3 @ part) = Some (?h3, part)"
    unfolding read_into_def l5 by simp
  moreover have "read_into Closed (replicate (header_len ?h3) 0) part = Some (part @ replicate missing 0, [])"
    unfolding h3 by (simp add: read_into_def)
  ultimately have "fetch_records (Suc n) Closed (take 5 (enc_rec ?r2)) (enc_rec ?r1 @ enc_rec ?r2) (?h3 @ part)
      = fetch_records n Closed ?h3 ((enc_rec ?r1 @ enc_rec ?r2) @ ?h3 @ part @ replicate missing 0) []" for n
    by (rule fetch_records_Suc [OF complete(3)])
  moreover have "?h3 @ part @ replicate missing 0 = enc_rec ?r3" by simp
  ultimately have "fetch_records (Suc n) Closed (take 5 (enc_rec ?r2)) (enc_rec ?r1 @ enc_rec ?r2) ?cut
      = fetch_records n Closed ?h3 (enc_rec ?r1 @ enc_rec ?r2 @ enc_rec ?r3) []" for n
    by (simp only: append_assoc)
  then have "fetch_records 8 Closed (take 5 (enc_rec ?r1)) (enc_rec ?r1) (enc_rec ?r2 @ ?cut)
      = enc_rec ?r1 @ enc_rec ?r2 @ enc_rec ?r3"
    using fetch_records_step [OF assms(2) complete(2), where n = 7 and e = Closed and t = ?cut] length_enc_header
    by (simp add: numeral_eq_Suc fetch_records_complete complete(1) del: enc_rec.simps fetch_records.simps)
  with fetch_first_record [OF assms(1)] complete(1) show ?thesis
    by (simp add: fetch_batch_def List.map_filter_def Let_def del: enc_rec.simps)
qed

subsection \<open>Witnesses\<close>
lemma site_flight_replayed_witness:
  "read_server_handshake Silent (cached_reply 0 (replicate 32 5) (Some (replicate 32 7)) (replicate 32 1)
      (refresh_round (fetch_batch [Some (Closed, enc_rec (0x16, 3, 3,
          hello_body [2, 0, 0, 40] [3, 3] (replicate 32 9) [] 0x1301 [0])
        @ flight_of [(0x16, 3, 3, [8]), (0x14, 3, 3, [1]), (0x17, 3, 3, [4, 4])] @ [0x17])]) cache_new) @ [1, 2])
   = (Inr \<lparr>sh_random = replicate 32 7, sh_suite = 0x1301\<rparr>, [1, 2])"
proof -
  have "read_server_handshake Silent (cached_reply 0 (replicate 32 5) (Some (replicate 32 7)) (replicate 32 1)
      (refresh_round (fetch_batch [Some (Closed, enc_rec (0x16, 3, 3,
          hello_body [2, 0, 0, 40] [3, 3] (replicate 32 9) [] 0x1301 [0])
        @ flight_of [(0x16, 3, 3, [8]), (0x14, 3, 3, [1]), (0x17, 3, 3, [4, 4])] @ [0x17])]) cache_new) @ [1, 2])
     = (Inr \<lparr>sh_random = (case Some (replicate 32 7) of None \<Rightarrow> replicate 32 5 | Some k \<Rightarrow> k), sh_suite = 0x1301\<rparr>, [1, 2])"
    by (rule site_flight_replayed) (simp_all add: zero32_def)
  then show ?thesis unfolding option.case .
qed

definition demo_fallback :: fallback_draws where
  "demo_fallback = \<lparr>fb_random = replicate 32 3, fb_key_share = replicate 32 4, fb_flight = replicate 2800 5\<rparr>"

lemma fallback_flight_accepted_witness:
  "\<exists>hello. build_client_hello_with_random None demo_hello_draws ''a.cn'' (replicate 32 9) (replicate 32 1) = Some hello
   \<and> read_server_handshake Silent (fst (get_server_hello_pfs [] cache_new 0 demo_fallback (replicate 32 2)
       hello None cache_new) @ [1, 2]) = (Inr \<lparr>sh_random = replicate 32 2, sh_suite = 0x1302\<rparr>, [1, 2])"
proof -
  obtain hello where "build_client_hello_with_random None demo_hello_draws ''a.cn'' (replicate 32 9) (replicate 32 1)
      = Some hello"
    by (simp add: build_client_hello_with_random_def demo_hello_draws_def pick_profile_def build_with_profile_def)
  moreover have "(replicate 32 2 :: bytes) \<noteq> zero32" by (simp add: zero32_def)
  ultimately show ?thesis
    using fallback_flight_accepted [of demo_hello_draws "''a.cn''" "replicate 32 9" "replicate 32 1" hello
        demo_fallback "replicate 32 2" None Silent cache_new "[1, 2]"]
    by (auto simp: demo_fallback_def)
qed

lemma truncated_record_cached_witness:
  "fetch_batch [Some (Closed, enc_rec (0x16, 3, 3, [2]) @ enc_rec (0x14, 3, 3, [1])
      @ [0x17, 3, 3] @ be16 (of_nat (length [6 :: u8] + 3)) @ [6])]
   = [enc_rec (0x16, 3, 3, [2]) @ enc_rec (0x14, 3, 3, [1]) @ enc_rec (0x17, 3, 3, [6] @ replicate 3 0)]"
  by (rule truncated_record_cached) simp_all

end
