(* ===== verification/Handshake.thy ===== *)
theory Handshake
  imports Flight TlsSession HelloAuth
begin

text \<open>Building a tunnel: the forged TLS handshake (\<open>do_fake_tls\<close>), the key derivation
(\<open>crypto/aead.rs\<close>, \<open>crypto/pfs.rs\<close>), the time frame and the negotiation of the algorithm
(\<open>connect_upstream\<close> in \<open>proxy/pool.rs\<close>). The curve, HKDF, the AEAD and the hash functions are
parameters; what the server delivers is a list of bytes with its end, as in \<open>Flight\<close>.\<close>

subsection \<open>Forward secrecy\<close>

text \<open>The curve: Elligator2 key generation from a seed, the representative of a key, the point
of a representative, the scalar product, and whether a shared secret is contributory.\<close>

record 'k curve_ops =
  cv_generate :: "bytes \<Rightarrow> 'k option"
  cv_representative :: "'k \<Rightarrow> bytes"
  cv_from_representative :: "bytes \<Rightarrow> bytes"
  cv_diffie_hellman :: "'k \<Rightarrow> bytes \<Rightarrow> bytes"
  cv_contributory :: "bytes \<Rightarrow> bool"

definition ephemeral_generate :: "'k curve_ops \<Rightarrow> bytes \<Rightarrow> ('k \<times> bytes) option" where
  "ephemeral_generate cv seed =
     (case cv_generate cv seed of None \<Rightarrow> None
      | Some hidden \<Rightarrow> Some (hidden, cv_representative cv hidden))"

definition ephemeral_agree :: "'k curve_ops \<Rightarrow> 'k \<Rightarrow> bytes \<Rightarrow> bytes option" where
  "ephemeral_agree cv hidden peer_public =
     (let peer_point = cv_from_representative cv peer_public;
          shared = cv_diffie_hellman cv hidden peer_point
      in if \<not> cv_contributory cv shared then None else Some shared)"

subsection \<open>Session keys\<close>

text \<open>\<open>kdf salt ikm info\<close> is HKDF-SHA256, extract and expand.\<close>

type_synonym kdf = "bytes \<Rightarrow> bytes \<Rightarrow> bytes \<Rightarrow> bytes"

definition session_info_v2 :: bytes where "session_info_v2 = bytes_of ''mirage-session-v2''"
definition session_info_v2_pfs :: bytes where "session_info_v2_pfs = bytes_of ''mirage-session-v2-pfs''"

definition derive_master :: "kdf \<Rightarrow> string \<Rightarrow> bytes \<Rightarrow> bytes \<Rightarrow> bytes" where
  "derive_master kdf password client_random server_random =
     kdf (client_random @ server_random) (bytes_of password) session_info_v2"

definition derive_master_pfs :: "kdf \<Rightarrow> string \<Rightarrow> bytes \<Rightarrow> bytes \<Rightarrow> bytes \<Rightarrow> bytes" where
  "derive_master_pfs kdf password client_random server_random ecdh =
     kdf (client_random @ server_random) (bytes_of password @ ecdh) session_info_v2_pfs"

text \<open>What both ends take from the process: HKDF-Expand, the padding switch and scheme, the
state of the generator and the traffic counters.\<close>

record 'g record_env =
  re_hkdf :: "bytes \<Rightarrow> bytes \<Rightarrow> bytes"
  re_padding :: bool
  re_scheme :: pad_scheme
  re_gen :: 'g
  re_traffic :: traffic

definition crypto_pair :: "'g record_env \<Rightarrow> bytes \<Rightarrow> bytes \<Rightarrow> bool \<Rightarrow> crypto_reader \<times> 'g crypto_writer" where
  "crypto_pair re incoming master is_initiator =
     (reader_new (re_hkdf re) (re_traffic re) master is_initiator incoming,
      writer_new (re_hkdf re) (re_padding re) (re_scheme re) (re_gen re) (re_traffic re) master is_initiator)"

definition create_crypto_pair ::
    "'g record_env \<Rightarrow> kdf \<Rightarrow> bytes \<Rightarrow> string \<Rightarrow> bytes \<Rightarrow> bytes \<Rightarrow> bool \<Rightarrow> crypto_reader \<times> 'g crypto_writer" where
  "create_crypto_pair re kdf incoming password client_random server_random is_initiator =
     crypto_pair re incoming (derive_master kdf password client_random server_random) is_initiator"

definition create_crypto_pair_pfs ::
    "'g record_env \<Rightarrow> kdf \<Rightarrow> bytes \<Rightarrow> string \<Rightarrow> bytes \<Rightarrow> bytes \<Rightarrow> bytes \<Rightarrow> bool
     \<Rightarrow> crypto_reader \<times> 'g crypto_writer" where
  "create_crypto_pair_pfs re kdf incoming password client_random server_random ecdh is_initiator =
     crypto_pair re incoming (derive_master_pfs kdf password client_random server_random ecdh) is_initiator"

subsection \<open>The forged handshake\<close>

datatype connect_error =
    DrawsExhausted
  | KeyGeneration
  | NotContributory
  | FlightFailed flight_error
  | TimeSyncRecv record_error
  | TimeSyncTimeout
  | TimeSyncFrame
  | NegoSend record_error
  | AckRecv record_error
  | AckTimeout
  | AckMalformed

text \<open>The errors that are an \<open>AuthFailure\<close>.\<close>

definition is_auth_failure :: "connect_error \<Rightarrow> bool" where
  "is_auth_failure e =
     (case e of
        FlightFailed ServerAlert \<Rightarrow> True
      | TimeSyncRecv _ \<Rightarrow> True
      | TimeSyncTimeout \<Rightarrow> True
      | TimeSyncFrame \<Rightarrow> True
      | _ \<Rightarrow> False)"

record pool_config =
  pc_password :: string
  pc_camouflage_host :: string
  pc_pfs :: bool
  pc_template :: "bytes option"

text \<open>The draws and clocks of one dial: the seed of the key or the client random, the token's
prefix and time, the draws of the hello, the body of the tail for its length.\<close>

record dial_draws =
  dd_seed :: bytes
  dd_random :: bytes
  dd_prefix :: bytes
  dd_now :: u64
  dd_hello :: hello_draws
  dd_tail :: "nat \<Rightarrow> bytes"

record client_handshake =
  ch_client_random :: bytes
  ch_server_random :: bytes
  ch_ecdh :: "bytes option"

text \<open>The key pair, if any, with the client random.\<close>

definition client_key :: "'k curve_ops \<Rightarrow> pool_config \<Rightarrow> dial_draws \<Rightarrow> ('k option \<times> bytes) option" where
  "client_key cv cfg dd =
     (if pc_pfs cfg then
        case ephemeral_generate cv (dd_seed dd) of
          None \<Rightarrow> None
        | Some (hidden, public) \<Rightarrow> Some (Some hidden, public)
      else Some (None, dd_random dd))"

text \<open>The result comes with the bytes sent and what the connection still delivers.\<close>

definition do_fake_tls ::
    "'k curve_ops \<Rightarrow> primitives \<Rightarrow> pool_config \<Rightarrow> dial_draws \<Rightarrow> stream_end \<Rightarrow> bytes
     \<Rightarrow> (connect_error, client_handshake) result \<times> bytes \<times> bytes" where
  "do_fake_tls cv pr cfg dd e inp =
     (case client_key cv cfg dd of
        None \<Rightarrow> (Inl KeyGeneration, [], inp)
      | Some (hidden, client_random) \<Rightarrow>
          let token = make_session_token pr (dd_prefix dd) (dd_now dd) (pc_password cfg) client_random
          in case build_client_hello_with_random (pc_template cfg) (dd_hello dd) (pc_camouflage_host cfg)
                token client_random of
            None \<Rightarrow> (Inl DrawsExhausted, [], inp)
          | Some hello \<Rightarrow>
              (case read_server_handshake e inp of
                 (Inl x, rest) \<Rightarrow> (Inl (FlightFailed x), hello, rest)
               | (Inr sh, rest) \<Rightarrow>
                   let tail = build_fake_client_tail (sh_suite sh) (dd_tail dd (fake_tail_len (sh_suite sh)))
                   in case hidden of
                        None \<Rightarrow> (Inr \<lparr>ch_client_random = client_random, ch_server_random = sh_random sh,
                                     ch_ecdh = None\<rparr>, hello @ tail, rest)
                      | Some k \<Rightarrow>
                          (case ephemeral_agree cv k (sh_random sh) of
                             None \<Rightarrow> (Inl NotContributory, hello @ tail, rest)
                           | Some s \<Rightarrow> (Inr \<lparr>ch_client_random = client_random,
                                           ch_server_random = sh_random sh, ch_ecdh = Some s\<rparr>,
                                         hello @ tail, rest))))"

text \<open>The record layer over the rest of the connection.\<close>

definition handshake_over ::
    "'g record_env \<Rightarrow> kdf \<Rightarrow> 'k curve_ops \<Rightarrow> primitives \<Rightarrow> pool_config \<Rightarrow> dial_draws \<Rightarrow> stream_end \<Rightarrow> bytes
     \<Rightarrow> (connect_error, crypto_reader \<times> 'g crypto_writer) result" where
  "handshake_over re kdf cv pr cfg dd e inp =
     (case do_fake_tls cv pr cfg dd e inp of
        (Inl x, _, _) \<Rightarrow> Inl x
      | (Inr hs, _, rest) \<Rightarrow>
          Inr (case ch_ecdh hs of
                 Some ecdh \<Rightarrow> create_crypto_pair_pfs re kdf rest (pc_password cfg) (ch_client_random hs)
                   (ch_server_random hs) ecdh True
               | None \<Rightarrow> create_crypto_pair re kdf rest (pc_password cfg) (ch_client_random hs)
                   (ch_server_random hs) True))"

subsection \<open>The time frame and the negotiation\<close>

definition proto_ver_legacy :: u8 where "proto_ver_legacy = 1"
definition proto_ver_agility :: u8 where "proto_ver_agility = 2"

text \<open>Whether the server negotiates, and the new clock offset.\<close>

definition process_time_sync_frame :: "u64 \<Rightarrow> bytes \<Rightarrow> i64 \<Rightarrow> (connect_error, bool) result \<times> i64" where
  "process_time_sync_frame local data offset =
     (if length data = 10 \<and> data ! 0 = 0x01 \<and> (data ! 1 = proto_ver_legacy \<or> data ! 1 = proto_ver_agility)
      then (Inr (data ! 1 = proto_ver_agility), set_offset_from_server_time local (of_be64 (drop 2 data)) offset)
      else (Inl TimeSyncFrame, offset))"

text \<open>\<open>timeout(3s, recv_data())\<close>: bytes that never come are a time-out while the peer is silent.\<close>

datatype recv_outcome = Received bytes | RecvFailed record_error | RecvTimeout

definition recv_timed ::
    "u64 \<Rightarrow> (aead_key \<Rightarrow> bytes \<Rightarrow> bytes \<Rightarrow> bytes option) \<Rightarrow> stream_end \<Rightarrow> crypto_reader
     \<Rightarrow> recv_outcome \<times> crypto_reader" where
  "recv_timed now opn e r =
     (case recv_data now opn r of
        (Inr d, r1) \<Rightarrow> (Received d, r1)
      | (Inl x, r1) \<Rightarrow> (if x = UnexpectedEof \<and> e = Silent then RecvTimeout else RecvFailed x, r1))"

definition client_negotiate ::
    "u64 \<Rightarrow> 'g record_env \<Rightarrow> (aead_key \<Rightarrow> bytes \<Rightarrow> bytes \<Rightarrow> bytes option)
     \<Rightarrow> (aead_key \<Rightarrow> bytes \<Rightarrow> bytes \<Rightarrow> bytes option) \<Rightarrow> 'g rng_ops \<Rightarrow> bool \<Rightarrow> stream_end
     \<Rightarrow> crypto_reader \<times> 'g crypto_writer \<Rightarrow> (connect_error, crypto_reader \<times> 'g crypto_writer) result" where
  "client_negotiate now re seal opn rng local_aes e rw =
     (case rw of (r, w) \<Rightarrow>
      case send_data seal rng (build_cipher_nego local_aes) w of
        (Inl x, _) \<Rightarrow> Inl (NegoSend x)
      | (Inr _, w1) \<Rightarrow>
          (case recv_timed now opn e r of
             (RecvFailed x, _) \<Rightarrow> Inl (AckRecv x)
           | (RecvTimeout, _) \<Rightarrow> Inl AckTimeout
           | (Received ack, r1) \<Rightarrow>
               (case parse_cipher_ack ack of
                  None \<Rightarrow> Inl AckMalformed
                | Some final_cipher \<Rightarrow>
                    Inr (if final_cipher \<noteq> cw_kind w1
                         then (reader_rekey (re_hkdf re) final_cipher r1, writer_rekey (re_hkdf re) final_cipher w1)
                         else (r1, w1)))))"

definition connect_upstream ::
    "u64 \<Rightarrow> u64 \<Rightarrow> 'g record_env \<Rightarrow> (aead_key \<Rightarrow> bytes \<Rightarrow> bytes \<Rightarrow> bytes option)
     \<Rightarrow> (aead_key \<Rightarrow> bytes \<Rightarrow> bytes \<Rightarrow> bytes option) \<Rightarrow> 'g rng_ops \<Rightarrow> kdf \<Rightarrow> 'k curve_ops \<Rightarrow> primitives
     \<Rightarrow> bool \<Rightarrow> pool_config \<Rightarrow> dial_draws \<Rightarrow> stream_end \<Rightarrow> bytes \<Rightarrow> i64
     \<Rightarrow> (connect_error, crypto_reader \<times> 'g crypto_writer) result \<times> i64" where
  "connect_upstream now local re seal opn rng kdf cv pr local_aes cfg dd e inp offset =
     (case handshake_over re kdf cv pr cfg dd e inp of
        Inl x \<Rightarrow> (Inl x, offset)
      | Inr (r, w) \<Rightarrow>
          (case recv_timed now opn e r of
             (RecvFailed x, _) \<Rightarrow> (Inl (TimeSyncRecv x), offset)
           | (RecvTimeout, _) \<Rightarrow> (Inl TimeSyncTimeout, offset)
           | (Received data, r1) \<Rightarrow>
               (case process_time_sync_frame local data offset of
                  (Inl x, offset1) \<Rightarrow> (Inl x, offset1)
                | (Inr server_agility, offset1) \<Rightarrow>
                    (if server_agility then client_negotiate now re seal opn rng local_aes e (r1, w)
                     else Inr (r1, w), offset1))))"

subsection \<open>Frames of one record\<close>

text \<open>The next record of the writer takes all of \<open>data\<close>.\<close>

definition fits_next :: "bytes \<Rightarrow> 'g crypto_writer \<Rightarrow> bool" where
  "fits_next data w \<longleftrightarrow> data \<noteq> [] \<and> length data \<le> 4096
     \<and> (cw_padding w \<and> unat (cw_records_sent w) < length (cw_scheme w)
        \<longrightarrow> length data < fst (cw_scheme w ! unat (cw_records_sent w)))"

lemma frame_fits:
  assumes "rng_ok rng" "pad_scheme_ok (cw_scheme w)" "fits_next data w"
    and "frame_plaintext rng data w = (buf, rest, w1)"
  shows "rest = []"
proof (cases "cw_padding w \<and> unat (cw_records_sent w) < length (cw_scheme w)")
  case True
  obtain lo hi where lh: "cw_scheme w ! unat (cw_records_sent w) = (lo, hi)" by fastforce
  obtain target g where tg: "rng_usize rng lo hi (cw_rng w) = (target, g)" by fastforce
  have "lo \<le> hi" using pad_scheme_ok_nth [OF assms(2) _ lh] True by auto
  then have "length data \<le> target - 1"
    using rng_okD [OF assms(1) _ tg] assms(3) True lh by (auto simp: fits_next_def)
  then show ?thesis using assms(4) True lh tg by (auto simp: frame_plaintext_def Let_def)
next
  case False
  have "4096 \<le> bucket_limit r" for r by (simp add: bucket_limit_def)
  with assms(3) have "length data \<le> bucket_limit r" for r
    by (meson fits_next_def le_trans)
  with False assms(4) show ?thesis by (auto simp: frame_plaintext_def Let_def split: prod.splits)
qed

lemma send_one_record:
  assumes "aead_ok seal opn" "rng_ok rng" "pad_scheme_ok (cw_scheme w)" "fits_next data w"
    and "cw_nonce w \<noteq> - 1" "in_sync w r"
  obtains w' B where "send_data seal rng data w = (Inr (), w')" "cw_out w' = cw_out w @ B"
    "cw_nonce w' = cw_nonce w + 1" "cw_records_sent w' = saturating_succ (cw_records_sent w)"
    "\<And>later. \<exists>r'. recv_data now opn (r\<lparr>cr_in := B @ later\<rparr>) = (Inr data, r') \<and> in_sync w' r' \<and> cr_in r' = later"
proof -
  define w0 where "w0 = w\<lparr>cw_traffic := (if cw_initiator w then add_up (of_nat (length data))
    else add_down (of_nat (length data))) (cw_traffic w)\<rparr>"
  have w0: "pad_scheme_ok (cw_scheme w0)" "fits_next data w0" "in_sync w0 r" "cw_nonce w0 = cw_nonce w"
      "cw_out w0 = cw_out w" "cw_records_sent w0 = cw_records_sent w"
    using assms(3,4,6) by (simp_all add: w0_def fits_next_def)
  obtain buf rest w1 where fp: "frame_plaintext rng data w0 = (buf, rest, w1)" by (metis prod_cases3)
  obtain chunk z g where fr: "buf = chunk @ 0x17 # replicate z 0" "data = chunk @ rest"
      "length buf \<le> max_record_size + 1" "w1 = w0\<lparr>cw_rng := g\<rparr>"
    by (rule frame_plaintext_spec [OF assms(2) w0(1) fp])
  have rest: "rest = []" by (rule frame_fits [OF assms(2) w0(1,2) fp])
  define w2 where "w2 = w1\<lparr>cw_records_sent := saturating_succ (cw_records_sent w1)\<rparr>"
  have w2: "cw_nonce w2 = cw_nonce w" "in_sync w2 r" "cw_out w2 = cw_out w"
      "cw_records_sent w2 = saturating_succ (cw_records_sent w)"
    using w0 by (simp_all add: w2_def fr(4))
  obtain w3 where w3: "seal_record seal buf w2 = (Inr (), w3)"
    using seal_record_returns [OF assms(1) fr(3), of w2] assms(5) w2(1) by auto
  have "data \<noteq> []" using assms(4) by (simp add: fits_next_def)
  from send_loop_step [OF this fp] w3 rest have "send_loop seal rng data w0 = (Inr (), w3)"
    by (simp add: w2_def send_loop.simps [of seal rng "[]"])
  then have s: "send_data seal rng data w = (Inr (), w3)" by (simp add: send_data_def Let_def w0_def)
  obtain B where B: "cw_out w3 = cw_out w2 @ B" "\<forall>later. \<exists>r'. in_sync w3 r' \<and> cr_in r' = later
      \<and> recv_data now opn (r\<lparr>cr_in := B @ later\<rparr>) = (Inr chunk, r')"
    using recv_sealed [OF assms(1) _ _ w2(2)] fr(1,3) w3 by blast
  have "cw_nonce w3 = cw_nonce w + 1" using seal_record_Inr [OF w3] w2(1) by auto
  moreover have "cw_records_sent w3 = saturating_succ (cw_records_sent w)"
    using seal_record_scheme [OF w3] w2(4) by simp
  ultimately show ?thesis using that [OF s] B fr(2) rest w2(3) by auto
qed

lemma cr_in_self: "cr_in r = b \<Longrightarrow> r\<lparr>cr_in := b\<rparr> = r"
  by auto

subsection \<open>The server's part\<close>

text \<open>A server of this protocol: the time frame, then its answer to the negotiation.\<close>

definition time_sync_frame :: "u8 \<Rightarrow> u64 \<Rightarrow> bytes" where
  "time_sync_frame ver time = [0x01, ver] @ be64 time"

definition server_greets ::
    "(aead_key \<Rightarrow> bytes \<Rightarrow> bytes \<Rightarrow> bytes option) \<Rightarrow> 'g rng_ops \<Rightarrow> u64 \<Rightarrow> cipher \<Rightarrow> 'g crypto_writer
     \<Rightarrow> (record_error, unit) result \<times> 'g crypto_writer" where
  "server_greets seal rng time c w =
     (case send_data seal rng (time_sync_frame proto_ver_agility time) w of
        (Inl x, w1) \<Rightarrow> (Inl x, w1)
      | (Inr _, w1) \<Rightarrow> send_data seal rng (build_cipher_ack c) w1)"

text \<open>The master key of a session, for the party that knows the shared secret.\<close>

definition session_master :: "kdf \<Rightarrow> string \<Rightarrow> bytes \<Rightarrow> bytes \<Rightarrow> bytes option \<Rightarrow> bytes" where
  "session_master kdf password cr sr ecdh =
     (case ecdh of None \<Rightarrow> derive_master kdf password cr sr
      | Some s \<Rightarrow> derive_master_pfs kdf password cr sr s)"

lemma handshake_over_Inr:
  "handshake_over re kdf cv pr cfg dd e inp = Inr (r, w) \<Longrightarrow>
   \<exists>hs sent rest. do_fake_tls cv pr cfg dd e inp = (Inr hs, sent, rest)
     \<and> (r, w) = crypto_pair re rest
         (session_master kdf (pc_password cfg) (ch_client_random hs) (ch_server_random hs) (ch_ecdh hs)) True"
  by (auto simp: handshake_over_def session_master_def create_crypto_pair_def create_crypto_pair_pfs_def
      split: prod.splits sum.splits option.splits)

lemma handshake_over_pair:
  "do_fake_tls cv pr cfg dd e inp = (Inr hs, sent, rest) \<Longrightarrow>
   handshake_over re kdf cv pr cfg dd e inp = Inr (crypto_pair re rest
     (session_master kdf (pc_password cfg) (ch_client_random hs) (ch_server_random hs) (ch_ecdh hs)) True)"
  by (simp add: handshake_over_def session_master_def create_crypto_pair_def create_crypto_pair_pfs_def
      split: option.splits)

lemma time_sync_frame_parse:
  "process_time_sync_frame local (time_sync_frame proto_ver_agility time) offset
     = (Inr True, set_offset_from_server_time local time offset)"
  by (simp add: process_time_sync_frame_def time_sync_frame_def proto_ver_agility_def proto_ver_legacy_def of_be64_be64)

lemma recv_timed_Received:
  "recv_data now opn r = (Inr d, r1) \<Longrightarrow> recv_timed now opn e r = (Received d, r1)"
  by (simp add: recv_timed_def)

lemma recv_timed_iff: "recv_timed now opn e r = (Received d, r1) \<longleftrightarrow> recv_data now opn r = (Inr d, r1)"
  by (auto simp: recv_timed_def split: prod.splits sum.splits)

lemma rekey_same:
  "c = cw_kind w \<Longrightarrow> writer_rekey hkdf c w = w" "c = cr_kind r \<Longrightarrow> reader_rekey hkdf c r = r"
  by (simp_all add: writer_rekey_def reader_rekey_def)

lemma client_negotiate_ack:
  assumes "send_data seal rng (build_cipher_nego aes) w = (Inr u, w1)"
    and "recv_data now opn r = (Inr (build_cipher_ack c), r1)" "cr_kind r1 = cw_kind w1"
  shows "client_negotiate now re seal opn rng aes e (r, w)
    = Inr (reader_rekey (re_hkdf re) c r1, writer_rekey (re_hkdf re) c w1)"
  using assms by (simp add: client_negotiate_def recv_timed_Received parse_build_cipher_ack rekey_same)

text \<open>The scheme leaves room for a frame of \<open>n\<close> bytes in each of the first two records.\<close>

definition scheme_fits :: "nat \<Rightarrow> pad_scheme \<Rightarrow> bool" where
  "scheme_fits n scheme \<longleftrightarrow> (\<forall>i < length scheme. i < 2 \<longrightarrow> n < fst (scheme ! i))"

lemma default_scheme_fits: "scheme_fits 10 default_pad_scheme"
  by (auto simp: scheme_fits_def default_pad_scheme_def less_2_cases_iff)

lemma scheme_fits_next:
  "scheme_fits n (cw_scheme w) \<Longrightarrow> unat (cw_records_sent w) < 2 \<Longrightarrow> data \<noteq> [] \<Longrightarrow> length data \<le> n
    \<Longrightarrow> n \<le> 4096 \<Longrightarrow> fits_next data w"
  by (force simp: scheme_fits_def fits_next_def)

lemma length_frames [simp]:
  "length (time_sync_frame v t) = 10" "length (build_cipher_nego a) = 3" "length (build_cipher_ack c) = 2"
  by (simp_all add: time_sync_frame_def build_cipher_nego_def cipher_nego_sentinel_def build_cipher_ack_def)

lemma frames_nonempty [simp]:
  "time_sync_frame v t \<noteq> []" "build_cipher_nego a \<noteq> []" "build_cipher_ack c \<noteq> []"
  by (simp_all add: time_sync_frame_def build_cipher_nego_def build_cipher_ack_def)

lemma send_frame:
  assumes "aead_ok seal opn" "rng_ok rng" "pad_scheme_ok (cw_scheme w)" "scheme_fits n (cw_scheme w)" "n \<le> 4096"
    and "data \<noteq> []" "length data \<le> n" "cw_records_sent w = of_nat i" "cw_nonce w = of_nat i" "i < 2" "in_sync w r"
  obtains w' B where "send_data seal rng data w = (Inr (), w')" "cw_out w' = cw_out w @ B"
    "cw_nonce w' = of_nat (Suc i)" "cw_records_sent w' = of_nat (Suc i)" "cw_scheme w' = cw_scheme w"
    "cw_kind w' = cw_kind w" "\<And>later. \<exists>r'. recv_data now opn (r\<lparr>cr_in := B @ later\<rparr>) = (Inr data, r')
      \<and> in_sync w' r' \<and> cr_in r' = later"
proof -
  have i: "i = 0 \<or> i = 1" using assms(10) by auto
  then have "unat (cw_records_sent w) < 2" "cw_nonce w \<noteq> - 1" unfolding assms(8,9) by auto
  with scheme_fits_next [OF assms(4) _ assms(6,7,5)] have "fits_next data w" by blast
  then obtain w' B where w': "send_data seal rng data w = (Inr (), w')" "cw_out w' = cw_out w @ B"
      "cw_nonce w' = cw_nonce w + 1" "cw_records_sent w' = saturating_succ (cw_records_sent w)"
      "\<And>later. \<exists>r'. recv_data now opn (r\<lparr>cr_in := B @ later\<rparr>) = (Inr data, r') \<and> in_sync w' r' \<and> cr_in r' = later"
    using send_one_record [OF assms(1-3) _ \<open>cw_nonce w \<noteq> - 1\<close> assms(11)] by blast
  have "cw_nonce w' = of_nat (Suc i)" "cw_records_sent w' = of_nat (Suc i)"
    using i unfolding w'(3,4) assms(8,9) by (auto simp: saturating_succ_def)
  with that [OF w'(1,2) _ _ _ _ w'(5)] send_data_static [OF w'(1)] show ?thesis by blast
qed

lemma in_sync_pair:
  "in_sync (snd (crypto_pair re inp master i)) (fst (crypto_pair re' inp' master (\<not> i)))"
  if "re_hkdf re' = re_hkdf re"
  using that by (simp add: crypto_pair_def in_sync_new)

lemma crypto_pair_writer [simp]:
  "cw_scheme (snd (crypto_pair re inp master i)) = re_scheme re"
  "cw_padding (snd (crypto_pair re inp master i)) = re_padding re"
  "cw_records_sent (snd (crypto_pair re inp master i)) = 0"
  "cw_nonce (snd (crypto_pair re inp master i)) = 0"
  "cw_out (snd (crypto_pair re inp master i)) = []"
  by (simp_all add: crypto_pair_def writer_new_def)

lemma crypto_pair_in: "fst (crypto_pair re inp master i)\<lparr>cr_in := b\<rparr> = fst (crypto_pair re b master i)"
  by (simp add: crypto_pair_def reader_new_def)

lemma in_sync_trans_kind: "in_sync w r \<Longrightarrow> cr_kind r = cw_kind w"
  by (simp add: in_sync_def)

text \<open>The server's two frames, and the reader of the client after each.\<close>

lemma server_greets_read:
  assumes "aead_ok seal opn" "rng_ok srng" "pad_scheme_ok (re_scheme sre)" "scheme_fits 10 (re_scheme sre)"
    and "re_hkdf re = re_hkdf sre"
  obtains ws r1 r2 where
    "server_greets seal srng time c (snd (crypto_pair sre [] master False)) = (Inr (), ws)"
    "recv_data now opn (fst (crypto_pair re (cw_out ws) master True))
       = (Inr (time_sync_frame proto_ver_agility time), r1)"
    "recv_data now opn r1 = (Inr (build_cipher_ack c), r2)" "in_sync ws r2"
    "cr_kind r2 = ChaCha20Poly1305"
proof -
  let ?w = "snd (crypto_pair sre [] master False)" and ?r = "fst (crypto_pair re [] master True)"
  have sync: "in_sync ?w ?r" using in_sync_pair [OF assms(5), of "[]" master False "[]"] by simp
  obtain w1 B1 where w1: "send_data seal srng (time_sync_frame proto_ver_agility time) ?w = (Inr (), w1)"
      "cw_out w1 = B1" "cw_nonce w1 = of_nat 1" "cw_records_sent w1 = of_nat 1" "cw_scheme w1 = re_scheme sre"
      "cw_kind w1 = cw_kind ?w"
      "\<And>later. \<exists>r'. recv_data now opn (?r\<lparr>cr_in := B1 @ later\<rparr>)
        = (Inr (time_sync_frame proto_ver_agility time), r') \<and> in_sync w1 r' \<and> cr_in r' = later"
    by (rule send_frame [OF assms(1,2), of ?w 10 "time_sync_frame proto_ver_agility time" 0 ?r now])
      (use assms(3,4) sync in simp_all)
  obtain r0 where r0: "in_sync w1 r0" using w1(7) by blast
  have sch: "pad_scheme_ok (cw_scheme w1)" "scheme_fits 10 (cw_scheme w1)" using assms(3,4) w1(5) by simp_all
  obtain w2 B2 where w2: "send_data seal srng (build_cipher_ack c) w1 = (Inr (), w2)" "cw_out w2 = cw_out w1 @ B2"
    by (rule send_frame [OF assms(1,2) sch _ _ _ w1(4,3) _ r0, of "build_cipher_ack c" now]) simp_all
  obtain r1 where r1: "recv_data now opn (?r\<lparr>cr_in := B1 @ B2\<rparr>)
      = (Inr (time_sync_frame proto_ver_agility time), r1)" "in_sync w1 r1" "cr_in r1 = B2"
    using w1(7) by blast
  obtain w2' B2' where w2': "send_data seal srng (build_cipher_ack c) w1 = (Inr (), w2')" "cw_out w2' = cw_out w1 @ B2'"
      "\<And>later. \<exists>r'. recv_data now opn (r1\<lparr>cr_in := B2' @ later\<rparr>) = (Inr (build_cipher_ack c), r')
        \<and> in_sync w2' r' \<and> cr_in r' = later"
    by (rule send_frame [OF assms(1,2) sch _ _ _ w1(4,3) _ r1(2), of "build_cipher_ack c" now]) simp_all
  have same: "w2' = w2" "B2' = B2" using w2 w2'(1,2) by simp_all
  obtain r2 where r2: "recv_data now opn (r1\<lparr>cr_in := B2 @ []\<rparr>) = (Inr (build_cipher_ack c), r2)" "in_sync w2 r2"
    using w2'(3) unfolding same by blast
  show ?thesis
  proof (rule that)
    show "server_greets seal srng time c ?w = (Inr (), w2)" by (simp add: server_greets_def w1(1) w2(1))
    show "recv_data now opn (fst (crypto_pair re (cw_out w2) master True))
        = (Inr (time_sync_frame proto_ver_agility time), r1)"
      using r1(1) unfolding w2(2) w1(2) crypto_pair_in .
    show "recv_data now opn r1 = (Inr (build_cipher_ack c), r2)"
      using r2(1) r1(3) by (simp add: cr_in_self)
    show "cr_kind r2 = ChaCha20Poly1305"
      using in_sync_trans_kind [OF r2(2)] send_data_static [OF w2(1)] w1(6)
      by (simp add: crypto_pair_def writer_new_def)
  qed (fact r2(2))
qed

lemma login_outcome:
  assumes "aead_ok seal opn" "rng_ok rng" "rng_ok srng"
    and "pad_scheme_ok (re_scheme re)" "scheme_fits 10 (re_scheme re)"
    and "pad_scheme_ok (re_scheme sre)" "scheme_fits 10 (re_scheme sre)" "re_hkdf re = re_hkdf sre"
    and "master = session_master kdf (pc_password cfg) (ch_client_random hs) (ch_server_random hs) (ch_ecdh hs)"
    and "ws = snd (server_greets seal srng time c (snd (crypto_pair sre [] master False)))"
    and "do_fake_tls cv pr cfg dd e (flight @ cw_out ws) = (Inr hs, sent, cw_out ws)"
  shows "\<exists>r w rs. connect_upstream now local re seal opn rng kdf cv pr aes cfg dd e (flight @ cw_out ws) offset
      = (Inr (r, w), set_offset_from_server_time local time offset)
    \<and> in_sync (writer_rekey (re_hkdf sre) c ws) r
    \<and> recv_data now opn (fst (crypto_pair sre (cw_out w) master False)) = (Inr (build_cipher_nego aes), rs)
    \<and> in_sync w (reader_rekey (re_hkdf sre) c rs)"
proof -
  obtain r1 r2 where ws: "recv_data now opn (fst (crypto_pair re (cw_out ws) master True))
        = (Inr (time_sync_frame proto_ver_agility time), r1)"
      "recv_data now opn r1 = (Inr (build_cipher_ack c), r2)" "in_sync ws r2" "cr_kind r2 = ChaCha20Poly1305"
    by (rule server_greets_read [OF assms(1,3,6,7,8), where time = time and c = c and master = master and now = now])
      (simp add: assms(10))
  let ?w = "snd (crypto_pair re (cw_out ws) master True)" and ?rs = "fst (crypto_pair sre [] master False)"
  have sync: "in_sync ?w ?rs" using in_sync_pair [OF assms(8) [symmetric], of "cw_out ws" master True "[]"] by simp
  obtain w1 B where w1: "send_data seal rng (build_cipher_nego aes) ?w = (Inr (), w1)" "cw_out w1 = B"
      "cw_kind w1 = cw_kind ?w" "\<And>later. \<exists>r'. recv_data now opn (?rs\<lparr>cr_in := B @ later\<rparr>)
        = (Inr (build_cipher_nego aes), r') \<and> in_sync w1 r' \<and> cr_in r' = later"
    by (rule send_frame [OF assms(1,2), of ?w 10 "build_cipher_nego aes" 0 ?rs now]) (use assms(4,5) sync in simp_all)
  obtain rs where rs: "recv_data now opn (?rs\<lparr>cr_in := B @ []\<rparr>) = (Inr (build_cipher_nego aes), rs)" "in_sync w1 rs"
    using w1(4) by blast
  have k: "cr_kind r2 = cw_kind w1"
    using ws(4) w1(3) by (simp add: crypto_pair_def writer_new_def)
  have "client_negotiate now re seal opn rng aes e (r1, ?w)
      = Inr (reader_rekey (re_hkdf re) c r2, writer_rekey (re_hkdf re) c w1)"
    by (rule client_negotiate_ack [OF w1(1) ws(2) k])
  then have "connect_upstream now local re seal opn rng kdf cv pr aes cfg dd e (flight @ cw_out ws) offset
      = (Inr (reader_rekey (re_hkdf re) c r2, writer_rekey (re_hkdf re) c w1), set_offset_from_server_time local time offset)"
    using handshake_over_pair [OF assms(11), of re kdf] ws(1)
    by (simp add: connect_upstream_def recv_timed_Received time_sync_frame_parse crypto_pair_def flip: assms(9))
  moreover have "in_sync (writer_rekey (re_hkdf sre) c ws) (reader_rekey (re_hkdf re) c r2)"
    unfolding assms(8) by (rule in_sync_rekey [OF ws(3)])
  moreover have "recv_data now opn (fst (crypto_pair sre (cw_out (writer_rekey (re_hkdf re) c w1)) master False))
      = (Inr (build_cipher_nego aes), rs)"
    using rs(1) unfolding crypto_pair_in by (simp add: w1(2) writer_rekey_def Let_def)
  moreover have "in_sync (writer_rekey (re_hkdf re) c w1) (reader_rekey (re_hkdf sre) c rs)"
    unfolding assms(8) by (rule in_sync_rekey [OF rs(2)])
  ultimately show ?thesis by blast
qed

lemma read_flight_random:
  "read_flight e inp st = (Inr sh, rest) \<Longrightarrow> sh_random sh \<noteq> zero32"
proof (induction e inp st rule: read_flight.induct)
  case (1 e inp st)
  note unfold = read_flight.simps [of e inp st]
  let ?len = "header_len inp" and ?rest = "drop 5 inp"
  let ?st = "flight_record (inp ! 0) (take ?len ?rest) st"
  show ?case
  proof (cases "length inp < 5 \<or> length ?rest < ?len \<or> inp ! 0 = 0x15 \<or> all_seen (fl_seen ?st)")
    case True
    with "1.prems" show ?thesis unfolding unfold
      by (auto simp: Let_def flight_result_def split: if_splits stream_end.splits)
  next
    case False
    with "1.prems" have "read_flight e (drop ?len ?rest) ?st = (Inr sh, rest)"
      unfolding unfold by (simp add: Let_def)
    with False show ?thesis by (intro "1.IH" [OF _ refl refl refl]) auto
  qed
qed

lemma do_fake_tls_random:
  "do_fake_tls cv pr cfg dd e inp = (Inr hs, sent, rest) \<Longrightarrow> ch_server_random hs \<noteq> zero32"
  by (auto simp: do_fake_tls_def read_server_handshake_def Let_def dest: read_flight_random
      split: option.splits prod.splits sum.splits)

text \<open>What receiving and sending leave in place.\<close>

lemma recv_data_static:
  "recv_data now opn r = (x, r') \<Longrightarrow> cr_cipher r' = cr_cipher r \<and> cr_kind r' = cr_kind r
     \<and> cr_master r' = cr_master r \<and> cr_initiator r' = cr_initiator r"
  by (auto simp: recv_data_def open_record_def Let_def split: prod.splits sum.splits if_splits option.splits)

text \<open>The keys of an initiator's pair belong to its master and its algorithm.\<close>

definition keyed :: "'g record_env \<Rightarrow> bytes \<Rightarrow> crypto_reader \<Rightarrow> 'g crypto_writer \<Rightarrow> bool" where
  "keyed re master r w \<longleftrightarrow> cr_kind r = cw_kind w \<and> cr_initiator r \<and> cw_initiator w
     \<and> cr_master r = master \<and> cw_master w = master
     \<and> cw_cipher w = expand_key (re_hkdf re) master c2s (cw_kind w)
     \<and> cr_cipher r = expand_key (re_hkdf re) master s2c (cw_kind w)"

lemma keyed_new: "crypto_pair re inp master True = (r, w) \<Longrightarrow> keyed re master r w \<and> cw_kind w = ChaCha20Poly1305"
  by (auto simp: keyed_def crypto_pair_def reader_new_def writer_new_def)

lemma keyed_recv: "keyed re master r w \<Longrightarrow> recv_data now opn r = (x, r') \<Longrightarrow> keyed re master r' w"
  by (auto simp: keyed_def dest!: recv_data_static)

lemma keyed_send: "keyed re master r w \<Longrightarrow> send_data seal rng d w = (x, w') \<Longrightarrow> keyed re master r w'"
  by (auto simp: keyed_def dest!: send_data_static)

lemma keyed_rekey:
  "keyed re master r w \<Longrightarrow> keyed re master (reader_rekey (re_hkdf re) c r) (writer_rekey (re_hkdf re) c w)"
  by (auto simp: keyed_def reader_rekey_def writer_rekey_def Let_def)

lemma client_negotiate_keyed:
  assumes "client_negotiate now re seal opn rng aes e (r, w) = Inr (r', w')" "keyed re master r w"
  shows "keyed re master r' w'"
  using assms
  by (auto simp: client_negotiate_def recv_timed_iff split: prod.splits sum.splits recv_outcome.splits option.splits
      if_splits dest: keyed_send keyed_recv intro: keyed_rekey)

text \<open>What was written stays written.\<close>

lemma seal_record_prefix: "seal_record seal buf w = (x, w') \<Longrightarrow> \<exists>B. cw_out w' = cw_out w @ B"
  by (auto simp: seal_record_def Let_def split: if_splits option.splits)

lemma send_loop_prefix: "send_loop seal rng data w = (x, w') \<Longrightarrow> \<exists>B. cw_out w' = cw_out w @ B"
proof (induction rule: send_loop_induct)
  case (Sealed data w buf rest w1 w2 u w3 x w')
  then show ?case
    using seal_record_prefix [OF Sealed.hyps(4)] frame_plaintext_fields [OF Sealed.hyps(2)]
    by (auto simp: Sealed.hyps(3))
next
  case (Refused data w buf rest w1 w2 e w')
  then show ?case
    using seal_record_prefix [OF Refused.hyps(4)] frame_plaintext_fields [OF Refused.hyps(2)]
    by (auto simp: Refused.hyps(3))
qed simp

lemma send_data_prefix: "send_data seal rng data w = (x, w') \<Longrightarrow> \<exists>B. cw_out w' = cw_out w @ B"
  by (auto simp: send_data_def Let_def dest!: send_loop_prefix)

text \<open>A first record whose range lies below the length of the data carries only a part of it.\<close>

lemma short_first_record:
  assumes "aead_ok seal opn" "rng_ok rng" "pad_scheme_ok (cw_scheme w)"
    and "cw_padding w" "cw_records_sent w = 0" "cw_scheme w = (lo, hi) # scheme" "hi \<le> length data"
    and "cw_nonce w \<noteq> - 1" "in_sync w r" "send_data seal rng data w = (x, w')"
  obtains B chunk where "cw_out w' = cw_out w @ B" "length chunk < hi"
    "\<And>later. \<exists>r'. recv_data now opn (r\<lparr>cr_in := B @ later\<rparr>) = (Inr chunk, r')"
proof -
  define w0 where "w0 = w\<lparr>cw_traffic := (if cw_initiator w then add_up (of_nat (length data))
    else add_down (of_nat (length data))) (cw_traffic w)\<rparr>"
  have w0: "pad_scheme_ok (cw_scheme w0)" "in_sync w0 r" "cw_nonce w0 = cw_nonce w" "cw_out w0 = cw_out w"
    using assms(3,9) by (simp_all add: w0_def)
  have lh: "1 \<le> lo" "lo \<le> hi" using assms(3) by (simp_all add: assms(6) pad_scheme_ok_def)
  obtain target g' where tg: "rng_usize rng lo hi (cw_rng w) = (target, g')" by fastforce
  have t: "1 \<le> target" "target \<le> hi" using rng_okD [OF assms(2) lh(2) tg] lh(1) by simp_all
  obtain buf rest w1 where fp: "frame_plaintext rng data w0 = (buf, rest, w1)" by (metis prod_cases3)
  have rest: "rest = drop (target - 1) data"
    using fp assms(4-7) tg t by (auto simp: w0_def frame_plaintext_def Let_def)
  obtain chunk z g where fr: "buf = chunk @ 0x17 # replicate z 0" "data = chunk @ rest"
      "length buf \<le> max_record_size + 1" "w1 = w0\<lparr>cw_rng := g\<rparr>"
    by (rule frame_plaintext_spec [OF assms(2) w0(1) fp])
  have "length chunk + length rest = length data" unfolding fr(2) by simp
  then have short: "length chunk < hi" using t assms(7) unfolding rest by simp
  define w2 where "w2 = w1\<lparr>cw_records_sent := saturating_succ (cw_records_sent w1)\<rparr>"
  have w2: "cw_nonce w2 = cw_nonce w" "in_sync w2 r" "cw_out w2 = cw_out w"
    using w0 by (simp_all add: w2_def fr(4))
  obtain w3 where w3: "seal_record seal buf w2 = (Inr (), w3)"
    using seal_record_returns [OF assms(1) fr(3), of w2] assms(8) w2(1) by auto
  obtain B where B: "cw_out w3 = cw_out w @ B" "\<forall>later. \<exists>r'. in_sync w3 r' \<and> cr_in r' = later
      \<and> recv_data now opn (r\<lparr>cr_in := B @ later\<rparr>) = (Inr chunk, r')"
    using recv_sealed [OF assms(1) _ _ w2(2)] fr(1,3) w3 w2(3) by metis
  have "data \<noteq> []" using assms(7) lh by auto
  from send_loop_step [OF this fp] w3 have "send_loop seal rng data w0 = send_loop seal rng rest w3"
    by (simp add: w2_def)
  moreover have "send_loop seal rng data w0 = (x, w')"
    using assms(10) by (simp add: send_data_def Let_def w0_def)
  ultimately obtain C where "cw_out w' = cw_out w3 @ C" using send_loop_prefix by metis
  moreover have "\<exists>r'. recv_data now opn (r\<lparr>cr_in := (B @ C) @ later\<rparr>) = (Inr chunk, r')" for later
    using B(2) by auto
  ultimately show ?thesis using that [of "B @ C" chunk] B(1) short by simp
qed

subsection \<open>Properties\<close>

text \<open>C19. Both ends of a login agree. Let a server and a client share the session master (with
or without forward secrecy), and let the server send its time frame and answer the negotiation
with any algorithm. Then the client's dial succeeds, its clock is set from the frame, the client's
negotiation frame is what the server reads first, and after both ends have switched, each
direction of the tunnel is in step: same keys, same nonces. The padding schemes need only leave
room for the short frames, as the default one does.\<close>
theorem login_agrees:
  assumes "aead_ok seal opn" "rng_ok rng" "rng_ok srng"
    and "pad_scheme_ok (re_scheme re)" "scheme_fits 10 (re_scheme re)"
    and "pad_scheme_ok (re_scheme sre)" "scheme_fits 10 (re_scheme sre)" "re_hkdf re = re_hkdf sre"
    and "master = session_master kdf (pc_password cfg) (ch_client_random hs) (ch_server_random hs) (ch_ecdh hs)"
    and "ws = snd (server_greets seal srng time c (snd (crypto_pair sre [] master False)))"
    and "do_fake_tls cv pr cfg dd e (flight @ cw_out ws) = (Inr hs, sent, cw_out ws)"
  shows "\<exists>r w rs. connect_upstream now local re seal opn rng kdf cv pr aes cfg dd e (flight @ cw_out ws) offset
      = (Inr (r, w), set_offset_from_server_time local time offset)
    \<and> in_sync (writer_rekey (re_hkdf sre) c ws) r
    \<and> recv_data now opn (fst (crypto_pair sre (cw_out w) master False)) = (Inr (build_cipher_nego aes), rs)
    \<and> in_sync w (reader_rekey (re_hkdf sre) c rs)"
  by (rule login_outcome [OF assms])

text \<open>C20. No tunnel without the password. A dial that succeeds has read a flight with a random that
is not zero, derived the session master from it, and opened under that master's server key, at
nonce 0, a time frame of exactly ten bytes of a known version; reader and writer then use one
algorithm, with the two keys of the session, and after a frame of the old version it is the
initial one. Every other outcome is an error, and no error leaves the clock changed unless the
frame was genuine.\<close>
theorem tunnel_is_authenticated:
  assumes "connect_upstream now local re seal opn rng kdf cv pr aes cfg dd e inp offset = (Inr (r, w), offset')"
  shows "\<exists>hs sent rest frame r1. do_fake_tls cv pr cfg dd e inp = (Inr hs, sent, rest)
    \<and> ch_server_random hs \<noteq> zero32
    \<and> cw_master w = session_master kdf (pc_password cfg) (ch_client_random hs) (ch_server_random hs) (ch_ecdh hs)
    \<and> recv_data now opn (reader_new (re_hkdf re) (re_traffic re) (cw_master w) True rest) = (Inr frame, r1)
    \<and> length frame = 10 \<and> frame ! 0 = 1 \<and> (frame ! 1 = 1 \<and> cw_kind w = ChaCha20Poly1305 \<or> frame ! 1 = 2)
    \<and> offset' = set_offset_from_server_time local (of_be64 (drop 2 frame)) offset
    \<and> cr_kind r = cw_kind w
    \<and> cw_cipher w = expand_key (re_hkdf re) (cw_master w) c2s (cw_kind w)
    \<and> cr_cipher r = expand_key (re_hkdf re) (cw_master w) s2c (cw_kind w)"
proof -
  obtain r0 w0 where "handshake_over re kdf cv pr cfg dd e inp = Inr (r0, w0)"
    using assms by (auto simp: connect_upstream_def split: sum.splits)
  from handshake_over_Inr [OF this] obtain hs sent rest where
    hs: "do_fake_tls cv pr cfg dd e inp = (Inr hs, sent, rest)" by blast
  define master where "master = session_master kdf (pc_password cfg) (ch_client_random hs) (ch_server_random hs) (ch_ecdh hs)"
  obtain r0 w0 where pair: "crypto_pair re rest master True = (r0, w0)" by fastforce
  have ho: "handshake_over re kdf cv pr cfg dd e inp = Inr (r0, w0)"
    using handshake_over_pair [OF hs, of re kdf] pair by (simp add: master_def)
  obtain frame r1 ag where f: "recv_data now opn r0 = (Inr frame, r1)"
      "process_time_sync_frame local frame offset = (Inr ag, offset')"
      "(if ag then client_negotiate now re seal opn rng aes e (r1, w0) else Inr (r1, w0)) = Inr (r, w)"
    using assms by (auto simp: connect_upstream_def ho recv_timed_iff split: prod.splits sum.splits recv_outcome.splits)
  have k0: "keyed re master r0 w0" "cw_kind w0 = ChaCha20Poly1305" using keyed_new [OF pair] by simp_all
  then have k1: "keyed re master r1 w0" using keyed_recv f(1) by blast
  then have k: "keyed re master r w"
    using f(3) client_negotiate_keyed by (auto split: if_splits)
  moreover have "r0 = reader_new (re_hkdf re) (re_traffic re) master True rest"
    using pair by (simp add: crypto_pair_def)
  moreover have "length frame = 10 \<and> frame ! 0 = 1 \<and> (frame ! 1 = 1 \<and> \<not> ag \<or> frame ! 1 = 2)
      \<and> offset' = set_offset_from_server_time local (of_be64 (drop 2 frame)) offset"
    using f(2) by (auto simp: process_time_sync_frame_def proto_ver_legacy_def proto_ver_agility_def split: if_splits)
  moreover have "\<not> ag \<Longrightarrow> cw_kind w = ChaCha20Poly1305" using f(3) k0(2) by simp
  ultimately show ?thesis
    using hs do_fake_tls_random [OF hs] f(1) by (auto simp: keyed_def master_def)
qed

text \<open>A padding scheme may lock every client out. The configuration parser takes a scheme whose
first range lies below eleven bytes; a server that pads with it cuts its time frame in two, and
every dial, with the right password and an intact connection, ends in an authentication failure.\<close>
theorem short_scheme_locks_out:
  assumes "aead_ok seal opn" "rng_ok srng" "re_hkdf re = re_hkdf sre"
    and "parse_padding_scheme s = Some ((lo, hi) # scheme)" "hi \<le> 10"
    and "re_padding sre" "re_scheme sre = (lo, hi) # scheme"
    and "master = session_master kdf (pc_password cfg) (ch_client_random hs) (ch_server_random hs) (ch_ecdh hs)"
    and "ws = snd (server_greets seal srng time c (snd (crypto_pair sre [] master False)))"
    and "do_fake_tls cv pr cfg dd e (flight @ cw_out ws) = (Inr hs, sent, cw_out ws)"
  shows "connect_upstream now local re seal opn rng kdf cv pr aes cfg dd e (flight @ cw_out ws) offset
      = (Inl TimeSyncFrame, offset) \<and> is_auth_failure TimeSyncFrame"
proof -
  let ?w = "snd (crypto_pair sre [] master False)" and ?r = "fst (crypto_pair re [] master True)"
  have sync: "in_sync ?w ?r" using in_sync_pair [OF assms(3), of "[]" master False "[]"] by simp
  have ok: "pad_scheme_ok (re_scheme sre)" using parse_padding_scheme_ok [OF assms(4)] assms(7) by simp
  obtain x w1 where w1: "send_data seal srng (time_sync_frame proto_ver_agility time) ?w = (x, w1)" by fastforce
  obtain B chunk where B: "cw_out w1 = B" "length chunk < hi"
      "\<And>later. \<exists>r'. recv_data now opn (?r\<lparr>cr_in := B @ later\<rparr>) = (Inr chunk, r')"
    by (rule short_first_record [OF assms(1,2) _ _ _ _ _ _ sync w1, where lo = lo and hi = hi and now = now])
      (use ok assms(5,6,7) in auto)
  have "\<exists>C. cw_out ws = B @ C"
  proof (cases x)
    case (Inr u)
    obtain y w2 where "send_data seal srng (build_cipher_ack c) w1 = (y, w2)" by fastforce
    moreover from send_data_prefix [OF this] obtain C where "cw_out w2 = cw_out w1 @ C" by blast
    ultimately show ?thesis using w1 B(1) Inr by (simp add: assms(9) server_greets_def)
  qed (use w1 B(1) in \<open>simp add: assms(9) server_greets_def\<close>)
  then obtain r1 where r1: "recv_data now opn (fst (crypto_pair re (cw_out ws) master True)) = (Inr chunk, r1)"
    using B(3) unfolding crypto_pair_in by metis
  have "process_time_sync_frame local chunk offset = (Inl TimeSyncFrame, offset)"
    using B(2) assms(5) by (simp add: process_time_sync_frame_def)
  then show ?thesis
    using handshake_over_pair [OF assms(10), of re kdf] r1
    by (simp add: connect_upstream_def recv_timed_Received crypto_pair_def is_auth_failure_def
        flip: assms(8))
qed

subsection \<open>Witnesses\<close>

definition demo_env :: "pad_scheme \<Rightarrow> unit record_env" where
  "demo_env scheme = \<lparr>re_hkdf = \<lambda>m i. m @ i, re_padding = True, re_scheme = scheme, re_gen = (),
     re_traffic = \<lparr>tf_up = 0, tf_down = 0, tf_last_active = 0\<rparr>\<rparr>"

definition demo_kdf :: kdf where "demo_kdf salt ikm info = ikm @ info"

definition demo_curve :: "unit curve_ops" where
  "demo_curve = \<lparr>cv_generate = \<lambda>_. Some (), cv_representative = \<lambda>_. [1], cv_from_representative = \<lambda>b. b,
     cv_diffie_hellman = \<lambda>_ b. b, cv_contributory = \<lambda>_. True\<rparr>"

definition demo_prims :: primitives where
  "demo_prims = \<lparr>pr_sha = \<lambda>b. b, pr_hmac = \<lambda>k m. replicate 32 5, pr_poly = \<lambda>k m. replicate 16 6\<rparr>"

definition demo_cfg :: pool_config where
  "demo_cfg = \<lparr>pc_password = ''pw'', pc_camouflage_host = ''a.cn'', pc_pfs = False, pc_template = None\<rparr>"

definition demo_dial :: dial_draws where
  "demo_dial = \<lparr>dd_seed = [], dd_random = replicate 32 9, dd_prefix = replicate 8 1, dd_now = 5,
     dd_hello = demo_hello_draws, dd_tail = \<lambda>n. replicate n 0\<rparr>"

definition demo_flight :: bytes where
  "demo_flight = enc_rec (0x16, 3, 3, hello_body [2, 0, 0, 0] [3, 3] (replicate 32 7) [] 0x1301 [0])
     @ flight_of [(0x14, 3, 3, [1]), (0x17, 3, 3, [4])]"

definition demo_handshake :: client_handshake where
  "demo_handshake = \<lparr>ch_client_random = replicate 32 9, ch_server_random = replicate 32 7, ch_ecdh = None\<rparr>"

definition demo_master :: bytes where
  "demo_master = session_master demo_kdf ''pw'' (replicate 32 9) (replicate 32 7) None"

lemma demo_fake_tls:
  "\<exists>sent. do_fake_tls demo_curve demo_prims demo_cfg demo_dial Silent (demo_flight @ rest) = (Inr demo_handshake, sent, rest)"
proof -
  have "read_server_handshake Silent (demo_flight @ rest) = (Inr \<lparr>sh_random = replicate 32 7, sh_suite = 0x1301\<rparr>, rest)"
    unfolding demo_flight_def append_assoc
    by (rule read_hello_flight) (simp_all add: zero32_def all_seen_def see_def)
  moreover obtain hello where "build_client_hello_with_random None demo_hello_draws ''a.cn''
      (make_session_token demo_prims (replicate 8 1) 5 ''pw'' (replicate 32 9)) (replicate 32 9) = Some hello"
    by (simp add: build_client_hello_with_random_def demo_hello_draws_def pick_profile_def build_with_profile_def)
  ultimately show ?thesis
    by (simp add: do_fake_tls_def client_key_def demo_cfg_def demo_dial_def demo_handshake_def Let_def)
qed

lemma demo_schemes:
  "pad_scheme_ok (re_scheme (demo_env default_pad_scheme))" "scheme_fits 10 (re_scheme (demo_env default_pad_scheme))"
  "re_hkdf (demo_env s) = re_hkdf (demo_env t)"
  by (simp_all add: demo_env_def default_scheme_fits)

lemma demo_master_eq:
  "demo_master = session_master demo_kdf (pc_password demo_cfg) (ch_client_random demo_handshake)
     (ch_server_random demo_handshake) (ch_ecdh demo_handshake)"
  by (simp add: demo_master_def demo_cfg_def demo_handshake_def)

definition demo_server :: "pad_scheme \<Rightarrow> cipher \<Rightarrow> unit crypto_writer" where
  "demo_server scheme c = snd (server_greets demo_seal demo_rng 1000 c (snd (crypto_pair (demo_env scheme) [] demo_master False)))"

lemma login_agrees_witness:
  "\<exists>r w. connect_upstream 9 990 (demo_env default_pad_scheme) demo_seal demo_open demo_rng demo_kdf demo_curve
      demo_prims True demo_cfg demo_dial Silent (demo_flight @ cw_out (demo_server default_pad_scheme Aes256Gcm)) 0
      = (Inr (r, w), set_offset_from_server_time 990 1000 0)
    \<and> in_sync (writer_rekey (\<lambda>m i. m @ i) Aes256Gcm (demo_server default_pad_scheme Aes256Gcm)) r"
proof -
  obtain sent where "do_fake_tls demo_curve demo_prims demo_cfg demo_dial Silent
      (demo_flight @ cw_out (demo_server default_pad_scheme Aes256Gcm))
      = (Inr demo_handshake, sent, cw_out (demo_server default_pad_scheme Aes256Gcm))"
    using demo_fake_tls by blast
  from login_agrees [OF demo_aead_ok demo_rng_ok demo_rng_ok demo_schemes(1,2,1,2,3) demo_master_eq demo_server_def this,
      of 9 990 True 0]
  show ?thesis by (auto simp: demo_env_def)
qed

lemma tunnel_is_authenticated_witness:
  "\<exists>r w. connect_upstream 9 990 (demo_env default_pad_scheme) demo_seal demo_open demo_rng demo_kdf demo_curve
      demo_prims True demo_cfg demo_dial Silent (demo_flight @ cw_out (demo_server default_pad_scheme Aes256Gcm)) 0
      = (Inr (r, w), set_offset_from_server_time 990 1000 0) \<and> cr_kind r = cw_kind w"
proof -
  obtain sent where "do_fake_tls demo_curve demo_prims demo_cfg demo_dial Silent
      (demo_flight @ cw_out (demo_server default_pad_scheme Aes256Gcm))
      = (Inr demo_handshake, sent, cw_out (demo_server default_pad_scheme Aes256Gcm))"
    using demo_fake_tls by blast
  from login_outcome [OF demo_aead_ok demo_rng_ok demo_rng_ok demo_schemes(1,2,1,2,3) demo_master_eq demo_server_def this,
      of 9 990 True 0] tunnel_is_authenticated
  show ?thesis by blast
qed

lemma demo_short_scheme: "parse_padding_scheme ''4-8'' = Some [(4, 8)]"
proof -
  have "filter (\<lambda>p. p \<noteq> []) (map trim (split_char CHR '';'' ''4-8'')) = [''4-8'']" by code_simp
  moreover have "split_once CHR ''-'' ''4-8'' = Some (''4'', ''8'')" "trim ''4'' = ''4''" "trim ''8'' = ''8''"
    by code_simp+
  moreover have "digits_val 10 0 ''4'' = Some 4" "digits_val 10 0 ''8'' = Some 8" by code_simp+
  ultimately show ?thesis
    by (simp add: parse_padding_scheme_def parse_range_def parse_radix_def usize_max_def max_record_size_def)
qed

lemma short_scheme_locks_out_witness:
  "connect_upstream 9 990 (demo_env default_pad_scheme) demo_seal demo_open demo_rng demo_kdf demo_curve
      demo_prims True demo_cfg demo_dial Silent (demo_flight @ cw_out (demo_server [(4, 8)] Aes256Gcm)) 0
      = (Inl TimeSyncFrame, 0)"
proof -
  obtain sent where "do_fake_tls demo_curve demo_prims demo_cfg demo_dial Silent
      (demo_flight @ cw_out (demo_server [(4, 8)] Aes256Gcm))
      = (Inr demo_handshake, sent, cw_out (demo_server [(4, 8)] Aes256Gcm))"
    using demo_fake_tls by blast
  from short_scheme_locks_out [OF demo_aead_ok demo_rng_ok demo_schemes(3) [of default_pad_scheme] demo_short_scheme _ _ _ demo_master_eq
      demo_server_def this, where now = 9 and local = 990 and rng = demo_rng and aes = True and offset = 0]
  show ?thesis by (simp add: demo_env_def)
qed

end
