(* ===== verification/Adaptive.thy ===== *)
theory Adaptive
  imports NetTypes "HOL-Library.AList" "HOL-Library.Log_Nat"
begin

text \<open>\<open>tun/adaptive_idle.rs\<close> and \<open>attribution.rs\<close>: the idle timeouts of connections, learned per
domain. Times are seconds of the clock, given as arguments; \<open>lower\<close> stands for Unicode lower
casing. The profiles are a \<open>HashMap\<close>, kept as an association list whose order is the order in
which the map iterates.\<close>

subsection \<open>Categories\<close>

datatype traffic_category = Interactive | MediaCdn | PushIm | GeneralApi

datatype close_reason = ClientClosed | ServerClosed | IdleTimeout | CloseError

definition default_idle_secs :: "traffic_category \<Rightarrow> u64" where
  "default_idle_secs c =
     (case c of Interactive \<Rightarrow> 300 | MediaCdn \<Rightarrow> 10 | PushIm \<Rightarrow> 900 | GeneralApi \<Rightarrow> 30)"

definition idle_timeout :: "traffic_category \<Rightarrow> bool \<Rightarrow> u64" where
  "idle_timeout c is_active_transfer =
     (case c of
        Interactive \<Rightarrow> 300
      | MediaCdn \<Rightarrow> if is_active_transfer then 10 else 15
      | PushIm \<Rightarrow> 900
      | GeneralApi \<Rightarrow> if is_active_transfer then 30 else 15)"

definition category_str :: "traffic_category \<Rightarrow> string" where
  "category_str c =
     (case c of Interactive \<Rightarrow> ''Interactive'' | MediaCdn \<Rightarrow> ''MediaCDN'' | PushIm \<Rightarrow> ''PushIM''
      | GeneralApi \<Rightarrow> ''GeneralAPI'')"

definition cdn_suffixes :: "string list" where
  "cdn_suffixes = [
    ''twimg.com'', ''ytimg.com'', ''ggpht.com'', ''gvt1.com'', ''gvt2.com'', ''1e100.net'',
    ''googleusercontent.com'', ''fbcdn.net'', ''cdninstagram.com'', ''akamaized.net'',
    ''cloudfront.net'', ''fastly.net'', ''tiktokcdn.com'', ''byteoversea.com'', ''vimeocdn.com'',
    ''edgesuite.net'', ''llnwd.net'', ''cdn.sstatic.net'', ''githubusercontent.com'',
    ''alicdn.com'', ''hdslb.com'', ''bilivideo.com'', ''sinaimg.cn'', ''qpic.cn'', ''gtimg.com'',
    ''bdstatic.com'', ''douyincdn.com'', ''snssdk.com'', ''kuaishoucdn.com'', ''yximgs.com'',
    ''iqiyipic.com'', ''ykimg.com'', ''360buyimg.com'', ''meituan.net'', ''pstatp.com'',
    ''baidupcs.com'', ''aliyuncs.com'']"

definition im_suffixes :: "string list" where
  "im_suffixes = [
    ''telegram.org'', ''t.me'', ''telesco.pe'', ''tdesktop.com'', ''whatsapp.net'',
    ''whatsapp.com'', ''mtalk.google.com'', ''push.apple.com'', ''discord.gg'', ''discord.com'',
    ''matrix.org'', ''signal.org'', ''weixin.qq.com'', ''qq.com'', ''wechat.com'',
    ''tencent.com'', ''servicewechat.com'', ''tenpay.com'', ''wxs.qq.com'', ''wx.qq.com'',
    ''dingtalk.com'', ''laiwang.com'', ''feishu.cn'', ''larksuite.com'', ''jpush.cn'',
    ''getui.com'', ''getui.net'', ''umeng.com'', ''push.aliyun.com'', ''push.dingtalk.com'',
    ''xmpush.xiaomi.com'', ''push.xiaomi.com'', ''push.hicloud.com'', ''push.heytap.com'',
    ''push.oppomobile.com'', ''push.vivo.com.cn'']"

definition is_interactive_port :: "u16 \<Rightarrow> bool" where
  "is_interactive_port port \<longleftrightarrow> port \<in> {22, 23, 3389}"

definition is_im_or_push_port :: "u16 \<Rightarrow> bool" where
  "is_im_or_push_port port \<longleftrightarrow> port \<in> {14000, 5228, 5229, 5230, 5222, 5223}"

text \<open>The masks and the networks, as the code compares them.\<close>

definition tencent_nets :: "(u32 \<times> u32) list" where
  "tencent_nets = [
    (0xFFFE0000, 0xB7020000), (0xFFFC0000, 0xB7040000), (0xFFF80000, 0x78E80000),
    (0xFFF80000, 0x78F00000), (0xFFFF0000, 0x0E110000), (0xFFFE0000, 0x0E120000),
    (0xFFFF0000, 0x0ED70000), (0xFFFE0000, 0x71600000), (0xFFFF0000, 0x716C0000),
    (0xFFFF0000, 0x81E20000), (0xFFFE0000, 0x771C0000), (0xFFFE0000, 0x65200000),
    (0xFFF00000, 0x2B800000), (0xFFFF0000, 0x966D0000), (0xFFFF0000, 0xA20E0000)]"

definition is_tencent_or_im_ip :: "ip_addr \<Rightarrow> bool" where
  "is_tencent_or_im_ip ip =
     (case ip of V4 u \<Rightarrow> list_ex (\<lambda>(mask, net). u AND mask = net) tencent_nets | V6 _ \<Rightarrow> False)"

definition suffix_listed :: "string list \<Rightarrow> string \<Rightarrow> bool" where
  "suffix_listed listed host =
     (let h = trim_end_matches (CHR ''.'') host
      in list_ex (\<lambda>sfx. h = sfx \<or> ends_with (CHR ''.'' # sfx) h) listed)"

definition is_image_or_media_cdn :: "string \<Rightarrow> bool" where
  "is_image_or_media_cdn = suffix_listed cdn_suffixes"

definition is_push_or_im_service :: "string \<Rightarrow> bool" where
  "is_push_or_im_service = suffix_listed im_suffixes"

definition im_packages :: "string list" where
  "im_packages = [
    ''tencent.mm'', ''tencent.mobileqq'', ''tencent.tim'', ''alibaba.android.rimet'',
    ''ss.android.lark'', ''larksuite'', ''telegram'', ''whatsapp'', ''discord'', ''signal'',
    ''line'', ''slack'', ''matrix'', ''element'', ''teams'', ''skype'', ''google.android.talk'',
    ''google.android.gms'']"

definition is_im_or_push_package :: "(string \<Rightarrow> string) \<Rightarrow> string \<Rightarrow> bool" where
  "is_im_or_push_package lower pkg = list_ex (\<lambda>x. contains_str x (lower pkg)) im_packages"

subsection \<open>Profiles\<close>

text \<open>\<open>dp_ratio\<close> holds the two \<open>f32\<close> operands of the quotient that the code stores.\<close>

record domain_profile =
  dp_domain :: string
  dp_category :: traffic_category
  dp_sample_count :: u64
  dp_total_up :: u64
  dp_total_down :: u64
  dp_ratio :: "nat \<times> nat"
  dp_idle :: u64
  dp_static :: bool
  dp_last_seen :: u64
  dp_churn :: u32
  dp_zombie :: u32
  dp_reuse :: u32
  dp_last_closed :: u64
  dp_close_reason :: close_reason

type_synonym profiles = "(string \<times> domain_profile) list"

definition max_profiles_capacity :: nat where "max_profiles_capacity = 512"

definition profile_new ::
    "string \<Rightarrow> traffic_category \<Rightarrow> bool \<Rightarrow> u64 \<Rightarrow> u64 \<Rightarrow> close_reason \<Rightarrow> domain_profile" where
  "profile_new domain category is_static now last_closed reason =
     \<lparr>dp_domain = domain, dp_category = category, dp_sample_count = 0, dp_total_up = 0,
      dp_total_down = 0, dp_ratio = (1, 1), dp_idle = default_idle_secs category,
      dp_static = is_static, dp_last_seen = now, dp_churn = 0, dp_zombie = 0, dp_reuse = 0,
      dp_last_closed = last_closed, dp_close_reason = reason\<rparr>"

fun oldest :: "string \<times> domain_profile \<Rightarrow> profiles \<Rightarrow> string \<times> domain_profile" where
  "oldest b [] = b"
| "oldest b (x # xs) = oldest (if dp_last_seen (snd x) < dp_last_seen (snd b) then x else b) xs"

definition make_room :: "string \<Rightarrow> profiles \<Rightarrow> profiles" where
  "make_room domain ps =
     (if max_profiles_capacity \<le> length ps \<and> map_of ps domain = None
      then (case ps of [] \<Rightarrow> [] | b # bs \<Rightarrow> AList.delete (fst (oldest b bs)) ps)
      else ps)"

definition or_insert :: "string \<Rightarrow> domain_profile \<Rightarrow> profiles \<Rightarrow> profiles" where
  "or_insert domain p ps = (if map_of ps domain = None then AList.update domain p ps else ps)"

definition record_initial_profile :: "u64 \<Rightarrow> string \<Rightarrow> traffic_category \<Rightarrow> bool \<Rightarrow> profiles \<Rightarrow> profiles" where
  "record_initial_profile now domain category is_static ps =
     or_insert domain (profile_new domain category is_static now 0 ServerClosed) (make_room domain ps)"

subsection \<open>Classification\<close>

text \<open>A reconnection within four seconds of an idle close lengthens the timeout.\<close>

definition churned :: "u64 \<Rightarrow> domain_profile \<Rightarrow> domain_profile" where
  "churned now p =
     (let p = p\<lparr>dp_last_seen := now\<rparr>
      in if \<not> dp_static p \<and> dp_category p = GeneralApi \<and> 0 < dp_last_closed p
            \<and> saturating_sub now (dp_last_closed p) \<le> 4 \<and> dp_close_reason p = IdleTimeout
         then p\<lparr>dp_idle := min (dp_idle p * 15 div 10) 120, dp_churn := dp_churn p + 1\<rparr>
         else p)"

definition classify_domain ::
    "u64 \<Rightarrow> string \<Rightarrow> profiles \<Rightarrow> (traffic_category \<times> u64) \<times> profiles" where
  "classify_domain now nm ps =
     (case map_of ps nm of
        Some p \<Rightarrow>
          let p = churned now p
          in ((dp_category p, dp_idle p), AList.update nm p ps)
      | None \<Rightarrow>
          if is_image_or_media_cdn nm then
            ((MediaCdn, default_idle_secs MediaCdn), record_initial_profile now nm MediaCdn True ps)
          else if is_push_or_im_service nm then
            ((PushIm, default_idle_secs PushIm), record_initial_profile now nm PushIm True ps)
          else ((GeneralApi, default_idle_secs GeneralApi), ps))"

definition classify_connection :: "(string \<Rightarrow> string) \<Rightarrow> u64 \<Rightarrow> ip_addr option \<Rightarrow> u16 \<Rightarrow> string option
    \<Rightarrow> string option \<Rightarrow> profiles \<Rightarrow> (traffic_category \<times> u64) \<times> profiles" where
  "classify_connection lower now dst_ip dst_port domain source_app ps =
     (if (case source_app of Some app \<Rightarrow> is_im_or_push_package lower app | None \<Rightarrow> False)
      then ((PushIm, 900), ps)
      else if is_interactive_port dst_port then ((Interactive, 300), ps)
      else if is_im_or_push_port dst_port then ((PushIm, 900), ps)
      else if (case dst_ip of
                 Some ip \<Rightarrow> is_tencent_or_im_ip ip \<and> dst_port \<in> {80, 443, 8080, 14000}
               | None \<Rightarrow> False)
      then ((PushIm, 900), ps)
      else case domain of
             Some nm \<Rightarrow> classify_domain now (lower nm) ps
           | None \<Rightarrow> ((GeneralApi, default_idle_secs GeneralApi), ps))"

definition compute_adaptive_timeout :: "(string \<Rightarrow> string) \<Rightarrow> u64 \<Rightarrow> ip_addr option \<Rightarrow> u16 \<Rightarrow> string option
    \<Rightarrow> bool \<Rightarrow> string option \<Rightarrow> profiles \<Rightarrow> u64 \<times> profiles" where
  "compute_adaptive_timeout lower now dst_ip dst_port domain is_active_transfer source_app ps =
     (if (case source_app of Some app \<Rightarrow> is_im_or_push_package lower app | None \<Rightarrow> False)
      then (900, ps)
      else if is_interactive_port dst_port then (300, ps)
      else
        case classify_connection lower now dst_ip dst_port domain source_app ps of
          ((cat, _), ps) \<Rightarrow>
            if cat = PushIm then (900, ps)
            else if \<not> is_active_transfer then (15, ps)
            else
              (case Option.bind domain (\<lambda>nm. map_of ps (lower nm)) of
                 Some p \<Rightarrow> (dp_idle p, ps)
               | None \<Rightarrow> (idle_timeout cat is_active_transfer, ps)))"

subsection \<open>Learning\<close>

text \<open>\<open>as f32\<close>: to the nearest value with a significand of 24 bits, ties to even.\<close>

definition to_f32 :: "nat \<Rightarrow> nat" where
  "to_f32 n =
     (if n < 2 ^ 24 then n
      else
        let e = 2 ^ (floorlog 2 n - 24);
            q = n div e;
            r = n mod e
        in (if e < 2 * r \<or> e = 2 * r \<and> odd q then q + 1 else q) * e)"

text \<open>\<open>ratio >= 6.0\<close> in \<open>f32\<close>: the quotient is at least the midpoint between 6 and the value below
it, which rounds to 6 (the tie goes to the even significand).\<close>

definition ratio_ge_6 :: "nat \<times> nat \<Rightarrow> bool" where
  "ratio_ge_6 r \<longleftrightarrow> (6 * 2 ^ 22 - 1) * snd r \<le> 2 ^ 22 * fst r"

definition count_conn :: "u64 \<Rightarrow> u64 \<Rightarrow> u64 \<Rightarrow> close_reason \<Rightarrow> bool \<Rightarrow> domain_profile \<Rightarrow> domain_profile" where
  "count_conn now up_bytes down_bytes reason is_reused p =
     (let up = dp_total_up p + up_bytes; down = dp_total_down p + down_bytes
      in p\<lparr>dp_sample_count := dp_sample_count p + 1, dp_total_up := up, dp_total_down := down,
           dp_last_seen := now, dp_last_closed := now, dp_close_reason := reason,
           dp_ratio := (to_f32 (unat down), to_f32 (unat (max up 1))),
           dp_reuse := (if is_reused then dp_reuse p + 1 else dp_reuse p)\<rparr>)"

definition zombie_decay :: "close_reason \<Rightarrow> bool \<Rightarrow> domain_profile \<Rightarrow> domain_profile" where
  "zombie_decay reason is_reused p =
     (if \<not> dp_static p \<and> dp_category p = GeneralApi \<and> reason = IdleTimeout \<and> \<not> is_reused
      then p\<lparr>dp_idle := max (dp_idle p * 8 div 10) 20, dp_zombie := dp_zombie p + 1\<rparr>
      else p)"

definition evolve :: "u64 \<Rightarrow> domain_profile \<Rightarrow> domain_profile" where
  "evolve duration_ms p =
     (if \<not> dp_static p \<and> 2 \<le> dp_sample_count p then
        let avg_down = dp_total_down p div dp_sample_count p;
            avg_up = dp_total_up p div dp_sample_count p
        in if ratio_ge_6 (dp_ratio p) \<and> 16 * 1024 \<le> avg_down
           then p\<lparr>dp_category := MediaCdn, dp_idle := 10, dp_churn := 0, dp_zombie := 0\<rparr>
           else if avg_up \<le> 2048 \<and> avg_down \<le> 4096 \<and> 8000 \<le> duration_ms
           then p\<lparr>dp_category := PushIm, dp_idle := 900, dp_churn := 0, dp_zombie := 0\<rparr>
           else p
      else p)"

definition initial_category :: "string \<Rightarrow> traffic_category" where
  "initial_category nm =
     (if is_image_or_media_cdn nm then MediaCdn
      else if is_push_or_im_service nm then PushIm else GeneralApi)"

definition record_conn_metrics :: "(string \<Rightarrow> string) \<Rightarrow> u64 \<Rightarrow> string option \<Rightarrow> u64 \<Rightarrow> u64 \<Rightarrow> u64
    \<Rightarrow> close_reason \<Rightarrow> bool \<Rightarrow> profiles \<Rightarrow> profiles" where
  "record_conn_metrics lower now domain up_bytes down_bytes duration_ms reason is_reused ps =
     (case domain of
        None \<Rightarrow> ps
      | Some nm \<Rightarrow>
          if nm = [] then ps
          else
            let d = lower nm;
                cat = initial_category d;
                ps = or_insert d (profile_new d cat (cat \<noteq> GeneralApi) now now reason) (make_room d ps)
            in case map_of ps d of
                 None \<Rightarrow> ps
               | Some p \<Rightarrow>
                   AList.update d
                     (evolve duration_ms (zombie_decay reason is_reused
                        (count_conn now up_bytes down_bytes reason is_reused p))) ps)"

text \<open>\<open>load_profiles_from_disk\<close>, the file read and parsed.\<close>

definition load_profiles :: "domain_profile list \<Rightarrow> profiles \<Rightarrow> nat \<times> profiles" where
  "load_profiles loaded ps =
     (length loaded, fold (\<lambda>p. AList.update (dp_domain p) p) loaded ps)"

text \<open>\<open>get_learned_profiles_json\<close> before the printing: a stable sort, most samples first.\<close>

definition learned_profiles :: "profiles \<Rightarrow> domain_profile list" where
  "learned_profiles ps = rev (sort_key dp_sample_count (rev (map snd ps)))"

subsection \<open>What the learning keeps\<close>

definition profile_ok :: "string \<Rightarrow> domain_profile \<Rightarrow> bool" where
  "profile_ok nm p \<longleftrightarrow>
     dp_domain p = nm
     \<and> dp_static p = (initial_category nm \<noteq> GeneralApi)
     \<and> (dp_static p \<longrightarrow> dp_category p = initial_category nm)
     \<and> (case dp_category p of
          Interactive \<Rightarrow> False
        | GeneralApi \<Rightarrow> 20 \<le> dp_idle p \<and> dp_idle p \<le> 120
        | c \<Rightarrow> dp_idle p = default_idle_secs c)"

definition profiles_inv :: "profiles \<Rightarrow> bool" where
  "profiles_inv ps \<longleftrightarrow>
     distinct (map fst ps) \<and> length ps \<le> max_profiles_capacity
     \<and> (\<forall>(nm, p)\<in>set ps. profile_ok nm p)"

lemma initial_category_simps:
  "is_image_or_media_cdn nm \<Longrightarrow> initial_category nm = MediaCdn"
  "\<not> is_image_or_media_cdn nm \<Longrightarrow> is_push_or_im_service nm \<Longrightarrow> initial_category nm = PushIm"
  by (simp_all add: initial_category_def)

lemma initial_category_not_interactive [simp]: "initial_category nm \<noteq> Interactive"
  by (simp add: initial_category_def)

lemma profile_new_ok:
  "profile_ok nm (profile_new nm (initial_category nm) (initial_category nm \<noteq> GeneralApi) now cl reason)"
  by (auto simp: profile_ok_def profile_new_def default_idle_secs_def split: traffic_category.splits)

lemma u64_scale: "x \<le> 120 \<Longrightarrow> unat (x * 15 div 10) = unat x * 15 div 10"
  "x \<le> 120 \<Longrightarrow> unat (x * 8 div 10) = unat x * 8 div 10" for x :: u64
proof -
  assume "x \<le> 120"
  then have "unat x \<le> 120" by (simp add: word_le_nat_alt)
  then have "unat (x * 15) = unat x * 15" "unat (x * 8) = unat x * 8"
    by (simp_all add: unat_word_ariths)
  then show "unat (x * 15 div 10) = unat x * 15 div 10" "unat (x * 8 div 10) = unat x * 8 div 10"
    by (simp_all add: unat_div)
qed

lemma churn_range:
  assumes "20 \<le> x" "x \<le> 120" shows "20 \<le> min (x * 15 div 10) 120 \<and> min (x * 15 div 10) (120 :: u64) \<le> 120"
  using assms u64_scale(1) [of x] by (auto simp: word_le_nat_alt min_def)

lemma decay_range:
  assumes "20 \<le> x" "x \<le> 120" shows "20 \<le> max (x * 8 div 10) 20 \<and> max (x * 8 div 10) (20 :: u64) \<le> 120"
  using assms u64_scale(2) [of x] by (auto simp: word_le_nat_alt max_def)

lemma churned_ok: "profile_ok nm p \<Longrightarrow> profile_ok nm (churned now p)"
  using churn_range [of "dp_idle p"] by (auto simp: profile_ok_def churned_def Let_def split: traffic_category.splits)

lemma count_conn_ok: "profile_ok nm p \<Longrightarrow> profile_ok nm (count_conn now up down reason reused p)"
  by (simp add: profile_ok_def count_conn_def Let_def split: traffic_category.splits)

lemma zombie_ok: "profile_ok nm p \<Longrightarrow> profile_ok nm (zombie_decay reason reused p)"
  using decay_range [of "dp_idle p"] by (auto simp: profile_ok_def zombie_decay_def)

lemma evolve_ok: "profile_ok nm p \<Longrightarrow> profile_ok nm (evolve dur p)"
proof -
  assume ok: "profile_ok nm p"
  consider "evolve dur p = p"
    | "\<not> dp_static p" "evolve dur p = p\<lparr>dp_category := MediaCdn, dp_idle := 10, dp_churn := 0, dp_zombie := 0\<rparr>"
    | "\<not> dp_static p" "evolve dur p = p\<lparr>dp_category := PushIm, dp_idle := 900, dp_churn := 0, dp_zombie := 0\<rparr>"
    unfolding evolve_def Let_def by (metis (no_types))
  then show ?thesis using ok by cases (auto simp: profile_ok_def default_idle_secs_def)
qed

lemma oldest_in: "oldest b bs \<in> set (b # bs)"
  by (induction b bs rule: oldest.induct) auto

lemma inv_lookup: "profiles_inv ps \<Longrightarrow> map_of ps nm = Some p \<Longrightarrow> profile_ok nm p"
  by (auto simp: profiles_inv_def dest: map_of_SomeD)

lemma length_update_present:
  "map_of ps nm \<noteq> None \<Longrightarrow> length (AList.update nm p ps) = length ps"
  by (induction ps) auto

lemma length_update_absent:
  "map_of ps nm = None \<Longrightarrow> length (AList.update nm p ps) = Suc (length ps)"
  by (induction ps) auto

lemma set_update: "x \<in> set (AList.update nm p ps) \<Longrightarrow> x = (nm, p) \<or> x \<in> set ps"
  by (induction ps) (auto split: if_splits)

lemma update_inv:
  assumes "profiles_inv ps" "profile_ok nm p" "map_of ps nm \<noteq> None \<or> length ps < max_profiles_capacity"
  shows "profiles_inv (AList.update nm p ps)"
  using assms length_update_present [of ps nm p] length_update_absent [of ps nm p]
  by (cases "map_of ps nm = None")
    (auto simp: profiles_inv_def distinct_update dest!: set_update)

lemma make_room_inv:
  assumes "profiles_inv ps"
  shows "profiles_inv (make_room nm ps)"
    and "map_of (make_room nm ps) nm = None \<Longrightarrow> length (make_room nm ps) < max_profiles_capacity"
    and "map_of (make_room nm ps) nm = map_of ps nm"
proof -
  have del: "length (AList.delete k ps) < length ps" if "k \<in> fst ` set ps" for k
    using that by (auto simp: AList.delete_eq intro!: length_filter_less)
  have key: "fst (oldest b bs) \<in> fst ` set ps" if "ps = b # bs" for b bs
    using oldest_in [of b bs] that by auto
  show "profiles_inv (make_room nm ps)"
  proof (cases ps)
    case (Cons b bs)
    have "length (AList.delete k ps) \<le> length ps" for k by (simp add: AList.delete_eq)
    then have "length (AList.delete k ps) \<le> max_profiles_capacity" for k
      using assms le_trans unfolding profiles_inv_def by blast
    moreover have "set (AList.delete k ps) \<subseteq> set ps" for k by (auto simp: AList.delete_eq)
    ultimately have "profiles_inv (AList.delete k ps)" for k
      using assms unfolding profiles_inv_def by (blast intro: distinct_delete)
    with assms show ?thesis by (simp add: make_room_def Cons)
  qed (use assms in \<open>simp add: make_room_def\<close>)
  show "length (make_room nm ps) < max_profiles_capacity" if "map_of (make_room nm ps) nm = None"
  proof (cases "max_profiles_capacity \<le> length ps \<and> map_of ps nm = None")
    case True
    then obtain b bs where "ps = b # bs" by (cases ps) (auto simp: max_profiles_capacity_def)
    with True del [OF key [of b bs]] assms show ?thesis by (simp add: make_room_def profiles_inv_def)
  qed (use that in \<open>auto simp: make_room_def split: if_splits\<close>)
  show "map_of (make_room nm ps) nm = map_of ps nm"
    by (auto simp: make_room_def delete_conv' split: list.splits)
qed

lemma or_insert_inv:
  assumes "profiles_inv ps" "profile_ok nm p" "map_of ps nm = None \<Longrightarrow> length ps < max_profiles_capacity"
  shows "profiles_inv (or_insert nm p ps)"
  using assms by (auto simp: or_insert_def intro: update_inv)

lemma classify_domain_inv:
  assumes "profiles_inv ps"
  shows "profiles_inv (snd (classify_domain now nm ps))"
proof (cases "map_of ps nm")
  case (Some p)
  then show ?thesis
    using update_inv [OF assms churned_ok [OF inv_lookup [OF assms Some]]]
    by (simp add: classify_domain_def Let_def)
next
  case None
  have "profiles_inv (record_initial_profile now nm cat True ps)"
    if "cat = initial_category nm" "cat \<noteq> GeneralApi" for cat
    unfolding record_initial_profile_def
    by (rule or_insert_inv [OF make_room_inv(1) [OF assms] _ make_room_inv(2) [OF assms]])
      (use profile_new_ok [of nm now 0 ServerClosed] that in simp_all)
  then show ?thesis
    using assms None initial_category_simps [of nm]
    by (cases "is_image_or_media_cdn nm"; cases "is_push_or_im_service nm") (simp_all add: classify_domain_def)
qed

lemma classify_connection_inv:
  "profiles_inv ps \<Longrightarrow> profiles_inv (snd (classify_connection lower now ip port dm app ps))"
  using classify_domain_inv [of ps now] by (simp add: classify_connection_def split: option.splits)

lemma compute_timeout_state:
  "snd (compute_adaptive_timeout lower now ip port dm act app ps) = ps
   \<or> snd (compute_adaptive_timeout lower now ip port dm act app ps)
       = snd (classify_connection lower now ip port dm app ps)"
  by (auto simp: compute_adaptive_timeout_def split: prod.splits option.splits)

lemma compute_timeout_inv:
  "profiles_inv ps \<Longrightarrow> profiles_inv (snd (compute_adaptive_timeout lower now ip port dm act app ps))"
  using compute_timeout_state [of lower now ip port dm act app ps] classify_connection_inv by metis

lemma record_metrics_inv:
  assumes "profiles_inv ps"
  shows "profiles_inv (record_conn_metrics lower now dm up down dur reason reused ps)"
proof (cases dm)
  case (Some nm)
  define d where "d = lower nm"
  define qs where "qs = or_insert d (profile_new d (initial_category d) (initial_category d \<noteq> GeneralApi) now now reason)
    (make_room d ps)"
  have inv: "profiles_inv qs"
    unfolding qs_def
    by (rule or_insert_inv [OF make_room_inv(1) [OF assms] profile_new_ok make_room_inv(2) [OF assms]])
  show ?thesis
  proof (cases "map_of qs d")
    case None
    then show ?thesis using inv assms Some by (simp add: record_conn_metrics_def Let_def flip: d_def qs_def)
  next
    case (Some p)
    have "profiles_inv (AList.update d (evolve dur (zombie_decay reason reused (count_conn now up down reason reused p))) qs)"
      by (rule update_inv [OF inv]) (simp_all add: Some evolve_ok zombie_ok count_conn_ok inv_lookup [OF inv])
    then show ?thesis using assms \<open>dm = Some nm\<close> Some
      by (simp add: record_conn_metrics_def Let_def flip: d_def qs_def)
  qed
qed (simp add: record_conn_metrics_def assms)

subsection \<open>Runs\<close>

datatype adaptive_op =
    Classify u64 "ip_addr option" u16 "string option" "string option"
  | AskTimeout u64 "ip_addr option" u16 "string option" bool "string option"
  | ConnClosed u64 "string option" u64 u64 u64 close_reason bool

fun adaptive_step :: "(string \<Rightarrow> string) \<Rightarrow> adaptive_op \<Rightarrow> profiles \<Rightarrow> profiles" where
  "adaptive_step lower (Classify now ip port dm app) ps =
     snd (classify_connection lower now ip port dm app ps)"
| "adaptive_step lower (AskTimeout now ip port dm act app) ps =
     snd (compute_adaptive_timeout lower now ip port dm act app ps)"
| "adaptive_step lower (ConnClosed now dm up down dur reason reused) ps =
     record_conn_metrics lower now dm up down dur reason reused ps"

definition adaptive_run :: "(string \<Rightarrow> string) \<Rightarrow> adaptive_op list \<Rightarrow> profiles" where
  "adaptive_run lower ops = fold (adaptive_step lower) ops []"

lemma adaptive_step_inv: "profiles_inv ps \<Longrightarrow> profiles_inv (adaptive_step lower op ps)"
  by (cases op) (simp_all add: classify_connection_inv compute_timeout_inv record_metrics_inv)

lemma profiles_run_inv: "profiles_inv (adaptive_run lower ops)"
proof -
  have "profiles_inv ps \<Longrightarrow> profiles_inv (fold (adaptive_step lower) ops ps)" for ps
    by (induction ops arbitrary: ps) (simp_all add: adaptive_step_inv)
  from this [of "[]"] show ?thesis by (simp add: adaptive_run_def profiles_inv_def)
qed

text \<open>C22. Whatever connections are classified, timed and closed, the learned profiles
(\<open>adaptive_idle.rs\<close>) stay at most 512, one per domain; a profile is locked by a static rule
exactly when its domain is on a list, and then keeps that category and its timeout; a learned CDN
or push profile has its category's timeout, and the timeout of any other lies in 20 to 120
seconds, in spite of penalties and decays.\<close>
theorem adaptive_run_inv: "profiles_inv (adaptive_run lower ops)"
  by (rule profiles_run_inv)

lemma profile_idle_range: "profile_ok nm p \<Longrightarrow> 10 \<le> dp_idle p \<and> dp_idle p \<le> 900"
  by (auto simp: profile_ok_def default_idle_secs_def split: traffic_category.splits
      intro: order_trans [of _ 20] order_trans [of _ 120])

lemma timeout_range:
  assumes "profiles_inv ps"
  shows "10 \<le> fst (compute_adaptive_timeout lower now ip port dm act app ps)
    \<and> fst (compute_adaptive_timeout lower now ip port dm act app ps) \<le> 900"
proof -
  obtain cat t qs where c: "classify_connection lower now ip port dm app ps = ((cat, t), qs)"
    by (metis surj_pair)
  have qs: "profiles_inv qs" using classify_connection_inv [OF assms, of lower now ip port dm app] c by simp
  have "10 \<le> dp_idle p \<and> dp_idle p \<le> 900" if "map_of qs nm = Some p" for nm p
    using inv_lookup [OF qs that] by (rule profile_idle_range)
  then show ?thesis
    by (auto simp: compute_adaptive_timeout_def c idle_timeout_def bind_eq_Some_conv split: option.splits traffic_category.splits)
qed


text \<open>The checks that come before the domain.\<close>

definition plain_endpoint :: "(string \<Rightarrow> string) \<Rightarrow> ip_addr option \<Rightarrow> u16 \<Rightarrow> string option \<Rightarrow> bool" where
  "plain_endpoint lower ip port app \<longleftrightarrow>
     (case app of Some a \<Rightarrow> \<not> is_im_or_push_package lower a | None \<Rightarrow> True)
     \<and> \<not> is_interactive_port port \<and> \<not> is_im_or_push_port port
     \<and> (case ip of Some a \<Rightarrow> \<not> (is_tencent_or_im_ip a \<and> port \<in> {80, 443, 8080, 14000}) | None \<Rightarrow> True)"

lemma classify_plain:
  "plain_endpoint lower ip port app \<Longrightarrow>
     classify_connection lower now ip port (Some nm) app ps = classify_domain now (lower nm) ps"
  by (auto simp: plain_endpoint_def classify_connection_def split: option.splits)

text \<open>No history can change the answer for a domain on a static list (\<open>classify_connection\<close>,
adaptive_idle.rs): it is classified as its list says, with that category's timeout, whatever
was recorded for it before and whether or not its profile has been evicted since.\<close>
theorem static_domain_locked:
  assumes "plain_endpoint lower ip port app" "initial_category (lower nm) \<noteq> GeneralApi"
  shows "fst (classify_connection lower now ip port (Some nm) app (adaptive_run lower ops))
    = (initial_category (lower nm), default_idle_secs (initial_category (lower nm)))"
proof (cases "map_of (adaptive_run lower ops) (lower nm)")
  case None
  with assms show ?thesis
    by (auto simp: classify_plain classify_domain_def initial_category_def split: if_splits)
next
  case (Some p)
  from inv_lookup [OF profiles_run_inv Some] have ok: "profile_ok (lower nm) (churned now p)" by (rule churned_ok)
  have fst: "fst (classify_connection lower now ip port (Some nm) app (adaptive_run lower ops))
      = (dp_category (churned now p), dp_idle (churned now p))"
    using assms(1) Some by (simp add: classify_plain classify_domain_def Let_def)
  from ok assms(2) show ?thesis unfolding fst
    by (auto simp: profile_ok_def split: traffic_category.splits)
qed

theorem static_domain_locked_witness:
  "fst (classify_connection ascii_lower 5 None 443 (Some ''PBS.twimg.com'') None
      (adaptive_run ascii_lower [ConnClosed 4 (Some ''pbs.twimg.com'') 9 90000 20 IdleTimeout False])) = (MediaCdn, 10)"
proof -
  have cat: "initial_category (ascii_lower ''PBS.twimg.com'') = MediaCdn" by code_simp
  have "plain_endpoint ascii_lower None 443 None"
    by (simp add: plain_endpoint_def is_interactive_port_def is_im_or_push_port_def)
  from static_domain_locked [OF this, of "''PBS.twimg.com''"] cat show ?thesis
    by (simp add: default_idle_secs_def)
qed

text \<open>What \<open>relay_proxy\<close> (tcp.rs) asks for one connection: both directions at their start, and each
again at its first bytes.\<close>

definition relay_timeouts :: "(string \<Rightarrow> string) \<Rightarrow> u64 \<Rightarrow> ip_addr option \<Rightarrow> u16 \<Rightarrow> string option \<Rightarrow> profiles \<Rightarrow> profiles" where
  "relay_timeouts lower now effective_ip dst_port dom_ref ps =
     fold (\<lambda>active ps. snd (compute_adaptive_timeout lower now effective_ip dst_port dom_ref active None ps))
       [False, False, True, True] ps"

lemma compute_plain:
  assumes "plain_endpoint lower ip port None" "map_of ps (lower nm) = Some p" "dp_category p = GeneralApi"
  shows "snd (compute_adaptive_timeout lower now ip port (Some nm) active None ps)
    = AList.update (lower nm) (churned now p) ps"
proof -
  have "dp_category (churned now p) = GeneralApi" using assms(3) by (simp add: churned_def Let_def)
  then show ?thesis
    using assms(1,2) by (simp add: compute_adaptive_timeout_def classify_plain classify_domain_def Let_def plain_endpoint_def
      split: option.splits)
qed

text \<open>One reconnection is penalised four times (\<open>relay_proxy\<close>, tcp.rs): a domain whose last
connection was closed as idle at most four seconds ago does not go from 30 to 45 seconds, but,
when the first bytes flow within that time, all the way to the cap of 120.\<close>
theorem one_reconnect_four_penalties:
  assumes "plain_endpoint lower ip port None" "map_of ps (lower nm) = Some p"
    and "dp_category p = GeneralApi" "\<not> dp_static p" "dp_idle p = 30" "dp_close_reason p = IdleTimeout"
    and "0 < dp_last_closed p" "saturating_sub now (dp_last_closed p) \<le> 4"
  shows "map_option dp_idle (map_of (relay_timeouts lower now ip port (Some nm) ps) (lower nm)) = Some 120"
proof -
  have step: "snd (compute_adaptive_timeout lower now ip port (Some nm) active None qs)
      = AList.update (lower nm) (q\<lparr>dp_last_seen := now, dp_idle := min (dp_idle q * 15 div 10) 120, dp_churn := dp_churn q + 1\<rparr>) qs"
    if "map_of qs (lower nm) = Some q" "dp_category q = GeneralApi" "\<not> dp_static q" "dp_close_reason q = IdleTimeout"
      "dp_last_closed q = dp_last_closed p" for active qs q
    using compute_plain [OF assms(1) that(1,2), of now active] that assms(7,8) by (simp add: churned_def Let_def)
  show ?thesis
    using assms step
    by (simp add: relay_timeouts_def update_conv')
qed

theorem one_reconnect_four_penalties_witness:
  "map_option dp_idle
     (map_of (relay_timeouts ascii_lower 103 None 443 (Some ''a'')
        [(''a'', profile_new ''a'' GeneralApi False 100 100 IdleTimeout)]) ''a'') = Some 120"
proof -
  have l: "ascii_lower ''a'' = ''a''" by code_simp
  have "plain_endpoint ascii_lower None 443 None"
    by (simp add: plain_endpoint_def is_interactive_port_def is_im_or_push_port_def)
  from one_reconnect_four_penalties [OF this, where nm = "''a''" and now = 103
      and ps = "[(''a'', profile_new ''a'' GeneralApi False 100 100 IdleTimeout)]"]
  show ?thesis by (simp add: l profile_new_def default_idle_secs_def saturating_sub_def)
qed

end
