(* ===== verification/Ring.thy ===== *)
theory Ring
  imports Prelude "HOL-Library.Sublist"
begin

text \<open>Bounded queues that drop their oldest element: the contract of the in-memory log
(\<open>monitor.rs\<close>) and of the packet queue (\<open>tun/device.rs\<close>).\<close>

locale drop_oldest =
  fixes cap :: nat and push :: "'a \<Rightarrow> 'a list \<Rightarrow> 'a list"
  assumes cap_pos: "0 < cap"
    and room: "length q < cap \<Longrightarrow> push x q = q @ [x]"
    and full: "length q = cap \<Longrightarrow> push x q = tl q @ [x]"
begin

lemma push_drop:
  assumes "length q \<le> cap"
  shows "push x q = drop (Suc (length q) - cap) (q @ [x])"
proof (cases "length q = cap")
  case True
  with cap_pos obtain y r where "q = y # r" by (cases q) auto
  with True show ?thesis by (simp add: full)
next
  case False
  with assms show ?thesis by (simp add: room)
qed

lemma push_length: "length q \<le> cap \<Longrightarrow> length (push x q) \<le> cap"
  by (auto simp: push_drop)

lemma push_history: "push x (drop (length h - cap) h) = drop (Suc (length h) - cap) (h @ [x])"
  by (cases "length h \<le> cap") (simp_all add: push_drop Suc_diff_le)

text \<open>After any pushes the queue holds the last \<open>cap\<close> of them, in order.\<close>

lemma pushes: "fold push xs (drop (length h - cap) h) = drop (length (h @ xs) - cap) (h @ xs)"
proof (induction xs arbitrary: h)
  case (Cons x xs)
  from Cons [of "h @ [x]"] show ?case by (simp add: push_history)
qed simp

lemma pushes_empty: "fold push xs [] = drop (length xs - cap) xs"
  using pushes [of xs "[]"] by simp

text \<open>With removals at the front in between, what was taken and what is left is in order a part
of what was pushed.\<close>

definition queue_step :: "'a option \<Rightarrow> 'a list \<times> 'a list \<Rightarrow> 'a list \<times> 'a list" where
  "queue_step op s =
     (case (op, s) of
        (Some x, (out, q)) \<Rightarrow> (out, push x q)
      | (None, (out, [])) \<Rightarrow> (out, [])
      | (None, (out, y # q)) \<Rightarrow> (out @ [y], q))"

lemma queue_step_kept:
  assumes "length (snd s) \<le> cap" "subseq (fst s @ snd s) pushed"
  shows "length (snd (queue_step op s)) \<le> cap
    \<and> subseq (fst (queue_step op s) @ snd (queue_step op s)) (pushed @ (case op of Some x \<Rightarrow> [x] | None \<Rightarrow> []))"
proof (cases op)
  case None
  then show ?thesis using assms by (cases s; cases "snd s") (auto simp: queue_step_def)
next
  case (Some x)
  obtain out q where s: "s = (out, q)" by (cases s)
  have "subseq (drop (Suc (length q) - cap) (q @ [x])) (q @ [x])" by (metis suffix_drop suffix_imp_subseq)
  then have "subseq (out @ push x q) (out @ q @ [x])" using assms(1) by (simp add: s push_drop subseq_append' del: drop_append)
  moreover have "subseq (out @ q @ [x]) (pushed @ [x])"
    using list_emb_append_mono [OF assms(2) list_emb_refl [of "[x]" "(=)"]] by (simp add: s)
  ultimately show ?thesis
    using push_length [of q x] assms(1) subseq_order.trans by (fastforce simp: queue_step_def s Some)
qed

lemma queue_order:
  "length (snd (fold queue_step ops ([], []))) \<le> cap
   \<and> subseq (fst (fold queue_step ops ([], [])) @ snd (fold queue_step ops ([], [])))
       (concat (map (\<lambda>op. case op of Some x \<Rightarrow> [x] | None \<Rightarrow> []) ops))"
proof (induction ops rule: rev_induct)
  case Nil
  show ?case by simp
next
  case (snoc op ops)
  from queue_step_kept [OF conjunct1 [OF snoc] conjunct2 [OF snoc], of op] show ?case by simp
qed

end

end
