(* ===== verification/TunDevice.thy ===== *)
theory TunDevice
  imports Ring
begin

text \<open>\<open>tun/device.rs\<close>, the packet queues between the TUN descriptor and the user-mode IP stack, and
\<open>tun/buffer_pool.rs\<close>, the buffers the packets are kept in. A buffer of the pool is empty, so it
is its capacity.\<close>

subsection \<open>The device\<close>

definition queue_cap :: nat where "queue_cap = 512"

record tun_device =
  dv_rx :: "bytes list"
  dv_tx :: "bytes list"
  dv_mtu :: nat

definition device_new :: "nat \<Rightarrow> tun_device" where
  "device_new mtu = \<lparr>dv_rx = [], dv_tx = [], dv_mtu = mtu\<rparr>"

definition queue_push :: "bytes \<Rightarrow> bytes list \<Rightarrow> bytes list" where
  "queue_push pkt q = (if queue_cap \<le> length q then tl q else q) @ [pkt]"

definition push_rx :: "bytes \<Rightarrow> tun_device \<Rightarrow> tun_device" where
  "push_rx pkt d = d\<lparr>dv_rx := queue_push pkt (dv_rx d)\<rparr>"

definition pop_tx :: "tun_device \<Rightarrow> bytes option \<times> tun_device" where
  "pop_tx d = (case dv_tx d of [] \<Rightarrow> (None, d) | p # q \<Rightarrow> (Some p, d\<lparr>dv_tx := q\<rparr>))"

definition has_tx :: "tun_device \<Rightarrow> bool" where
  "has_tx d \<longleftrightarrow> dv_tx d \<noteq> []"

text \<open>What the stack consumes: \<open>receive\<close> takes the oldest packet; a transmit token of \<open>len\<close> bytes is
filled by \<open>fill\<close> and queued.\<close>

definition receive :: "tun_device \<Rightarrow> bytes option \<times> tun_device" where
  "receive d = (case dv_rx d of [] \<Rightarrow> (None, d) | p # q \<Rightarrow> (Some p, d\<lparr>dv_rx := q\<rparr>))"

definition tx_consume :: "nat \<Rightarrow> (bytes \<Rightarrow> bytes) \<Rightarrow> tun_device \<Rightarrow> tun_device" where
  "tx_consume len fill d = d\<lparr>dv_tx := queue_push (fill (replicate len 0)) (dv_tx d)\<rparr>"

interpretation packet_queue: drop_oldest queue_cap queue_push
  by unfold_locales (auto simp: queue_cap_def queue_push_def)

datatype device_op = PushRx bytes | Receive | TxConsume nat "bytes \<Rightarrow> bytes" | PopTx

text \<open>A run of the device with what came out: packets the stack received, packets for the
descriptor.\<close>

fun device_step :: "device_op \<Rightarrow> (bytes list \<times> bytes list) \<times> tun_device \<Rightarrow> (bytes list \<times> bytes list) \<times> tun_device" where
  "device_step (PushRx p) (out, d) = (out, push_rx p d)"
| "device_step Receive ((got, sent), d) =
     (case receive d of (None, d') \<Rightarrow> ((got, sent), d') | (Some p, d') \<Rightarrow> ((got @ [p], sent), d'))"
| "device_step (TxConsume len fill) (out, d) = (out, tx_consume len fill d)"
| "device_step PopTx ((got, sent), d) =
     (case pop_tx d of (None, d') \<Rightarrow> ((got, sent), d') | (Some p, d') \<Rightarrow> ((got, sent @ [p]), d'))"

fun rx_op :: "device_op \<Rightarrow> bytes option list" where
  "rx_op (PushRx p) = [Some p]"
| "rx_op Receive = [None]"
| "rx_op _ = []"

fun tx_op :: "device_op \<Rightarrow> bytes option list" where
  "tx_op (TxConsume len fill) = [Some (fill (replicate len 0))]"
| "tx_op PopTx = [None]"
| "tx_op _ = []"

text \<open>Each direction of the device is a queue of the library.\<close>

lemma device_step_queues:
  assumes "(got, dv_rx d) = s" "(sent, dv_tx d) = t" "device_step op ((got, sent), d) = ((got', sent'), d')"
  shows "(got', dv_rx d') = fold packet_queue.queue_step (rx_op op) s
    \<and> (sent', dv_tx d') = fold packet_queue.queue_step (tx_op op) t"
  using assms
  by (cases op) (auto simp: packet_queue.queue_step_def push_rx_def receive_def tx_consume_def pop_tx_def split: list.splits)

lemma device_run_queues:
  assumes "fold device_step ops (([], []), device_new mtu) = ((got, sent), d)"
  shows "(got, dv_rx d) = fold packet_queue.queue_step (concat (map rx_op ops)) ([], [])
    \<and> (sent, dv_tx d) = fold packet_queue.queue_step (concat (map tx_op ops)) ([], [])"
  using assms
proof (induction ops arbitrary: got sent d rule: rev_induct)
  case Nil
  then show ?case by (auto simp: device_new_def)
next
  case (snoc op ops)
  obtain g t e where prev: "fold device_step ops (([], []), device_new mtu) = ((g, t), e)" by (metis surj_pair)
  with snoc.prems have "device_step op ((g, t), e) = ((got, sent), d)" by simp
  from device_step_queues [OF conjunct1 [OF snoc.IH [OF prev]] conjunct2 [OF snoc.IH [OF prev]] this]
  show ?case by simp
qed

definition pushed :: "bytes option list \<Rightarrow> bytes list" where
  "pushed ops = concat (map (\<lambda>op. case op of Some x \<Rightarrow> [x] | None \<Rightarrow> []) ops)"

text \<open>The device (\<open>TunDevice\<close>, device.rs) never holds more than 512 packets in a direction, and
neither repeats nor reorders one: what the stack has received, followed by what is queued for
it, is in order a part of what was read from the descriptor; and what was written to the
descriptor, followed by what is queued for it, a part of what the stack sent.\<close>
theorem device_keeps_order:
  assumes "fold device_step ops (([], []), device_new mtu) = ((got, sent), d)"
  shows "length (dv_rx d) \<le> 512 \<and> length (dv_tx d) \<le> 512
    \<and> subseq (got @ dv_rx d) (pushed (concat (map rx_op ops)))
    \<and> subseq (sent @ dv_tx d) (pushed (concat (map tx_op ops)))"
proof -
  from device_run_queues [OF assms]
  have q: "fold packet_queue.queue_step (concat (map rx_op ops)) ([], []) = (got, dv_rx d)"
    "fold packet_queue.queue_step (concat (map tx_op ops)) ([], []) = (sent, dv_tx d)" by simp_all
  show ?thesis
    using packet_queue.queue_order [of "concat (map rx_op ops)"] packet_queue.queue_order [of "concat (map tx_op ops)"]
    unfolding q pushed_def queue_cap_def fst_conv snd_conv by blast
qed

theorem device_keeps_order_witness:
  "subseq ([[1]] @ [[2 :: u8]]) (pushed (concat (map rx_op [PushRx [1], PushRx [2], Receive])))"
proof -
  have "fold device_step [PushRx [1], PushRx [2], Receive] (([], []), device_new 1400)
      = (([[1]], []), (device_new 1400)\<lparr>dv_rx := [[2]]\<rparr>)"
    by (simp add: push_rx_def queue_push_def receive_def device_new_def queue_cap_def)
  from device_keeps_order [OF this] show ?thesis by simp
qed

subsection \<open>The buffer pool\<close>

definition default_buf_capacity :: nat where "default_buf_capacity = 2048"
definition max_pool_size :: nat where "max_pool_size = 1024"
definition max_recycle_capacity :: nat where "max_recycle_capacity = 4096"

record buffer_pool =
  bp_pool :: "nat list"
  bp_acquired :: u64
  bp_recycled :: u64

definition buffer_pool_new :: buffer_pool where
  "buffer_pool_new = \<lparr>bp_pool = [], bp_acquired = 0, bp_recycled = 0\<rparr>"

text \<open>\<open>grow\<close> is the capacity the allocator gives for a request; \<open>Vec::reserve\<close> gives at least that.\<close>

definition acquire :: "(nat \<Rightarrow> nat) \<Rightarrow> nat \<Rightarrow> buffer_pool \<Rightarrow> nat \<times> buffer_pool" where
  "acquire grow required_cap p =
     (let cap = max required_cap default_buf_capacity;
          c = (if bp_pool p = [] then 0 else last (bp_pool p))
      in (if c < cap then grow cap else c,
          p\<lparr>bp_acquired := bp_acquired p + 1, bp_pool := butlast (bp_pool p)\<rparr>))"

definition recycle :: "nat \<Rightarrow> buffer_pool \<Rightarrow> buffer_pool" where
  "recycle capacity p =
     (if capacity < default_buf_capacity \<or> max_recycle_capacity < capacity then p
      else if length (bp_pool p) < max_pool_size
        then p\<lparr>bp_pool := bp_pool p @ [capacity], bp_recycled := bp_recycled p + 1\<rparr>
      else p)"

definition drop_buf :: "nat \<Rightarrow> buffer_pool \<Rightarrow> buffer_pool" where
  "drop_buf capacity p =
     (if default_buf_capacity \<le> capacity \<and> capacity \<le> max_recycle_capacity then recycle capacity p else p)"

datatype pool_use = Acquire nat | DropBuf nat

fun buffer_step :: "(nat \<Rightarrow> nat) \<Rightarrow> pool_use \<Rightarrow> buffer_pool \<Rightarrow> buffer_pool" where
  "buffer_step grow (Acquire n) p = snd (acquire grow n p)"
| "buffer_step grow (DropBuf c) p = drop_buf c p"

lemma buffers_bounded_step:
  assumes "length (bp_pool p) \<le> max_pool_size \<and> (\<forall>c\<in>set (bp_pool p). default_buf_capacity \<le> c \<and> c \<le> max_recycle_capacity)"
  shows "length (bp_pool (buffer_step grow op p)) \<le> max_pool_size
    \<and> (\<forall>c\<in>set (bp_pool (buffer_step grow op p)). default_buf_capacity \<le> c \<and> c \<le> max_recycle_capacity)"
  using assms by (cases op) (auto simp: acquire_def recycle_def drop_buf_def Let_def dest: in_set_butlastD)

lemma buffers_bounded:
  "length (bp_pool (fold (buffer_step grow) ops buffer_pool_new)) \<le> max_pool_size
   \<and> (\<forall>c\<in>set (bp_pool (fold (buffer_step grow) ops buffer_pool_new)).
        default_buf_capacity \<le> c \<and> c \<le> max_recycle_capacity)"
proof (induction ops rule: rev_induct)
  case Nil
  show ?case by (simp add: buffer_pool_new_def)
next
  case (snoc op ops)
  from buffers_bounded_step [OF snoc] show ?case by simp
qed

text \<open>Whatever is acquired and dropped, the idle buffers (\<open>BufferPool\<close>, buffer_pool.rs) hold at
most four megabytes together.\<close>
theorem buffer_pool_memory:
  "sum_list (bp_pool (fold (buffer_step grow) ops buffer_pool_new)) \<le> 4 * 1024 * 1024"
proof -
  define q where "q = bp_pool (fold (buffer_step grow) ops buffer_pool_new)"
  have "length q \<le> 1024" "\<forall>c\<in>set q. c \<le> 4096"
    using buffers_bounded [of grow ops] by (auto simp: q_def max_pool_size_def max_recycle_capacity_def)
  then have "sum_list q \<le> 4096 * length q"
    by (induction q) auto
  with \<open>length q \<le> 1024\<close> show ?thesis by (simp add: q_def [symmetric])
qed

lemma acquire_enough:
  assumes "\<And>n. n \<le> grow n" shows "required_cap \<le> fst (acquire grow required_cap p)"
  using assms [of "max required_cap default_buf_capacity"] by (auto simp: acquire_def Let_def)

end
