(* ===== verification/Monitor.thy ===== *)
theory Monitor
  imports Ring RustParse "HOL-Library.AList"
begin

text \<open>\<open>monitor.rs\<close>: traffic totals and rates, the in-memory log, the table of live connections and
the list of recent requests. The statics of the module are the fields of one state; clocks are
arguments (seconds, and nanoseconds for the rates).\<close>

subsection \<open>State\<close>

record live_connection =
  lc_id :: u64
  lc_protocol :: string
  lc_target :: string
  lc_outbound :: string
  lc_up :: u64
  lc_down :: u64
  lc_start :: u64
  lc_aborted :: bool
  lc_app :: "string option"

record recent_request =
  rr_id :: u64
  rr_protocol :: string
  rr_target :: string
  rr_resolved_ip :: string
  rr_rule :: string
  rr_outbound :: string
  rr_status :: string
  rr_up :: u64
  rr_down :: u64
  rr_start :: u64
  rr_duration_ms :: u64
  rr_dns_ms :: u32
  rr_connect_ms :: u32
  rr_tls_ms :: u32
  rr_ttfb_ms :: u32
  rr_app :: "string option"

record monitor =
  mn_up :: u64
  mn_down :: u64
  mn_tunnel_active :: u64
  mn_samples :: "(nat \<times> u64 \<times> u64) list"
  mn_next_id :: u64
  mn_conns :: "(u64 \<times> live_connection) list"
  mn_recent :: "recent_request list"
  mn_channel :: "string list"
  mn_logs :: "string list"
  mn_dropped :: u64

definition monitor_init :: monitor where
  "monitor_init = \<lparr>mn_up = 0, mn_down = 0, mn_tunnel_active = 0, mn_samples = [], mn_next_id = 1,
     mn_conns = [], mn_recent = [], mn_channel = [], mn_logs = [], mn_dropped = 0\<rparr>"

subsection \<open>Totals and rates\<close>

definition add_up :: "u64 \<Rightarrow> monitor \<Rightarrow> monitor" where
  "add_up bytes m = m\<lparr>mn_up := mn_up m + bytes\<rparr>"

definition add_down :: "u64 \<Rightarrow> monitor \<Rightarrow> monitor" where
  "add_down bytes m = m\<lparr>mn_down := mn_down m + bytes\<rparr>"

definition mark_tunnel_active :: "u64 \<Rightarrow> monitor \<Rightarrow> monitor" where
  "mark_tunnel_active now m = m\<lparr>mn_tunnel_active := now\<rparr>"

definition tunnel_stall_secs :: "u64 \<Rightarrow> monitor \<Rightarrow> u64 option" where
  "tunnel_stall_secs now m =
     (if mn_tunnel_active m = 0 then None else Some (saturating_sub now (mn_tunnel_active m)))"

text \<open>The text \<open>contains\<close> looks for, two Chinese characters in UTF-8.\<close>

definition proxy_label :: string where
  "proxy_label = [CHR 0xE4, CHR 0xBB, CHR 0xA3, CHR 0xE7, CHR 0x90, CHR 0x86]"

definition tunnel_conn_count :: "monitor \<Rightarrow> nat" where
  "tunnel_conn_count m = length (filter (\<lambda>(i, c). contains_str proxy_label (lc_outbound c)) (mn_conns m))"

text \<open>\<open>sample\<close>: the totals, and the two rates as bytes over nanoseconds since the last sample
(0 over 1 when the code says 0). Samples closer than 0.8 seconds are not kept.\<close>

definition sample :: "nat \<Rightarrow> monitor \<Rightarrow> (u64 \<times> u64 \<times> (u64 \<times> nat) \<times> (u64 \<times> nat)) \<times> monitor" where
  "sample now m =
     (let up = mn_up m; down = mn_down m; none = (0, 1)
      in if mn_samples m = [] then ((up, down, none, none), m\<lparr>mn_samples := [(now, up, down)]\<rparr>)
         else
           case last (mn_samples m) of (prev_t, prev_up, prev_dn) \<Rightarrow>
             let dt = now - prev_t
             in if 800000000 \<le> dt then
                  let q = mn_samples m @ [(now, up, down)]
                  in ((up, down, (up - prev_up, dt), (down - prev_dn, dt)),
                      m\<lparr>mn_samples := drop (length q - 20) q\<rparr>)
                else ((up, down, none, none), m))"

subsection \<open>The log\<close>

definition log_cap :: nat where "log_cap = 2000"

definition ring_push :: "string \<Rightarrow> string list \<Rightarrow> string list" where
  "ring_push line q = (if log_cap \<le> length q then tl q else q) @ [line]"

definition write_line :: "string \<Rightarrow> monitor \<Rightarrow> monitor" where
  "write_line line m = m\<lparr>mn_logs := ring_push line (mn_logs m)\<rparr>"

text \<open>The writer puts text into a channel of 2000 places, which a thread empties into the ring.\<close>

definition writer_write :: "string \<Rightarrow> monitor \<Rightarrow> monitor" where
  "writer_write buf m =
     (let s = (if utf8_ok buf then buf else utf8_lossy buf)
      in if trim s = [] then m
         else if length (mn_channel m) < 2000 then m\<lparr>mn_channel := mn_channel m @ [s]\<rparr>
         else m\<lparr>mn_dropped := mn_dropped m + 1\<rparr>)"

definition writer_thread :: "monitor \<Rightarrow> monitor" where
  "writer_thread m =
     (case mn_channel m of
        [] \<Rightarrow> m
      | s # rest \<Rightarrow> m\<lparr>mn_channel := rest, mn_logs := ring_push s (mn_logs m)\<rparr>)"

definition get_logs_capped :: "nat \<Rightarrow> monitor \<Rightarrow> string list" where
  "get_logs_capped limit m =
     (let q = mn_logs m in if limit < length q then drop (length q - limit) q else q)"

definition recent_logs :: "monitor \<Rightarrow> string list" where
  "recent_logs = get_logs_capped 150"

definition drain_logs :: "monitor \<Rightarrow> string list \<times> monitor" where
  "drain_logs m = (mn_logs m, m\<lparr>mn_logs := []\<rparr>)"

definition clear_logs :: "monitor \<Rightarrow> monitor" where
  "clear_logs m = m\<lparr>mn_logs := []\<rparr>"

definition recent_logs_push :: "string \<Rightarrow> monitor \<Rightarrow> monitor" where
  "recent_logs_push line =
     write_line (if ends_with [CHR 0x0A] line then butlast line else line)"

subsection \<open>Connections\<close>

definition recent_requests_cap :: nat where "recent_requests_cap = 300"

definition record_conn_start :: "u64 \<Rightarrow> string \<Rightarrow> string \<Rightarrow> string \<Rightarrow> string \<Rightarrow> string \<Rightarrow> string option
    \<Rightarrow> monitor \<Rightarrow> u64 \<times> monitor" where
  "record_conn_start now protocol target resolved_ip matched_rule outbound source_app m =
     (let cid = mn_next_id m;
          c = \<lparr>lc_id = cid, lc_protocol = protocol, lc_target = target, lc_outbound = outbound,
               lc_up = 0, lc_down = 0, lc_start = now, lc_aborted = False, lc_app = source_app\<rparr>;
          r = \<lparr>rr_id = cid, rr_protocol = protocol, rr_target = target, rr_resolved_ip = resolved_ip,
               rr_rule = matched_rule, rr_outbound = outbound, rr_status = ''Active'', rr_up = 0,
               rr_down = 0, rr_start = now, rr_duration_ms = 0, rr_dns_ms = 0, rr_connect_ms = 0,
               rr_tls_ms = 0, rr_ttfb_ms = 0, rr_app = source_app\<rparr>;
          q = (if recent_requests_cap \<le> length (mn_recent m) then butlast (mn_recent m) else mn_recent m)
      in (cid, m\<lparr>mn_next_id := cid + 1, mn_conns := AList.update cid c (mn_conns m), mn_recent := r # q\<rparr>))"

text \<open>\<open>iter_mut().find(..)\<close>.\<close>

fun update_first :: "('a \<Rightarrow> bool) \<Rightarrow> ('a \<Rightarrow> 'a) \<Rightarrow> 'a list \<Rightarrow> 'a list" where
  "update_first P f [] = []"
| "update_first P f (x # xs) = (if P x then f x # xs else x # update_first P f xs)"

definition update_conn :: "u64 \<Rightarrow> (live_connection \<Rightarrow> live_connection) \<Rightarrow> monitor \<Rightarrow> monitor" where
  "update_conn cid f m =
     (case map_of (mn_conns m) cid of
        Some c \<Rightarrow> m\<lparr>mn_conns := AList.update cid (f c) (mn_conns m)\<rparr>
      | None \<Rightarrow> m)"

definition update_recent :: "u64 \<Rightarrow> (recent_request \<Rightarrow> recent_request) \<Rightarrow> monitor \<Rightarrow> monitor" where
  "update_recent cid f m = m\<lparr>mn_recent := update_first (\<lambda>r. rr_id r = cid) f (mn_recent m)\<rparr>"

definition record_conn_timings :: "u64 \<Rightarrow> u32 \<Rightarrow> u32 \<Rightarrow> u32 \<Rightarrow> u32 \<Rightarrow> monitor \<Rightarrow> monitor" where
  "record_conn_timings cid dns_ms connect_ms tls_ms ttfb_ms =
     update_recent cid (\<lambda>r.
       r\<lparr>rr_dns_ms := if 0 < dns_ms then dns_ms else rr_dns_ms r,
         rr_connect_ms := if 0 < connect_ms then connect_ms else rr_connect_ms r,
         rr_tls_ms := if 0 < tls_ms then tls_ms else rr_tls_ms r,
         rr_ttfb_ms := if 0 < ttfb_ms then ttfb_ms else rr_ttfb_ms r\<rparr>)"

definition update_conn_app :: "u64 \<Rightarrow> string \<Rightarrow> monitor \<Rightarrow> monitor" where
  "update_conn_app cid app m =
     update_recent cid (\<lambda>r. r\<lparr>rr_app := Some app\<rparr>) (update_conn cid (\<lambda>c. c\<lparr>lc_app := Some app\<rparr>) m)"

definition close_connection :: "u64 \<Rightarrow> monitor \<Rightarrow> bool \<times> monitor" where
  "close_connection cid m =
     (map_of (mn_conns m) cid \<noteq> None, update_conn cid (\<lambda>c. c\<lparr>lc_aborted := True\<rparr>) m)"

definition close_all_connections :: "monitor \<Rightarrow> nat \<times> monitor" where
  "close_all_connections m =
     (length (mn_conns m),
      m\<lparr>mn_conns := map (\<lambda>(i, c). (i, c\<lparr>lc_aborted := True\<rparr>)) (mn_conns m)\<rparr>)"

definition record_conn_close_with_duration ::
    "u64 \<Rightarrow> u64 \<Rightarrow> u64 \<Rightarrow> string \<Rightarrow> u64 \<Rightarrow> monitor \<Rightarrow> monitor" where
  "record_conn_close_with_duration cid up down status duration_ms m =
     update_recent cid (\<lambda>r. r\<lparr>rr_up := up, rr_down := down, rr_duration_ms := duration_ms, rr_status := status\<rparr>)
       (m\<lparr>mn_conns := AList.delete cid (mn_conns m)\<rparr>)"

definition record_conn_close :: "u64 \<Rightarrow> u64 \<Rightarrow> u64 \<Rightarrow> u64 \<Rightarrow> string \<Rightarrow> monitor \<Rightarrow> monitor" where
  "record_conn_close now cid up down status m =
     (let start_time = (case map_of (mn_conns m) cid of Some live \<Rightarrow> lc_start live | None \<Rightarrow> now)
      in record_conn_close_with_duration cid up down status (saturating_sub now start_time * 1000) m)"

text \<open>What \<open>get_connections_json\<close> prints of each connection: the record and its age.\<close>

definition connections_shown :: "u64 \<Rightarrow> monitor \<Rightarrow> (live_connection \<times> u64) list" where
  "connections_shown now m =
     map (\<lambda>c. (c, saturating_sub now (lc_start c)))
       (take 100 (rev (sort_key lc_id (rev (map snd (mn_conns m))))))"

definition recent_shown :: "monitor \<Rightarrow> recent_request list" where
  "recent_shown m = take 60 (mn_recent m)"

definition reset_session :: "monitor \<Rightarrow> monitor" where
  "reset_session m = m\<lparr>mn_conns := [], mn_recent := [], mn_tunnel_active := 0, mn_samples := []\<rparr>"

subsection \<open>The log is the latest lines\<close>

interpretation log_ring: drop_oldest log_cap ring_push
  by unfold_locales (auto simp: log_cap_def ring_push_def)

lemma write_lines: "mn_logs (fold write_line ls m) = fold ring_push ls (mn_logs m)"
  by (induction ls arbitrary: m) (simp_all add: write_line_def)

text \<open>Whatever is written, the in-memory log (\<open>MemoryWriter\<close>, monitor.rs) holds the latest
2000 lines since it was cleared, in order.\<close>
theorem log_keeps_latest:
  "mn_logs (fold write_line ls (clear_logs m)) = drop (length ls - 2000) ls"
  using log_ring.pushes_empty [of ls] by (simp add: write_lines clear_logs_def log_cap_def)

subsection \<open>Connections and requests\<close>

datatype monitor_op =
    Start u64 string string string string string "string option"
  | Timings u64 u32 u32 u32 u32
  | UpdateApp u64 string
  | Abort u64
  | AbortAll
  | Close u64 u64 u64 u64 string
  | CloseAfter u64 u64 u64 string u64
  | TunnelActive u64
  | Sampled nat
  | Logged string
  | ResetSession

fun monitor_step :: "monitor_op \<Rightarrow> monitor \<Rightarrow> monitor" where
  "monitor_step (Start now p t ip rule ob app) m = snd (record_conn_start now p t ip rule ob app m)"
| "monitor_step (Timings i d c t f) m = record_conn_timings i d c t f m"
| "monitor_step (UpdateApp i app) m = update_conn_app i app m"
| "monitor_step (Abort i) m = snd (close_connection i m)"
| "monitor_step AbortAll m = snd (close_all_connections m)"
| "monitor_step (Close now i up down st) m = record_conn_close now i up down st m"
| "monitor_step (CloseAfter i up down st ms) m = record_conn_close_with_duration i up down st ms m"
| "monitor_step (TunnelActive now) m = mark_tunnel_active now m"
| "monitor_step (Sampled now) m = snd (sample now m)"
| "monitor_step (Logged l) m = recent_logs_push l m"
| "monitor_step ResetSession m = reset_session m"

fun starts :: "monitor_op list \<Rightarrow> nat" where
  "starts [] = 0"
| "starts (Start now p t ip rule ob app # ops) = Suc (starts ops)"
| "starts (_ # ops) = starts ops"

text \<open>The numbers are below the next one; the requests are listed newest first.\<close>

definition monitor_inv :: "monitor \<Rightarrow> bool" where
  "monitor_inv m \<longleftrightarrow>
     distinct (map fst (mn_conns m))
     \<and> (\<forall>(i, c)\<in>set (mn_conns m). lc_id c = i \<and> i < mn_next_id m)
     \<and> length (mn_recent m) \<le> recent_requests_cap
     \<and> sorted_wrt (>) (map rr_id (mn_recent m))
     \<and> (\<forall>i\<in>set (map rr_id (mn_recent m)). i < mn_next_id m)"

definition numbers_below :: "u64 \<Rightarrow> monitor \<Rightarrow> bool" where
  "numbers_below n m \<longleftrightarrow>
     n \<le> mn_next_id m \<and> (\<forall>(i, c)\<in>set (mn_conns m). n \<le> i) \<and> (\<forall>i\<in>set (map rr_id (mn_recent m)). n \<le> i)"

lemma update_first_length [simp]: "length (update_first P f xs) = length xs"
  by (induction xs) auto

lemma update_first_ids:
  "(\<And>r. g (f r) = g r) \<Longrightarrow> map g (update_first P f xs) = map g xs"
  by (induction xs) auto

lemma update_first_absent: "\<forall>x\<in>set xs. \<not> P x \<Longrightarrow> update_first P f xs = xs"
  by (induction xs) auto

lemma update_recent_inv:
  assumes "monitor_inv m" "\<And>r. rr_id (f r) = rr_id r"
  shows "monitor_inv (update_recent i f m)"
proof -
  have ids: "map rr_id (mn_recent (update_recent i f m)) = map rr_id (mn_recent m)"
    using update_first_ids [of rr_id f, OF assms(2)] by (simp add: update_recent_def)
  moreover have "mn_conns (update_recent i f m) = mn_conns m" "mn_next_id (update_recent i f m) = mn_next_id m"
    "length (mn_recent (update_recent i f m)) = length (mn_recent m)"
    by (simp_all add: update_recent_def)
  ultimately show ?thesis using assms(1) unfolding monitor_inv_def by (simp del: set_map)
qed

lemma set_updateD: "x \<in> set (AList.update k v al) \<Longrightarrow> x = (k, v) \<or> x \<in> set al"
  by (induction al) (auto split: if_splits)

lemma update_conn_inv:
  assumes "monitor_inv m" "\<And>c. lc_id (f c) = lc_id c"
  shows "monitor_inv (update_conn i f m)"
proof (cases "map_of (mn_conns m) i")
  case (Some c)
  with assms(1) have "lc_id c = i" "i < mn_next_id m"
    by (auto simp: monitor_inv_def dest!: map_of_SomeD)
  with assms Some show ?thesis
    by (auto simp: update_conn_def monitor_inv_def distinct_update dest!: set_updateD)
qed (use assms in \<open>simp add: update_conn_def\<close>)

lemma delete_subset: "set (AList.delete k al) \<subseteq> set al"
  by (auto simp: AList.delete_eq)

lemma delete_conn_inv: "monitor_inv m \<Longrightarrow> monitor_inv (m\<lparr>mn_conns := AList.delete i (mn_conns m)\<rparr>)"
  using set_mp [of "set (AList.delete i (mn_conns m))" "set (mn_conns m)"]
  by (auto simp: monitor_inv_def distinct_delete delete_subset)

lemma start_inv:
  assumes "monitor_inv m" "unat (mn_next_id m) + 1 < 2 ^ 64"
  shows "monitor_inv (snd (record_conn_start now p t ip rule ob app m))"
proof -
  have nx: "mn_next_id m < mn_next_id m + 1"
    using assms(2) by (simp add: word_less_nat_alt unat_word_ariths)
  have up: "x < mn_next_id m + 1" if "x < mn_next_id m" for x using that nx by (rule less_trans)
  define q where "q = (if recent_requests_cap \<le> length (mn_recent m) then butlast (mn_recent m) else mn_recent m)"
  have q: "length q < recent_requests_cap" "sorted_wrt (>) (map rr_id q)" "\<forall>r\<in>set q. rr_id r < mn_next_id m"
    using assms(1)
    by (auto simp: q_def monitor_inv_def recent_requests_cap_def butlast_conv_take sorted_wrt_take
        simp flip: take_map dest: in_set_takeD)
  show ?thesis
    using assms(1) q nx up
    by (auto simp: record_conn_start_def Let_def monitor_inv_def distinct_update q_def [symmetric] dest!: set_updateD)
qed

lemma monitor_step_inv:
  assumes "monitor_inv m" "unat (mn_next_id m) + starts [op] < 2 ^ 64"
  shows "monitor_inv (monitor_step op m) \<and> unat (mn_next_id (monitor_step op m)) = unat (mn_next_id m) + starts [op]"
proof (cases op)
  case (Start now p t ip rule ob app)
  then show ?thesis using start_inv [OF assms(1)] assms(2)
    by (simp add: record_conn_start_def Let_def unat_word_ariths)
next
  case (Timings i d c t f)
  then show ?thesis using update_recent_inv [OF assms(1)]
    by (simp add: record_conn_timings_def) (simp add: update_recent_def)
next
  case (UpdateApp i app)
  have "monitor_inv (update_conn i (\<lambda>c. c\<lparr>lc_app := Some app\<rparr>) m)" by (rule update_conn_inv [OF assms(1)]) simp
  then have "monitor_inv (update_conn_app i app m)" unfolding update_conn_app_def by (rule update_recent_inv) simp
  then show ?thesis by (simp add: UpdateApp) (simp add: update_conn_app_def update_recent_def update_conn_def split: option.splits)
next
  case (Abort i)
  have "monitor_inv (update_conn i (\<lambda>c. c\<lparr>lc_aborted := True\<rparr>) m)" by (rule update_conn_inv [OF assms(1)]) simp
  then show ?thesis by (simp add: Abort close_connection_def) (simp add: update_conn_def split: option.splits)
next
  case AbortAll
  then show ?thesis using assms(1)
    by (auto simp: close_all_connections_def monitor_inv_def comp_def case_prod_beta)
next
  case (Close now i up down st)
  have "monitor_inv (m\<lparr>mn_conns := AList.delete i (mn_conns m)\<rparr>)" by (rule delete_conn_inv [OF assms(1)])
  then show ?thesis using update_recent_inv
    by (simp add: Close record_conn_close_def record_conn_close_with_duration_def) (simp add: update_recent_def)
next
  case (CloseAfter i up down st ms)
  have "monitor_inv (m\<lparr>mn_conns := AList.delete i (mn_conns m)\<rparr>)" by (rule delete_conn_inv [OF assms(1)])
  then show ?thesis using update_recent_inv
    by (simp add: CloseAfter record_conn_close_with_duration_def) (simp add: update_recent_def)
qed (use assms(1) in \<open>auto simp: monitor_inv_def mark_tunnel_active_def sample_def Let_def recent_logs_push_def
  write_line_def reset_session_def recent_requests_cap_def split: prod.splits\<close>)

lemma monitor_run_inv:
  assumes "monitor_inv m" "unat (mn_next_id m) + starts ops < 2 ^ 64"
  shows "monitor_inv (fold monitor_step ops m) \<and> unat (mn_next_id (fold monitor_step ops m)) = unat (mn_next_id m) + starts ops"
  using assms
proof (induction ops arbitrary: m)
  case (Cons op ops)
  have s: "starts (op # ops) = starts [op] + starts ops" by (cases op) simp_all
  from monitor_step_inv [OF Cons.prems(1), of op] Cons.prems(2) Cons.IH [of "monitor_step op m"] s
  show ?case by simp
qed simp

lemma monitor_init_inv: "monitor_inv monitor_init"
  by (simp add: monitor_inv_def monitor_init_def)

text \<open>Over every run with fewer than 2^64 connections, the live table (monitor.rs) holds each
connection once under its own number, and the recent requests are at most 300, strictly newest
first.\<close>
theorem monitor_run_keeps:
  assumes "starts ops < 2 ^ 64 - 1"
  shows "monitor_inv (fold monitor_step ops monitor_init)"
  using monitor_run_inv [OF monitor_init_inv, of ops] assms by (simp add: monitor_init_def)

theorem monitor_run_keeps_witness:
  "monitor_inv (fold monitor_step [Start 5 ''TCP'' ''a:1'' ''1.1.1.1'' ''MATCH'' ''PROXY'' None, Close 9 1 3 4 ''done''] monitor_init)"
  by (rule monitor_run_keeps) simp

subsection \<open>Sessions\<close>
lemma numbers_below_update_recent:
  assumes "numbers_below n m" "\<And>r. rr_id (f r) = rr_id r"
  shows "numbers_below n (update_recent i f m)"
  using assms update_first_ids [of rr_id f, OF assms(2)]
  unfolding numbers_below_def update_recent_def by (simp del: set_map)

lemma numbers_below_update_conn:
  assumes "numbers_below n m" shows "numbers_below n (update_conn i f m)"
  using assms
  by (auto simp: numbers_below_def update_conn_def dest!: set_updateD split: option.splits dest: map_of_SomeD)

lemma numbers_below_delete: "numbers_below n m \<Longrightarrow> numbers_below n (m\<lparr>mn_conns := AList.delete i (mn_conns m)\<rparr>)"
  by (auto simp: numbers_below_def AList.delete_eq)

lemma numbers_below_step:
  assumes "numbers_below n m" "unat (mn_next_id m) + starts [op] < 2 ^ 64"
  shows "numbers_below n (monitor_step op m)"
proof (cases op)
  case (Start now p t ip rule ob app)
  have "mn_next_id m \<le> mn_next_id m + 1"
    using assms(2) Start by (simp add: word_le_nat_alt unat_word_ariths)
  with assms(1) have le: "n \<le> mn_next_id m" "n \<le> mn_next_id m + 1"
    by (auto simp: numbers_below_def intro: order_trans)
  with assms(1) show ?thesis
    by (auto simp: Start numbers_below_def record_conn_start_def Let_def dest!: set_updateD dest: in_set_butlastD)
next
  case (Timings i d c t f)
  then show ?thesis using numbers_below_update_recent [OF assms(1)] by (simp add: record_conn_timings_def)
next
  case (UpdateApp i app)
  then show ?thesis
    using numbers_below_update_recent [OF numbers_below_update_conn [OF assms(1)]] by (simp add: update_conn_app_def)
next
  case (Abort i)
  then show ?thesis using numbers_below_update_conn [OF assms(1)] by (simp add: close_connection_def)
next
  case (Close now i up down st)
  then show ?thesis using numbers_below_update_recent [OF numbers_below_delete [OF assms(1)]]
    by (simp add: record_conn_close_def record_conn_close_with_duration_def)
next
  case (CloseAfter i up down st ms)
  then show ?thesis using numbers_below_update_recent [OF numbers_below_delete [OF assms(1)]]
    by (simp add: record_conn_close_with_duration_def)
qed (use assms(1) in \<open>auto simp: numbers_below_def mark_tunnel_active_def sample_def Let_def recent_logs_push_def
  close_all_connections_def write_line_def reset_session_def split: prod.splits\<close>)

lemma next_id_step:
  assumes "unat (mn_next_id m) + starts [op] < 2 ^ 64"
  shows "unat (mn_next_id (monitor_step op m)) = unat (mn_next_id m) + starts [op]"
  using assms
  by (cases op) (auto simp: record_conn_start_def record_conn_timings_def update_conn_app_def update_recent_def
      update_conn_def close_connection_def close_all_connections_def record_conn_close_def
      record_conn_close_with_duration_def mark_tunnel_active_def sample_def Let_def recent_logs_push_def
      write_line_def reset_session_def unat_word_ariths split: prod.splits option.splits)

lemma numbers_below_run:
  assumes "numbers_below n m" "unat (mn_next_id m) + starts ops < 2 ^ 64"
  shows "numbers_below n (fold monitor_step ops m)"
  using assms
proof (induction ops arbitrary: m)
  case (Cons op ops)
  have s: "starts (op # ops) = starts [op] + starts ops" by (cases op) simp_all
  from numbers_below_step [OF Cons.prems(1), of op] next_id_step [of m op] Cons.prems(2)
    Cons.IH [of "monitor_step op m"] s
  show ?case by simp
qed simp

text \<open>A connection of an earlier session that ends late changes nothing in the present one
(\<open>reset_session\<close> and \<open>record_conn_close\<close>, monitor.rs): the numbers go on over a reset, so its close
finds neither a live connection nor a request of that number, whatever has been recorded since.\<close>
theorem late_close_harmless:
  assumes "i < mn_next_id m" "unat (mn_next_id m) + starts ops < 2 ^ 64"
  shows "record_conn_close now i up down status (fold monitor_step ops (reset_session m))
    = fold monitor_step ops (reset_session m)"
proof -
  define m' where "m' = fold monitor_step ops (reset_session m)"
  have "numbers_below (mn_next_id m) m'"
    unfolding m'_def by (rule numbers_below_run) (use assms(2) in \<open>simp_all add: numbers_below_def reset_session_def\<close>)
  then have "i \<notin> fst ` set (mn_conns m')" "\<forall>r\<in>set (mn_recent m'). \<not> rr_id r = i"
    using assms(1) by (fastforce simp: numbers_below_def)+
  then have "AList.delete i (mn_conns m') = mn_conns m'"
    "update_first (\<lambda>r. rr_id r = i) f (mn_recent m') = mn_recent m'" for f
    by (simp_all add: delete_id update_first_absent)
  then show ?thesis
    unfolding m'_def [symmetric]
    by (simp add: record_conn_close_def Let_def record_conn_close_with_duration_def update_recent_def)
qed

theorem late_close_harmless_witness:
  "record_conn_close 9 1 3 4 ''done''
     (fold monitor_step [Start 8 ''UDP'' ''b:2'' ''2.2.2.2'' ''MATCH'' ''DIRECT'' None]
       (reset_session (snd (record_conn_start 5 ''TCP'' ''a:1'' ''1.1.1.1'' ''MATCH'' ''PROXY'' None monitor_init))))
   = fold monitor_step [Start 8 ''UDP'' ''b:2'' ''2.2.2.2'' ''MATCH'' ''DIRECT'' None]
       (reset_session (snd (record_conn_start 5 ''TCP'' ''a:1'' ''1.1.1.1'' ''MATCH'' ''PROXY'' None monitor_init)))"
  by (rule late_close_harmless) (simp_all add: record_conn_start_def monitor_init_def Let_def)

subsection \<open>Stalled tunnels\<close>

text \<open>The labels that the data plane records (tcp.rs, udp.rs, dns.rs).\<close>

definition dataplane_labels :: "string list" where
  "dataplane_labels = [''PROXY'', ''DIRECT'', ''BLOCK'', ''Fake-IP'']"

fun dataplane_op :: "monitor_op \<Rightarrow> bool" where
  "dataplane_op (Start now p t ip rule ob app) = (ob \<in> set dataplane_labels)"
| "dataplane_op _ = True"

definition labels_ok :: "monitor \<Rightarrow> bool" where
  "labels_ok m \<longleftrightarrow> (\<forall>(i, c)\<in>set (mn_conns m). lc_outbound c \<in> set dataplane_labels)"

lemma labels_ok_update_conn:
  "labels_ok m \<Longrightarrow> (\<And>c. lc_outbound (f c) = lc_outbound c) \<Longrightarrow> labels_ok (update_conn i f m)"
  using map_of_SomeD [of "mn_conns m" i]
  by (fastforce simp: labels_ok_def update_conn_def dest!: set_updateD split: option.splits)

lemma labels_ok_step:
  assumes "labels_ok m" "dataplane_op op" shows "labels_ok (monitor_step op m)"
proof (cases op)
  case (UpdateApp i app)
  have "labels_ok (update_conn i (\<lambda>c. c\<lparr>lc_app := Some app\<rparr>) m)" by (rule labels_ok_update_conn [OF assms(1)]) simp
  then show ?thesis by (simp add: UpdateApp update_conn_app_def update_recent_def labels_ok_def)
next
  case (Abort i)
  have "labels_ok (update_conn i (\<lambda>c. c\<lparr>lc_aborted := True\<rparr>) m)" by (rule labels_ok_update_conn [OF assms(1)]) simp
  then show ?thesis by (simp add: Abort close_connection_def)
qed (use assms in \<open>auto simp: labels_ok_def record_conn_start_def record_conn_timings_def update_recent_def
      close_all_connections_def record_conn_close_def AList.delete_eq
      record_conn_close_with_duration_def mark_tunnel_active_def sample_def Let_def recent_logs_push_def
      write_line_def reset_session_def dest!: set_updateD split: prod.splits\<close>)

lemma labels_ok_run: "labels_ok m \<Longrightarrow> list_all dataplane_op ops \<Longrightarrow> labels_ok (fold monitor_step ops m)"
  by (induction ops arbitrary: m) (simp_all add: labels_ok_step)

lemma no_proxy_label: "ob \<in> set dataplane_labels \<Longrightarrow> \<not> contains_str proxy_label ob"
proof -
  have "\<forall>ob\<in>set dataplane_labels. \<not> contains_str proxy_label ob" by code_simp
  then show "ob \<in> set dataplane_labels \<Longrightarrow> \<not> contains_str proxy_label ob" by blast
qed

lemma no_tunnels_counted:
  assumes "list_all dataplane_op ops"
  shows "tunnel_conn_count (fold monitor_step ops monitor_init) = 0"
proof -
  have "labels_ok monitor_init" by (simp add: labels_ok_def monitor_init_def)
  from labels_ok_run [OF this assms] show ?thesis
    by (auto simp: tunnel_conn_count_def labels_ok_def filter_empty_conv no_proxy_label)
qed

end
