(* ===== verification/Outbound.thy ===== *)
theory Outbound
  imports NetTypes Pool "HOL-Library.AList"
begin

text \<open>\<open>proxy/outbound.rs\<close>, the outbounds of \<open>config.rs\<close> and \<open>net_util.rs\<close>: building the outbound
table from its configuration, and choosing the leaf of a group. A node is shared between the
groups that name it; what it owns and changes (its pool, its counters, its current choice) is
kept in a state under the node's number.\<close>

subsection \<open>Configuration\<close>

record mirage_settings =
  ms_server :: string
  ms_server_port :: u16
  ms_password :: string
  ms_camouflage_host :: string
  ms_pool_size :: nat
  ms_brutal_rate_mbps :: "u64 option"
  ms_brutal_base_rtt_ms :: "u64 option"
  ms_pfs :: bool
  ms_udp_mux :: bool
  ms_udp_mux_tunnels :: nat

datatype outbound_config =
    MirageCfg string mirage_settings "string option"
  | DirectCfg string
  | BlockCfg string
  | SelectorCfg string "string list"
  | UrltestCfg string "string list" u64 u64 string string
  | FallbackCfg string "string list" u64 string
  | LoadBalanceCfg string "string list" string u64

definition single_mirage_config ::
    "string \<Rightarrow> string \<Rightarrow> u16 \<Rightarrow> string \<Rightarrow> string \<Rightarrow> nat \<Rightarrow> bool \<Rightarrow> bool \<Rightarrow> outbound_config list" where
  "single_mirage_config tag server server_port password camouflage_host pool_size pfs udp_mux =
     [MirageCfg tag \<lparr>ms_server = server, ms_server_port = server_port, ms_password = password,
        ms_camouflage_host = camouflage_host, ms_pool_size = pool_size, ms_brutal_rate_mbps = None,
        ms_brutal_base_rtt_ms = None, ms_pfs = pfs, ms_udp_mux = udp_mux, ms_udp_mux_tunnels = 4\<rparr> None,
      DirectCfg ''direct'',
      BlockCfg ''block'']"

subsection \<open>Nodes\<close>

datatype outbound_node =
    Mirage nat string mirage_settings "outbound_node option"
  | Direct string
  | Block string
  | Urltest nat string "outbound_node list" u64 string
  | Fallback string "outbound_node list"
  | Selector nat string "outbound_node list"
  | LoadBalance nat string "outbound_node list"

fun node_tag :: "outbound_node \<Rightarrow> string" where
  "node_tag (Mirage i tag cfg u) = tag"
| "node_tag (Direct tag) = tag"
| "node_tag (Block tag) = tag"
| "node_tag (Urltest i tag cs tol tt) = tag"
| "node_tag (Fallback tag cs) = tag"
| "node_tag (Selector i tag cs) = tag"
| "node_tag (LoadBalance i tag cs) = tag"

fun children :: "outbound_node \<Rightarrow> outbound_node list" where
  "children (Urltest i tag cs tol tt) = cs"
| "children (Fallback tag cs) = cs"
| "children (Selector i tag cs) = cs"
| "children (LoadBalance i tag cs) = cs"
| "children _ = []"

text \<open>The state of the nodes: pools, measured round-trip times, the child a group has settled
on (by its position), the round-robin counters.\<close>

record ob_state =
  ob_pools :: "nat \<Rightarrow> warm_pool"
  ob_rtt :: "nat \<Rightarrow> u64"
  ob_current :: "nat \<Rightarrow> nat option"
  ob_next :: "nat \<Rightarrow> u64"

fun is_healthy :: "ob_state \<Rightarrow> outbound_node \<Rightarrow> bool" where
  "is_healthy s (Mirage i tag cfg u) = stats_healthy (wp_stats (ob_pools s i))"
| "is_healthy s (Direct tag) = True"
| "is_healthy s (Block tag) = True"
| "is_healthy s (Urltest i tag cs tol tt) = list_ex (is_healthy s) cs"
| "is_healthy s (Fallback tag cs) = list_ex (is_healthy s) cs"
| "is_healthy s (Selector i tag cs) = list_ex (is_healthy s) cs"
| "is_healthy s (LoadBalance i tag cs) = list_ex (is_healthy s) cs"

definition pool_do :: "(nat \<Rightarrow> warm_pool \<Rightarrow> warm_pool) \<Rightarrow> nat \<Rightarrow> ob_state \<Rightarrow> ob_state" where
  "pool_do f i s = s\<lparr>ob_pools := (ob_pools s)(i := f i (ob_pools s i))\<rparr>"

text \<open>\<open>set_pool_size\<close>, \<open>purge_idle\<close> and \<open>shutdown\<close> walk the tree; \<open>f\<close> is what they do to a pool.
\<open>locked i\<close>: the queue of pool \<open>i\<close> is locked by another task, so that \<open>try_lock\<close> fails.\<close>

fun node_pools :: "(nat \<Rightarrow> warm_pool \<Rightarrow> warm_pool) \<Rightarrow> outbound_node \<Rightarrow> ob_state \<Rightarrow> ob_state" where
  "node_pools f (Mirage i tag cfg u) s = pool_do f i s"
| "node_pools f (Urltest i tag cs tol tt) s = fold (node_pools f) cs s"
| "node_pools f (Fallback tag cs) s = fold (node_pools f) cs s"
| "node_pools f (Selector i tag cs) s = fold (node_pools f) cs s"
| "node_pools f (LoadBalance i tag cs) s = fold (node_pools f) cs s"
| "node_pools f _ s = s"

definition node_set_pool_size :: "nat \<Rightarrow> outbound_node \<Rightarrow> ob_state \<Rightarrow> ob_state" where
  "node_set_pool_size new_size = node_pools (\<lambda>_. set_pool_size new_size)"

definition node_purge_idle :: "(nat \<Rightarrow> bool) \<Rightarrow> outbound_node \<Rightarrow> ob_state \<Rightarrow> ob_state" where
  "node_purge_idle locked = node_pools (\<lambda>i. purge_idle (locked i))"

definition node_shutdown :: "(nat \<Rightarrow> bool) \<Rightarrow> outbound_node \<Rightarrow> ob_state \<Rightarrow> ob_state" where
  "node_shutdown locked = node_pools (\<lambda>i. pool_shutdown (locked i))"

subsection \<open>Choosing a leaf\<close>

definition current_child :: "ob_state \<Rightarrow> nat \<Rightarrow> outbound_node list \<Rightarrow> outbound_node option" where
  "current_child s i cs =
     (case ob_current s i of Some k \<Rightarrow> if k < length cs then Some (cs ! k) else None | None \<Rightarrow> None)"

definition healthy_children :: "ob_state \<Rightarrow> outbound_node list \<Rightarrow> (nat \<times> outbound_node) list" where
  "healthy_children s cs = filter (\<lambda>(k, c). is_healthy s c) (enumerate 0 cs)"

text \<open>\<open>min_by_key\<close>: the first of the least.\<close>

fun first_min :: "('a \<times> u64) \<Rightarrow> ('a \<times> u64) list \<Rightarrow> 'a \<times> u64" where
  "first_min b [] = b"
| "first_min b (x # xs) = first_min (if snd x < snd b then x else b) xs"

text \<open>The round-trip time of a Mirage node, if measured.\<close>

definition measured_rtt :: "ob_state \<Rightarrow> nat \<Rightarrow> u64 option" where
  "measured_rtt s i = (let rtt = ob_rtt s i in if 0 < rtt \<and> rtt \<noteq> - 1 then Some rtt else None)"

lemma children_size:
  "c \<in> set cs \<Longrightarrow> size c < Suc (size_list size cs)" for cs :: "outbound_node list"
  by (simp add: less_Suc_eq_le size_list_estimation')

lemma healthy_children_size:
  "sum_list (map (\<lambda>(k, c). Suc (size c)) (healthy_children s cs)) \<le> size_list size cs"
proof -
  have "sum_list (map (\<lambda>(k, c). Suc (size c)) (filter P (enumerate n cs))) \<le> size_list size cs" for P n
    by (induction cs arbitrary: n) (auto intro: le_SucI trans_le_add2)
  then show ?thesis by (simp add: healthy_children_def)
qed

lemma healthy_childrenD: "(k, c) \<in> set (healthy_children s cs) \<Longrightarrow> k < length cs \<and> c = cs ! k \<and> is_healthy s c"
  by (auto simp: healthy_children_def in_set_enumerate_eq)

lemma current_child_in: "current_child s i cs = Some c \<Longrightarrow> c \<in> set cs"
  by (auto simp: current_child_def split: option.splits if_splits)
definition some_latencies :: "'a list \<Rightarrow> u64 option list \<Rightarrow> ('a \<times> u64) list" where
  "some_latencies cs ls = List.map_filter (\<lambda>(c, l). map_option (Pair c) l) (zip cs ls)"

text \<open>\<open>urltest_choice\<close> is what follows the measurements: stay with the current child or switch.\<close>

definition urltest_choice :: "nat \<Rightarrow> outbound_node list \<Rightarrow> u64 \<Rightarrow> (nat \<times> outbound_node) list
    \<Rightarrow> ((nat \<times> outbound_node) \<times> u64) list \<Rightarrow> u64 option \<Rightarrow> ob_state \<Rightarrow> outbound_node \<times> ob_state" where
  "urltest_choice i cs tolerance_ms candidates with_lat cur_lat s =
     (let switch = (\<lambda>(k, c). (c, s\<lparr>ob_current := (ob_current s)(i := Some k)\<rparr>))
      in case with_lat of
           [] \<Rightarrow>
             (case current_child s i cs of
                Some c \<Rightarrow> if is_healthy s c then (c, s) else switch (hd candidates)
              | None \<Rightarrow> switch (hd candidates))
         | b # bs \<Rightarrow>
             let best = first_min b bs
             in case current_child s i cs of
                  Some cur \<Rightarrow>
                    (case cur_lat of
                       Some lat \<Rightarrow> if lat \<le> snd best + tolerance_ms then (cur, s) else switch (fst best)
                     | None \<Rightarrow> switch (fst best))
                | None \<Rightarrow> switch (fst best))"

definition fallback_choice :: "outbound_node list \<Rightarrow> ob_state \<Rightarrow> outbound_node option" where
  "fallback_choice cs s =
     (case find (is_healthy s) cs of
        Some c \<Rightarrow> Some c
      | None \<Rightarrow> (case cs of c # _ \<Rightarrow> Some c | [] \<Rightarrow> None))"

definition selector_choice :: "nat \<Rightarrow> outbound_node list \<Rightarrow> ob_state \<Rightarrow> outbound_node option" where
  "selector_choice i cs s =
     (case current_child s i cs of
        Some c \<Rightarrow> Some c
      | None \<Rightarrow> (case cs of c # _ \<Rightarrow> Some c | [] \<Rightarrow> None))"

definition balance_choice :: "nat \<Rightarrow> outbound_node list \<Rightarrow> ob_state \<Rightarrow> (outbound_node \<times> ob_state) option" where
  "balance_choice i cs s =
     (case healthy_children s cs of
        [] \<Rightarrow> (case cs of c # _ \<Rightarrow> Some (c, s) | [] \<Rightarrow> None)
      | healthy \<Rightarrow>
          Some (snd (healthy ! (unat (ob_next s i) mod length healthy)),
                s\<lparr>ob_next := (ob_next s)(i := ob_next s i + 1)\<rparr>))"

subsection \<open>A choice is a child\<close>

lemma first_min_in: "first_min b bs \<in> set (b # bs)"
  by (induction b bs rule: first_min.induct) auto

lemma some_latencies_in: "p \<in> set (some_latencies cs ls) \<Longrightarrow> fst p \<in> set cs"
  by (auto simp: some_latencies_def map_filter_def dest: set_zip_leftD)

lemma urltest_choice_child:
  assumes "healthy_children s0 cs \<noteq> []"
    and "urltest_choice i cs tol (healthy_children s0 cs) (some_latencies (healthy_children s0 cs) ls) l s = (c, t)"
  shows "c \<in> set cs"
proof -
  have mem: "snd p \<in> set cs" if "p \<in> set (healthy_children s0 cs)" for p
    using that healthy_childrenD [of "fst p" "snd p" s0 cs] by auto
  have best: "snd (fst (first_min b bs)) \<in> set cs" if "some_latencies (healthy_children s0 cs) ls = b # bs" for b bs
    using some_latencies_in [of "first_min b bs" "healthy_children s0 cs" ls] first_min_in [of b bs]
    by (intro mem) (simp add: that)
  have "snd (hd (healthy_children s0 cs)) \<in> set cs" using assms(1) by (intro mem) simp
  with assms(2) best show ?thesis
    by (auto simp: urltest_choice_def Let_def split: list.splits option.splits if_splits prod.splits
        dest!: current_child_in)
qed

lemma fallback_choice_child: "fallback_choice cs s = Some c \<Longrightarrow> c \<in> set cs"
  by (auto simp: fallback_choice_def find_Some_iff split: option.splits list.splits)

lemma selector_choice_child: "selector_choice i cs s = Some c \<Longrightarrow> c \<in> set cs"
  by (auto simp: selector_choice_def dest: current_child_in split: option.splits list.splits)

lemma balance_choice_child:
  assumes "balance_choice i cs s = Some (c, t)" shows "c \<in> set cs"
proof (cases "healthy_children s cs")
  case Nil
  with assms show ?thesis by (auto simp: balance_choice_def split: list.splits)
next
  case (Cons h hs)
  define k where "k = unat (ob_next s i) mod length (h # hs)"
  have "(h # hs) ! k \<in> set (healthy_children s cs)" unfolding Cons by (rule nth_mem) (simp add: k_def)
  moreover have "c = snd ((h # hs) ! k)" using assms by (simp add: balance_choice_def Cons k_def)
  ultimately show ?thesis
    using healthy_childrenD [of "fst ((h # hs) ! k)" c s cs] by (auto simp: surjective_pairing)
qed

subsection \<open>The descent to a leaf\<close>

text \<open>\<open>latency_of True\<close> is \<open>latency_rtt_ms\<close>, \<open>latency_of False\<close> is \<open>latency_http_ms\<close>. Asking a group
for its latency resolves the group, and so moves its counters and its choice.\<close>

function (sequential)
    resolve_leaf :: "outbound_node \<Rightarrow> ob_state \<Rightarrow> outbound_node \<times> ob_state"
  and latency_of :: "bool \<Rightarrow> outbound_node \<Rightarrow> ob_state \<Rightarrow> u64 option \<times> ob_state"
  and node_latency_ms :: "string \<Rightarrow> outbound_node \<Rightarrow> ob_state \<Rightarrow> u64 option \<times> ob_state"
  and latencies_ms :: "string \<Rightarrow> outbound_node list \<Rightarrow> ob_state \<Rightarrow> u64 option list \<times> ob_state" where
  "resolve_leaf (Urltest i tag cs tolerance_ms test_type) s =
     (let candidates = healthy_children s cs
      in if candidates = [] then (Urltest i tag cs tolerance_ms test_type, s)
         else
           case latencies_ms test_type (map snd candidates) s of
             (ls, s1) \<Rightarrow>
               (let with_lat = some_latencies candidates ls
                in case (case (with_lat, current_child s1 i cs) of
                           (_ # _, Some cur) \<Rightarrow> node_latency_ms test_type cur s1
                         | _ \<Rightarrow> (None, s1)) of
                     (cur_lat, s2) \<Rightarrow>
                       (case urltest_choice i cs tolerance_ms candidates with_lat cur_lat s2 of
                          (c, s3) \<Rightarrow> resolve_leaf c s3)))"
| "resolve_leaf (Fallback tag cs) s =
     (case fallback_choice cs s of
        Some c \<Rightarrow> resolve_leaf c s
      | None \<Rightarrow> (Fallback tag cs, s))"
| "resolve_leaf (Selector i tag cs) s =
     (case selector_choice i cs s of
        Some c \<Rightarrow> resolve_leaf c s
      | None \<Rightarrow> (Selector i tag cs, s))"
| "resolve_leaf (LoadBalance i tag cs) s =
     (case balance_choice i cs s of
        Some (c, s1) \<Rightarrow> resolve_leaf c s1
      | None \<Rightarrow> (LoadBalance i tag cs, s))"
| "resolve_leaf n s = (n, s)"
| "latency_of rtt (Mirage i tag cfg u) s =
     ((if rtt then measured_rtt s i else latency_ms (wp_stats (ob_pools s i))), s)"
| "latency_of rtt (Direct tag) s = (None, s)"
| "latency_of rtt (Block tag) s = (None, s)"
| "latency_of rtt n s =
     (case resolve_leaf n s of
        (leaf, s1) \<Rightarrow> if leaf = n then (None, s1) else latency_of rtt leaf s1)"
| "node_latency_ms test_type n s =
     (if test_type = ''rtt'' then
        case latency_of True n s of
          (Some l, s1) \<Rightarrow> (Some l, s1)
        | (None, s1) \<Rightarrow> latency_of False n s1
      else latency_of False n s)"
| "latencies_ms test_type [] s = ([], s)"
| "latencies_ms test_type (c # cs) s =
     (case node_latency_ms test_type c s of
        (l, s1) \<Rightarrow> (case latencies_ms test_type cs s1 of (ls, s2) \<Rightarrow> (l # ls, s2)))"
  by pat_completeness auto

lemma resolved_child_smaller:
  fixes leaf c :: outbound_node
  assumes "leaf = c \<or> size leaf < size c" "c \<in> set cs"
  shows "size leaf < Suc (size_list size cs)"
  using assms children_size [of c cs] by auto

lemmas resolve_psimps =
  resolve_leaf.psimps latency_of.psimps node_latency_ms.psimps latencies_ms.psimps

abbreviation resolve_dom where
  "resolve_dom \<equiv> resolve_leaf_latency_of_node_latency_ms_latencies_ms_dom"

lemma leaf_smaller_aux:
  "resolve_dom (Inl (Inl (n, s))) \<Longrightarrow>
     fst (resolve_leaf n s) = n \<or> size (fst (resolve_leaf n s)) < size n"
  "resolve_dom (Inl (Inr (rtt, n, s))) \<Longrightarrow> True"
  "resolve_dom (Inr (Inl (tt, n, s))) \<Longrightarrow> True"
  "resolve_dom (Inr (Inr (tt, cs, s))) \<Longrightarrow> True"
proof (induction rule: resolve_leaf_latency_of_node_latency_ms_latencies_ms.pinduct)
  case (1 i tag cs tol tt s)
  show ?case
  proof (cases "healthy_children s cs = []")
    case True
    with "1.hyps" show ?thesis by (simp add: resolve_leaf.psimps)
  next
    case False
    obtain ls s1 where ls: "latencies_ms tt (map snd (healthy_children s cs)) s = (ls, s1)" by fastforce
    define with_lat where "with_lat = some_latencies (healthy_children s cs) ls"
    obtain l s2 where l: "(case with_lat of [] \<Rightarrow> (None, s1)
        | _ # _ \<Rightarrow> (case current_child s1 i cs of None \<Rightarrow> (None, s1) | Some cur \<Rightarrow> node_latency_ms tt cur s1)) = (l, s2)" by fastforce
    obtain c s3 where c: "urltest_choice i cs tol (healthy_children s cs) with_lat l s2 = (c, s3)" by fastforce
    have eq: "resolve_leaf (Urltest i tag cs tol tt) s = resolve_leaf c s3"
      using False ls l c "1.hyps" by (simp add: resolve_leaf.psimps with_lat_def Let_def)
    have "fst (resolve_leaf c s3) = c \<or> size (fst (resolve_leaf c s3)) < size c"
      by (rule "1.IH"(3) [OF refl False ls [symmetric] with_lat_def l [symmetric] c [symmetric]])
    from resolved_child_smaller [OF this urltest_choice_child [OF False c [unfolded with_lat_def]]]
    show ?thesis by (simp add: eq)
  qed
next
  case (2 tag cs s)
  then show ?case
    by (cases "fallback_choice cs s")
      (auto simp: resolve_leaf.psimps dest!: children_size fallback_choice_child)
next
  case (3 i tag cs s)
  then show ?case
    by (cases "selector_choice i cs s")
      (auto simp: resolve_leaf.psimps dest!: children_size selector_choice_child)
next
  case (4 i tag cs s)
  show ?case
  proof (cases "balance_choice i cs s")
    case None
    with "4.hyps" show ?thesis by (simp add: resolve_leaf.psimps)
  next
    case (Some p)
    obtain c t where p: "p = (c, t)" by fastforce
    from resolved_child_smaller [OF "4.IH" [OF Some p [symmetric]] balance_choice_child [OF Some [unfolded p]]]
    show ?thesis using "4.hyps" by (simp add: resolve_leaf.psimps Some p)
  qed
qed (auto simp: resolve_leaf.psimps)


definition resolve_measure ::
    "((outbound_node \<times> ob_state) + (bool \<times> outbound_node \<times> ob_state))
     + ((string \<times> outbound_node \<times> ob_state) + (string \<times> outbound_node list \<times> ob_state)) \<Rightarrow> nat \<times> nat" where
  "resolve_measure x =
     (case x of
        Inl (Inl (n, _)) \<Rightarrow> (size n, 0)
      | Inl (Inr (_, n, _)) \<Rightarrow> (size n, 1)
      | Inr (Inl (_, n, _)) \<Rightarrow> (size n, 2)
      | Inr (Inr (_, cs, _)) \<Rightarrow> (sum_list (map (\<lambda>c. Suc (size c)) cs), 0))"

lemma healthy_children_measure:
  "sum_list (map (\<lambda>c. Suc (size c)) (map snd (healthy_children s cs))) \<le> size_list size cs"
  using healthy_children_size [of s cs] by (simp add: case_prod_beta' comp_def)

lemma latency_measure:
  assumes "(leaf, t) = resolve_leaf n s" "leaf \<noteq> n" "resolve_dom (Inl (Inl (n, s)))"
  shows "(Inl (Inr (rtt, leaf, t)), Inl (Inr (rtt, n, s)))
           \<in> inv_image (less_than <*lex*> less_than) resolve_measure"
  using leaf_smaller_aux(1) [OF assms(3)] assms(1,2) [symmetric] by (simp add: resolve_measure_def)

termination resolve_leaf
proof (relation "inv_image (less_than <*lex*> less_than) resolve_measure", goal_cases)
  case 1
  then show ?case by auto
next
  case (2 i tag cs tol tt s candidates)
  then show ?case using healthy_children_measure [of s cs] by (simp add: resolve_measure_def less_Suc_eq_le)
next
  case (3 i tag cs tol tt s candidates)
  then show ?case by (simp add: resolve_measure_def children_size current_child_in [OF sym])
next
  case (4 i tag cs tol tt s candidates ls s1 with_lat l s2 c s3)
  have "c \<in> set cs" using 4 urltest_choice_child [of s cs i tol ls l s2 c s3] by simp
  then show ?case by (simp add: resolve_measure_def children_size)
next
  case (5 tag cs s c)
  then show ?case by (auto simp: resolve_measure_def dest: fallback_choice_child intro: children_size)
next
  case (6 i tag cs s c)
  then show ?case by (auto simp: resolve_measure_def dest: selector_choice_child intro: children_size)
next
  case (7 i tag cs s p c s1)
  then show ?case by (auto simp: resolve_measure_def dest!: balance_choice_child intro: children_size)
qed ((rule latency_measure; assumption) | simp add: resolve_measure_def)+

subsection \<open>The outbound manager\<close>

text \<open>The table is a \<open>HashMap\<close> from tags to nodes. \<open>om_made\<close> counts the nodes made: a Mirage
node, and a group that keeps a state, takes the next number.\<close>

record ob_manager =
  om_table :: "(string \<times> outbound_node) list"
  om_made :: nat
  om_state :: ob_state

definition insert_node :: "string \<Rightarrow> outbound_node \<Rightarrow> ob_manager \<Rightarrow> ob_manager" where
  "insert_node tag n m = m\<lparr>om_table := AList.update tag n (om_table m), om_made := om_made m + 1\<rparr>"

definition build_mirage ::
    "string \<Rightarrow> mirage_settings \<Rightarrow> outbound_node option \<Rightarrow> ob_manager \<Rightarrow> ob_manager" where
  "build_mirage tag cfg underlying m =
     (let i = om_made m;
          s = om_state m;
          s = s\<lparr>ob_pools := (ob_pools s)(i := pool_new (ms_pool_size cfg)), ob_rtt := (ob_rtt s)(i := - 1)\<rparr>
      in insert_node tag (Mirage i tag cfg underlying) (m\<lparr>om_state := s\<rparr>))"

fun pass1 :: "outbound_config list \<Rightarrow> ob_manager \<Rightarrow> outbound_config list \<times> ob_manager" where
  "pass1 [] m = ([], m)"
| "pass1 (oc # ocs) m =
     (case oc of
        MirageCfg tag cfg None \<Rightarrow> pass1 ocs (build_mirage tag cfg None m)
      | DirectCfg tag \<Rightarrow> pass1 ocs (insert_node tag (Direct tag) m)
      | BlockCfg tag \<Rightarrow> pass1 ocs (insert_node tag (Block tag) m)
      | _ \<Rightarrow> (case pass1 ocs m of (deferred, m') \<Rightarrow> (oc # deferred, m')))"

definition add_implicit :: "ob_manager \<Rightarrow> ob_manager" where
  "add_implicit m =
     (let m = (if map_of (om_table m) ''direct'' = None
               then insert_node ''direct'' (Direct ''direct'') m else m)
      in if map_of (om_table m) ''block'' = None
         then insert_node ''block'' (Block ''block'') m else m)"

fun lookup_children :: "(string \<times> outbound_node) list \<Rightarrow> string list \<Rightarrow> outbound_node list option" where
  "lookup_children t [] = Some []"
| "lookup_children t (ct # cts) =
     (case map_of t ct of
        None \<Rightarrow> None
      | Some n \<Rightarrow> map_option (Cons n) (lookup_children t cts))"

text \<open>One deferred entry: the manager with its node, or \<open>None\<close> when it must wait for another round.
\<open>current\<close> starts empty and \<open>next\<close> at zero.\<close>

definition build_group :: "string \<Rightarrow> string list \<Rightarrow> (nat \<Rightarrow> outbound_node list \<Rightarrow> outbound_node)
    \<Rightarrow> ob_manager \<Rightarrow> ob_manager option" where
  "build_group tag child_tags mk m =
     (case lookup_children (om_table m) child_tags of
        None \<Rightarrow> None
      | Some cs \<Rightarrow>
          let i = om_made m; s = om_state m;
              s = s\<lparr>ob_current := (ob_current s)(i := None), ob_next := (ob_next s)(i := 0)\<rparr>
          in Some (insert_node tag (mk i cs) (m\<lparr>om_state := s\<rparr>)))"

fun build_deferred :: "outbound_config \<Rightarrow> ob_manager \<Rightarrow> ob_manager option" where
  "build_deferred (MirageCfg tag cfg (Some utag)) m =
     (case map_of (om_table m) utag of
        Some u \<Rightarrow> Some (build_mirage tag cfg (Some u) m)
      | None \<Rightarrow> None)"
| "build_deferred (UrltestCfg tag cts interval tolerance url test_type) m =
     build_group tag cts (\<lambda>i cs. Urltest i tag cs tolerance test_type) m"
| "build_deferred (FallbackCfg tag cts interval url) m = build_group tag cts (\<lambda>i cs. Fallback tag cs) m"
| "build_deferred (SelectorCfg tag cts) m = build_group tag cts (\<lambda>i cs. Selector i tag cs) m"
| "build_deferred (LoadBalanceCfg tag cts url interval) m =
     build_group tag cts (\<lambda>i cs. LoadBalance i tag cs) m"
| "build_deferred _ m = None"

text \<open>One round over the pending entries: what is left for the next round and whether an entry
was built.\<close>

fun pass2_round ::
    "outbound_config list \<Rightarrow> ob_manager \<Rightarrow> (outbound_config list \<times> bool) \<times> ob_manager" where
  "pass2_round [] m = (([], False), m)"
| "pass2_round (oc # pending) m =
     (case build_deferred oc m of
        Some m1 \<Rightarrow>
          (case pass2_round pending m1 of ((next_round, progress), m2) \<Rightarrow> ((next_round, True), m2))
      | None \<Rightarrow>
          (case pass2_round pending m of ((next_round, progress), m2) \<Rightarrow>
             ((oc # next_round, progress), m2)))"

lemma pass2_round_shrinks:
  "pass2_round pending m = ((next_round, progress), m') \<Longrightarrow>
     length next_round \<le> length pending \<and> (progress \<longrightarrow> length next_round < length pending)"
  by (induction pending arbitrary: m m' next_round progress)
    (fastforce split: option.splits prod.splits)+

function pass2 :: "outbound_config list \<Rightarrow> ob_manager \<Rightarrow> (outbound_config list, ob_manager) result" where
  "pass2 pending m =
     (if pending = [] then Inr m
      else case pass2_round pending m of
             ((next_round, progress), m') \<Rightarrow>
               if \<not> progress then Inl next_round else pass2 next_round m')"
  by pat_completeness auto
termination
  by (relation "measure (\<lambda>(pending, m). length pending)") (simp_all, metis pass2_round_shrinks)

declare pass2.simps [simp del]

definition ob_state_init :: ob_state where
  "ob_state_init = \<lparr>ob_pools = \<lambda>_. pool_new 1, ob_rtt = \<lambda>_. - 1, ob_current = Map.empty, ob_next = \<lambda>_. 0\<rparr>"

definition manager_new :: "outbound_config list \<Rightarrow> (outbound_config list, ob_manager) result" where
  "manager_new outbounds =
     (case pass1 outbounds \<lparr>om_table = [], om_made = 0, om_state = ob_state_init\<rparr> of
        (deferred, m) \<Rightarrow> pass2 deferred (add_implicit m))"

definition manager_get :: "ob_manager \<Rightarrow> string \<Rightarrow> outbound_node option" where
  "manager_get m tag = map_of (om_table m) tag"

definition manager_pools :: "(outbound_node \<Rightarrow> ob_state \<Rightarrow> ob_state) \<Rightarrow> ob_manager \<Rightarrow> ob_manager" where
  "manager_pools f m = m\<lparr>om_state := fold f (map snd (om_table m)) (om_state m)\<rparr>"

definition manager_set_pool_size :: "nat \<Rightarrow> ob_manager \<Rightarrow> ob_manager" where
  "manager_set_pool_size new_size = manager_pools (node_set_pool_size new_size)"

definition manager_purge_idle :: "(nat \<Rightarrow> bool) \<Rightarrow> ob_manager \<Rightarrow> ob_manager" where
  "manager_purge_idle locked = manager_pools (node_purge_idle locked)"

definition manager_shutdown :: "(nat \<Rightarrow> bool) \<Rightarrow> ob_manager \<Rightarrow> ob_manager" where
  "manager_shutdown locked = manager_pools (node_shutdown locked)"

subsection \<open>What can be built\<close>

fun config_tag :: "outbound_config \<Rightarrow> string" where
  "config_tag (MirageCfg tag cfg u) = tag"
| "config_tag (DirectCfg tag) = tag"
| "config_tag (BlockCfg tag) = tag"
| "config_tag (SelectorCfg tag cts) = tag"
| "config_tag (UrltestCfg tag cts interval tolerance url test_type) = tag"
| "config_tag (FallbackCfg tag cts interval url) = tag"
| "config_tag (LoadBalanceCfg tag cts url interval) = tag"

text \<open>The tags an entry names.\<close>

fun config_refs :: "outbound_config \<Rightarrow> string list" where
  "config_refs (MirageCfg tag cfg (Some u)) = [u]"
| "config_refs (SelectorCfg tag cts) = cts"
| "config_refs (UrltestCfg tag cts interval tolerance url test_type) = cts"
| "config_refs (FallbackCfg tag cts interval url) = cts"
| "config_refs (LoadBalanceCfg tag cts url interval) = cts"
| "config_refs _ = []"

text \<open>A tag can be built when it is implicit, or an entry of that tag names only tags that can.\<close>

inductive buildable :: "outbound_config list \<Rightarrow> string \<Rightarrow> bool" for ocs where
  implicit: "tag = ''direct'' \<or> tag = ''block'' \<Longrightarrow> buildable ocs tag"
| entry: "oc \<in> set ocs \<Longrightarrow> \<forall>r\<in>set (config_refs oc). buildable ocs r \<Longrightarrow> buildable ocs (config_tag oc)"

definition stuck :: "outbound_config list \<Rightarrow> outbound_config list" where
  "stuck ocs = filter (\<lambda>oc. \<exists>r\<in>set (config_refs oc). \<not> buildable ocs r) ocs"

definition tags :: "ob_manager \<Rightarrow> string set" where
  "tags m = dom (map_of (om_table m))"

lemma tags_insert_node [simp]: "tags (insert_node tag n m) = insert tag (tags m)"
  by (simp add: tags_def insert_node_def update_conv' dom_fun_upd)

lemma tags_state [simp]: "tags (m\<lparr>om_state := s\<rparr>) = tags m"
  by (simp add: tags_def)

lemma tags_build_mirage [simp]: "tags (build_mirage tag cfg u m) = insert tag (tags m)"
  by (simp add: build_mirage_def Let_def)

lemma map_of_table:
  "map_of (om_table m) t = None \<longleftrightarrow> t \<notin> tags m" "map_of (om_table m) t = Some n \<Longrightarrow> t \<in> tags m"
  by (auto simp: tags_def)

lemma lookup_children_None: "lookup_children (om_table m) cts = None \<longleftrightarrow> \<not> set cts \<subseteq> tags m"
  by (induction cts) (auto simp: map_of_table split: option.splits)

lemma build_group_None: "build_group tag cts mk m = None \<longleftrightarrow> \<not> set cts \<subseteq> tags m"
  using lookup_children_None [of m cts]
  by (cases "lookup_children (om_table m) cts") (simp_all add: build_group_def Let_def)

lemma build_group_tags:
  "build_group tag cts mk m = Some m' \<Longrightarrow> set cts \<subseteq> tags m \<and> tags m' = insert tag (tags m)"
  using build_group_None [of tag cts mk m] lookup_children_None [of m cts]
  by (cases "lookup_children (om_table m) cts") (auto simp: build_group_def Let_def)

lemma build_deferred_tags:
  "build_deferred oc m = Some m' \<Longrightarrow>
     set (config_refs oc) \<subseteq> tags m \<and> tags m' = insert (config_tag oc) (tags m)"
  by (cases "(oc, m)" rule: build_deferred.cases)
    (simp_all add: build_group_tags map_of_table split: option.splits, auto simp: map_of_table)

text \<open>The entries that pass 1 leaves for pass 2.\<close>

fun deferred :: "outbound_config \<Rightarrow> bool" where
  "deferred (MirageCfg tag cfg u) = (u \<noteq> None)"
| "deferred (DirectCfg tag) = False"
| "deferred (BlockCfg tag) = False"
| "deferred _ = True"

lemma build_deferred_None:
  "deferred oc \<Longrightarrow> build_deferred oc m = None \<longleftrightarrow> \<not> set (config_refs oc) \<subseteq> tags m"
  by (cases "(oc, m)" rule: build_deferred.cases) (auto simp: build_group_None map_of_table split: option.splits)

text \<open>What the passes keep: every tag in the table can be built, every entry is in the table or
pending, and no entry that is stuck was dropped from the pending ones.\<close>

definition building :: "outbound_config list \<Rightarrow> outbound_config list \<Rightarrow> ob_manager \<Rightarrow> bool" where
  "building ocs pending m \<longleftrightarrow>
     tags m \<subseteq> {t. buildable ocs t} \<and> tags m \<subseteq> {''direct'', ''block''} \<union> config_tag ` set ocs \<and> set pending \<subseteq> set ocs \<and> (\<forall>oc\<in>set pending. deferred oc)
     \<and> (\<forall>oc\<in>set ocs. config_tag oc \<in> tags m \<or> oc \<in> set pending)
     \<and> filter (\<lambda>oc. oc \<in> set (stuck ocs)) pending = stuck ocs"

lemma stuck_iff: "oc \<in> set (stuck ocs) \<longleftrightarrow> oc \<in> set ocs \<and> (\<exists>r\<in>set (config_refs oc). \<not> buildable ocs r)"
  by (auto simp: stuck_def)

lemma round_building:
  assumes "building ocs (done @ pending) m" "pass2_round pending m = ((next_round, progress), m')"
  shows "building ocs (done @ next_round) m' \<and> tags m \<subseteq> tags m'"
  using assms
proof (induction pending arbitrary: "done" m next_round progress)
  case Nil
  then show ?case by simp
next
  case (Cons oc pending)
  show ?case
  proof (cases "build_deferred oc m")
    case None
    then obtain nr where r: "pass2_round pending m = ((nr, progress), m')" and nr: "next_round = oc # nr"
      using Cons.prems(2) by (auto split: prod.splits)
    from Cons.IH [of "done @ [oc]", OF _ r] Cons.prems(1) show ?thesis by (simp add: nr)
  next
    case (Some m1)
    then obtain p where r: "pass2_round pending m1 = ((next_round, p), m')"
      using Cons.prems(2) by (auto split: prod.splits)
    from build_deferred_tags [OF Some]
    have refs: "set (config_refs oc) \<subseteq> tags m" and tags: "tags m1 = insert (config_tag oc) (tags m)" by auto
    have b: "building ocs (done @ oc # pending) m" by (rule Cons.prems(1))
    from b refs have ok: "\<forall>r\<in>set (config_refs oc). buildable ocs r" by (auto simp: building_def)
    moreover from b have "oc \<in> set ocs" by (simp add: building_def)
    ultimately have "buildable ocs (config_tag oc)" by (intro buildable.entry)
    moreover from ok have "oc \<notin> set (stuck ocs)" by (auto simp: stuck_iff)
    ultimately have "building ocs (done @ pending) m1" using b tags by (auto simp: building_def)
    from Cons.IH [OF this r] tags show ?thesis by auto
  qed
qed

lemma round_no_progress:
  "pass2_round pending m = ((next_round, False), m') \<Longrightarrow>
     next_round = pending \<and> m' = m \<and> (\<forall>oc\<in>set pending. build_deferred oc m = None)"
  by (induction pending arbitrary: next_round) (auto split: option.splits prod.splits)

text \<open>A round that builds nothing: the table already holds every tag that can be built.\<close>

lemma no_progress_complete:
  assumes "building ocs pending m" "{''direct'', ''block''} \<subseteq> tags m"
    and none: "\<forall>oc\<in>set pending. build_deferred oc m = None" and "buildable ocs t"
  shows "t \<in> tags m"
  using assms(4)
proof (induction rule: buildable.induct)
  case (implicit tag)
  then show ?case using assms(2) by auto
next
  case (entry oc)
  then have "set (config_refs oc) \<subseteq> tags m" by auto
  then have "oc \<notin> set pending" using none assms(1) build_deferred_None by (auto simp: building_def)
  then show ?case using entry.hyps(1) assms(1) by (auto simp: building_def)
qed

lemma pass2_correct:
  assumes "building ocs pending m" "{''direct'', ''block''} \<subseteq> tags m"
  shows "case pass2 pending m of
           Inl left \<Rightarrow> left = stuck ocs \<and> left \<noteq> []
         | Inr m' \<Rightarrow> stuck ocs = [] \<and> tags m' = insert ''direct'' (insert ''block'' (config_tag ` set ocs))"
  using assms
proof (induction pending m rule: pass2.induct)
  case (1 pending m)
  show ?case
  proof (cases "pending = []")
    case True
    with 1(2,3) show ?thesis by (auto simp: pass2.simps [of "[]"] building_def)
  next
    case False
    obtain next_round progress m' where r: "pass2_round pending m = ((next_round, progress), m')"
      by (cases "pass2_round pending m") auto
    note kept = round_building [of ocs "[]", simplified, OF 1(2) r]
    show ?thesis
    proof (cases progress)
      case True
      then have "pass2 pending m = pass2 next_round m'"
        using False r by (simp add: pass2.simps [of pending])
      with 1(1) [OF False r [symmetric] refl] True kept 1(3) show ?thesis by auto
    next
      case np: False
      from np r have "pass2_round pending m = ((next_round, False), m')" by simp
      from round_no_progress [OF this]
      have same: "next_round = pending" "m' = m"
        and none: "\<forall>oc\<in>set pending. build_deferred oc m = None" by auto
      have "oc \<in> set (stuck ocs)" if "oc \<in> set pending" for oc
      proof -
        from that none 1(2) have "\<not> set (config_refs oc) \<subseteq> tags m" "oc \<in> set ocs"
          using build_deferred_None by (auto simp: building_def)
        with no_progress_complete [OF 1(2,3) none] show ?thesis by (auto simp: stuck_iff)
      qed
      then have "filter (\<lambda>oc. oc \<in> set (stuck ocs)) pending = pending" by simp
      with 1(2) have "pending = stuck ocs" by (simp add: building_def)
      moreover have "pass2 pending m = Inl pending"
        using False r same np by (simp add: pass2.simps [of pending])
      ultimately show ?thesis using False by simp
    qed
  qed
qed

lemma pass1_deferred:
  "deferred oc \<Longrightarrow> pass1 (oc # rest) m = (oc # fst (pass1 rest m), snd (pass1 rest m))"
  by (cases oc rule: deferred.cases) (auto split: prod.splits)

lemma pass1_leaf:
  "\<not> deferred oc \<Longrightarrow>
     \<exists>m1. pass1 (oc # rest) m = pass1 rest m1 \<and> tags m1 = insert (config_tag oc) (tags m)
       \<and> config_refs oc = []"
  by (cases oc rule: deferred.cases) fastforce+

lemma pass1_building:
  assumes "set rest \<subseteq> set ocs" "tags m \<subseteq> config_tag ` set ocs" "\<forall>t\<in>tags m. buildable ocs t"
  shows "tags m \<union> config_tag ` {oc \<in> set rest. \<not> deferred oc} \<subseteq> tags (snd (pass1 rest m))
    \<and> tags (snd (pass1 rest m)) \<subseteq> config_tag ` set ocs
    \<and> (\<forall>t\<in>tags (snd (pass1 rest m)). buildable ocs t) \<and> fst (pass1 rest m) = filter deferred rest"
  using assms
proof (induction rest arbitrary: m)
  case Nil
  then show ?case by simp
next
  case (Cons oc rest)
  show ?case
  proof (cases "deferred oc")
    case True
    have "set rest \<subseteq> set ocs" using Cons.prems(1) by simp
    from Cons.IH [OF this Cons.prems(2,3)] True show ?thesis
      by (auto simp: pass1_deferred simp del: pass1.simps)
  next
    case False
    obtain m1 where m1: "pass1 (oc # rest) m = pass1 rest m1" "tags m1 = insert (config_tag oc) (tags m)"
      and refs: "config_refs oc = []"
      using pass1_leaf [OF False] by blast
    have "buildable ocs (config_tag oc)"
      using refs Cons.prems(1) by (intro buildable.entry) auto
    then have "set rest \<subseteq> set ocs" "tags m1 \<subseteq> config_tag ` set ocs" "\<forall>t\<in>tags m1. buildable ocs t"
      using Cons.prems m1(2) by auto
    from Cons.IH [OF this] m1 False show ?thesis by (auto simp del: pass1.simps)
  qed
qed

lemma tags_add_implicit: "tags (add_implicit m) = insert ''direct'' (insert ''block'' (tags m))"
  by (auto simp: add_implicit_def Let_def map_of_table)

lemma not_deferred_refs: "\<not> deferred oc \<Longrightarrow> config_refs oc = []"
  by (cases oc rule: deferred.cases) auto

text \<open>C21. Building the outbounds (\<open>OutboundManager::new\<close>, outbound.rs) ends, and it succeeds
exactly when no entry is stuck, an entry being stuck when a tag it names can be built neither as
an implicit outbound nor from the entries, in whatever order they are listed; then the table
holds every configured tag. Otherwise the diagnostic lists exactly the stuck entries, in
order.\<close>
theorem manager_new_correct:
  "case manager_new ocs of
     Inl left \<Rightarrow> left = stuck ocs \<and> left \<noteq> []
   | Inr m \<Rightarrow> stuck ocs = [] \<and> tags m = insert ''direct'' (insert ''block'' (config_tag ` set ocs))"
proof -
  define m0 where "m0 = \<lparr>om_table = [], om_made = 0, om_state = ob_state_init\<rparr>"
  obtain left m where p: "pass1 ocs m0 = (left, m)" by fastforce
  have t0: "tags m0 = {}" by (simp add: tags_def m0_def)
  note kept = pass1_building [of ocs ocs m0, unfolded p, simplified t0, simplified]
  have "filter (\<lambda>oc. oc \<in> set (stuck ocs)) (filter deferred ocs) = stuck ocs"
    using not_deferred_refs by (fastforce simp: stuck_def intro!: filter_cong)
  then have "filter (\<lambda>oc. oc \<in> set (stuck ocs)) left = stuck ocs" using kept by simp
  with kept have "building ocs left (add_implicit m)"
    by (auto simp: building_def tags_add_implicit intro: buildable.implicit)
  from pass2_correct [OF this] show ?thesis
    by (simp add: manager_new_def p flip: m0_def) (simp add: tags_add_implicit)
qed

subsection \<open>Leaves\<close>

fun is_leaf :: "outbound_node \<Rightarrow> bool" where
  "is_leaf (Mirage i tag cfg u) = True"
| "is_leaf (Direct tag) = True"
| "is_leaf (Block tag) = True"
| "is_leaf _ = False"

lemma resolve_is_leaf [simp]: "is_leaf n \<Longrightarrow> resolve_leaf n s = (n, s)"
  by (cases n) simp_all

text \<open>A tree of fallback and balancing groups over leaves.\<close>

fun plain_tree :: "outbound_node \<Rightarrow> bool" where
  "plain_tree (Fallback tag cs) = list_all plain_tree cs"
| "plain_tree (LoadBalance i tag cs) = list_all plain_tree cs"
| "plain_tree n = is_leaf n"

lemma is_healthy_next [simp]: "is_healthy (s\<lparr>ob_next := f\<rparr>) n = is_healthy s n"
  by (induction n) (auto simp: list_ex_iff)

lemma map_snd_healthy_children: "map snd (healthy_children s cs) = filter (is_healthy s) cs"
proof -
  have "map snd (filter (\<lambda>(k, c). P c) (enumerate n cs)) = filter P cs" for P n
    by (induction cs arbitrary: n) auto
  then show ?thesis by (simp add: healthy_children_def)
qed

lemma healthy_children_Nil: "healthy_children s cs = [] \<longleftrightarrow> (\<forall>c\<in>set cs. \<not> is_healthy s c)"
  using map_snd_healthy_children [of s cs] by (metis filter_empty_conv map_is_Nil_conv)

lemma plain_tree_leaf:
  "size n \<le> k \<Longrightarrow> plain_tree n \<Longrightarrow> is_healthy s n \<Longrightarrow>
     is_leaf (fst (resolve_leaf n s)) \<and> is_healthy s (fst (resolve_leaf n s))"
proof (induction k arbitrary: n s)
  case 0
  then show ?case by (cases n) auto
next
  case (Suc k)
  show ?case
  proof (cases n)
    case (Fallback tag cs)
    with Suc.prems(3) obtain c where c: "find (is_healthy s) cs = Some c"
      by (fastforce simp: list_ex_iff find_None_iff dest!: not_None_eq [THEN iffD1, rotated])
    then have mem: "c \<in> set cs" "is_healthy s c" by (auto simp: find_Some_iff)
    then have "size c \<le> k" "plain_tree c"
      using children_size [OF mem(1)] Suc.prems(1,2) by (auto simp: Fallback list_all_iff)
    from Suc.IH [OF this mem(2)] show ?thesis by (simp add: Fallback fallback_choice_def c)
  next
    case (LoadBalance i tag cs)
    have "healthy_children s cs \<noteq> []"
      using Suc.prems(3) healthy_children_Nil [of s cs] by (auto simp: LoadBalance list_ex_iff)
    then obtain h hs where hc: "healthy_children s cs = h # hs" by (cases "healthy_children s cs") auto
    define j where "j = unat (ob_next s i) mod length (h # hs)"
    have "(h # hs) ! j \<in> set (healthy_children s cs)" unfolding hc by (rule nth_mem) (simp add: j_def)
    then have mem: "snd ((h # hs) ! j) \<in> set cs" "is_healthy s (snd ((h # hs) ! j))"
      using healthy_childrenD [of "fst ((h # hs) ! j)" "snd ((h # hs) ! j)" s cs] by auto
    then have "size (snd ((h # hs) ! j)) \<le> k" "plain_tree (snd ((h # hs) ! j))"
      using children_size [OF mem(1)] Suc.prems(1,2) by (auto simp: LoadBalance list_all_iff)
    from Suc.IH [OF this, of "s\<lparr>ob_next := (ob_next s)(i := ob_next s i + 1)\<rparr>"] mem(2)
    show ?thesis by (simp add: LoadBalance balance_choice_def hc j_def)
  qed (use Suc.prems in auto)
qed

text \<open>A healthy group of fallbacks and load balancers, nested in any way over leaves, resolves
(\<open>resolve_leaf\<close>, outbound.rs) to a leaf outbound that is itself healthy.\<close>
theorem plain_tree_resolves:
  assumes "plain_tree n" "is_healthy s n"
  shows "is_leaf (fst (resolve_leaf n s)) \<and> is_healthy s (fst (resolve_leaf n s))"
  using plain_tree_leaf [OF order_refl assms] .

definition demo_settings :: mirage_settings where
  "demo_settings = \<lparr>ms_server = ''h'', ms_server_port = 443, ms_password = ''p'', ms_camouflage_host = ''c'',
     ms_pool_size = 4, ms_brutal_rate_mbps = None, ms_brutal_base_rtt_ms = None, ms_pfs = False,
     ms_udp_mux = True, ms_udp_mux_tunnels = 4\<rparr>"

definition demo_node :: "nat \<Rightarrow> outbound_node" where
  "demo_node i = Mirage i ''n'' demo_settings None"

lemma demo_node_leaf [simp]: "is_leaf (demo_node i)"
  by (simp add: demo_node_def)

text \<open>A state in which pool \<open>i\<close> has measured \<open>lat i\<close> and failed \<open>fails i\<close> times in a row.\<close>

definition demo_ob_state :: "(nat \<Rightarrow> u64 list) \<Rightarrow> (nat \<Rightarrow> u32) \<Rightarrow> ob_state" where
  "demo_ob_state lat fails = ob_state_init\<lparr>ob_pools := \<lambda>i. (pool_new 4)
     \<lparr>wp_stats := stats_new\<lparr>ps_latency := lat i, ps_failures := fails i\<rparr>\<rparr>\<rparr>"

lemma demo_healthy [simp]: "is_healthy (demo_ob_state lat fails) (demo_node i) \<longleftrightarrow> fails i < 3"
  by (simp add: demo_node_def demo_ob_state_def stats_healthy_def)

theorem plain_tree_resolves_witness:
  "is_healthy (demo_ob_state (\<lambda>_. []) (\<lambda>i. if i = 1 then 0 else 5))
     (fst (resolve_leaf (Fallback ''f'' [demo_node 0, LoadBalance 7 ''b'' [demo_node 2, demo_node 1]])
        (demo_ob_state (\<lambda>_. []) (\<lambda>i. if i = 1 then 0 else 5))))"
  by (rule plain_tree_resolves [THEN conjunct2]) (simp_all add: demo_node_def [of 0], simp_all add: demo_node_def)

text \<open>\<open>k\<close> connections through a node, one after the other.\<close>

primrec resolves :: "nat \<Rightarrow> outbound_node \<Rightarrow> ob_state \<Rightarrow> outbound_node list" where
  "resolves 0 n s = []"
| "resolves (Suc k) n s = (case resolve_leaf n s of (leaf, s') \<Rightarrow> leaf # resolves k n s')"

lemma resolve_balance_leaves:
  assumes "list_all is_leaf cs" "filter (is_healthy s) cs = hs" "hs \<noteq> []"
  shows "resolve_leaf (LoadBalance i tag cs) s =
    (hs ! (unat (ob_next s i) mod length hs), s\<lparr>ob_next := (ob_next s)(i := ob_next s i + 1)\<rparr>)"
proof -
  define j where "j = unat (ob_next s i) mod length hs"
  have map: "map snd (healthy_children s cs) = hs" using assms(2) by (simp add: map_snd_healthy_children)
  have j: "j < length (healthy_children s cs)" using assms(3) by (simp add: j_def flip: map)
  then have snd: "snd (healthy_children s cs ! j) = hs ! j" by (simp flip: map)
  have "hs ! j \<in> set cs" using assms(2,3) j map by (metis filter_is_subset length_map nth_mem subsetD)
  with assms(1) have leaf: "is_leaf (hs ! j)" by (simp add: list_all_iff)
  obtain h t where "healthy_children s cs = h # t" using j by (cases "healthy_children s cs") auto
  then show ?thesis using leaf snd map by (auto simp: balance_choice_def j_def)
qed

lemma resolves_balance:
  assumes "list_all is_leaf cs" "filter (is_healthy s) cs = hs" "hs \<noteq> []" "unat (ob_next s i) + k < 2 ^ 64"
  shows "resolves k (LoadBalance i tag cs) s = map (\<lambda>j. hs ! (j mod length hs)) [unat (ob_next s i) ..< unat (ob_next s i) + k]"
  using assms(2,4)
proof (induction k arbitrary: s)
  case 0
  then show ?case by simp
next
  case (Suc k)
  define s' where "s' = s\<lparr>ob_next := (ob_next s)(i := ob_next s i + 1)\<rparr>"
  have u: "unat (ob_next s i + 1) = Suc (unat (ob_next s i))"
    using Suc.prems(2) by (simp add: unat_word_ariths)
  show ?case
    using Suc.IH [of s'] Suc.prems resolve_balance_leaves [OF assms(1) Suc.prems(1) assms(3), of i tag]
    by (simp add: s'_def u upt_conv_Cons del: upt_Suc)
qed

lemma cyclic_rotate: "hs \<noteq> [] \<Longrightarrow> map (\<lambda>j. hs ! (j mod length hs)) [n ..< n + length hs] = rotate n hs"
  by (rule nth_equalityI) (simp_all add: nth_rotate add.commute)

text \<open>Load balancing is fair (\<open>LoadBalance\<close> in \<open>resolve_leaf\<close>, outbound.rs): as many
connections in a row as the group has healthy members go to each of them exactly once, in order
from the cursor, as long as the 64-bit cursor does not wrap on the way.\<close>
theorem load_balance_fair:
  assumes "list_all is_leaf cs" "filter (is_healthy s) cs = hs" "hs \<noteq> []"
    and "unat (ob_next s i) + length hs < 2 ^ 64"
  shows "resolves (length hs) (LoadBalance i tag cs) s = rotate (unat (ob_next s i)) hs"
  using resolves_balance [OF assms] cyclic_rotate [OF assms(3)] by simp

lemma five_mod_two: "5 mod Suc (Suc 0) = 1"
  by (simp flip: numeral_2_eq_2)

theorem load_balance_fair_witness:
  "resolves (Suc (Suc 0)) (LoadBalance 9 ''b'' [demo_node 0, demo_node 1, demo_node 2])
      (demo_ob_state (\<lambda>_. []) (\<lambda>i. if i = 1 then 3 else 0)\<lparr>ob_next := \<lambda>_. 5\<rparr>)
     = [demo_node 2, demo_node 0]"
  using load_balance_fair [of "[demo_node 0, demo_node 1, demo_node 2]"
      "demo_ob_state (\<lambda>_. []) (\<lambda>i. if i = 1 then 3 else 0)\<lparr>ob_next := \<lambda>_. 5\<rparr>"
      "[demo_node 0, demo_node 2]" 9 "''b''"]
  by (simp add: rotate_drop_take five_mod_two del: resolves.simps)

text \<open>A latency group stays with the member it has settled on while that member's recorded
latency is within the tolerance of the best healthy one (\<open>Urltest\<close> in \<open>resolve_leaf\<close>,
outbound.rs), whether or not the member is still healthy: nothing on this path asks.\<close>
theorem urltest_sticks:
  assumes "test_type \<noteq> ''rtt''" "list_all is_leaf cs" "current_child s i cs = Some cur"
    and "some_latencies (healthy_children s cs)
           (map (\<lambda>c. fst (latency_of False c s)) (map snd (healthy_children s cs))) = b # bs"
    and "fst (latency_of False cur s) = Some lat" "lat \<le> snd (first_min b bs) + tolerance_ms"
  shows "resolve_leaf (Urltest i tag cs tolerance_ms test_type) s = (cur, s)"
proof -
  have leafs: "is_leaf c" if "c \<in> set cs" for c using that assms(2) by (simp add: list_all_iff)
  have pure: "latency_of False c s = (fst (latency_of False c s), s)" if "is_leaf c" for c
    using that by (cases c) simp_all
  have ls: "latencies_ms test_type ns s = (map (\<lambda>c. fst (latency_of False c s)) ns, s)"
    if "\<forall>c\<in>set ns. is_leaf c" for ns
    using that
  proof (induction ns)
    case (Cons c ns)
    obtain l where l: "latency_of False c s = (l, s)" using pure [of c] Cons.prems by auto
    then show ?case using Cons assms(1) by simp
  qed simp
  have "\<forall>c\<in>set (map snd (healthy_children s cs)). is_leaf c"
    using leafs by (simp add: map_snd_healthy_children)
  note ls = ls [OF this]
  obtain l where l: "latency_of False cur s = (l, s)"
    using pure [of cur] assms(3) current_child_in leafs by (metis prod.collapse)
  have cur: "is_leaf cur" using assms(3) current_child_in leafs by blast
  have "healthy_children s cs \<noteq> []" using assms(4) by (auto simp: some_latencies_def)
  then show ?thesis
    using ls assms l cur
    by (simp add: urltest_choice_def Let_def)
qed

theorem urltest_sticks_witness:
  "resolve_leaf (Urltest 9 ''u'' [demo_node 0, demo_node 1] 50 ''ping'')
      (demo_ob_state (\<lambda>i. if i = 0 then [20] else [60]) (\<lambda>i. if i = 0 then 7 else 0)\<lparr>ob_current := [9 \<mapsto> 0]\<rparr>)
     = (demo_node 0,
        demo_ob_state (\<lambda>i. if i = 0 then [20] else [60]) (\<lambda>i. if i = 0 then 7 else 0)\<lparr>ob_current := [9 \<mapsto> 0]\<rparr>)"
proof (rule urltest_sticks [where lat = 20 and b = "((1, demo_node 1), 60)" and bs = "[]"])
  show "some_latencies
     (healthy_children (demo_ob_state (\<lambda>i. if i = 0 then [20] else [60]) (\<lambda>i. if i = 0 then 7 else 0)\<lparr>ob_current := [9 \<mapsto> 0]\<rparr>) [demo_node 0, demo_node 1])
     (map (\<lambda>c. fst (latency_of False c (demo_ob_state (\<lambda>i. if i = 0 then [20] else [60]) (\<lambda>i. if i = 0 then 7 else 0)\<lparr>ob_current := [9 \<mapsto> 0]\<rparr>)))
       (map snd (healthy_children (demo_ob_state (\<lambda>i. if i = 0 then [20] else [60]) (\<lambda>i. if i = 0 then 7 else 0)\<lparr>ob_current := [9 \<mapsto> 0]\<rparr>) [demo_node 0, demo_node 1]))) = [((1, demo_node 1), 60)]"
    by (simp add: healthy_children_def demo_node_def demo_ob_state_def stats_healthy_def some_latencies_def latency_ms_def map_filter_def)
qed (simp_all add: current_child_def demo_node_def demo_ob_state_def latency_ms_def word_le_nat_alt)

subsection \<open>Operations on every pool\<close>

fun node_pool_ids :: "outbound_node \<Rightarrow> nat set" where
  "node_pool_ids (Mirage i tag cfg u) = {i}"
| "node_pool_ids (Urltest i tag cs tol tt) = (\<Union>c\<in>set cs. node_pool_ids c)"
| "node_pool_ids (Fallback tag cs) = (\<Union>c\<in>set cs. node_pool_ids c)"
| "node_pool_ids (Selector i tag cs) = (\<Union>c\<in>set cs. node_pool_ids c)"
| "node_pool_ids (LoadBalance i tag cs) = (\<Union>c\<in>set cs. node_pool_ids c)"
| "node_pool_ids _ = {}"

definition pool_ids :: "ob_manager \<Rightarrow> nat set" where
  "pool_ids m = (\<Union>n\<in>snd ` set (om_table m). node_pool_ids n)"

text \<open>An operation of an interface that may be done twice. A pool shared by several groups is
reached several times in one walk.\<close>

locale pool_walk =
  fixes f :: "nat \<Rightarrow> warm_pool \<Rightarrow> warm_pool"
  assumes idem: "f i (f i p) = f i p"
begin

lemma fold_pools:
  assumes "\<And>c s i. c \<in> set cs \<Longrightarrow> ob_pools (node_pools f c s) i
             = (if i \<in> node_pool_ids c then f i (ob_pools s i) else ob_pools s i)"
  shows "ob_pools (fold (node_pools f) cs s) i
    = (if i \<in> (\<Union>c\<in>set cs. node_pool_ids c) then f i (ob_pools s i) else ob_pools s i)"
  using assms by (induction cs arbitrary: s) (auto simp: idem)

lemma node_pools_once:
  "ob_pools (node_pools f n s) i = (if i \<in> node_pool_ids n then f i (ob_pools s i) else ob_pools s i)"
  by (induction n arbitrary: s i) (simp_all add: pool_do_def fold_pools)

lemma manager_pools_once:
  "ob_pools (om_state (manager_pools (node_pools f) m)) i
     = (if i \<in> pool_ids m then f i (ob_pools (om_state m) i) else ob_pools (om_state m) i)"
  using fold_pools [of "map snd (om_table m)" "om_state m" i] node_pools_once
  by (simp add: manager_pools_def pool_ids_def)

end

lemma set_pool_size_form:
  "\<exists>t. set_pool_size k p = p\<lparr>wp_max := max k 1, wp_target := t\<rparr> \<and> 1 \<le> t \<and> t \<le> max k 1"
  unfolding set_pool_size_def Let_def by (intro exI conjI, rule refl) (simp_all add: max_def min_def)

lemma set_pool_size_idem: "set_pool_size k (set_pool_size k p) = set_pool_size k p"
proof -
  define M where "M = max k 1"
  obtain t where t: "set_pool_size k p = p\<lparr>wp_max := M, wp_target := t\<rparr>" "1 \<le> t" "t \<le> M"
    using set_pool_size_form [of k p] unfolding M_def by blast
  have "set_pool_size k (p\<lparr>wp_max := M, wp_target := t\<rparr>) = p\<lparr>wp_max := M, wp_target := t\<rparr>"
    using t(2,3) unfolding set_pool_size_def Let_def M_def [symmetric] by simp
  then show ?thesis by (simp add: t(1))
qed

interpretation resize: pool_walk "\<lambda>_. set_pool_size k" for k
  by unfold_locales (rule set_pool_size_idem)

interpretation purge: pool_walk "\<lambda>i. Pool.purge_idle (locked i)" for locked
  by unfold_locales (simp add: Pool.purge_idle_def Let_def purge_auth_pause_def tracker_purge_def)

interpretation stop: pool_walk "\<lambda>i. pool_shutdown (locked i)" for locked
  by unfold_locales (simp add: pool_shutdown_def)

text \<open>Resizing all outbounds (\<open>OutboundManager::set_pool_size\<close>, outbound.rs) resizes each
pool reachable from the table exactly once in effect, however many groups share it and in
whatever order the table is walked, and touches no other pool.\<close>
theorem manager_resizes_each_pool:
  "ob_pools (om_state (manager_set_pool_size k m)) i
     = (if i \<in> pool_ids m then set_pool_size k (ob_pools (om_state m) i) else ob_pools (om_state m) i)"
  unfolding manager_set_pool_size_def node_set_pool_size_def by (rule resize.manager_pools_once)

lemma manager_stops_each_pool:
  "ob_pools (om_state (manager_shutdown locked m)) i
     = (if i \<in> pool_ids m then pool_shutdown (locked i) (ob_pools (om_state m) i) else ob_pools (om_state m) i)"
  unfolding manager_shutdown_def node_shutdown_def by (rule stop.manager_pools_once)

lemma manager_purges_each_pool:
  "ob_pools (om_state (manager_purge_idle locked m)) i
     = (if i \<in> pool_ids m then Pool.purge_idle (locked i) (ob_pools (om_state m) i) else ob_pools (om_state m) i)"
  unfolding manager_purge_idle_def node_purge_idle_def by (rule purge.manager_pools_once)

subsection \<open>Addresses\<close>

text \<open>\<open>net_util.rs\<close> and \<open>Address\<close>. \<open>SocketAddr::from_str\<close>: the port is decimal, of any number of
digits; an IPv6 address is in brackets, with an optional scope after a percent sign.\<close>

definition join_host_port :: "string \<Rightarrow> u16 \<Rightarrow> string" where
  "join_host_port host port =
     (if parse_ipv6 host \<noteq> None then ''['' @ host @ '']:'' @ show_nat (unat port)
      else host @ '':'' @ show_nat (unat port))"

definition read_port :: "string \<Rightarrow> (u16 \<times> string) option" where
  "read_port s =
     Option.bind (read_given_char (CHR '':'') s) (\<lambda>s1.
     Option.bind (read_number 10 (length s1) 65535 True s1) (\<lambda>(p, s2). Some (of_nat p, s2)))"

definition read_scope :: "string \<Rightarrow> u32 \<times> string" where
  "read_scope s =
     (case Option.bind (read_given_char (CHR ''%'') s) (\<lambda>s1. read_number 10 (length s1) 4294967295 True s1) of
        Some (n, r) \<Rightarrow> (of_nat n, r)
      | None \<Rightarrow> (0, s))"

datatype address =
    Domain string u16
  | Socket ip_addr u16 u32

definition read_socket_v4 :: "string \<Rightarrow> (address \<times> string) option" where
  "read_socket_v4 s =
     Option.bind (read_ipv4_addr s) (\<lambda>(a, s1).
     Option.bind (read_port s1) (\<lambda>(p, s2). Some (Socket (V4 a) p 0, s2)))"

definition read_socket_v6 :: "string \<Rightarrow> (address \<times> string) option" where
  "read_socket_v6 s =
     Option.bind (read_given_char (CHR ''['') s) (\<lambda>s1.
     Option.bind (read_ipv6_addr s1) (\<lambda>(a, s2).
       case read_scope s2 of (scope, s3) \<Rightarrow>
         Option.bind (read_given_char (CHR '']'') s3) (\<lambda>s4.
         Option.bind (read_port s4) (\<lambda>(p, s5). Some (Socket (V6 a) p scope, s5)))))"

definition parse_socket_addr :: "string \<Rightarrow> address option" where
  "parse_socket_addr s =
     (case (case read_socket_v4 s of Some r \<Rightarrow> Some r | None \<Rightarrow> read_socket_v6 s) of
        Some (a, []) \<Rightarrow> Some a
      | _ \<Rightarrow> None)"

datatype address_error = BadBracket | MissingPort | EmptyHost | BadPort

definition address_parse :: "string \<Rightarrow> (address_error, address) result" where
  "address_parse s =
     (case parse_socket_addr s of
        Some a \<Rightarrow> Inr a
      | None \<Rightarrow>
          (case (case strip_prefix ''['' s of
                   Some rest \<Rightarrow> opt_result BadBracket (split_once_str '']:'' rest)
                 | None \<Rightarrow> opt_result MissingPort (rsplit_once (CHR '':'') s)) of
             Inl e \<Rightarrow> Inl e
           | Inr (host, port) \<Rightarrow>
               if host = [] then Inl EmptyHost
               else case parse_radix 10 65535 port of
                      Some p \<Rightarrow> Inr (Domain host (of_nat p))
                    | None \<Rightarrow> Inl BadPort))"

definition ipv6_segments :: "u128 \<Rightarrow> u16 list" where
  "ipv6_segments w = map (\<lambda>k. ucast (drop_bit (16 * k) w)) [7, 6, 5, 4, 3, 2, 1, 0]"

fun show_hex :: "nat \<Rightarrow> string" where
  "show_hex n =
     (if n < 16 then [''0123456789abcdef'' ! n] else show_hex (n div 16) @ [''0123456789abcdef'' ! (n mod 16)])"

declare show_hex.simps [simp del]

fun join_colon :: "string list \<Rightarrow> string" where
  "join_colon [] = []"
| "join_colon [x] = x"
| "join_colon (x # xs) = x @ '':'' @ join_colon xs"

text \<open>The first longest run of zero segments, as start and length.\<close>

fun zero_span :: "nat \<Rightarrow> nat \<times> nat \<Rightarrow> nat \<times> nat \<Rightarrow> u16 list \<Rightarrow> nat \<times> nat" where
  "zero_span i cur longest [] = longest"
| "zero_span i cur longest (g # gs) =
     (if g = 0 then
        let cur = (if snd cur = 0 then i else fst cur, snd cur + 1)
        in zero_span (i + 1) cur (if snd longest < snd cur then cur else longest) gs
      else zero_span (i + 1) (0, 0) longest gs)"

definition show_ipv6 :: "u128 \<Rightarrow> string" where
  "show_ipv6 w =
     (let gs = ipv6_segments w;
          hexes = \<lambda>l. join_colon (map (\<lambda>g. show_hex (unat g)) l)
      in if take 6 gs = [0, 0, 0, 0, 0, - 1] then ''::ffff:'' @ show_ipv4 (ucast w)
         else case zero_span 0 (0, 0) (0, 0) gs of
                (start, len) \<Rightarrow>
                  if 1 < len then hexes (take start gs) @ ''::'' @ hexes (drop (start + len) gs)
                  else hexes gs)"

fun address_port :: "address \<Rightarrow> u16" where
  "address_port (Domain h p) = p"
| "address_port (Socket a p scope) = p"

fun host_port :: "address \<Rightarrow> string" where
  "host_port (Domain h p) = join_host_port h p"
| "host_port (Socket (V4 a) p scope) = show_ipv4 a @ '':'' @ show_nat (unat p)"
| "host_port (Socket (V6 a) p scope) =
     ''['' @ show_ipv6 a @ (if scope = 0 then [] else ''%'' @ show_nat (unat scope)) @ '']:'' @ show_nat (unat p)"

text \<open>A name that is no address is read back from what is printed for it.\<close>

lemma domain_reads_back:
  assumes "h \<noteq> []" "hd h \<noteq> CHR ''[''" "parse_ipv6 h = None" "parse_socket_addr (host_port (Domain h p)) = None"
  shows "address_parse (host_port (Domain h p)) = Inr (Domain h p)"
proof -
  have split: "rsplit_once (CHR '':'') (h @ CHR '':'' # show_nat (unat p)) = Some (h, show_nat (unat p))"
    using show_nat_notin [of "CHR '':''" "unat p"] by (simp add: rsplit_once_Some)
  have port: "parse_radix 10 65535 (show_nat (unat p)) = Some (unat p)"
    using unsigned_less [of p, where ?'a = nat] by (intro parse_show_nat) simp
  have "strip_prefix ''['' (h @ CHR '':'' # show_nat (unat p)) = None"
    using assms(1,2) by (cases h) auto
  with assms split port show ?thesis
    by (simp add: address_parse_def join_host_port_def opt_result_def)
qed

subsection \<open>Connecting\<close>

text \<open>What lies outside is given: \<open>dial\<close> opens a plain TCP connection, \<open>tunnel k\<close> is what the pool
hands out at the \<open>k\<close>-th attempt, \<open>send t hdr\<close> the error of writing to it.\<close>

datatype 'e connect_error =
    Refused string
  | TargetTooLong nat
  | NoTunnel "'e option"
  | DialError 'e
  | NoLeaf string

datatype ('d, 't) out_stream = DirectStream 'd | MirageStream 't

fun try_tunnels :: "(nat \<Rightarrow> ('e, 't) result) \<Rightarrow> ('t \<Rightarrow> bytes \<Rightarrow> 'e option) \<Rightarrow> bytes \<Rightarrow> nat list
    \<Rightarrow> 'e option \<Rightarrow> ('e option, 't) result" where
  "try_tunnels tunnel send hdr [] last_err = Inl last_err"
| "try_tunnels tunnel send hdr (k # ks) last_err =
     (case tunnel k of
        Inl e \<Rightarrow> try_tunnels tunnel send hdr ks (Some e)
      | Inr t \<Rightarrow>
          (case send t hdr of
             None \<Rightarrow> Inr t
           | Some e \<Rightarrow> try_tunnels tunnel send hdr ks (Some e)))"

definition target_header :: "string \<Rightarrow> bytes option" where
  "target_header hp =
     (let tb = bytes_of hp
      in if 65535 < length tb then None else Some (be16 (of_nat (length tb)) @ tb))"

definition node_connect :: "(address \<Rightarrow> ('e, 'd) result) \<Rightarrow> (nat \<Rightarrow> nat \<Rightarrow> ('e, 't) result)
    \<Rightarrow> ('t \<Rightarrow> bytes \<Rightarrow> 'e option) \<Rightarrow> address \<Rightarrow> outbound_node \<Rightarrow> ob_state
    \<Rightarrow> ('e connect_error, ('d, 't) out_stream) result \<times> ob_state" where
  "node_connect dial tunnel send target n s =
     (case resolve_leaf n s of
        (leaf, s1) \<Rightarrow>
          (case leaf of
             Direct tag \<Rightarrow>
               (case dial target of Inl e \<Rightarrow> Inl (DialError e) | Inr d \<Rightarrow> Inr (DirectStream d))
           | Block tag \<Rightarrow> Inl (Refused tag)
           | Mirage i tag cfg u \<Rightarrow>
               (case target_header (host_port target) of
                  None \<Rightarrow> Inl (TargetTooLong (length (host_port target)))
                | Some hdr \<Rightarrow>
                    (case try_tunnels (tunnel i) send hdr [0, 1] None of
                       Inl e \<Rightarrow> Inl (NoTunnel e)
                     | Inr t \<Rightarrow> Inr (MirageStream t)))
           | other \<Rightarrow> Inl (NoLeaf (node_tag other)), s1))"

text \<open>A half-dead tunnel costs one retry: if either of the first two tunnels takes the header, the
connection stands.\<close>

lemma connect_retries:
  assumes "resolve_leaf n s = (Mirage i tag cfg u, s1)" "target_header (host_port target) = Some hdr"
    and "k < 2" "tunnel i k = Inr t" "send t hdr = None"
  shows "\<exists>t'. fst (node_connect dial tunnel send target n s) = Inr (MirageStream t') \<and> send t' hdr = None"
proof -
  have "k = 0 \<or> k = 1" using assms(3) by auto
  then have "\<exists>t'. try_tunnels (tunnel i) send hdr [0, 1] None = Inr t' \<and> send t' hdr = None"
    using assms(4,5) by (auto split: sum.splits option.splits)
  then show ?thesis using assms(1,2) by (auto simp: node_connect_def)
qed

text \<open>What the tunnel is told is the target, with its length before it.\<close>

lemma target_header_reads_back:
  "target_header hp = Some hdr \<Longrightarrow>
     unat (of_be16 (hdr ! 0) (hdr ! 1)) = length hp \<and> drop 2 hdr = bytes_of hp"
proof -
  assume *: "target_header hp = Some hdr"
  then have n: "length hp < 2 ^ 16" and hdr: "hdr = be16 (of_nat (length hp)) @ bytes_of hp"
    by (auto simp: target_header_def Let_def bytes_of_def split: if_splits)
  have "unat (of_nat (length hp) :: u16) = length hp" using n by (simp add: unat_of_nat)
  then show ?thesis by (simp add: hdr be16_def of_be16_be16 numeral_2_eq_2)
qed

end
