(* ===== verification/Engine.thy ===== *)
theory Engine
  imports Monitor Outbound Failover Dns
begin

text \<open>\<open>engine.rs\<close>: the engine owns the outbounds and the fake-IP mapper; making one resets the
process-wide state that it shares with its predecessors (the monitor, the direct DNS cache, the
UDP multiplexing switch), which is the state \<open>core\<close> here.\<close>

definition fake_ip_cidr :: string where "fake_ip_cidr = ''198.18.0.0/16''"
definition tun_addr_v4 :: string where "tun_addr_v4 = ''198.18.0.1''"
definition tun_dns_v4 :: string where "tun_dns_v4 = ''198.19.0.53''"
definition tun_peer_v4 :: string where "tun_peer_v4 = ''198.18.0.2''"

record core =
  co_monitor :: monitor
  co_dns_cache :: dns_cache
  co_udp_mux :: bool
  co_udp_mux_tunnels :: nat

record engine =
  en_outbounds :: ob_manager
  en_fake_ip :: fake_ip_mapper
  en_default_tag :: string

datatype engine_error =
    OutboundsFailed "outbound_config list"
  | FakeIpFailed fake_ip_error

definition set_udp_mux :: "bool \<Rightarrow> nat \<Rightarrow> core \<Rightarrow> core" where
  "set_udp_mux enabled tunnels co = co\<lparr>co_udp_mux := enabled, co_udp_mux_tunnels := max tunnels 1\<rparr>"

definition clear_direct_cache :: "core \<Rightarrow> core" where
  "clear_direct_cache co = co\<lparr>co_dns_cache := Map.empty\<rparr>"

definition reset_core :: "core \<Rightarrow> core" where
  "reset_core co = clear_direct_cache (co\<lparr>co_monitor := reset_session (co_monitor co)\<rparr>)"

definition from_config ::
    "outbound_config list \<Rightarrow> string \<Rightarrow> core \<Rightarrow> (engine_error, engine) result \<times> core" where
  "from_config cfg default_tag co =
     (case manager_new cfg of
        Inl left \<Rightarrow> Inl (OutboundsFailed left)
      | Inr mgr \<Rightarrow>
          (case fake_ip_new fake_ip_cidr of
             Inl e \<Rightarrow> Inl (FakeIpFailed e)
           | Inr fake \<Rightarrow> Inr \<lparr>en_outbounds = mgr, en_fake_ip = fake, en_default_tag = default_tag\<rparr>),
      reset_core co)"

definition node_config :: "node_info \<Rightarrow> outbound_config list" where
  "node_config node =
     single_mirage_config (ni_tag node) (ni_server node) (of_nat (ni_server_port node)) (ni_password node)
       (ni_sni node) (ni_pool_size node) (ni_pfs node) (ni_udp_mux node)"

definition engine_new :: "node_info \<Rightarrow> core \<Rightarrow> (engine_error, engine) result \<times> core" where
  "engine_new node co =
     (case from_config (node_config node) (ni_tag node) co of
        (r, co') \<Rightarrow> (r, set_udp_mux (ni_udp_mux node) 4 co'))"

definition default_node :: "engine \<Rightarrow> outbound_node option" where
  "default_node eng = manager_get (en_outbounds eng) (en_default_tag eng)"

definition engine_state :: "engine \<Rightarrow> ob_state" where
  "engine_state eng = om_state (en_outbounds eng)"

definition with_outbounds :: "(ob_manager \<Rightarrow> ob_manager) \<Rightarrow> engine \<Rightarrow> engine" where
  "with_outbounds f eng = eng\<lparr>en_outbounds := f (en_outbounds eng)\<rparr>"

definition engine_connect :: "(address \<Rightarrow> ('e, 'd) result) \<Rightarrow> (nat \<Rightarrow> nat \<Rightarrow> ('e, 't) result)
    \<Rightarrow> ('t \<Rightarrow> bytes \<Rightarrow> 'e option) \<Rightarrow> address \<Rightarrow> engine
    \<Rightarrow> ('e connect_error, ('d, 't) out_stream) result option \<times> engine" where
  "engine_connect dial tunnel send target eng =
     (case default_node eng of
        None \<Rightarrow> (None, eng)
      | Some node \<Rightarrow>
          (case node_connect dial tunnel send target node (engine_state eng) of
             (r, s) \<Rightarrow> (Some r, with_outbounds (\<lambda>m. m\<lparr>om_state := s\<rparr>) eng)))"

definition fake_ip_allocate :: "(string \<Rightarrow> string) \<Rightarrow> string \<Rightarrow> engine \<Rightarrow> u32 option \<times> engine" where
  "fake_ip_allocate lc domain eng =
     (case lookup_or_assign lc domain (en_fake_ip eng) of
        (ip, fake) \<Rightarrow> (Some ip, eng\<lparr>en_fake_ip := fake\<rparr>))"

definition tunnel_stall_limit :: u64 where "tunnel_stall_limit = 30"

definition tunnel_stalled :: "nat \<Rightarrow> u64 option \<Rightarrow> u64 \<Rightarrow> bool" where
  "tunnel_stalled conns stall threshold \<longleftrightarrow>
     0 < conns \<and> (case stall of Some s \<Rightarrow> threshold \<le> s | None \<Rightarrow> False)"

definition engine_is_healthy :: "u64 \<Rightarrow> core \<Rightarrow> engine \<Rightarrow> bool" where
  "engine_is_healthy now co eng =
     (case default_node eng of
        None \<Rightarrow> False
      | Some node \<Rightarrow>
          if \<not> is_healthy (engine_state eng) node then False
          else \<not> tunnel_stalled (tunnel_conn_count (co_monitor co))
                   (tunnel_stall_secs now (co_monitor co)) tunnel_stall_limit)"

definition engine_latency_ms :: "engine \<Rightarrow> u64 option \<times> engine" where
  "engine_latency_ms eng =
     (case default_node eng of
        None \<Rightarrow> (None, eng)
      | Some node \<Rightarrow>
          (case latency_of True node (engine_state eng) of
             (l, s) \<Rightarrow> (l, with_outbounds (\<lambda>m. m\<lparr>om_state := s\<rparr>) eng)))"

definition engine_set_pool_size :: "nat \<Rightarrow> engine \<Rightarrow> engine" where
  "engine_set_pool_size new_size = with_outbounds (manager_set_pool_size new_size)"

definition reset_dns_and_fake_ip :: "core \<times> engine \<Rightarrow> core \<times> engine" where
  "reset_dns_and_fake_ip s =
     (case s of (co, eng) \<Rightarrow> (reset_core co, eng\<lparr>en_fake_ip := fi_clear (en_fake_ip eng)\<rparr>))"

definition flush_pool :: "(nat \<Rightarrow> bool) \<Rightarrow> engine \<Rightarrow> engine" where
  "flush_pool locked = with_outbounds (manager_purge_idle locked)"

definition engine_shutdown :: "(nat \<Rightarrow> bool) \<Rightarrow> engine \<Rightarrow> engine" where
  "engine_shutdown locked = with_outbounds (manager_shutdown locked)"

fun node_kind :: "outbound_node \<Rightarrow> string" where
  "node_kind (Mirage i tag cfg u) = ''mirage''"
| "node_kind (outbound_node.Direct tag) = ''direct''"
| "node_kind (outbound_node.Block tag) = ''block''"
| "node_kind (Urltest i tag cs tol tt) = ''urltest''"
| "node_kind (Fallback tag cs) = ''fallback''"
| "node_kind (Selector i tag cs) = ''selector''"
| "node_kind (LoadBalance i tag cs) = ''load_balance''"

definition list_outbounds :: "engine \<Rightarrow> (string \<times> string) list" where
  "list_outbounds eng = map (\<lambda>(tag, node). (tag, node_kind node)) (om_table (en_outbounds eng))"

subsection \<open>A new engine\<close>

lemma fake_range: "fake_ip_new fake_ip_cidr = Inr (empty_mapper 0xC6120000 16 None)"
proof -
  have p: "parse_ipv4 ''198.18.0.0'' = Some 0xC6120000" "parse_radix 10 4294967295 ''16'' = Some 16"
    "split_char (CHR ''/'') fake_ip_cidr = [''198.18.0.0'', ''16'']"
    by (simp_all add: fake_ip_cidr_def parse_ipv4_def read_ipv4_addr_def read_octet_def read_sep_octet_def
        read_number_def is_radix_digit_def to_digit_def read_given_char_def of_be32_def parse_radix_def)
  show ?thesis
    by (simp only: fake_ip_new_def with_persist_def p list.case opt_result_simps bind_result_simps
        empty_mapper_def Let_def option.case) simp
qed

definition node_settings :: "node_info \<Rightarrow> mirage_settings" where
  "node_settings node =
     \<lparr>ms_server = ni_server node, ms_server_port = of_nat (ni_server_port node),
      ms_password = ni_password node, ms_camouflage_host = ni_sni node, ms_pool_size = ni_pool_size node,
      ms_brutal_rate_mbps = None, ms_brutal_base_rtt_ms = None, ms_pfs = ni_pfs node,
      ms_udp_mux = ni_udp_mux node, ms_udp_mux_tunnels = 4\<rparr>"

lemma single_manager:
  assumes "ni_tag node \<noteq> ''direct''" "ni_tag node \<noteq> ''block''"
  shows "\<exists>mgr. manager_new (node_config node) = Inr mgr
    \<and> om_table mgr = [(ni_tag node, Mirage 0 (ni_tag node) (node_settings node) None),
        (''direct'', outbound_node.Direct ''direct''), (''block'', outbound_node.Block ''block'')]
    \<and> ob_pools (om_state mgr) 0 = pool_new (ni_pool_size node)"
  using assms
  by (auto simp: manager_new_def node_config_def single_mirage_config_def build_mirage_def insert_node_def
      add_implicit_def pass2.simps [of "[]"] node_settings_def Let_def)

lemma uri_tag: "ni_tag (from_node_uri u) \<noteq> ''direct''" "ni_tag (from_node_uri u) \<noteq> ''block''"
  by (simp_all add: from_node_uri_def)

text \<open>For every node URI the engine is built (\<open>Engine::new\<close> of \<open>NodeInfo::from_node_uri\<close>,
engine.rs): its default outbound is the Mirage node of that URI with a fresh pool of the
requested size, its fake-IP mapper is empty, and nothing of an earlier session is left in the
monitor, the DNS cache or the multiplexing switch.\<close>
theorem engine_from_uri:
  "\<exists>eng co'. engine_new (from_node_uri u) co = (Inr eng, co')
     \<and> default_node eng = Some (Mirage 0 (ni_tag (from_node_uri u)) (node_settings (from_node_uri u)) None)
     \<and> ob_pools (engine_state eng) 0 = pool_new (ni_pool_size (from_node_uri u))
     \<and> en_fake_ip eng = empty_mapper 0xC6120000 16 None
     \<and> mn_conns (co_monitor co') = [] \<and> mn_tunnel_active (co_monitor co') = 0
     \<and> co_dns_cache co' = Map.empty
     \<and> co_udp_mux co' = ni_udp_mux (from_node_uri u)"
proof -
  obtain mgr where mgr: "manager_new (node_config (from_node_uri u)) = Inr mgr"
    "om_table mgr = [(ni_tag (from_node_uri u), Mirage 0 (ni_tag (from_node_uri u)) (node_settings (from_node_uri u)) None),
        (''direct'', outbound_node.Direct ''direct''), (''block'', outbound_node.Block ''block'')]"
    "ob_pools (om_state mgr) 0 = pool_new (ni_pool_size (from_node_uri u))"
    using single_manager [OF uri_tag] by blast
  then show ?thesis
    by (simp add: engine_new_def from_config_def fake_range default_node_def manager_get_def engine_state_def
        set_udp_mux_def reset_core_def clear_direct_cache_def reset_session_def)
qed

text \<open>The test for a stalled tunnel never fires (\<open>Engine::is_healthy\<close>, engine.rs): it counts the
live connections whose outbound label contains two Chinese characters, and the data plane records
none with such a label, so over every run the engine is as healthy as the count of failed dials
of its default node says, however long its tunnels have been silent.\<close>
theorem stall_test_is_dead:
  assumes "list_all dataplane_op ops" "co_monitor co = fold monitor_step ops monitor_init"
  shows "engine_is_healthy now co eng
    = (case default_node eng of Some node \<Rightarrow> is_healthy (engine_state eng) node | None \<Rightarrow> False)"
  using no_tunnels_counted [OF assms(1)] assms(2)
  by (simp add: engine_is_healthy_def tunnel_stalled_def split: option.splits)

definition silent_tunnel :: "monitor_op list" where
  "silent_tunnel = [Start 100 ''TCP'' ''a:443'' ''1.1.1.1'' ''MATCH'' ''PROXY'' None, TunnelActive 101]"

theorem stall_test_is_dead_witness:
  "\<forall>u co. \<exists>eng co'. engine_new (from_node_uri u) co = (Inr eng, co')
     \<and> engine_is_healthy 100000 (co'\<lparr>co_monitor := fold monitor_step silent_tunnel monitor_init\<rparr>) eng"
proof (intro allI)
  fix u and co :: core
  obtain mgr where mgr: "manager_new (node_config (from_node_uri u)) = Inr mgr"
    "om_table mgr = [(ni_tag (from_node_uri u), Mirage 0 (ni_tag (from_node_uri u)) (node_settings (from_node_uri u)) None),
        (''direct'', outbound_node.Direct ''direct''), (''block'', outbound_node.Block ''block'')]"
    "ob_pools (om_state mgr) 0 = pool_new (ni_pool_size (from_node_uri u))"
    using single_manager [OF uri_tag] by blast
  have ops: "list_all dataplane_op silent_tunnel" by (simp add: silent_tunnel_def dataplane_labels_def)
  show "\<exists>eng co'. engine_new (from_node_uri u) co = (Inr eng, co')
     \<and> engine_is_healthy 100000 (co'\<lparr>co_monitor := fold monitor_step silent_tunnel monitor_init\<rparr>) eng"
    using mgr
    by (simp add: stall_test_is_dead [OF ops] engine_new_def from_config_def fake_range default_node_def
        manager_get_def engine_state_def pool_new_def stats_new_def stats_healthy_def Let_def)
qed

text \<open>A change of the pool size goes through to the default node's pool.\<close>

lemma engine_resizes_default:
  assumes "default_node eng = Some (Mirage i tag cfg u)"
  shows "ob_pools (engine_state (engine_set_pool_size k eng)) i = set_pool_size k (ob_pools (engine_state eng) i)"
proof -
  have "(en_default_tag eng, Mirage i tag cfg u) \<in> set (om_table (en_outbounds eng))"
    using assms by (auto simp: default_node_def manager_get_def dest: map_of_SomeD)
  then have "i \<in> pool_ids (en_outbounds eng)" by (force simp: pool_ids_def)
  then show ?thesis
    using resize.manager_pools_once [of k "en_outbounds eng" i]
    by (simp add: engine_state_def engine_set_pool_size_def with_outbounds_def manager_set_pool_size_def
        node_set_pool_size_def)
qed

end
