(* ===== verification/TunStack.thy ===== *)
theory TunStack
  imports TunDevice Packets FlowPath Engine
begin

text \<open>\<open>tun/mod.rs\<close>: where an inbound packet goes, the sockets made for new TCP connections and swept
away later, the echo replies for fake addresses, the pump, and the life of the stack with its
descriptors. The IP stack itself (smoltcp) is a parameter: its packet views, its slot for a new
socket and its \<open>poll\<close>. Clocks are arguments, in milliseconds unless said otherwise.\<close>

definition tun_mtu :: nat where "tun_mtu = 1400"
definition sock_buf :: nat where "sock_buf = 256 * 1024"
definition catcher_ttl :: nat where "catcher_ttl = 15000"

subsection \<open>Packet views\<close>

record wire =
  wi_ip4 :: "bytes \<Rightarrow> (nat \<times> u32 \<times> u32 \<times> bytes) option"
  wi_ip6 :: "bytes \<Rightarrow> (nat \<times> u128 \<times> u128 \<times> bytes) option"
  wi_udp :: "bytes \<Rightarrow> (u16 \<times> u16 \<times> bytes) option"
  wi_tcp :: "bytes \<Rightarrow> (bool \<times> bool \<times> u16 \<times> u16) option"

text \<open>\<open>new_checked\<close> of the IP version that the packet names, with protocol, addresses and payload.\<close>

definition ip_view :: "wire \<Rightarrow> bytes \<Rightarrow> (nat \<times> ip_addr \<times> ip_addr \<times> bytes) option" where
  "ip_view w pkt =
     (if pkt = [] then None
      else if drop_bit 4 (hd pkt) = 4 then map_option (\<lambda>(n, s, d, p). (n, V4 s, V4 d, p)) (wi_ip4 w pkt)
      else if drop_bit 4 (hd pkt) = 6 then map_option (\<lambda>(n, s, d, p). (n, V6 s, V6 d, p)) (wi_ip6 w pkt)
      else None)"

definition parse_udp_datagram :: "wire \<Rightarrow> bytes \<Rightarrow> (sock_addr \<times> sock_addr \<times> bytes) option" where
  "parse_udp_datagram w pkt =
     (case ip_view w pkt of
        None \<Rightarrow> None
      | Some (proto, src, dst, payload) \<Rightarrow>
          if proto \<noteq> 17 then None
          else map_option (\<lambda>(sp, dp, p). ((src, sp), (dst, dp), p)) (wi_udp w payload))"

subsection \<open>Sockets\<close>

datatype tcp_state =
    Closed | Listen | SynSent | SynReceived | Established | FinWait1 | FinWait2 | CloseWait
  | Closing | LastAck | TimeWait

record tcp_sock =
  tk_state :: tcp_state
  tk_local :: "sock_addr option"
  tk_remote :: "sock_addr option"
  tk_listen :: "sock_addr option"
  tk_buf :: nat
  tk_keep_alive :: "nat option"

record tun_inner =
  ti_device :: tun_device
  ti_sockets :: "(nat \<times> tcp_sock) list"
  ti_created :: "(nat, nat) map"

text \<open>The parts of smoltcp that the stack calls: \<open>SocketSet::add\<close> picks a slot, \<open>listen\<close> may fail,
\<open>Interface::poll\<close> is given a timestamp in microseconds.\<close>

record ip_stack =
  is_slot :: "(nat \<times> tcp_sock) list \<Rightarrow> nat"
  is_listen :: "tcp_sock \<Rightarrow> sock_addr \<Rightarrow> tcp_sock option"
  is_poll :: "nat \<Rightarrow> tun_inner \<Rightarrow> tun_inner"

datatype rx_event =
    DnsQuery sock_addr sock_addr bytes
  | UdpFeed sock_addr sock_addr bytes bytes
  | WriteRaw bytes
  | SpawnRelay bool nat

definition new_catcher :: "bool \<Rightarrow> tcp_sock" where
  "new_catcher is_dns =
     \<lparr>tk_state = Closed, tk_local = None, tk_remote = None, tk_listen = None,
      tk_buf = (if is_dns then 4 * 1024 else sock_buf),
      tk_keep_alive = (if is_dns then None else Some 45)\<rparr>"

definition same_connection :: "sock_addr \<Rightarrow> sock_addr \<Rightarrow> tcp_sock \<Rightarrow> bool" where
  "same_connection src dst t \<longleftrightarrow> tk_local t = Some dst \<and> tk_remote t = Some src"

definition prescan_tcp ::
    "wire \<Rightarrow> ip_stack \<Rightarrow> nat \<Rightarrow> ip_addr \<Rightarrow> ip_addr \<Rightarrow> bytes \<Rightarrow> tun_inner \<Rightarrow> rx_event list \<times> tun_inner" where
  "prescan_tcp w st now src dst payload g =
     (case wi_tcp w payload of
        None \<Rightarrow> ([], g)
      | Some (syn, ack, src_port, dst_port) \<Rightarrow>
          if \<not> syn \<or> ack then ([], g)
          else if dst_port = 0 \<or> src_port = 0 then ([], g)
          else if list_ex (\<lambda>(h, t). same_connection (src, src_port) (dst, dst_port) t) (ti_sockets g) then ([], g)
          else
            let is_dns = (dst_port = 53);
                handle = is_slot st (ti_sockets g)
            in case is_listen st (new_catcher is_dns) (dst, dst_port) of
                 None \<Rightarrow> ([], g)
               | Some sock \<Rightarrow>
                   ([SpawnRelay is_dns handle],
                    g\<lparr>ti_sockets := AList.update handle sock (ti_sockets g),
                      ti_created := (ti_created g)(handle \<mapsto> now)\<rparr>))"

definition prescan :: "wire \<Rightarrow> ip_stack \<Rightarrow> nat \<Rightarrow> bytes \<Rightarrow> tun_inner \<Rightarrow> rx_event list \<times> tun_inner" where
  "prescan w st now pkt g =
     (case ip_view w pkt of
        None \<Rightarrow> ([], g)
      | Some (proto, src, dst, payload) \<Rightarrow>
          if proto = 6 then prescan_tcp w st now src dst payload g else ([], g))"

text \<open>\<open>sweep\<close>: \<open>age\<close> is the time of creation, \<open>now\<close> for a socket without one.\<close>

definition is_stale :: "nat \<Rightarrow> nat \<Rightarrow> tcp_sock \<Rightarrow> bool" where
  "is_stale now age t \<longleftrightarrow>
     (tk_state t = Listen \<and> tk_remote t = None \<and> catcher_ttl \<le> now - age)
     \<or> (tk_state t \<in> {Closed, TimeWait} \<and> 2000 \<le> now - age)
     \<or> (tk_state t \<in> {FinWait1, FinWait2, Closing} \<and> 15000 \<le> now - age)"

definition sweep :: "nat \<Rightarrow> tun_inner \<Rightarrow> tun_inner" where
  "sweep now g =
     (let stale = map fst (filter (\<lambda>(h, t). is_stale now (case ti_created g h of Some c \<Rightarrow> c | None \<Rightarrow> now) t)
                             (ti_sockets g))
      in g\<lparr>ti_sockets := filter (\<lambda>(h, t). h \<notin> set stale) (ti_sockets g),
           ti_created := (\<lambda>h. if h \<in> set stale then None else ti_created g h)\<rparr>)"

subsection \<open>Echo replies\<close>

text \<open>\<open>mp\<close> is the mapper of the current engine.\<close>

definition echo_is_fake :: "fake_ip_mapper \<Rightarrow> u32 \<Rightarrow> bool" where
  "echo_is_fake mp dst \<longleftrightarrow>
     fake_ip_reverse (V4 dst) mp \<noteq> None
     \<or> (case ipv4_octets dst of (a, b, _, _) \<Rightarrow> a = 198 \<and> b AND 0xFE = 18)"

definition handle_fake_ip_icmp_echo :: "fake_ip_mapper \<Rightarrow> bytes \<Rightarrow> bytes option" where
  "handle_fake_ip_icmp_echo mp pkt =
     (if length pkt < 28 then None
      else if drop_bit 4 (pkt ! 0) \<noteq> 4 then None
      else
        let ihl = unat (pkt ! 0 AND 0x0F) * 4
        in if ihl < 20 \<or> length pkt < ihl + 8 then None
           else if pkt ! 9 \<noteq> 1 then None
           else if \<not> echo_is_fake mp (of_be32 (pkt ! 16) (pkt ! 17) (pkt ! 18) (pkt ! 19)) then None
           else if pkt ! ihl \<noteq> 8 \<or> pkt ! (ihl + 1) \<noteq> 0 then None
           else
             let src_bytes = [pkt ! 12, pkt ! 13, pkt ! 14, pkt ! 15];
                 dst_bytes = [pkt ! 16, pkt ! 17, pkt ! 18, pkt ! 19];
                 r = put 12 dst_bytes pkt;
                 r = put 16 src_bytes r;
                 r = put 10 [0, 0] r;
                 r = put 10 (be16 (checksum (take ihl r))) r;
                 r = r[ihl := 0];
                 r = put (ihl + 2) [0, 0] r
             in Some (put (ihl + 2) (be16 (checksum (drop ihl r))) r))"

subsection \<open>Dispatch and pump\<close>

text \<open>\<open>smol_now(Instant::now())\<close>: the argument is read at \<open>start\<close>, the clock again at \<open>now\<close>.\<close>

definition smol_now :: "nat \<Rightarrow> nat \<Rightarrow> nat" where
  "smol_now start now = now - start"

definition handle_rx_packet :: "wire \<Rightarrow> ip_stack \<Rightarrow> fake_ip_mapper \<Rightarrow> nat \<Rightarrow> nat \<Rightarrow> bytes \<Rightarrow> tun_inner
    \<Rightarrow> rx_event list \<times> tun_inner" where
  "handle_rx_packet w st mp now lag pkt g =
     (case parse_udp_datagram w pkt of
        Some (src, dst, payload) \<Rightarrow>
          if snd dst = 53 then ([DnsQuery src dst payload], g)
          else ([UdpFeed src dst payload pkt], g)
      | None \<Rightarrow>
          (case handle_fake_ip_icmp_echo mp pkt of
             Some reply \<Rightarrow> ([WriteRaw reply], g)
           | None \<Rightarrow>
               (case prescan w st now pkt g of
                  (evs, g1) \<Rightarrow>
                    (evs, is_poll st (smol_now (1000 * now) (1000 * now + lag))
                            (g1\<lparr>ti_device := push_rx pkt (ti_device g1)\<rparr>)))))"

text \<open>\<open>poll_now\<close>, and \<open>drain_tx\<close> up to the writes.\<close>

definition poll_now :: "ip_stack \<Rightarrow> nat \<Rightarrow> nat \<Rightarrow> tun_inner \<Rightarrow> tun_inner" where
  "poll_now st now lag g = is_poll st (smol_now (1000 * now) (1000 * now + lag)) g"

definition drain_tx :: "tun_inner \<Rightarrow> bytes list \<times> tun_inner" where
  "drain_tx g = (dv_tx (ti_device g), g\<lparr>ti_device := (ti_device g)\<lparr>dv_tx := []\<rparr>\<rparr>)"

text \<open>A write to the descriptor: again at most three times while it would block.\<close>

datatype write_result = Written | WouldBlock | WriteError

fun write_packet :: "nat \<Rightarrow> write_result list \<Rightarrow> bool \<times> write_result list" where
  "write_packet retries [] = (False, [])"
| "write_packet retries (r # rs) =
     (case r of
        Written \<Rightarrow> (True, rs)
      | WouldBlock \<Rightarrow> if retries < 3 then write_packet (Suc retries) rs else (False, rs)
      | WriteError \<Rightarrow> (False, rs))"

definition pump_batch :: "wire \<Rightarrow> ip_stack \<Rightarrow> fake_ip_mapper \<Rightarrow> nat \<Rightarrow> nat \<Rightarrow> bytes list \<Rightarrow> tun_inner
    \<Rightarrow> (rx_event list \<times> bytes list \<times> bytes list) \<times> tun_inner" where
  "pump_batch w st mp now lag waiting g =
     (let batch = take 33 waiting;
          (evs, g1) = fold (\<lambda>pkt (evs, g). case handle_rx_packet w st mp now lag pkt g of (e, g') \<Rightarrow> (evs @ e, g'))
                        batch ([], g);
          (out, g2) = drain_tx g1
      in ((evs, out, drop 33 waiting), sweep now g2))"

definition pump_tick :: "nat \<Rightarrow> tun_inner \<Rightarrow> bytes list \<times> tun_inner" where
  "pump_tick now g = (case drain_tx g of (out, g1) \<Rightarrow> (out, sweep now g1))"

subsection \<open>What an echo reply is\<close>

lemma list_parts:
  assumes "20 \<le> ihl" "ihl + 8 \<le> length pkt"
  obtains h c s d opts ty k rest where
    "pkt = h @ c @ s @ d @ opts @ ty @ k @ rest" "length h = 10" "length c = 2" "length s = 4" "length d = 4"
    "length opts = ihl - 20" "length ty = 2" "length k = 2" "4 \<le> length rest"
proof -
  have td: "take n (drop a pkt) @ drop (a + n) pkt = drop a pkt" for a n
    by (metis append_take_drop_id drop_drop add.commute)
  have four_more: "ihl + 2 + 2 = ihl + 4" by simp
  have "drop 20 pkt = take (ihl - 20) (drop 20 pkt) @ drop ihl pkt" using td [of "ihl - 20" 20] assms by simp
  moreover have "drop ihl pkt = take 2 (drop ihl pkt) @ drop (ihl + 2) pkt" using td [of 2 ihl] by simp
  moreover have "drop (ihl + 2) pkt = take 2 (drop (ihl + 2) pkt) @ drop (ihl + 4) pkt"
    using td [of 2 "ihl + 2"] by (simp only: four_more)
  moreover have "drop 10 pkt = take 2 (drop 10 pkt) @ drop 12 pkt" "drop 12 pkt = take 4 (drop 12 pkt) @ drop 16 pkt"
    "drop 16 pkt = take 4 (drop 16 pkt) @ drop 20 pkt"
    using td [of 2 10] td [of 4 12] td [of 4 16] by simp_all
  ultimately have "pkt = take 10 pkt @ take 2 (drop 10 pkt) @ take 4 (drop 12 pkt) @ take 4 (drop 16 pkt)
      @ take (ihl - 20) (drop 20 pkt) @ take 2 (drop ihl pkt) @ take 2 (drop (ihl + 2) pkt) @ drop (ihl + 4) pkt"
    by (metis append_take_drop_id)
  then show ?thesis
    by (rule that) (use assms in simp_all)
qed

definition echo_request :: "fake_ip_mapper \<Rightarrow> bytes \<Rightarrow> bool" where
  "echo_request mp pkt \<longleftrightarrow> handle_fake_ip_icmp_echo mp pkt \<noteq> None"

lemma even_ihl: "even (unat (b AND 0x0F) * 4)"
  by simp

lemma echo_reply_bytes:
  assumes "length h = 10" "length c = 2" "length s = 4" "length d = 4" "length opts = ihl - 20" "20 \<le> ihl"
    "even ihl" "length ty = 2" "length k = 2" "4 \<le> length rest"
    "length (h @ c @ s @ d @ opts @ ty @ k @ rest) \<le> 65536"
    and pkt: "pkt = h @ c @ s @ d @ opts @ ty @ k @ rest"
    and some: "handle_fake_ip_icmp_echo mp pkt = Some reply" "ihl = unat (pkt ! 0 AND 0x0F) * 4"
  shows "\<exists>c' k'. reply = h @ be16 c' @ d @ s @ opts @ [0, 0] @ be16 k' @ rest
    \<and> checksum (h @ be16 c' @ d @ s @ opts) = 0 \<and> checksum ([0, 0] @ be16 k' @ rest) = 0"
proof -
  have four: "[x ! a, x ! (a + 1), x ! (a + 2), x ! (a + 3)] = m" if "x = l @ m @ r" "length l = a" "length m = 4"
    for x l m r :: bytes and a
    using that by (auto simp: nth_append numeral_eq_Suc length_Suc_conv)
  have bytes: "[pkt ! 12, pkt ! 13, pkt ! 14, pkt ! 15] = s" "[pkt ! 16, pkt ! 17, pkt ! 18, pkt ! 19] = d"
    using four [of pkt "h @ c" s "d @ opts @ ty @ k @ rest" 12] four [of pkt "h @ c @ s" d "opts @ ty @ k @ rest" 16] assms
    by simp_all
  have head: "length (h @ c @ s @ d @ opts) = ihl" using assms by simp
  have guards: "28 \<le> length pkt" "drop_bit 4 (pkt ! 0) = 4" "ihl + 8 \<le> length pkt"
    "pkt ! 9 = 1" "echo_is_fake mp (of_be32 (pkt ! 16) (pkt ! 17) (pkt ! 18) (pkt ! 19))" "pkt ! ihl = 8" "pkt ! (ihl + 1) = 0"
    using some(1) unfolding handle_fake_ip_icmp_echo_def Let_def some(2) [symmetric]
    by (auto split: if_splits)
  have "pkt = (h @ c @ s @ d @ opts) @ ty @ k @ rest" using pkt by simp
  then have "ty ! 0 = 8" "ty ! 1 = 0" using guards(6,7) head assms(8) by (auto simp: nth_append)
  then have ty: "ty = [8, 0]" using assms(8) by (auto simp: numeral_eq_Suc length_Suc_conv)
  note lens = assms(1-6,8-10)
  define c' where "c' = checksum (h @ [0, 0] @ d @ s @ opts)"
  define k' where "k' = checksum ([0, 0] @ [0, 0] @ rest)"
  define tl where "tl = opts @ ty @ k @ rest"
  have p1: "put 12 d pkt = h @ c @ d @ d @ tl"
    using put_at [of "h @ c" 12 d s "d @ tl"] lens by (simp add: tl_def pkt)
  have p2: "put 16 s (h @ c @ d @ d @ tl) = h @ c @ d @ s @ tl"
    using put_at [of "h @ c @ d" 16 s d tl] lens by simp
  have p3: "put 10 [0, 0] (h @ c @ d @ s @ tl) = h @ [0, 0] @ d @ s @ tl"
    using put_at [of h 10 "[0, 0]" c "d @ s @ tl"] lens by simp
  have t3: "take ihl (h @ [0, 0] @ d @ s @ tl) = h @ [0, 0] @ d @ s @ opts"
  proof -
    have "length (h @ [0, 0] @ d @ s @ opts) = ihl" using lens by simp
    then have "take ihl ((h @ [0, 0] @ d @ s @ opts) @ ty @ k @ rest) = h @ [0, 0] @ d @ s @ opts"
      by (metis append_eq_conv_conj)
    then show ?thesis by (simp add: tl_def)
  qed
  have p4: "put 10 (be16 c') (h @ [0, 0] @ d @ s @ tl) = h @ be16 c' @ d @ s @ tl"
    using put_at [of h 10 "be16 c'" "[0, 0]" "d @ s @ tl"] lens by simp
  have "length (h @ be16 c' @ d @ s @ opts) = ihl" using lens by simp
  then have p5: "(h @ be16 c' @ d @ s @ tl)[ihl := 0] = h @ be16 c' @ d @ s @ opts @ [0, 0] @ k @ rest"
    using list_update_append [of "h @ be16 c' @ d @ s @ opts" "ty @ k @ rest" ihl 0] by (simp add: tl_def ty)
  have p6: "put (ihl + 2) w (h @ be16 c' @ d @ s @ opts @ [0, 0] @ v @ rest)
      = h @ be16 c' @ d @ s @ opts @ [0, 0] @ w @ rest" if "length v = 2" "length w = 2" for v w
    using put_at [of "h @ be16 c' @ d @ s @ opts @ [0, 0]" "ihl + 2" w v rest] that lens by simp
  have d6: "drop ihl (h @ be16 c' @ d @ s @ opts @ [0, 0] @ [0, 0] @ rest) = [0, 0] @ [0, 0] @ rest"
  proof -
    have "length (h @ be16 c' @ d @ s @ opts) = ihl" using lens by simp
    then have "drop ihl ((h @ be16 c' @ d @ s @ opts) @ [0, 0] @ [0, 0] @ rest) = [0, 0] @ [0, 0] @ rest"
      by (metis append_eq_conv_conj)
    then show ?thesis by simp
  qed
  have p6a: "put (ihl + 2) [0, 0] (h @ be16 c' @ d @ s @ opts @ [0, 0] @ k @ rest)
      = h @ be16 c' @ d @ s @ opts @ [0, 0] @ [0, 0] @ rest"
    by (rule p6) (use lens in simp_all)
  have p6b: "put (ihl + 2) (be16 k') (h @ be16 c' @ d @ s @ opts @ [0, 0] @ [0, 0] @ rest)
      = h @ be16 c' @ d @ s @ opts @ [0, 0] @ be16 k' @ rest"
    by (rule p6) simp_all
  have "handle_fake_ip_icmp_echo mp pkt = Some (h @ be16 c' @ d @ s @ opts @ [0, 0] @ be16 k' @ rest)"
    unfolding handle_fake_ip_icmp_echo_def Let_def some(2) [symmetric] bytes p1 p2 p3 t3 c'_def [symmetric] p4 p5
      p6a d6 k'_def [symmetric] p6b
    using guards assms(6) by simp
  with some(1) have "reply = h @ be16 c' @ d @ s @ opts @ [0, 0] @ be16 k' @ rest" by simp
  moreover have "checksum (h @ be16 c' @ d @ s @ opts) = 0"
    unfolding c'_def using checksum_inserted [of h "d @ s @ opts"] lens assms(11) by simp
  moreover have "checksum ([0, 0] @ be16 k' @ rest) = 0"
    unfolding k'_def using checksum_inserted [of "[0, 0]" rest] lens assms(11) by simp
  ultimately show ?thesis by blast
qed

text \<open>The answer to a ping of a fake address (\<open>handle_fake_ip_icmp_echo\<close>, tun/mod.rs) is the
request with its addresses exchanged and the type set to echo reply; length, identifier,
sequence number and data are the sender's, and both checksums verify.\<close>
theorem echo_reply_correct:
  assumes "handle_fake_ip_icmp_echo mp pkt = Some reply" "length pkt \<le> 65536"
  defines "ihl \<equiv> unat (pkt ! 0 AND 0x0F) * 4"
  shows "length reply = length pkt \<and> take 10 reply = take 10 pkt
    \<and> take 4 (drop 12 reply) = take 4 (drop 16 pkt) \<and> take 4 (drop 16 reply) = take 4 (drop 12 pkt)
    \<and> take 2 (drop ihl reply) = [0, 0] \<and> drop (ihl + 4) reply = drop (ihl + 4) pkt
    \<and> checksum (take ihl reply) = 0 \<and> checksum (drop ihl reply) = 0"
proof -
  have g: "20 \<le> ihl" "ihl + 8 \<le> length pkt" "even ihl"
    using assms(1) by (auto simp: handle_fake_ip_icmp_echo_def Let_def ihl_def split: if_splits)
  obtain h c s d opts ty k rest where p: "pkt = h @ c @ s @ d @ opts @ ty @ k @ rest" and
    l: "length h = 10" "length c = 2" "length s = 4" "length d = 4" "length opts = ihl - 20" "length ty = 2"
      "length k = 2" "4 \<le> length rest"
    using list_parts [OF g(1,2)] .
  have "length (h @ c @ s @ d @ opts @ ty @ k @ rest) \<le> 65536" using assms(2) p by simp
  from echo_reply_bytes [OF l(1-5) g(1,3) l(6-8) this p assms(1) ihl_def [THEN meta_eq_to_obj_eq]]
  obtain c' k' where r: "reply = h @ be16 c' @ d @ s @ opts @ [0, 0] @ be16 k' @ rest"
    "checksum (h @ be16 c' @ d @ s @ opts) = 0" "checksum ([0, 0] @ be16 k' @ rest) = 0" by blast
  have "length (h @ be16 c' @ d @ s @ opts) = ihl" using l g(1) by simp
  then have t: "take ihl reply = h @ be16 c' @ d @ s @ opts" "drop ihl reply = [0, 0] @ be16 k' @ rest"
    using append_eq_conv_conj [of "h @ be16 c' @ d @ s @ opts" "[0, 0] @ be16 k' @ rest" reply] r(1) by simp_all
  have "drop (ihl + 4) reply = drop 4 (drop ihl reply)" by (simp add: add.commute)
  also have "\<dots> = rest" unfolding t(2) by (simp add: be16_def)
  finally have "drop (ihl + 4) reply = rest" .
  moreover have "drop (ihl + 4) pkt = rest" using l g(1) unfolding p by simp
  moreover have "take 4 (drop 12 reply) = d" "take 4 (drop 16 reply) = s" "take 10 reply = h" "length reply = length pkt"
    using l unfolding r(1) p by simp_all
  moreover have "take 4 (drop 16 pkt) = d" "take 4 (drop 12 pkt) = s" "take 10 pkt = h" using l unfolding p by simp_all
  moreover have "take 2 (drop ihl reply) = [0, 0]" unfolding t(2) by simp
  ultimately show ?thesis using r(2,3) t by simp
qed

definition demo_ping :: bytes where
  "demo_ping = [0x45, 0, 0, 28, 0, 0, 0, 0, 64, 1, 0, 0, 10, 0, 0, 1, 198, 18, 0, 2, 8, 0, 0, 0, 0, 1, 0, 7]"

lemma demo_ping_answered:
  "\<exists>reply. handle_fake_ip_icmp_echo (empty_mapper 0xC6120000 16 None) demo_ping = Some reply"
proof -
  have v: "drop_bit 4 (0x45 :: u8) = 4" "unat ((0x45 :: u8) AND 0x0F) = 5" by code_simp+
  have "ipv4_octets (of_be32 198 18 0 2) = (198, 18, 0, 2)" by code_simp
  moreover have "(18 :: u8) AND 0xFE = 18" by code_simp
  ultimately have "echo_is_fake (empty_mapper 0xC6120000 16 None) (of_be32 198 18 0 2)"
    by (simp add: echo_is_fake_def)
  with v show ?thesis by (simp add: handle_fake_ip_icmp_echo_def demo_ping_def Let_def)
qed

theorem echo_reply_correct_witness:
  "\<exists>reply. handle_fake_ip_icmp_echo (empty_mapper 0xC6120000 16 None) demo_ping = Some reply
     \<and> checksum (take 20 reply) = 0"
proof -
  obtain reply where r: "handle_fake_ip_icmp_echo (empty_mapper 0xC6120000 16 None) demo_ping = Some reply"
    using demo_ping_answered by blast
  have "unat ((0x45 :: u8) AND 0x0F) = 5" by code_simp
  with echo_reply_correct [OF r] r show ?thesis by (simp add: demo_ping_def)
qed

subsection \<open>Sweeping\<close>
lemma sweep_lookup:
  assumes "distinct (map fst (ti_sockets g))"
  shows "map_of (ti_sockets (sweep now g)) h = Some t
    \<longleftrightarrow> map_of (ti_sockets g) h = Some t
      \<and> \<not> is_stale now (case ti_created g h of Some c \<Rightarrow> c | None \<Rightarrow> now) t"
proof -
  have d: "distinct (map fst (ti_sockets (sweep now g)))"
    using assms by (simp add: sweep_def Let_def distinct_map_filter)
  show ?thesis
    using assms d by (auto simp: sweep_def Let_def image_iff dest: eq_key_imp_eq_value split: option.splits)
qed

text \<open>A connection that can still carry data from the client, or that waits for its last
acknowledgement, stays whatever its age.\<close>

lemma sweep_spares_open:
  assumes "distinct (map fst (ti_sockets g))" "map_of (ti_sockets g) h = Some t"
    and "tk_state t \<in> {SynSent, SynReceived, Established, CloseWait, LastAck}"
  shows "map_of (ti_sockets (sweep now g)) h = Some t"
  using assms by (auto simp: sweep_lookup is_stale_def)

text \<open>The sweep (\<open>sweep\<close>, tun/mod.rs) measures the age of a socket from its creation, not from
its close: a connection made at least 15 s ago keeps its socket while it is established, and
loses it, with whatever is still to be sent, at the first sweep after it has been closed.\<close>
theorem sweep_drops_closing:
  assumes "distinct (map fst (ti_sockets g))" "map_of (ti_sockets g) h = Some t" "tk_state t = Established"
    and "ti_created g h = Some made" "made + 15000 \<le> now"
  defines "g' \<equiv> g\<lparr>ti_sockets := AList.update h (t\<lparr>tk_state := FinWait1\<rparr>) (ti_sockets g)\<rparr>"
  shows "map_of (ti_sockets (sweep now g)) h = Some t \<and> h \<notin> fst ` set (ti_sockets (sweep now g'))"
proof -
  have "distinct (map fst (ti_sockets g'))" using assms(1) by (simp add: g'_def distinct_update)
  moreover have "map_of (ti_sockets g') h = Some (t\<lparr>tk_state := FinWait1\<rparr>)"
    by (simp add: g'_def update_conv')
  ultimately have "map_of (ti_sockets (sweep now g')) h \<noteq> Some s" for s
    using assms(4,5) by (auto simp: sweep_lookup g'_def is_stale_def)
  then have "map_of (ti_sockets (sweep now g')) h = None" by (cases "map_of (ti_sockets (sweep now g')) h") auto
  then show ?thesis using sweep_spares_open [OF assms(1,2)] assms(3) by (simp add: map_of_eq_None_iff)
qed

definition demo_sock :: tcp_sock where
  "demo_sock = (new_catcher False)\<lparr>tk_state := Established\<rparr>"

definition demo_inner :: tun_inner where
  "demo_inner = \<lparr>ti_device = device_new tun_mtu, ti_sockets = [(0, demo_sock)], ti_created = [0 \<mapsto> 1000]\<rparr>"

theorem sweep_drops_closing_witness:
  "0 \<notin> fst ` set (ti_sockets (sweep 16000 (demo_inner\<lparr>ti_sockets := [(0, demo_sock\<lparr>tk_state := FinWait1\<rparr>)]\<rparr>)))"
proof -
  have "AList.update 0 (demo_sock\<lparr>tk_state := FinWait1\<rparr>) (ti_sockets demo_inner) = [(0, demo_sock\<lparr>tk_state := FinWait1\<rparr>)]"
    by (simp add: demo_inner_def)
  then show ?thesis
    using sweep_drops_closing [of demo_inner 0 demo_sock 1000 16000] by (simp add: demo_inner_def demo_sock_def)
qed

subsection \<open>Dispatch\<close>

text \<open>A name query never leaves by another way than the answerer, whatever its destination.\<close>

lemma dns_always_answered:
  assumes "parse_udp_datagram w pkt = Some (src, (a, 53), payload)"
  shows "handle_rx_packet w st mp now lag pkt g = ([DnsQuery src (a, 53) payload], g)"
  using assms by (simp add: handle_rx_packet_def)

lemma same_connection_no_socket:
  assumes "(h, t) \<in> set (ti_sockets g)" "tk_local t = Some (dst, dp)" "tk_remote t = Some (src, sp)"
    and "wi_tcp w payload = Some (syn, ack, sp, dp)"
  shows "prescan_tcp w st now src dst payload g = ([], g)"
  using assms by (auto simp: prescan_tcp_def same_connection_def list_ex_iff)

text \<open>The clock handed to the IP stack is the time since \<open>smol_now\<close>'s own argument was read a moment
before: however late a packet is handled, the stack is polled as if at the start, so that none of
its timers (retransmission, keep-alive, time-wait) can run.\<close>

lemma stack_clock_stands_still:
  "poll_now st now lag g = is_poll st lag g"
  "parse_udp_datagram w pkt = None \<Longrightarrow> handle_fake_ip_icmp_echo mp pkt = None
    \<Longrightarrow> snd (handle_rx_packet w st mp now lag pkt g)
      = is_poll st lag ((snd (prescan w st now pkt g))\<lparr>ti_device := push_rx pkt (ti_device (snd (prescan w st now pkt g)))\<rparr>)"
  by (simp_all add: poll_now_def smol_now_def handle_rx_packet_def split: prod.splits)

subsection \<open>Starting, switching and stopping\<close>

text \<open>Engines are shared by reference: a store of them, the stack's reference and the one its UDP
engine took at the start. \<open>ts_closed\<close> records the descriptors closed.\<close>

record tun_stack =
  ts_store :: "engine list"
  ts_current :: nat
  ts_udp_ref :: nat
  ts_stopped :: bool
  ts_fd :: int
  ts_wake :: int
  ts_closed :: "int list"

abbreviation tun_engine :: "tun_stack \<Rightarrow> engine" where
  "tun_engine s \<equiv> ts_store s ! ts_current s"

abbreviation udp_side_engine :: "tun_stack \<Rightarrow> engine" where
  "udp_side_engine s \<equiv> ts_store s ! ts_udp_ref s"

definition stack_start :: "engine \<Rightarrow> int \<Rightarrow> int option \<Rightarrow> tun_stack option" where
  "stack_start eng dup_fd pipe_write =
     (if dup_fd < 0 then None
      else Some \<lparr>ts_store = [eng], ts_current = 0, ts_udp_ref = 0, ts_stopped = False, ts_fd = dup_fd,
                 ts_wake = (case pipe_write of Some p \<Rightarrow> p | None \<Rightarrow> -1), ts_closed = []\<rparr>)"

definition swap_engine :: "(nat \<Rightarrow> bool) \<Rightarrow> engine \<Rightarrow> tun_stack \<Rightarrow> tun_stack" where
  "swap_engine locked new s =
     s\<lparr>ts_store := (ts_store s)[ts_current s := engine_shutdown locked (tun_engine s)] @ [new],
       ts_current := length (ts_store s)\<rparr>"

definition stack_flush_pool :: "(nat \<Rightarrow> bool) \<Rightarrow> tun_stack \<Rightarrow> tun_stack" where
  "stack_flush_pool locked s = s\<lparr>ts_store := (ts_store s)[ts_current s := flush_pool locked (tun_engine s)]\<rparr>"

text \<open>\<open>stop\<close> also resets what the engines share.\<close>

definition stop :: "(nat \<Rightarrow> bool) \<Rightarrow> tun_stack \<times> core \<Rightarrow> tun_stack \<times> core" where
  "stop locked st =
     (case st of (s, co) \<Rightarrow>
        if ts_stopped s then (s, co)
        else
          (s\<lparr>ts_stopped := True,
             ts_store := (ts_store s)[ts_current s := engine_shutdown locked (tun_engine s)],
             ts_fd := -1, ts_wake := -1,
             ts_closed := ts_closed s @ (if 0 \<le> ts_fd s then [ts_fd s] else [])
                            @ (if 0 \<le> ts_wake s then [ts_wake s] else [])\<rparr>,
           reset_core co))"

text \<open>\<open>Assign\<close> is the answer to an A query (\<open>handle_dns_query\<close>), from the stack's engine.\<close>

datatype stack_op = Swap engine | Flush | Assign string | Stop

fun stack_step :: "(string \<Rightarrow> string) \<Rightarrow> (nat \<Rightarrow> bool) \<Rightarrow> core \<Rightarrow> stack_op \<Rightarrow> tun_stack \<Rightarrow> tun_stack" where
  "stack_step lower locked co (Swap new) s = swap_engine locked new s"
| "stack_step lower locked co Flush s = stack_flush_pool locked s"
| "stack_step lower locked co (Assign nm) s =
     s\<lparr>ts_store := (ts_store s)[ts_current s := snd (fake_ip_allocate lower nm (tun_engine s))]\<rparr>"
| "stack_step lower locked co Stop s = fst (stop locked (s, co))"

lemma stack_step_descriptors:
  "op \<noteq> Stop \<Longrightarrow> ts_closed (stack_step lower locked co op s) = ts_closed s
     \<and> ts_fd (stack_step lower locked co op s) = ts_fd s \<and> ts_wake (stack_step lower locked co op s) = ts_wake s
     \<and> ts_stopped (stack_step lower locked co op s) = ts_stopped s"
  by (cases op) (simp_all add: swap_engine_def stack_flush_pool_def)

text \<open>C24. Whatever the order of switches, flushes, answers and stops, repeated ones included
(\<open>TunStack\<close>, tun/mod.rs), the descriptors of the stack are closed exactly when it has been
stopped, each of them once, and from then on it holds none.\<close>
theorem descriptors_closed_once:
  assumes "stack_start eng dup_fd pipe_write = Some s" "list_all (\<lambda>p. 0 \<le> p) (case pipe_write of Some p \<Rightarrow> [p] | None \<Rightarrow> [])"
    and "t = fold (stack_step lower locked co) ops s"
  shows "ts_closed t = (if Stop \<in> set ops then dup_fd # (case pipe_write of Some p \<Rightarrow> [p] | None \<Rightarrow> []) else [])
    \<and> ts_stopped t = (Stop \<in> set ops)
    \<and> (ts_fd t, ts_wake t) = (if Stop \<in> set ops then (-1, -1) else (dup_fd, case pipe_write of Some p \<Rightarrow> p | None \<Rightarrow> -1))"
  unfolding assms(3)
proof (induction ops rule: rev_induct)
  case Nil
  show ?case using assms(1) by (auto simp: stack_start_def split: if_splits)
next
  case (snoc op ops)
  show ?case
  proof (cases "op = Stop")
    case True
    have "0 \<le> dup_fd" using assms(1) by (auto simp: stack_start_def split: if_splits)
    with snoc True assms(2) show ?thesis by (cases pipe_write) (auto simp: stop_def)
  next
    case False
    with snoc stack_step_descriptors [OF False, of lower locked co "fold (stack_step lower locked co) ops s"]
    show ?thesis by auto
  qed
qed

definition demo_core :: core where
  "demo_core = \<lparr>co_monitor = monitor_init, co_dns_cache = Map.empty, co_udp_mux = False, co_udp_mux_tunnels = 4\<rparr>"

definition bare_engine :: engine where
  "bare_engine = \<lparr>en_outbounds = \<lparr>om_table = [], om_made = 0, om_state = ob_state_init\<rparr>,
     en_fake_ip = empty_mapper 0xC6120000 16 None, en_default_tag = ''n''\<rparr>"

theorem descriptors_closed_once_witness:
  "\<exists>s. stack_start bare_engine 7 (Some 9) = Some s
     \<and> ts_closed (fold (stack_step (\<lambda>d. d) (\<lambda>_. False) demo_core) [Stop, Flush, Stop] s) = [7, 9]"
proof -
  obtain s where s: "stack_start bare_engine 7 (Some 9) = Some s" by (simp add: stack_start_def)
  from descriptors_closed_once [OF s _ refl, where lower = "\<lambda>d. d" and locked = "\<lambda>_. False" and co = demo_core and ops = "[Stop, Flush, Stop]"]
  have "ts_closed (fold (stack_step (\<lambda>d. d) (\<lambda>_. False) demo_core) [Stop, Flush, Stop] s) = [7, 9]" by (simp del: fold.simps)
  with s show ?thesis by blast
qed

subsection \<open>The engine of the UDP side\<close>

definition stack_wf :: "tun_stack \<Rightarrow> bool" where
  "stack_wf s \<longleftrightarrow> ts_udp_ref s < length (ts_store s) \<and> ts_current s < length (ts_store s)"

lemma stack_wf_step: "stack_wf s \<Longrightarrow> stack_wf (stack_step lower locked co op s)"
  by (cases op) (auto simp: stack_wf_def swap_engine_def stack_flush_pool_def stop_def)

lemma pool_ops_keep_names [simp]:
  "en_fake_ip (engine_shutdown locked eng) = en_fake_ip eng" "en_fake_ip (flush_pool locked eng) = en_fake_ip eng"
  by (simp_all add: engine_shutdown_def flush_pool_def with_outbounds_def)

lemma later_engine_only:
  assumes "stack_wf s" "ts_current s \<noteq> ts_udp_ref s"
    and "s' = stack_step lower locked co op s"
  shows "ts_current s' \<noteq> ts_udp_ref s' \<and> en_fake_ip (udp_side_engine s') = en_fake_ip (udp_side_engine s)"
  using assms(1,2) unfolding assms(3)
  by (cases op) (auto simp: stack_wf_def swap_engine_def stack_flush_pool_def stop_def nth_append nth_list_update)

lemma later_engine_only_run:
  assumes "stack_wf s" "ts_current s \<noteq> ts_udp_ref s"
  shows "en_fake_ip (udp_side_engine (fold (stack_step lower locked co) ops s)) = en_fake_ip (udp_side_engine s)"
  using assms
proof (induction ops arbitrary: s)
  case (Cons op ops)
  from later_engine_only [OF Cons.prems refl, of lower locked co op] Cons.IH [OF stack_wf_step [OF Cons.prems(1), of lower locked co op]] show ?case by simp
qed simp

text \<open>After a switch of the engine (\<open>swap_engine\<close>, tun/mod.rs) the UDP side goes on reversing fake
addresses with the names of the engine before it: no answer given from then on (\<open>Assign\<close>) is known
to it, whatever follows, while TCP connections and queries use the new engine.\<close>
theorem udp_keeps_old_names:
  assumes "stack_start eng dup_fd pipe_write = Some s0"
    and "s = fold (stack_step lower locked co) before s0" "ts_udp_ref s = ts_current s"
  shows "tun_engine (swap_engine locked new s) = new
    \<and> (\<forall>later. en_fake_ip (udp_side_engine (fold (stack_step lower locked co) later (swap_engine locked new s)))
             = en_fake_ip (tun_engine s))"
proof -
  have "stack_wf s0" using assms(1) by (auto simp: stack_start_def stack_wf_def split: if_splits)
  then have "stack_wf s" unfolding assms(2) by (induction before arbitrary: s0) (simp_all add: stack_wf_step)
  with assms(3) have w: "stack_wf (swap_engine locked new s)" "ts_current (swap_engine locked new s) \<noteq> ts_udp_ref (swap_engine locked new s)"
    "en_fake_ip (udp_side_engine (swap_engine locked new s)) = en_fake_ip (tun_engine s)"
    by (auto simp: stack_wf_def swap_engine_def nth_append)
  have "tun_engine (swap_engine locked new s) = new" by (simp add: swap_engine_def nth_append)
  then show ?thesis using later_engine_only_run [OF w(1,2)] w(3) by simp
qed

definition earlier_engine :: engine where
  "earlier_engine = bare_engine\<lparr>en_fake_ip := demo_flow_mapper\<rparr>"

theorem udp_keeps_old_names_witness:
  "\<exists>s. stack_start earlier_engine 7 None = Some s
     \<and> (let t = fold (stack_step (\<lambda>d. d) (\<lambda>_. False) demo_core) [Assign ''b.cn''] (swap_engine (\<lambda>_. False) bare_engine s)
        in fake_ip_reverse (V4 0xC6120002) (en_fake_ip (tun_engine t)) = Some ''b.cn''
           \<and> fake_ip_reverse (V4 0xC6120002) (en_fake_ip (udp_side_engine t)) = Some ''home.lan'')"
proof -
  define s where "s = \<lparr>ts_store = [earlier_engine], ts_current = 0, ts_udp_ref = 0, ts_stopped = False, ts_fd = 7,
                 ts_wake = -1, ts_closed = []\<rparr>"
  have s: "stack_start earlier_engine 7 None = Some s" by (simp add: stack_start_def s_def)
  have "fake_ip_reverse (V4 0xC6120002) (snd (lookup_or_assign (\<lambda>d. d) ''b.cn'' (empty_mapper 0xC6120000 16 None))) = Some ''b.cn''"
    by code_simp
  moreover have "en_fake_ip (snd (fake_ip_allocate lc d e)) = snd (lookup_or_assign lc d (en_fake_ip e))" for lc d e
    by (simp add: fake_ip_allocate_def split: prod.splits)
  ultimately have n: "fake_ip_reverse (V4 0xC6120002) (en_fake_ip (tun_engine
      (fold (stack_step (\<lambda>d. d) (\<lambda>_. False) demo_core) [Assign ''b.cn''] (swap_engine (\<lambda>_. False) bare_engine s)))) = Some ''b.cn''"
    by (simp add: swap_engine_def nth_append bare_engine_def)
  have fold_Nil_eq: "s = fold (stack_step (\<lambda>d. d) (\<lambda>_. False) demo_core) [] s" by simp
  have "ts_udp_ref s = ts_current s" "en_fake_ip (tun_engine s) = demo_flow_mapper"
    by (simp_all add: s_def earlier_engine_def)
  from udp_keeps_old_names [OF s fold_Nil_eq this(1), of bare_engine] this(2)
  have "en_fake_ip (udp_side_engine (fold (stack_step (\<lambda>d. d) (\<lambda>_. False) demo_core) [Assign ''b.cn'']
      (swap_engine (\<lambda>_. False) bare_engine s))) = demo_flow_mapper" by (simp del: fold.simps)
  with n demo_mapper_fake(3) show ?thesis using s unfolding Let_def by metis
qed

end
