(* ===== verification/TcpRelay.thy ===== *)
theory TcpRelay
  imports TunStack Adaptive Outbound Monitor
begin

text \<open>\<open>tun/tcp.rs\<close>, the connections themselves: the stream over a socket of the user-mode stack, the
tunnel of a connection with its first bytes, and the two relays, through the tunnel
(\<open>relay_proxy\<close>) and direct (the end of \<open>relay_direct\<close>), as interleaved events of their two halves.
What the network and the client do is in the events; times are milliseconds of one clock, which
\<open>unix_now_secs\<close> reads in seconds.\<close>

subsection \<open>The stream over a socket\<close>

text \<open>smoltcp's operations on one socket; \<open>so_recv n\<close> returns at most \<open>n\<close> bytes.\<close>

record sock_ops =
  so_can_recv :: "tcp_sock \<Rightarrow> bool"
  so_may_recv :: "tcp_sock \<Rightarrow> bool"
  so_recv :: "nat \<Rightarrow> tcp_sock \<Rightarrow> (string, bytes) result \<times> tcp_sock"
  so_can_send :: "tcp_sock \<Rightarrow> bool"
  so_may_send :: "tcp_sock \<Rightarrow> bool"
  so_send :: "bytes \<Rightarrow> tcp_sock \<Rightarrow> (string, nat) result \<times> tcp_sock"
  so_close :: "tcp_sock \<Rightarrow> tcp_sock"

record tun_tcp_stream =
  tt_handle :: nat
  tt_alive :: bool
  tt_src :: "sock_addr option"
  tt_dst :: "sock_addr option"

datatype 'a io_poll = Ready 'a | IoError string | Pending

definition stream_socket :: "tun_tcp_stream \<Rightarrow> tun_inner \<Rightarrow> tcp_sock option" where
  "stream_socket t g = map_of (ti_sockets g) (tt_handle t)"

definition put_socket :: "tun_tcp_stream \<Rightarrow> tcp_sock \<Rightarrow> tun_inner \<Rightarrow> tun_inner" where
  "put_socket t s g = g\<lparr>ti_sockets := AList.update (tt_handle t) s (ti_sockets g)\<rparr>"

definition wait_established :: "tun_tcp_stream \<Rightarrow> tun_inner \<Rightarrow> unit io_poll" where
  "wait_established t g =
     (case stream_socket t g of
        None \<Rightarrow> IoError ''ConnectionAborted''
      | Some s \<Rightarrow>
          if tk_state s = Established then Ready ()
          else if tk_state s \<in> {Closed, TimeWait} then IoError ''ConnectionAborted''
          else Pending)"

definition destination :: "tun_tcp_stream \<Rightarrow> tun_inner \<Rightarrow> sock_addr option \<times> tun_tcp_stream" where
  "destination t g =
     (case tt_dst t of
        Some d \<Rightarrow> (Some d, t)
      | None \<Rightarrow>
          (case stream_socket t g of
             None \<Rightarrow> (None, t)
           | Some s \<Rightarrow> (tk_local s, t\<lparr>tt_dst := tk_local s\<rparr>)))"

definition stream_source :: "tun_tcp_stream \<Rightarrow> tun_inner \<Rightarrow> sock_addr option \<times> tun_tcp_stream" where
  "stream_source t g =
     (case tt_src t of
        Some d \<Rightarrow> (Some d, t)
      | None \<Rightarrow>
          (case stream_socket t g of
             None \<Rightarrow> (None, t)
           | Some s \<Rightarrow> (tk_remote s, t\<lparr>tt_src := tk_remote s\<rparr>)))"

definition stream_close :: "sock_ops \<Rightarrow> (tun_inner \<Rightarrow> tun_inner) \<Rightarrow> tun_tcp_stream \<Rightarrow> tun_inner
    \<Rightarrow> tun_tcp_stream \<times> tun_inner" where
  "stream_close so poll t g =
     (if \<not> tt_alive t then (t, g)
      else
        (t\<lparr>tt_alive := False\<rparr>,
         poll (case stream_socket t g of Some s \<Rightarrow> put_socket t (so_close so s) g | None \<Rightarrow> g)))"

text \<open>The loop of \<open>poll_read\<close>: until the caller's buffer is full or the socket is empty.\<close>

function recv_loop :: "sock_ops \<Rightarrow> nat \<Rightarrow> bytes \<Rightarrow> tcp_sock \<Rightarrow> (string, bytes) result \<times> tcp_sock" where
  "recv_loop so remaining got s =
     (if \<not> so_can_recv so s \<or> remaining = 0 then (Inr got, s)
      else
        case so_recv so remaining s of
          (Inl e, s') \<Rightarrow> (Inl e, s')
        | (Inr d, s') \<Rightarrow> if d = [] then (Inr got, s') else recv_loop so (remaining - length d) (got @ d) s')"
  by pat_completeness auto

termination by (relation "measure (\<lambda>(so, r, got, s). r)") auto

declare recv_loop.simps [simp del]

definition stream_read :: "sock_ops \<Rightarrow> (tun_inner \<Rightarrow> tun_inner) \<Rightarrow> nat \<Rightarrow> tun_tcp_stream \<Rightarrow> tun_inner
    \<Rightarrow> bytes io_poll \<times> tun_inner" where
  "stream_read so poll room t g =
     (case stream_socket t g of
        None \<Rightarrow> (Ready [], g)
      | Some s \<Rightarrow>
          if so_can_recv so s then
            (case recv_loop so room [] s of
               (Inl e, s') \<Rightarrow> (IoError e, put_socket t s' g)
             | (Inr d, s') \<Rightarrow>
                 (Ready d, (if d \<noteq> [] then poll else (\<lambda>g. g)) (put_socket t s' g)))
          else if \<not> so_may_recv so s then (Ready [], g)
          else (Pending, g))"

definition stream_write :: "sock_ops \<Rightarrow> (tun_inner \<Rightarrow> tun_inner) \<Rightarrow> bytes \<Rightarrow> tun_tcp_stream \<Rightarrow> tun_inner
    \<Rightarrow> nat io_poll \<times> tun_inner" where
  "stream_write so poll dat t g =
     (case stream_socket t g of
        None \<Rightarrow> (IoError ''BrokenPipe'', g)
      | Some s \<Rightarrow>
          if \<not> so_may_send so s then (IoError ''BrokenPipe'', g)
          else if \<not> so_can_send so s then (Pending, g)
          else
            case so_send so dat s of
              (Inl e, s') \<Rightarrow> (IoError ''BrokenPipe'', put_socket t s' g)
            | (Inr n, s') \<Rightarrow> (Ready n, poll (put_socket t s' g)))"

definition stream_shutdown :: "sock_ops \<Rightarrow> (tun_inner \<Rightarrow> tun_inner) \<Rightarrow> tun_tcp_stream \<Rightarrow> tun_inner \<Rightarrow> tun_inner" where
  "stream_shutdown so poll t g =
     poll (case stream_socket t g of Some s \<Rightarrow> put_socket t (so_close so s) g | None \<Rightarrow> g)"

lemma stream_close_twice:
  "stream_close so poll (fst (stream_close so poll t g)) g' = (fst (stream_close so poll t g), g')"
  by (simp add: stream_close_def)


subsection \<open>The tunnel of a connection\<close>

text \<open>\<open>tunnel i k\<close> is the answer of pool \<open>i\<close> to the \<open>k\<close>th request, \<open>send t d\<close> the error of writing \<open>d\<close>
to tunnel \<open>t\<close>.\<close>

definition connect_tunnel :: "(nat \<Rightarrow> nat \<Rightarrow> ('e, 't) result) \<Rightarrow> ('t \<Rightarrow> bytes \<Rightarrow> 'e option) \<Rightarrow> nat list
    \<Rightarrow> sock_addr \<Rightarrow> string option \<Rightarrow> engine \<Rightarrow> ('e option, 't) result \<times> engine" where
  "connect_tunnel tunnel send asks dst direct_domain eng =
     (let target = (case direct_domain of Some d \<Rightarrow> Domain d (snd dst) | None \<Rightarrow> Socket (fst dst) (snd dst) 0);
          tb = bytes_of (host_port target)
      in case default_node eng of
           None \<Rightarrow> (Inl None, eng)
         | Some node \<Rightarrow>
             (case resolve_leaf node (engine_state eng) of
                (leaf, s) \<Rightarrow>
                  (case leaf of
                     Mirage i tag cfg u \<Rightarrow> try_tunnels (tunnel i) send (be16 (of_nat (length tb)) @ tb) asks None
                   | _ \<Rightarrow> Inl None,
                   with_outbounds (\<lambda>m. m\<lparr>om_state := s\<rparr>) eng)))"

text \<open>The first bytes of the client go out before the relay starts, once more over a new tunnel.\<close>

definition first_write :: "(nat \<Rightarrow> nat \<Rightarrow> ('e, 't) result) \<Rightarrow> ('t \<Rightarrow> bytes \<Rightarrow> 'e option)
    \<Rightarrow> sock_addr \<Rightarrow> string option \<Rightarrow> bytes \<Rightarrow> 't \<Rightarrow> engine \<Rightarrow> 't option \<times> engine" where
  "first_write tunnel send dst direct_domain initial_data t eng =
     (if initial_data = [] \<or> send t initial_data = None then (Some t, eng)
      else
        (case connect_tunnel tunnel send [2, 3] dst direct_domain eng of
           (Inl e, eng') \<Rightarrow> (None, eng')
         | (Inr t', eng') \<Rightarrow> (if send t' initial_data = None then Some t' else None, eng')))"

subsection \<open>The relay\<close>

record half =
  hf_bytes :: u64
  hf_timeout :: u64
  hf_ended :: "bool option"
  hf_since :: nat

text \<open>\<open>rl_to_server\<close> and \<open>rl_delivered\<close> are what has been written to the server and to the client,
\<open>rl_received\<close> what has been taken off the server side.\<close>

record relay =
  rl_direct :: bool
  rl_up :: half
  rl_down :: half
  rl_requests :: u32
  rl_served :: bool
  rl_last :: u64
  rl_conn_up :: u64
  rl_conn_down :: u64
  rl_to_server :: bytes
  rl_received :: bytes
  rl_delivered :: bytes
  rl_notices :: nat
  rl_shut :: bool
  rl_start :: nat
  rl_cid :: u64
  rl_dns_ms :: u32
  rl_connect_ms :: u32
  rl_profiles :: profiles
  rl_monitor :: monitor

record endpoint =
  ep_ip :: "ip_addr option"
  ep_port :: u16
  ep_domain :: "string option"

definition secs :: "nat \<Rightarrow> u64" where "secs now = of_nat (now div 1000)"

definition ask :: "(string \<Rightarrow> string) \<Rightarrow> endpoint \<Rightarrow> bool \<Rightarrow> nat \<Rightarrow> profiles \<Rightarrow> u64 \<times> profiles" where
  "ask lower ep active now ps =
     compute_adaptive_timeout lower (secs now) (ep_ip ep) (ep_port ep) (ep_domain ep) active None ps"

definition relay_start :: "(string \<Rightarrow> string) \<Rightarrow> endpoint \<Rightarrow> bool \<Rightarrow> nat \<Rightarrow> u64 \<Rightarrow> u32 \<Rightarrow> u32 \<Rightarrow> bytes
    \<Rightarrow> profiles \<Rightarrow> monitor \<Rightarrow> relay" where
  "relay_start lower ep direct now cid dns_ms connect_ms initial ps mon =
     (case ask lower ep False now ps of
        (t1, ps1) \<Rightarrow>
          (case ask lower ep False now ps1 of
             (t2, ps2) \<Rightarrow>
               \<lparr>rl_direct = direct,
                rl_up = \<lparr>hf_bytes = 0, hf_timeout = t1, hf_ended = None, hf_since = now\<rparr>,
                rl_down = \<lparr>hf_bytes = 0, hf_timeout = t2, hf_ended = None, hf_since = now\<rparr>,
                rl_requests = 1, rl_served = False, rl_last = secs now,
                rl_conn_up = of_nat (length initial), rl_conn_down = 0,
                rl_to_server = initial, rl_received = [], rl_delivered = [], rl_notices = 0, rl_shut = False,
                rl_start = now, rl_cid = cid, rl_dns_ms = dns_ms, rl_connect_ms = connect_ms,
                rl_profiles = ps2,
                rl_monitor = (if direct \<and> initial \<noteq> [] then add_up (of_nat (length initial)) mon else mon)\<rparr>))"

text \<open>What a wait of a half ends with, and how far its write gets. \<open>ServerCut d k\<close> is the timer of
\<open>relay_proxy\<close> firing inside \<open>recv_data_to\<close>, when the record \<open>d\<close> has been opened and \<open>k\<close> of its bytes
written; the timer of \<open>relay_direct\<close> covers the read only.\<close>

datatype inbound = Data bytes | Eof | Failed | TimedOut
datatype wrote = Whole | Broken nat
datatype relay_event =
    FromClient nat inbound wrote
  | FromServer nat inbound wrote
  | ServerCut nat bytes nat
  | AbortConn

definition end_up :: "bool \<Rightarrow> relay \<Rightarrow> relay" where
  "end_up timed_out rl = rl\<lparr>rl_up := (rl_up rl)\<lparr>hf_ended := Some timed_out\<rparr>\<rparr>"

definition close_notify :: "relay \<Rightarrow> relay" where
  "close_notify rl = (if rl_direct rl then rl else rl\<lparr>rl_notices := rl_notices rl + 1\<rparr>)"

definition end_down :: "bool \<Rightarrow> relay \<Rightarrow> relay" where
  "end_down timed_out rl =
     rl\<lparr>rl_down := (rl_down rl)\<lparr>hf_ended := Some timed_out\<rparr>, rl_shut := rl_shut rl \<or> \<not> rl_direct rl\<rparr>"

definition still_active :: "nat \<Rightarrow> half \<Rightarrow> relay \<Rightarrow> bool" where
  "still_active now h rl \<longleftrightarrow> saturating_sub (secs now) (rl_last rl) < hf_timeout h"

definition up_data :: "(string \<Rightarrow> string) \<Rightarrow> endpoint \<Rightarrow> nat \<Rightarrow> bytes \<Rightarrow> relay \<Rightarrow> relay" where
  "up_data lower ep now d rl =
     (let (t, ps) = (if hf_bytes (rl_up rl) = 0 then ask lower ep True now (rl_profiles rl)
                     else (hf_timeout (rl_up rl), rl_profiles rl));
          n = of_nat (length d)
      in rl\<lparr>rl_up := (rl_up rl)\<lparr>hf_bytes := hf_bytes (rl_up rl) + n, hf_timeout := t, hf_since := now\<rparr>,
            rl_conn_up := rl_conn_up rl + n, rl_last := secs now, rl_to_server := rl_to_server rl @ d,
            rl_requests := (if rl_served rl then rl_requests rl + 1 else rl_requests rl), rl_served := False,
            rl_profiles := ps,
            rl_monitor := (if rl_direct rl then add_up n (rl_monitor rl) else rl_monitor rl)\<rparr>)"

definition up_step :: "(string \<Rightarrow> string) \<Rightarrow> endpoint \<Rightarrow> nat \<Rightarrow> inbound \<Rightarrow> wrote \<Rightarrow> relay \<Rightarrow> relay" where
  "up_step lower ep now r w rl =
     (if hf_ended (rl_up rl) \<noteq> None then rl
      else if r = Eof \<or> r = Failed \<or> r = Data [] then end_up False (close_notify rl)
      else
        case r of
          Data d \<Rightarrow>
            (case w of
               Broken k \<Rightarrow> end_up False (rl\<lparr>rl_to_server := rl_to_server rl @ take k d\<rparr>)
             | Whole \<Rightarrow> up_data lower ep now d rl)
        | _ \<Rightarrow>
            if still_active now (rl_up rl) rl then rl\<lparr>rl_up := (rl_up rl)\<lparr>hf_since := now\<rparr>\<rparr>
            else end_up True (close_notify rl))"

definition down_data :: "(string \<Rightarrow> string) \<Rightarrow> endpoint \<Rightarrow> nat \<Rightarrow> bytes \<Rightarrow> relay \<Rightarrow> relay" where
  "down_data lower ep now d rl =
     (let first = (hf_bytes (rl_down rl) = 0);
          (t, ps) = (if first then ask lower ep True now (rl_profiles rl)
                     else (hf_timeout (rl_down rl), rl_profiles rl));
          n = of_nat (length d);
          mon = (if first then record_conn_timings (rl_cid rl) (rl_dns_ms rl) (rl_connect_ms rl) 0
                                 (of_nat (now - rl_start rl)) (rl_monitor rl)
                 else rl_monitor rl)
      in rl\<lparr>rl_down := (rl_down rl)\<lparr>hf_bytes := hf_bytes (rl_down rl) + n, hf_timeout := t, hf_since := now\<rparr>,
            rl_conn_down := rl_conn_down rl + n, rl_last := secs now,
            rl_received := rl_received rl @ d, rl_delivered := rl_delivered rl @ d, rl_served := True,
            rl_profiles := ps,
            rl_monitor := (if rl_direct rl then add_down n mon else mon)\<rparr>)"

definition idle_down :: "nat \<Rightarrow> relay \<Rightarrow> relay" where
  "idle_down now rl =
     (if still_active now (rl_down rl) rl then rl\<lparr>rl_down := (rl_down rl)\<lparr>hf_since := now\<rparr>\<rparr>
      else end_down True rl)"

definition down_step :: "(string \<Rightarrow> string) \<Rightarrow> endpoint \<Rightarrow> nat \<Rightarrow> inbound \<Rightarrow> wrote \<Rightarrow> relay \<Rightarrow> relay" where
  "down_step lower ep now r w rl =
     (if hf_ended (rl_down rl) \<noteq> None then rl
      else if r = Eof \<or> r = Failed \<or> rl_direct rl \<and> r = Data [] then end_down False rl
      else
        case r of
          Data d \<Rightarrow>
            (case w of
               Broken k \<Rightarrow>
                 end_down False (rl\<lparr>rl_received := rl_received rl @ d, rl_delivered := rl_delivered rl @ take k d\<rparr>)
             | Whole \<Rightarrow> down_data lower ep now d rl)
        | _ \<Rightarrow> idle_down now rl)"

definition cut_step :: "nat \<Rightarrow> bytes \<Rightarrow> nat \<Rightarrow> relay \<Rightarrow> relay" where
  "cut_step now d k rl =
     (if hf_ended (rl_down rl) \<noteq> None \<or> rl_direct rl then rl
      else idle_down now (rl\<lparr>rl_received := rl_received rl @ d, rl_delivered := rl_delivered rl @ take k d\<rparr>))"

fun relay_step :: "(string \<Rightarrow> string) \<Rightarrow> endpoint \<Rightarrow> relay_event \<Rightarrow> relay \<Rightarrow> relay" where
  "relay_step lower ep (FromClient now r w) rl = up_step lower ep now r w rl"
| "relay_step lower ep (FromServer now r w) rl = down_step lower ep now r w rl"
| "relay_step lower ep (ServerCut now d k) rl = cut_step now d k rl"
| "relay_step lower ep AbortConn rl = rl"

text \<open>The \<open>select\<close>: until a half has ended or the connection is cut off from outside.\<close>

datatype first_end = Aborted | UpEnded bool | DownEnded bool

fun relay_until :: "(string \<Rightarrow> string) \<Rightarrow> endpoint \<Rightarrow> relay_event list \<Rightarrow> relay
    \<Rightarrow> (first_end \<times> relay_event list) option \<times> relay" where
  "relay_until lower ep [] rl = (None, rl)"
| "relay_until lower ep (e # es) rl =
     (if e = AbortConn then (Some (Aborted, es), rl)
      else
        let rl = relay_step lower ep e rl
        in case hf_ended (rl_up rl) of
             Some t \<Rightarrow> (Some (UpEnded t, es), rl)
           | None \<Rightarrow>
               (case hf_ended (rl_down rl) of
                  Some t \<Rightarrow> (Some (DownEnded t, es), rl)
                | None \<Rightarrow> relay_until lower ep es rl))"

text \<open>Then the other half alone goes on for a while: three seconds for the rest of the download,
two for that of the upload.\<close>

fun from_server :: "relay_event \<Rightarrow> bool" where
  "from_server (FromServer now r w) = True"
| "from_server (ServerCut now d k) = True"
| "from_server _ = False"

fun from_client :: "relay_event \<Rightarrow> bool" where
  "from_client (FromClient now r w) = True"
| "from_client _ = False"

fun event_time :: "relay_event \<Rightarrow> nat" where
  "event_time (FromClient now r w) = now"
| "event_time (FromServer now r w) = now"
| "event_time (ServerCut now d k) = now"
| "event_time AbortConn = 0"

definition relay_grace :: "(string \<Rightarrow> string) \<Rightarrow> endpoint \<Rightarrow> nat \<Rightarrow> first_end \<Rightarrow> relay_event list \<Rightarrow> relay \<Rightarrow> relay" where
  "relay_grace lower ep ended_at how later rl =
     (case how of
        Aborted \<Rightarrow> rl
      | UpEnded t \<Rightarrow>
          fold (relay_step lower ep) (filter from_server (takeWhile (\<lambda>e. event_time e \<le> ended_at + 3000) later)) rl
      | DownEnded t \<Rightarrow>
          fold (relay_step lower ep) (filter from_client (takeWhile (\<lambda>e. event_time e \<le> ended_at + 2000) later)) rl)"

fun end_reason :: "first_end \<Rightarrow> close_reason" where
  "end_reason Aborted = ClientClosed"
| "end_reason (UpEnded t) = (if t then IdleTimeout else ClientClosed)"
| "end_reason (DownEnded t) = (if t then IdleTimeout else ServerClosed)"

fun debug_reason :: "close_reason \<Rightarrow> string" where
  "debug_reason ClientClosed = ''ClientClosed''"
| "debug_reason ServerClosed = ''ServerClosed''"
| "debug_reason IdleTimeout = ''IdleTimeout''"
| "debug_reason CloseError = ''Error''"

definition half_total :: "half \<Rightarrow> u64" where
  "half_total h = (if hf_ended h = None then 0 else hf_bytes h)"

definition relay_close :: "(string \<Rightarrow> string) \<Rightarrow> endpoint \<Rightarrow> nat \<Rightarrow> first_end \<Rightarrow> relay \<Rightarrow> profiles \<times> monitor" where
  "relay_close lower ep fin how rl =
     (let final_up = max (rl_conn_up rl) (half_total (rl_up rl));
          final_down = max (rl_conn_down rl) (half_total (rl_down rl));
          duration_ms = of_nat (fin - rl_start rl);
          is_reused = (2 \<le> rl_requests rl
            \<or> \<not> rl_direct rl \<and> (512 * 1024 \<le> final_down \<or> 1024 * 1024 \<le> final_up + final_down))
      in (record_conn_metrics lower (secs fin) (ep_domain ep) final_up final_down duration_ms
            (end_reason how) is_reused (rl_profiles rl),
          record_conn_close_with_duration (rl_cid rl) final_up final_down (debug_reason (end_reason how))
            duration_ms (rl_monitor rl)))"

subsection \<open>What is forwarded\<close>

lemmas relay_defs =
  up_step_def down_step_def cut_step_def idle_down_def end_up_def end_down_def close_notify_def Let_def

fun client_bytes :: "relay_event \<Rightarrow> bytes" where
  "client_bytes (FromClient now (Data d) w) = d"
| "client_bytes _ = []"

fun server_bytes :: "relay_event \<Rightarrow> bytes" where
  "server_bytes (FromServer now (Data d) w) = d"
| "server_bytes (ServerCut now d k) = d"
| "server_bytes _ = []"

lemma up_data_simps [simp]:
  "rl_down (up_data lower ep now d rl) = rl_down rl"
  "hf_ended (rl_up (up_data lower ep now d rl)) = hf_ended (rl_up rl)"
  "rl_to_server (up_data lower ep now d rl) = rl_to_server rl @ d"
  "rl_delivered (up_data lower ep now d rl) = rl_delivered rl"
  "rl_received (up_data lower ep now d rl) = rl_received rl"
  "rl_direct (up_data lower ep now d rl) = rl_direct rl"
  "rl_last (up_data lower ep now d rl) = secs now"
  by (simp_all add: up_data_def Let_def split: prod.splits)

lemma down_data_simps [simp]:
  "rl_up (down_data lower ep now d rl) = rl_up rl"
  "hf_ended (rl_down (down_data lower ep now d rl)) = hf_ended (rl_down rl)"
  "rl_to_server (down_data lower ep now d rl) = rl_to_server rl"
  "rl_delivered (down_data lower ep now d rl) = rl_delivered rl @ d"
  "rl_received (down_data lower ep now d rl) = rl_received rl @ d"
  "rl_direct (down_data lower ep now d rl) = rl_direct rl"
  "rl_last (down_data lower ep now d rl) = secs now"
  by (simp_all add: down_data_def Let_def split: prod.splits)

lemma step_direct [simp]: "rl_direct (relay_step lower ep e rl) = rl_direct rl"
  by (cases e) (auto simp: relay_defs split: inbound.splits wrote.splits)

lemma run_direct [simp]: "rl_direct (fold (relay_step lower ep) es rl) = rl_direct rl"
  by (induction es arbitrary: rl) simp_all

text \<open>A half that has ended moves nothing more.\<close>

lemma step_up_ended:
  "hf_ended (rl_up rl) = Some t \<Longrightarrow> rl_up (relay_step lower ep e rl) = rl_up rl
     \<and> rl_to_server (relay_step lower ep e rl) = rl_to_server rl"
  by (cases e) (auto simp: relay_defs split: inbound.splits wrote.splits)

lemma step_down_ended:
  "hf_ended (rl_down rl) = Some t \<Longrightarrow> rl_down (relay_step lower ep e rl) = rl_down rl
     \<and> rl_delivered (relay_step lower ep e rl) = rl_delivered rl \<and> rl_received (relay_step lower ep e rl) = rl_received rl"
  by (cases e) (auto simp: relay_defs split: inbound.splits wrote.splits)

lemma step_up_open:
  "hf_ended (rl_up rl) = None \<Longrightarrow> hf_ended (rl_up (relay_step lower ep e rl)) = None
    \<Longrightarrow> rl_to_server (relay_step lower ep e rl) = rl_to_server rl @ client_bytes e"
  by (cases e) (auto simp: relay_defs split: inbound.splits wrote.splits if_splits)

lemma step_up_closing:
  "hf_ended (rl_up rl) = None \<Longrightarrow> hf_ended (rl_up (relay_step lower ep e rl)) \<noteq> None
    \<Longrightarrow> \<exists>k. rl_to_server (relay_step lower ep e rl) = rl_to_server rl @ take k (client_bytes e)"
  by (cases e) (auto simp: relay_defs split: inbound.splits wrote.splits if_splits intro: exI [of _ 0])

definition up_prefix :: "bytes \<Rightarrow> relay \<Rightarrow> bool" where
  "up_prefix sent rl \<longleftrightarrow>
     (if hf_ended (rl_up rl) = None then rl_to_server rl = sent else prefix (rl_to_server rl) sent)"

lemma up_prefix_step: "up_prefix sent rl \<Longrightarrow> up_prefix (sent @ client_bytes e) (relay_step lower ep e rl)"
proof (cases "hf_ended (rl_up rl)")
  case None
  assume "up_prefix sent rl"
  with None have s: "rl_to_server rl = sent" by (simp add: up_prefix_def)
  show ?thesis
  proof (cases "hf_ended (rl_up (relay_step lower ep e rl)) = None")
    case True
    with step_up_open [OF None True] s show ?thesis by (simp add: up_prefix_def)
  next
    case False
    with step_up_closing [OF None False] s show ?thesis by (auto simp: up_prefix_def take_is_prefix)
  qed
next
  case (Some t)
  assume "up_prefix sent rl"
  with Some step_up_ended [OF Some, of lower ep e] show ?thesis by (auto simp: up_prefix_def)
qed

lemma up_prefix_run:
  "up_prefix sent rl \<Longrightarrow> up_prefix (sent @ concat (map client_bytes es)) (fold (relay_step lower ep) es rl)"
proof (induction es arbitrary: sent rl)
  case (Cons e es)
  from Cons.IH [OF up_prefix_step [OF Cons.prems]] show ?case by simp
qed simp

definition down_faithful :: "relay \<Rightarrow> bool" where
  "down_faithful rl \<longleftrightarrow>
     (if hf_ended (rl_down rl) = None then rl_delivered rl = rl_received rl
      else prefix (rl_delivered rl) (rl_received rl))"

fun no_cut :: "relay_event \<Rightarrow> bool" where
  "no_cut (ServerCut now d k) = False"
| "no_cut _ = True"

lemma down_faithful_step:
  "down_faithful rl \<Longrightarrow> rl_direct rl \<or> no_cut e \<Longrightarrow> down_faithful (relay_step lower ep e rl)"
  by (cases e) (auto simp: down_faithful_def relay_defs take_is_prefix split: inbound.splits wrote.splits if_splits)

lemma down_faithful_run:
  "down_faithful rl \<Longrightarrow> rl_direct rl \<or> list_all no_cut es \<Longrightarrow> down_faithful (fold (relay_step lower ep) es rl)"
  by (induction es arbitrary: rl) (auto simp: down_faithful_step)

lemma start_simps [simp]:
  "hf_ended (rl_up (relay_start lower ep direct now cid dns con initial ps mon)) = None"
  "hf_ended (rl_down (relay_start lower ep direct now cid dns con initial ps mon)) = None"
  "rl_to_server (relay_start lower ep direct now cid dns con initial ps mon) = initial"
  "rl_received (relay_start lower ep direct now cid dns con initial ps mon) = []"
  "rl_delivered (relay_start lower ep direct now cid dns con initial ps mon) = []"
  "rl_direct (relay_start lower ep direct now cid dns con initial ps mon) = direct"
  "rl_last (relay_start lower ep direct now cid dns con initial ps mon) = secs now"
  by (simp_all add: relay_start_def split: prod.splits)

text \<open>C25. A relay forwards in order (\<open>relay_proxy\<close>, \<open>relay_direct\<close>, tcp.rs): the server is sent the
client's bytes without a gap, the sniffed ones first, all of them while the upload runs; and the
client is given the server's bytes without a gap, directly always, through a tunnel when the
timer does not fire in the middle of a record.\<close>
theorem relay_forwards_in_order:
  assumes "rl = fold (relay_step lower ep) es (relay_start lower ep direct now cid dns con initial ps mon)"
  shows "prefix (rl_to_server rl) (initial @ concat (map client_bytes es))
    \<and> (hf_ended (rl_up rl) = None \<longrightarrow> rl_to_server rl = initial @ concat (map client_bytes es))
    \<and> (direct \<or> list_all no_cut es \<longrightarrow> prefix (rl_delivered rl) (rl_received rl)
         \<and> (hf_ended (rl_down rl) = None \<longrightarrow> rl_delivered rl = rl_received rl))"
proof -
  let ?r = "relay_start lower ep direct now cid dns con initial ps mon"
  have "up_prefix initial ?r" "down_faithful ?r" by (simp_all add: up_prefix_def down_faithful_def)
  from up_prefix_run [OF this(1), of es lower ep] down_faithful_run [OF this(2), of es lower ep]
  show ?thesis unfolding assms [symmetric] by (auto simp: up_prefix_def down_faithful_def split: if_splits)
qed

definition demo_ep :: endpoint where
  "demo_ep = \<lparr>ep_ip = None, ep_port = 443, ep_domain = Some ''a.b''\<rparr>"

definition demo_relay :: "bool \<Rightarrow> nat \<Rightarrow> relay" where
  "demo_relay direct now = relay_start ascii_lower demo_ep direct now 1 0 0 [9] [] monitor_init"

theorem relay_forwards_in_order_witness:
  "prefix (rl_to_server (fold (relay_step ascii_lower demo_ep) [FromClient 5 (Data [7, 8]) (Broken 1)] (demo_relay True 0)))
     [9, 7, 8]"
  using relay_forwards_in_order [OF refl, of ascii_lower demo_ep "[FromClient 5 (Data [7, 8]) (Broken 1)]" True 0 1 0 0 "[9]" "[]" monitor_init]
  by (simp add: demo_relay_def del: fold.simps)

text \<open>C26. The timer of the tunnel's download covers the write as well (\<open>relay_proxy\<close>, tcp.rs; the direct
relay's covers the read only). When it fires while a slow client has taken \<open>k\<close> bytes of a record
and the client has itself sent something within the timeout, the relay goes on with the next
record: the rest of the first is lost in the middle of the stream.\<close>
theorem cut_record_lost:
  assumes "\<not> rl_direct rl" "hf_ended (rl_down rl) = None" "still_active now (rl_down rl) rl" "d' \<noteq> []"
    and "rl' = fold (relay_step lower ep) [ServerCut now d k, FromServer now' (Data d') Whole] rl"
  shows "hf_ended (rl_down rl') = None
    \<and> rl_received rl' = rl_received rl @ d @ d' \<and> rl_delivered rl' = rl_delivered rl @ take k d @ d'"
  using assms(1-4) unfolding assms(5)
  by (simp add: relay_defs still_active_def)

lemma demo_asked: "ask ascii_lower demo_ep False 0 [] = (15, [])"
  unfolding ask_def demo_ep_def by code_simp

theorem cut_record_lost_witness:
  "let rl = fold (relay_step ascii_lower demo_ep) [ServerCut 5000 [1, 2] 1, FromServer 6000 (Data [3]) Whole] (demo_relay False 0)
   in rl_received rl = [1, 2, 3] \<and> rl_delivered rl = [1, 3]"
proof -
  let ?r = "demo_relay False 0"
  have "hf_timeout (rl_down ?r) = 15" by (simp add: demo_relay_def relay_start_def demo_asked)
  then have "still_active 5000 (rl_down ?r) ?r"
    by (simp add: still_active_def demo_relay_def secs_def saturating_sub_def)
  from cut_record_lost [of ?r, OF _ _ this _ refl, of "[3]" ascii_lower demo_ep "[1, 2]" 1 6000]
  show ?thesis by (simp add: demo_relay_def Let_def del: fold.simps)
qed

subsection \<open>Idle closes\<close>

fun carries :: "relay_event \<Rightarrow> bool" where
  "carries (FromClient now (Data d) Whole) = (d \<noteq> [])"
| "carries (FromServer now (Data d) Whole) = True"
| "carries _ = False"

lemma step_ended_stays:
  "hf_ended (rl_up (relay_step lower ep e rl)) = None \<Longrightarrow> hf_ended (rl_up rl) = None"
  "hf_ended (rl_down (relay_step lower ep e rl)) = None \<Longrightarrow> hf_ended (rl_down rl) = None"
proof -
  show "hf_ended (rl_up (relay_step lower ep e rl)) = None \<Longrightarrow> hf_ended (rl_up rl) = None"
    using step_up_ended [of rl _ lower ep e] by (cases "hf_ended (rl_up rl)") auto
  show "hf_ended (rl_down (relay_step lower ep e rl)) = None \<Longrightarrow> hf_ended (rl_down rl) = None"
    using step_down_ended [of rl _ lower ep e] by (cases "hf_ended (rl_down rl)") auto
qed

lemma run_ended_stays:
  "hf_ended (rl_up (fold (relay_step lower ep) es rl)) = None \<Longrightarrow> hf_ended (rl_up rl) = None"
  "hf_ended (rl_down (fold (relay_step lower ep) es rl)) = None \<Longrightarrow> hf_ended (rl_down rl) = None"
  by (induction es arbitrary: rl) (auto dest: step_ended_stays)

lemma step_last:
  assumes "hf_ended (rl_up (relay_step lower ep e rl)) = None" "hf_ended (rl_down (relay_step lower ep e rl)) = None"
    and "\<not> (rl_direct rl \<and> (\<exists>now w. e = FromServer now (Data []) w))"
  shows "rl_last (relay_step lower ep e rl) = (if carries e then secs (event_time e) else rl_last rl)"
  using step_ended_stays(1) [OF assms(1)] step_ended_stays(2) [OF assms(2)] assms
  by (cases e) (auto simp: relay_defs split: inbound.splits wrote.splits if_splits)

lemma step_last_open:
  assumes "hf_ended (rl_up (relay_step lower ep e rl)) = None" "hf_ended (rl_down (relay_step lower ep e rl)) = None"
  shows "rl_last (relay_step lower ep e rl) = (if carries e then secs (event_time e) else rl_last rl)"
proof (rule step_last [OF assms])
  show "\<not> (rl_direct rl \<and> (\<exists>now w. e = FromServer now (Data []) w))"
    using assms(2) by (auto simp: relay_defs split: if_splits)
qed

lemma secs_mono: "a \<le> b \<Longrightarrow> b div 1000 < 2 ^ 64 \<Longrightarrow> secs a \<le> secs b"
  by (simp add: secs_def word_le_nat_alt unat_of_nat div_le_mono le_less_trans [OF div_le_mono])

lemma run_last:
  assumes "hf_ended (rl_up (fold (relay_step lower ep) es rl)) = None"
    and "hf_ended (rl_down (fold (relay_step lower ep) es rl)) = None"
    and "sorted (map event_time (filter carries es))" "\<forall>e\<in>set es. event_time e div 1000 < 2 ^ 64"
    and "e \<in> set es" "carries e"
  shows "secs (event_time e) \<le> rl_last (fold (relay_step lower ep) es rl)"
  using assms
proof (induction es rule: rev_induct)
  case (snoc f es)
  let ?s = "fold (relay_step lower ep) es rl"
  have open': "hf_ended (rl_up (relay_step lower ep f ?s)) = None" "hf_ended (rl_down (relay_step lower ep f ?s)) = None"
    using snoc.prems(1,2) by simp_all
  have last: "rl_last (relay_step lower ep f ?s) = (if carries f then secs (event_time f) else rl_last ?s)"
    by (rule step_last_open [OF open'])
  show ?case
  proof (cases "carries f")
    case True
    have "event_time e \<le> event_time f" using snoc.prems(3,5,6) True by (auto simp: sorted_append)
    then have "secs (event_time e) \<le> secs (event_time f)" using snoc.prems(4) by (intro secs_mono) auto
    with True last show ?thesis by simp
  next
    case False
    with snoc.prems(5,6) have "e \<in> set es" by auto
    moreover have "hf_ended (rl_up ?s) = None" "hf_ended (rl_down ?s) = None"
      using step_ended_stays(1) [OF open'(1)] step_ended_stays(2) [OF open'(2)] by simp_all
    moreover have "sorted (map event_time (filter carries es))" using snoc.prems(3) False by simp
    ultimately show ?thesis using snoc.IH snoc.prems(4,6) last False by simp
  qed
qed simp

lemma idle_end:
  assumes "hf_ended (rl_up rl) = None" "hf_ended (rl_down rl) = None"
    and "e = FromClient now TimedOut w \<and> h = rl_up rl \<and> hf_ended (rl_up (relay_step lower ep e rl)) \<noteq> None
       \<or> (e = FromServer now TimedOut w \<or> e = ServerCut now d k) \<and> h = rl_down rl \<and> hf_ended (rl_down (relay_step lower ep e rl)) \<noteq> None"
  shows "hf_timeout h \<le> saturating_sub (secs now) (rl_last rl)"
  using assms by (auto simp: relay_defs still_active_def split: if_splits)

text \<open>The wait of a half that ends with its timer, and the half.\<close>

fun timer_of :: "relay_event \<Rightarrow> relay \<Rightarrow> half option" where
  "timer_of (FromClient now TimedOut w) rl = Some (rl_up rl)"
| "timer_of (FromServer now TimedOut w) rl = Some (rl_down rl)"
| "timer_of (ServerCut now d k) rl = Some (rl_down rl)"
| "timer_of _ rl = None"

lemma timer_end:
  assumes "timer_of e rl = Some h" "hf_ended (rl_up rl) = None" "hf_ended (rl_down rl) = None"
    and "hf_ended (rl_up (relay_step lower ep e rl)) \<noteq> None \<or> hf_ended (rl_down (relay_step lower ep e rl)) \<noteq> None"
  shows "hf_timeout h \<le> saturating_sub (secs (event_time e)) (rl_last rl)"
  using assms by (cases "(e, rl)" rule: timer_of.cases) (auto simp: relay_defs still_active_def split: if_splits)


subsection \<open>A request in one piece\<close>
lemma up_untouched_step:
  "\<not> from_client e \<Longrightarrow> rl_up (relay_step lower ep e rl) = rl_up rl"
  by (cases e) (auto simp: relay_defs split: inbound.splits wrote.splits)

lemma up_untouched: "list_all (\<lambda>e. \<not> from_client e) es \<Longrightarrow> rl_up (fold (relay_step lower ep) es rl) = rl_up rl"
  by (induction es arbitrary: rl) (simp_all add: up_untouched_step)

lemma start_timeout:
  assumes "\<not> is_interactive_port (ep_port ep)"
    and "fst (fst (classify_connection lower (secs now) (ep_ip ep) (ep_port ep) (ep_domain ep) None ps)) \<noteq> PushIm"
  shows "hf_timeout (rl_up (relay_start lower ep direct now cid dns con initial ps mon)) = 15"
  using assms
  by (auto simp: relay_start_def ask_def compute_adaptive_timeout_def split: prod.splits)

text \<open>A request that the client sends in one piece keeps the timeout of the handshake
(\<open>relay_proxy\<close>, \<open>relay_direct\<close>, tcp.rs): those bytes go out before the upload loop, which renews its
timeout only at bytes of its own. Unless the connection is of the push kind, the upload's timer
ends the relay after any 15 s of silence, whatever idle time has been learned or is set for it.\<close>
theorem one_piece_request_cut_at_15s:
  assumes "\<not> is_interactive_port (ep_port ep)"
    and "fst (fst (classify_connection lower (secs start) (ep_ip ep) (ep_port ep) (ep_domain ep) None ps)) \<noteq> PushIm"
    and "rl = fold (relay_step lower ep) es (relay_start lower ep direct start cid dns con request ps mon)"
    and "list_all (\<lambda>e. \<not> from_client e) es" "15 \<le> saturating_sub (secs now) (rl_last rl)"
  shows "hf_ended (rl_up (relay_step lower ep (FromClient now TimedOut w) rl)) = Some True"
proof -
  have "rl_up rl = rl_up (relay_start lower ep direct start cid dns con request ps mon)"
    unfolding assms(3) by (rule up_untouched [OF assms(4)])
  with start_timeout [OF assms(1,2)] have "hf_ended (rl_up rl) = None" "hf_timeout (rl_up rl) = 15" by simp_all
  with assms(5) show ?thesis by (auto simp: relay_defs still_active_def)
qed

theorem one_piece_request_cut_at_15s_witness:
  "hf_ended (rl_up (relay_step ascii_lower demo_ep (FromClient 15000 TimedOut Whole) (demo_relay False 0))) = Some True"
proof -
  have "fst (fst (classify_connection ascii_lower (secs 0) (ep_ip demo_ep) (ep_port demo_ep) (ep_domain demo_ep) None [])) \<noteq> PushIm"
    unfolding demo_ep_def by code_simp
  moreover have "\<not> is_interactive_port (ep_port demo_ep)" unfolding demo_ep_def by code_simp
  moreover have "15 \<le> saturating_sub (secs 15000) (rl_last (demo_relay False 0))"
    by (simp add: demo_relay_def secs_def saturating_sub_def)
  ultimately show ?thesis
    using one_piece_request_cut_at_15s [of demo_ep ascii_lower 0 "[]" "demo_relay False 0" "[]" False 1 0 0 "[9]" monitor_init 15000 Whole]
    by (simp add: demo_relay_def)
qed


subsection \<open>Closing\<close>

text \<open>After the client's end of the stream what the server sends more than three seconds later is not
read, though the client may still wait for it.\<close>

lemma grace_ends:
  "ended_at + 3000 < event_time e
    \<Longrightarrow> relay_grace lower ep ended_at (UpEnded t) (before @ e # later) rl = relay_grace lower ep ended_at (UpEnded t) before rl"
  by (simp add: relay_grace_def takeWhile_tail)

lemma counters_step:
  "rl_conn_up (relay_step lower ep e rl) - hf_bytes (rl_up (relay_step lower ep e rl)) = rl_conn_up rl - hf_bytes (rl_up rl)
   \<and> rl_conn_down (relay_step lower ep e rl) - hf_bytes (rl_down (relay_step lower ep e rl))
       = rl_conn_down rl - hf_bytes (rl_down rl)"
  by (cases e) (auto simp: relay_defs up_data_def down_data_def split: inbound.splits wrote.splits prod.splits)

lemma counters_run:
  "rl_conn_up (fold (relay_step lower ep) es rl) - hf_bytes (rl_up (fold (relay_step lower ep) es rl))
     = rl_conn_up rl - hf_bytes (rl_up rl)
   \<and> rl_conn_down (fold (relay_step lower ep) es rl) - hf_bytes (rl_down (fold (relay_step lower ep) es rl))
     = rl_conn_down rl - hf_bytes (rl_down rl)"
  by (induction es arbitrary: rl) (simp_all add: counters_step)

fun cycles :: "bool \<Rightarrow> relay_event list \<Rightarrow> nat" where
  "cycles served [] = 0"
| "cycles served (e # es) =
     (if \<not> carries e then cycles served es
      else if from_client e then (if served then 1 else 0) + cycles False es
      else cycles True es)"

text \<open>While both halves run, the requests counted are the first one and every return of the client
after the server has sent something.\<close>

lemma requests_step:
  assumes "hf_ended (rl_up (relay_step lower ep e rl)) = None" "hf_ended (rl_down (relay_step lower ep e rl)) = None"
  shows "(rl_requests (relay_step lower ep e rl), rl_served (relay_step lower ep e rl))
    = (if \<not> carries e then (rl_requests rl, rl_served rl)
       else if from_client e then (rl_requests rl + (if rl_served rl then 1 else 0), False)
       else (rl_requests rl, True))"
  using step_ended_stays(1) [OF assms(1)] step_ended_stays(2) [OF assms(2)] assms
  by (cases e) (auto simp: relay_defs up_data_def down_data_def split: inbound.splits wrote.splits if_splits prod.splits)

lemma requests_run:
  assumes "hf_ended (rl_up (fold (relay_step lower ep) es rl)) = None"
    and "hf_ended (rl_down (fold (relay_step lower ep) es rl)) = None"
  shows "rl_requests (fold (relay_step lower ep) es rl) = rl_requests rl + of_nat (cycles (rl_served rl) es)"
  using assms
proof (induction es arbitrary: rl)
  case (Cons e es)
  let ?s = "relay_step lower ep e rl"
  have o: "hf_ended (rl_up ?s) = None" "hf_ended (rl_down ?s) = None"
    using run_ended_stays(1) [of lower ep es ?s] run_ended_stays(2) [of lower ep es ?s] Cons.prems by simp_all
  have "rl_requests (fold (relay_step lower ep) es ?s) = rl_requests ?s + of_nat (cycles (rl_served ?s) es)"
    using Cons.IH [of ?s] Cons.prems by simp
  with requests_step [OF o] show ?case by (simp split: if_splits)
qed simp

text \<open>A tunnel is used only when it has taken the header and the first bytes.\<close>

lemma try_tunnels_sent:
  "try_tunnels tunnel send hdr ks last_err = Inr t \<Longrightarrow> send t hdr = None \<and> (\<exists>k\<in>set ks. tunnel k = Inr t)"
  by (induction ks arbitrary: last_err) (auto split: sum.splits option.splits)

lemma connect_tunnel_sent:
  "connect_tunnel tunnel send asks dst nm eng = (Inr t, eng') \<Longrightarrow> \<forall>k\<in>set asks. k < 4 \<Longrightarrow>
     \<exists>hdr i k. send t hdr = None \<and> k < 4 \<and> tunnel i k = Inr t"
  by (auto simp: connect_tunnel_def Let_def split: option.splits prod.splits outbound_node.splits dest!: try_tunnels_sent)

lemma first_write_sent:
  assumes "first_write tunnel send dst nm initial t eng = (Some t', eng')" "send t hdr = None"
  shows "(initial = [] \<or> send t' initial = None) \<and> (\<exists>hdr. send t' hdr = None)"
proof (cases "initial = [] \<or> send t initial = None")
  case True
  with assms show ?thesis by (auto simp: first_write_def)
next
  case False
  obtain r eng2 where c: "connect_tunnel tunnel send [2, 3] dst nm eng = (r, eng2)" by fastforce
  with False assms(1) obtain t2 where r: "r = Inr t2" "send t2 initial = None" "t' = t2"
    by (cases r) (auto simp: first_write_def split: if_splits)
  from connect_tunnel_sent [OF c [unfolded r(1)]] r show ?thesis by auto
qed

subsection \<open>Whole connections\<close>

record net_world =
  nw_engine :: engine
  nw_profiles :: profiles
  nw_monitor :: monitor

record conn_times =
  ct_asked :: nat
  ct_connected :: nat
  ct_relaying :: nat
  ct_finished :: nat

datatype conn_end = NoTunnelMade | FirstWriteFailed | NotConnected | RelayEnded | StillOpen

definition fake_shown :: string where
  "fake_shown = map (\<lambda>b. char_of (unat b)) (([0xE8, 0xBF, 0x9C, 0xE7, 0xA8, 0x8B, 0xE4, 0xBB, 0xA3, 0xE7, 0x90, 0x86,
     0xE8, 0xA7, 0xA3, 0xE6, 0x9E, 0x90] :: u8 list)) @ '' (Fake-IP)''"

fun show_ip :: "ip_addr \<Rightarrow> string" where
  "show_ip (V4 a) = show_ipv4 a"
| "show_ip (V6 a) = show_ipv6 a"

definition target_name :: "sock_addr \<Rightarrow> string option \<Rightarrow> string" where
  "target_name dst nm = (case nm of Some d \<Rightarrow> d | None \<Rightarrow> show_ip (fst dst)) @ '':'' @ show_nat (unat (snd dst))"

definition relay_finish :: "(string \<Rightarrow> string) \<Rightarrow> endpoint \<Rightarrow> nat \<Rightarrow> relay_event list \<Rightarrow> relay
    \<Rightarrow> conn_end \<times> profiles \<times> monitor" where
  "relay_finish lower ep fin evs rl =
     (case relay_until lower ep evs rl of
        (None, rl1) \<Rightarrow> (StillOpen, rl_profiles rl1, rl_monitor rl1)
      | (Some (how, later), rl1) \<Rightarrow>
          (RelayEnded,
           relay_close lower ep fin how
             (relay_grace lower ep (event_time (evs ! (length evs - Suc (length later)))) how later rl1)))"

definition relay_proxy :: "(string \<Rightarrow> string) \<Rightarrow> (nat \<Rightarrow> nat \<Rightarrow> ('e, 't) result) \<Rightarrow> ('t \<Rightarrow> bytes \<Rightarrow> 'e option)
    \<Rightarrow> conn_times \<Rightarrow> sock_addr \<Rightarrow> string option \<Rightarrow> bytes \<Rightarrow> bytes \<Rightarrow> string \<Rightarrow> relay_event list
    \<Rightarrow> net_world \<Rightarrow> conn_end \<times> net_world" where
  "relay_proxy lower tunnel send ct dst nm initial_payload preread rule evs nw =
     (case connect_tunnel tunnel send [0, 1] dst nm (nw_engine nw) of
        (Inl e, eng) \<Rightarrow> (NoTunnelMade, nw\<lparr>nw_engine := eng\<rparr>)
      | (Inr t, eng) \<Rightarrow>
          let connect_ms = of_nat (ct_connected ct - ct_asked ct);
              ip_shown = (if fake_ip_addr (fst dst) then fake_shown else show_ip (fst dst));
              (cid, mon) = record_conn_start (secs (ct_connected ct)) ''TCP'' (target_name dst nm) ip_shown rule ''PROXY''
                             None (nw_monitor nw);
              mon = record_conn_timings cid 0 connect_ms 0 0 mon;
              initial_data = (if initial_payload = [] then take 16384 preread else initial_payload);
              (used, eng) = first_write tunnel send dst nm initial_data t eng
          in if used = None then
               (FirstWriteFailed,
                nw\<lparr>nw_engine := eng,
                  nw_monitor := record_conn_close (secs (ct_finished ct)) cid 0 0 ''Initial Write Failed'' mon\<rparr>)
             else
               let ep = \<lparr>ep_ip = (if fake_ip_addr (fst dst) then None else Some (fst dst)), ep_port = snd dst, ep_domain = nm\<rparr>
               in case relay_finish lower ep (ct_finished ct) evs
                         (relay_start lower ep False (ct_relaying ct) cid 0 connect_ms initial_data (nw_profiles nw) mon) of
                    (end', ps, mon') \<Rightarrow> (end', nw\<lparr>nw_engine := eng, nw_profiles := ps, nw_monitor := mon'\<rparr>))"

text \<open>\<open>relay_direct\<close> from the address decided on (\<open>FlowPath.relay_direct\<close> decides it): the result of
the socket and of its connect, and whether the first bytes could be written.\<close>

datatype dial_result = NoSocket | ConnectFailed | ConnectTimeout | Connected bool

definition connect_timeout :: "'r router_env \<Rightarrow> ip_addr \<Rightarrow> string option \<Rightarrow> nat" where
  "connect_timeout env target_ip nm =
     (if nm = None \<and> is_cn_ip env target_ip \<and> (case target_ip of V6 a \<Rightarrow> True | V4 a \<Rightarrow> False) then 800 else 2500)"

definition never_proxied :: "'r router_env \<Rightarrow> ip_addr \<Rightarrow> string option \<Rightarrow> bool" where
  "never_proxied env target_ip nm \<longleftrightarrow>
     (nm = None \<and> is_cn_ip env target_ip) \<or> (case nm of Some d \<Rightarrow> is_cn_domain_strict d | None \<Rightarrow> False)"

definition dial_direct :: "(string \<Rightarrow> string) \<Rightarrow> 'r router_env \<Rightarrow> (nat \<Rightarrow> nat \<Rightarrow> ('e, 't) result) \<Rightarrow> ('t \<Rightarrow> bytes \<Rightarrow> 'e option)
    \<Rightarrow> conn_times \<Rightarrow> conn_times \<Rightarrow> sock_addr \<Rightarrow> string option \<Rightarrow> ip_addr \<Rightarrow> u32 \<Rightarrow> bytes \<Rightarrow> bytes \<Rightarrow> string
    \<Rightarrow> dial_result \<Rightarrow> relay_event list \<Rightarrow> net_world \<Rightarrow> conn_end \<times> net_world" where
  "dial_direct lower env tunnel send ct ct' dst nm target_ip dns_ms initial preread rule res evs nw =
     (let (cid, mon) = record_conn_start (secs (ct_asked ct)) ''TCP'' (target_name (target_ip, snd dst) nm)
                         (show_ip target_ip) rule ''DIRECT'' None (nw_monitor nw);
          closed_as = (\<lambda>status. nw\<lparr>nw_monitor := record_conn_close (secs (ct_finished ct)) cid 0 0 status mon\<rparr>);
          failed = (\<lambda>status. if never_proxied env target_ip nm
                            then (NotConnected, closed_as (''Direct Connect '' @ status))
                            else relay_proxy lower tunnel send ct' dst nm initial preread rule evs
                                   (closed_as (''Connect '' @ status @ '' (Fallback Proxy)'')))
      in case res of
           NoSocket \<Rightarrow> (NotConnected, closed_as ''Socket Creation Failed'')
         | ConnectFailed \<Rightarrow> failed ''Failed''
         | ConnectTimeout \<Rightarrow> failed ''Timeout''
         | Connected wrote_first \<Rightarrow>
             let connect_ms = of_nat (ct_connected ct - ct_asked ct);
                 mon = record_conn_timings cid dns_ms connect_ms 0 0 mon
             in if initial \<noteq> [] \<and> \<not> wrote_first then
                  (FirstWriteFailed,
                   nw\<lparr>nw_monitor := record_conn_close (secs (ct_finished ct)) cid 0 0 ''Write Initial Payload Failed'' mon\<rparr>)
                else
                  let ep = \<lparr>ep_ip = Some target_ip, ep_port = snd dst, ep_domain = nm\<rparr>
                  in case relay_finish lower ep (ct_finished ct) evs
                            (relay_start lower ep True (ct_relaying ct) cid dns_ms connect_ms initial (nw_profiles nw) mon) of
                       (end', ps, mon') \<Rightarrow> (end', nw\<lparr>nw_profiles := ps, nw_monitor := mon'\<rparr>))"

lemma step_conns [simp]:
  "mn_conns (rl_monitor (relay_step lower ep e rl)) = mn_conns (rl_monitor rl)"
  "rl_cid (relay_step lower ep e rl) = rl_cid rl"
  by (cases e; auto simp: relay_defs up_data_def down_data_def add_up_def add_down_def record_conn_timings_def
        update_recent_def split: inbound.splits wrote.splits prod.splits)+

lemma run_conns [simp]:
  "mn_conns (rl_monitor (fold (relay_step lower ep) es rl)) = mn_conns (rl_monitor rl)"
  "rl_cid (fold (relay_step lower ep) es rl) = rl_cid rl"
  by (induction es arbitrary: rl) simp_all

lemma grace_conns [simp]:
  "mn_conns (rl_monitor (relay_grace lower ep t how later rl)) = mn_conns (rl_monitor rl)"
  "rl_cid (relay_grace lower ep t how later rl) = rl_cid rl"
  by (cases how; simp add: relay_grace_def)+

lemma until_conns:
  "relay_until lower ep es rl = (r, rl') \<Longrightarrow> mn_conns (rl_monitor rl') = mn_conns (rl_monitor rl) \<and> rl_cid rl' = rl_cid rl"
  by (induction es arbitrary: rl)
    (auto simp: Let_def step_conns simp del: relay_step.simps split: if_splits option.splits)

lemma finish_conns:
  assumes "relay_finish lower ep fin evs rl = (end', ps, mon)" "end' \<noteq> StillOpen"
  shows "mn_conns mon = AList.delete (rl_cid rl) (mn_conns (rl_monitor rl)) \<and> end' = RelayEnded"
proof -
  obtain r rl1 where u: "relay_until lower ep evs rl = (r, rl1)" by fastforce
  with assms obtain how later where r: "r = Some (how, later)" by (cases r) (auto simp: relay_finish_def)
  from until_conns [OF u] assms show ?thesis
    by (auto simp: relay_finish_def u r relay_close_def Let_def record_conn_close_with_duration_def update_recent_def)
qed

lemma start_conns [simp]:
  "mn_conns (rl_monitor (relay_start lower ep direct now cid dns con initial ps mon)) = mn_conns mon"
  "rl_cid (relay_start lower ep direct now cid dns con initial ps mon) = cid"
  by (simp_all add: relay_start_def add_up_def split: prod.splits)

text \<open>A record begun and closed again leaves the connections of the others.\<close>

lemma record_close_keys:
  assumes "record_conn_start now proto tgt shown rule lab app mon = (cid, mon1)"
    and "mn_conns mon2 = AList.delete cid (mn_conns mon1)"
  shows "fst ` set (mn_conns mon2) \<subseteq> fst ` set (mn_conns mon)"
proof -
  have "mn_conns mon1 = AList.update cid (\<lparr>lc_id = cid, lc_protocol = proto, lc_target = tgt, lc_outbound = lab,
      lc_up = 0, lc_down = 0, lc_start = now, lc_aborted = False, lc_app = app\<rparr>) (mn_conns mon)" "cid = mn_next_id mon"
    using assms(1) by (auto simp: record_conn_start_def Let_def)
  then have "set (map fst (mn_conns mon2)) \<subseteq> set (map fst (mn_conns mon))"
    unfolding assms(2) by (simp only: delete_keys update_keys) auto
  then show ?thesis by simp
qed

lemma timings_conns [simp]: "mn_conns (record_conn_timings cid a b c d mon) = mn_conns mon"
  by (simp add: record_conn_timings_def update_recent_def)

lemma close_conns [simp]: "mn_conns (record_conn_close now cid up down status mon) = AList.delete cid (mn_conns mon)"
  by (simp add: record_conn_close_def record_conn_close_with_duration_def update_recent_def)

lemma proxy_no_leak:
  assumes "relay_proxy lower tunnel send ct dst nm initial preread rule evs nw = (end', nw')" "end' \<noteq> StillOpen"
  shows "fst ` set (mn_conns (nw_monitor nw')) \<subseteq> fst ` set (mn_conns (nw_monitor nw))"
proof -
  obtain r eng where c: "connect_tunnel tunnel send [0, 1] dst nm (nw_engine nw) = (r, eng)" by fastforce
  show ?thesis
  proof (cases r)
    case (Inl e)
    with assms c show ?thesis by (auto simp: relay_proxy_def)
  next
    case (Inr t)
    obtain cid mon where s: "record_conn_start (secs (ct_connected ct)) ''TCP'' (target_name dst nm)
        (if fake_ip_addr (fst dst) then fake_shown else show_ip (fst dst)) rule ''PROXY'' None (nw_monitor nw) = (cid, mon)"
      by fastforce
    obtain used eng' where f: "first_write tunnel send dst nm
        (if initial = [] then take 16384 preread else initial) t eng = (used, eng')" by fastforce
    have "mn_conns (nw_monitor nw') = AList.delete cid (mn_conns mon)"
      using assms c Inr s f
      by (auto simp: relay_proxy_def Let_def split: if_splits prod.splits dest!: finish_conns)
    with record_close_keys [OF s] show ?thesis .
  qed
qed


definition demo_times :: conn_times where
  "demo_times = \<lparr>ct_asked = 0, ct_connected = 10, ct_relaying = 20, ct_finished = 3000\<rparr>"

definition demo_world :: net_world where
  "demo_world = \<lparr>nw_engine = bare_engine, nw_profiles = [], nw_monitor = monitor_init\<rparr>"


end
