(* ===== verification/Runtime.thy ===== *)
theory Runtime
  imports TunStack Failover RustParse
begin

text \<open>The native methods of \<open>mirage-jni/src/lib.rs\<close> over the engine and the stack themselves. \<open>Failover\<close>
models starting, switching and stopping with the running engine as one abstract value; here the
value is the stack of \<open>TunStack\<close> with the process-wide state beside it, and the abstract calls are
what the concrete ones refine to. \<open>locked i\<close> says that the queue of pool \<open>i\<close> is in use when the pool is
emptied.\<close>

record runtime =
  rn_jni :: "tun_stack jni_state"
  rn_core :: core
  rn_direct_dns :: u32
  rn_remote_dns :: ip_addr

definition rt_init :: "core \<Rightarrow> runtime" where
  "rt_init co = \<lparr>rn_jni = jni_init, rn_core = co, rn_direct_dns = 0xDF050505, rn_remote_dns = V4 0x01010101\<rparr>"

abbreviation running :: "runtime \<Rightarrow> tun_stack option" where
  "running rt \<equiv> js_runtime (rn_jni rt)"

definition with_jni :: "(tun_stack jni_state \<Rightarrow> tun_stack jni_state) \<Rightarrow> runtime \<Rightarrow> runtime" where
  "with_jni f rt = rt\<lparr>rn_jni := f (rn_jni rt)\<rparr>"

definition with_engine :: "(engine \<Rightarrow> engine) \<Rightarrow> tun_stack \<Rightarrow> tun_stack" where
  "with_engine f st = st\<lparr>ts_store := (ts_store st)[ts_current st := f (tun_engine st)]\<rparr>"

subsection \<open>Starting and stopping\<close>

definition tun_config_mtu :: "int \<Rightarrow> nat" where
  "tun_config_mtu mtu = (if 1280 \<le> mtu \<and> mtu \<le> 1500 then nat mtu else tun_mtu)"

definition rt_boot :: "start_env \<Rightarrow> int \<Rightarrow> int option \<Rightarrow> node_info \<Rightarrow> runtime \<Rightarrow> int \<times> runtime" where
  "rt_boot env dup_fd pipe_write node rt =
     (if \<not> se_tokio env then (-4, with_jni (js_started_update (\<lambda>_. False)) rt)
      else
        case engine_new node (rn_core rt) of
          (Inl e, co) \<Rightarrow> (-3, with_jni (js_started_update (\<lambda>_. False)) (rt\<lparr>rn_core := co\<rparr>))
        | (Inr eng, co) \<Rightarrow>
            (case stack_start eng dup_fd pipe_write of
               None \<Rightarrow> (-3, with_jni (js_started_update (\<lambda>_. False)) (rt\<lparr>rn_core := co\<rparr>))
             | Some st \<Rightarrow>
                 (0, with_jni (\<lambda>s. s\<lparr>js_runtime := Some st, js_watchdog_gen := js_watchdog_gen s + 1\<rparr>) (rt\<lparr>rn_core := co\<rparr>))))"

definition rt_start :: "uri_parser \<Rightarrow> start_env \<Rightarrow> int \<Rightarrow> int option \<Rightarrow> int \<Rightarrow> runtime \<Rightarrow> int \<times> runtime" where
  "rt_start parse env dup_fd pipe_write pool_size rt0 =
     (if js_started (rn_jni rt0) \<and> running rt0 \<noteq> None then (0, rt0)
      else
        let rt = with_jni (js_started_update (\<lambda>_. True)) (rt0\<lparr>rn_core := reset_core (rn_core rt0)\<rparr>);
            fail = (\<lambda>c rt. (c, with_jni (js_started_update (\<lambda>_. False)) rt))
        in case se_get_string env of
             None \<Rightarrow> fail (-1) rt
           | Some uri \<Rightarrow>
               (case parse uri of
                  Inl e \<Rightarrow> fail (-1) rt
                | Inr u \<Rightarrow>
                    let rt = (if 0 < pool_size then with_jni (js_pool_size_update (\<lambda>_. nat pool_size)) rt else rt);
                        node = (from_node_uri u)\<lparr>ni_pool_size := js_pool_size (rn_jni rt)\<rparr>;
                        rt = with_jni (js_node_uri_update (\<lambda>_. Some uri)) rt
                    in if \<not> se_java_vm env then fail (-5) rt
                       else if \<not> se_find_class env then fail (-6) rt
                       else if \<not> se_global_ref env then fail (-7) rt
                       else rt_boot env dup_fd pipe_write node rt))"

definition rt_stop :: "(nat \<Rightarrow> bool) \<Rightarrow> runtime \<Rightarrow> tun_stack option \<times> runtime" where
  "rt_stop locked rt =
     (let (dropped, co) =
        (case running rt of
           None \<Rightarrow> (None, rn_core rt)
         | Some st \<Rightarrow>
             (case reset_dns_and_fake_ip (rn_core rt, tun_engine st) of
                (co, eng) \<Rightarrow> (case stop locked (with_engine (\<lambda>_. eng) st, co) of (st', co) \<Rightarrow> (Some st', co))))
      in (dropped, with_jni (\<lambda>s. s\<lparr>js_runtime := None, js_started := False\<rparr>) (rt\<lparr>rn_core := reset_core co\<rparr>)))"

subsection \<open>Switching\<close>

definition rt_switch_engine_to :: "(nat \<Rightarrow> bool) \<Rightarrow> uri_parser \<Rightarrow> string \<Rightarrow> runtime \<Rightarrow> bool \<times> runtime" where
  "rt_switch_engine_to locked parse uri rt =
     (case (parse uri, running rt) of
        (Inr u, Some st) \<Rightarrow>
          (case engine_new ((from_node_uri u)\<lparr>ni_pool_size := js_pool_size (rn_jni rt)\<rparr>) (rn_core rt) of
             (Inl e, co) \<Rightarrow> (False, rt\<lparr>rn_core := co\<rparr>)
           | (Inr eng, co) \<Rightarrow>
               (True, with_jni (\<lambda>s. s\<lparr>js_runtime := Some (swap_engine locked eng st), js_node_uri := Some uri\<rparr>)
                        (rt\<lparr>rn_core := co\<rparr>)))
      | _ \<Rightarrow> (False, rt))"

definition rt_set_node :: "(nat \<Rightarrow> bool) \<Rightarrow> uri_parser \<Rightarrow> string option \<Rightarrow> runtime \<Rightarrow> bool \<times> runtime" where
  "rt_set_node locked parse uri rt =
     (case uri of
        None \<Rightarrow> (False, rt)
      | Some u_str \<Rightarrow>
          (case parse u_str of
             Inl e \<Rightarrow> (False, rt)
           | Inr u \<Rightarrow>
               let node = (from_node_uri u)\<lparr>ni_pool_size := js_pool_size (rn_jni rt)\<rparr>;
                   rt = with_jni (js_node_uri_update (\<lambda>_. Some u_str)) rt
               in case running rt of
                    None \<Rightarrow> (False, rt)
                  | Some st \<Rightarrow>
                      (case engine_new node (rn_core rt) of
                         (Inl e, co) \<Rightarrow> (False, rt\<lparr>rn_core := co\<rparr>)
                       | (Inr eng, co) \<Rightarrow>
                           (True, with_jni (js_runtime_update (\<lambda>_. Some (swap_engine locked eng st))) (rt\<lparr>rn_core := co\<rparr>)))))"

subsection \<open>The running engine\<close>

definition rt_is_healthy :: "u64 \<Rightarrow> runtime \<Rightarrow> bool" where
  "rt_is_healthy now rt =
     (case running rt of None \<Rightarrow> False | Some st \<Rightarrow> engine_is_healthy now (rn_core rt) (tun_engine st))"

definition rt_flush_pool :: "(nat \<Rightarrow> bool) \<Rightarrow> runtime \<Rightarrow> bool \<times> runtime" where
  "rt_flush_pool locked rt =
     (case running rt of
        None \<Rightarrow> (False, rt)
      | Some st \<Rightarrow> (True, with_jni (js_runtime_update (\<lambda>_. Some (stack_flush_pool locked st))) rt))"

definition rt_latency_ms :: "runtime \<Rightarrow> int \<times> runtime" where
  "rt_latency_ms rt =
     (case running rt of
        None \<Rightarrow> (-1, rt)
      | Some st \<Rightarrow>
          (case engine_latency_ms (tun_engine st) of
             (l, eng) \<Rightarrow> (case l of Some v \<Rightarrow> sint v | None \<Rightarrow> -1,
                          with_jni (js_runtime_update (\<lambda>_. Some (with_engine (\<lambda>_. eng) st))) rt)))"

definition rt_set_pool_size :: "int \<Rightarrow> runtime \<Rightarrow> bool \<times> runtime" where
  "rt_set_pool_size pool_size rt =
     (if pool_size \<le> 0 then (False, rt)
      else
        (True, with_jni (\<lambda>s. s\<lparr>js_pool_size := nat pool_size,
                  js_runtime := map_option (with_engine (engine_set_pool_size (nat pool_size))) (js_runtime s)\<rparr>) rt))"

definition rt_clear_dns_cache :: "runtime \<Rightarrow> runtime" where
  "rt_clear_dns_cache rt =
     (case running rt of
        None \<Rightarrow> rt
      | Some st \<Rightarrow>
          (case reset_dns_and_fake_ip (rn_core rt, tun_engine st) of
             (co, eng) \<Rightarrow> with_jni (js_runtime_update (\<lambda>_. Some (with_engine (\<lambda>_. eng) st))) (rt\<lparr>rn_core := co\<rparr>)))"

subsection \<open>Probing other nodes\<close>

text \<open>\<open>dial node\<close> is the time in which the pool of a fresh engine for \<open>node\<close> gives a tunnel.\<close>

definition rt_test_node :: "uri_parser \<Rightarrow> (node_info \<Rightarrow> nat option) \<Rightarrow> string option \<Rightarrow> int \<Rightarrow> runtime \<Rightarrow> int \<times> runtime" where
  "rt_test_node parse dial uri timeout_ms rt =
     (case map_option parse uri of
        Some (Inr u) \<Rightarrow>
          let node = from_node_uri u
          in (case engine_new node (rn_core rt) of
                (Inl e, co) \<Rightarrow> (-1, rt\<lparr>rn_core := co\<rparr>)
              | (Inr eng, co) \<Rightarrow>
                  ((case Option.bind (default_node eng) (\<lambda>n. case fst (resolve_leaf n (engine_state eng)) of
                                                               Mirage i t c up \<Rightarrow> dial node | _ \<Rightarrow> None) of
                      Some ms \<Rightarrow> if int ms \<le> max timeout_ms 1000 then int ms else -1
                    | None \<Rightarrow> -1),
                   rt\<lparr>rn_core := co\<rparr>))
      | _ \<Rightarrow> (-1, rt))"

definition probe_candidate :: "uri_parser \<Rightarrow> (node_info \<Rightarrow> nat option) \<Rightarrow> string \<Rightarrow> core \<Rightarrow> int \<times> core" where
  "probe_candidate parse dial uri co =
     (case parse uri of
        Inl e \<Rightarrow> (i64_max, co)
      | Inr u \<Rightarrow>
          (case engine_new (from_node_uri u) co of
             (Inl e, co) \<Rightarrow> (i64_max, co)
           | (Inr eng, co) \<Rightarrow>
               (case Option.bind (default_node eng) (\<lambda>n. case fst (resolve_leaf n (engine_state eng)) of
                                                             Mirage i t c up \<Rightarrow> dial (from_node_uri u) | _ \<Rightarrow> None) of
                  Some ms \<Rightarrow> if ms \<le> 3000 then int ms else i64_max
                | None \<Rightarrow> i64_max, co)))"

definition rt_pick_best_node :: "uri_parser \<Rightarrow> (node_info \<Rightarrow> nat option) \<Rightarrow> node_entry list \<Rightarrow> core \<Rightarrow> string option \<times> core" where
  "rt_pick_best_node parse dial candidates co =
     (case fold (\<lambda>c (best, co). case probe_candidate parse dial (ne_uri c) co of
                   (rtt, co) \<Rightarrow> (better best (Some (ne_uri c, rtt)), co)) candidates (None, co) of
        (best, co) \<Rightarrow> (map_option fst best, co))"

subsection \<open>Settings\<close>

definition rt_set_dns_servers :: "string option \<Rightarrow> string option \<Rightarrow> runtime \<Rightarrow> bool \<times> runtime" where
  "rt_set_dns_servers direct_dns remote_dns rt =
     (case (direct_dns, remote_dns) of
        (Some d, Some r) \<Rightarrow>
          let rt = (case parse_ipv4 (trim d) of
                      Some ip \<Rightarrow> rt\<lparr>rn_direct_dns := ip, rn_core := clear_direct_cache (rn_core rt)\<rparr>
                    | None \<Rightarrow> rt);
              rt = (case parse_ip (trim r) of Some ip \<Rightarrow> rt\<lparr>rn_remote_dns := ip\<rparr> | None \<Rightarrow> rt)
          in (True, rt)
      | _ \<Rightarrow> (False, rt))"

definition rt_close_connection :: "int \<Rightarrow> runtime \<Rightarrow> bool \<times> runtime" where
  "rt_close_connection i rt =
     (if 0 < i then
        case close_connection (of_int i) (co_monitor (rn_core rt)) of
          (ok, mon) \<Rightarrow> (ok, rt\<lparr>rn_core := (rn_core rt)\<lparr>co_monitor := mon\<rparr>\<rparr>)
      else (False, rt))"

definition rt_set_udp_mux :: "bool \<Rightarrow> runtime \<Rightarrow> runtime" where
  "rt_set_udp_mux enabled rt = rt\<lparr>rn_core := set_udp_mux enabled 4 (rn_core rt)\<rparr>"

subsection \<open>Refinement of the control plane\<close>

text \<open>What the calls of \<open>Failover\<close> take as the way to make an engine: whether and which engine comes
out does not depend on the process-wide state.\<close>

definition fresh_core :: core where
  "fresh_core = \<lparr>co_monitor = monitor_init, co_dns_cache = Map.empty, co_udp_mux = False, co_udp_mux_tunnels = 4\<rparr>"

definition engine_of :: "node_info \<Rightarrow> engine option" where
  "engine_of node = (case fst (engine_new node fresh_core) of Inl e \<Rightarrow> None | Inr eng \<Rightarrow> Some eng)"

lemma engine_new_core: "fst (engine_new node co) = fst (engine_new node co')"
  by (simp add: engine_new_def from_config_def split: prod.splits)

lemma engine_of_cases:
  "engine_new node co = (Inl e, co') \<Longrightarrow> engine_of node = None"
  "engine_new node co = (Inr eng, co') \<Longrightarrow> engine_of node = Some eng"
  using engine_new_core [of node fresh_core co] by (auto simp: engine_of_def)

definition rt_abs :: "runtime \<Rightarrow> engine jni_state" where
  "rt_abs rt = (case rn_jni rt of s \<Rightarrow>
     \<lparr>js_started = js_started s, js_runtime = map_option (\<lambda>st. tun_engine st) (js_runtime s),
      js_pool_size = js_pool_size s, js_node_uri = js_node_uri s, js_watchdog_gen = js_watchdog_gen s\<rparr>)"

definition rt_wf :: "runtime \<Rightarrow> bool" where
  "rt_wf rt \<longleftrightarrow> (case running rt of None \<Rightarrow> True | Some st \<Rightarrow> stack_wf st)"

datatype rt_op =
    StartOp start_env int "int option" int
  | StopOp
  | SetNodeOp "string option"
  | SwitchOp string
  | SetPoolSizeOp int

fun rt_step :: "(nat \<Rightarrow> bool) \<Rightarrow> uri_parser \<Rightarrow> rt_op \<Rightarrow> runtime \<Rightarrow> runtime" where
  "rt_step locked parse (StartOp env dup_fd pipe_write n) rt = snd (rt_start parse env dup_fd pipe_write n rt)"
| "rt_step locked parse StopOp rt = snd (rt_stop locked rt)"
| "rt_step locked parse (SetNodeOp uri) rt = snd (rt_set_node locked parse uri rt)"
| "rt_step locked parse (SwitchOp uri) rt = snd (rt_switch_engine_to locked parse uri rt)"
| "rt_step locked parse (SetPoolSizeOp n) rt = snd (rt_set_pool_size n rt)"

text \<open>The watchdog switches only while something runs.\<close>

fun abs_step :: "uri_parser \<Rightarrow> rt_op \<Rightarrow> engine jni_state \<Rightarrow> engine jni_state" where
  "abs_step parse (StartOp env dup_fd pipe_write n) s =
     snd (jni_start parse engine_of (env\<lparr>se_tun_start := 0 \<le> dup_fd\<rparr>) n s)"
| "abs_step parse StopOp s = jni_stop s"
| "abs_step parse (SetNodeOp uri) s = snd (jni_set_node parse engine_of uri s)"
| "abs_step parse (SwitchOp uri) s =
     (if js_runtime s = None then s else snd (switch_engine_to parse engine_of uri s))"
| "abs_step parse (SetPoolSizeOp n) s = snd (jni_set_pool_size engine_set_pool_size n s)"

lemma swapped: "tun_engine (swap_engine locked new st) = new" "stack_wf st \<Longrightarrow> stack_wf (swap_engine locked new st)"
  by (auto simp: swap_engine_def nth_append stack_wf_def)

lemma with_engine_current:
  "stack_wf st \<Longrightarrow> tun_engine (with_engine f st) = f (tun_engine st)" "stack_wf st \<Longrightarrow> stack_wf (with_engine f st)"
  by (simp_all add: with_engine_def stack_wf_def)

lemma started_stack:
  "stack_start eng dup_fd pw = Some st \<Longrightarrow> tun_engine st = eng \<and> stack_wf st \<and> 0 \<le> dup_fd"
  "stack_start eng dup_fd pw = None \<Longrightarrow> dup_fd < 0"
  by (auto simp: stack_start_def stack_wf_def split: if_splits)

lemma boot_refines:
  assumes "rt_wf rt"
  shows "rt_abs (snd (rt_boot env dup_fd pw node rt))
      = snd (jni_boot engine_of (env\<lparr>se_tun_start := 0 \<le> dup_fd\<rparr>) node (rt_abs rt))
    \<and> rt_wf (snd (rt_boot env dup_fd pw node rt))"
proof (cases "se_tokio env")
  case False
  with assms show ?thesis by (simp add: rt_boot_def jni_boot_def start_fail_def rt_abs_def rt_wf_def with_jni_def)
next
  case True
  obtain r co where e: "engine_new node (rn_core rt) = (r, co)" by fastforce
  show ?thesis
  proof (cases r)
    case (Inl x)
    with True assms e engine_of_cases(1) [OF e [unfolded Inl]] show ?thesis
      by (simp add: rt_boot_def jni_boot_def start_fail_def rt_abs_def rt_wf_def with_jni_def)
  next
    case (Inr eng)
    note eng = engine_of_cases(2) [OF e [unfolded Inr]]
    show ?thesis
    proof (cases "stack_start eng dup_fd pw")
      case None
      with True assms e Inr eng started_stack(2) [OF None] show ?thesis
        by (simp add: rt_boot_def jni_boot_def start_fail_def rt_abs_def rt_wf_def with_jni_def)
    next
      case (Some st)
      with True assms e Inr eng started_stack(1) [OF Some] show ?thesis
        by (simp add: rt_boot_def jni_boot_def rt_abs_def rt_wf_def with_jni_def)
    qed
  qed
qed

lemma start_refines:
  assumes "rt_wf rt"
  shows "rt_abs (snd (rt_start parse env dup_fd pw n rt))
      = snd (jni_start parse engine_of (env\<lparr>se_tun_start := 0 \<le> dup_fd\<rparr>) n (rt_abs rt))
    \<and> rt_wf (snd (rt_start parse env dup_fd pw n rt))"
proof (cases "js_started (rn_jni rt) \<and> running rt \<noteq> None")
  case True
  with assms show ?thesis by (auto simp: rt_start_def jni_start_def rt_abs_def)
next
  case False
  note idle = this
  show ?thesis
  proof (cases "se_get_string env")
    case None
    with idle assms show ?thesis
      by (auto simp: rt_start_def jni_start_def start_fail_def rt_abs_def rt_wf_def with_jni_def Let_def)
  next
    case (Some uri)
    show ?thesis
    proof (cases "parse uri")
      case (Inl e)
      with idle Some assms show ?thesis
        by (auto simp: rt_start_def jni_start_def start_fail_def rt_abs_def rt_wf_def with_jni_def Let_def)
    next
      case (Inr u)
      define rt1 where "rt1 = with_jni (js_started_update (\<lambda>_. True)) (rt\<lparr>rn_core := reset_core (rn_core rt)\<rparr>)"
      define rt2 where "rt2 = (if 0 < n then with_jni (js_pool_size_update (\<lambda>_. nat n)) rt1 else rt1)"
      define rt3 where "rt3 = with_jni (js_node_uri_update (\<lambda>_. Some uri)) rt2"
      have wf: "rt_wf rt3" using assms by (simp add: rt3_def rt2_def rt1_def rt_wf_def with_jni_def)
      have s: "rt_start parse env dup_fd pw n rt =
          (if \<not> se_java_vm env then (-5, with_jni (js_started_update (\<lambda>_. False)) rt3)
           else if \<not> se_find_class env then (-6, with_jni (js_started_update (\<lambda>_. False)) rt3)
           else if \<not> se_global_ref env then (-7, with_jni (js_started_update (\<lambda>_. False)) rt3)
           else rt_boot env dup_fd pw ((from_node_uri u)\<lparr>ni_pool_size := js_pool_size (rn_jni rt2)\<rparr>) rt3)"
        by (simp only: rt_start_def if_not_P [OF idle] Some Inr option.case sum.case Let_def rt1_def rt2_def rt3_def)
      define s1 where "s1 = (if 0 < n then (rt_abs rt)\<lparr>js_started := True, js_pool_size := nat n\<rparr> else (rt_abs rt)\<lparr>js_started := True\<rparr>)"
      have idle': "\<not> (js_started (rt_abs rt) \<and> js_runtime (rt_abs rt) \<noteq> None)" using idle by (auto simp: rt_abs_def)
      have a: "jni_start parse engine_of (env\<lparr>se_tun_start := 0 \<le> dup_fd\<rparr>) n (rt_abs rt) =
          (if \<not> se_java_vm env then start_fail (-5) (s1\<lparr>js_node_uri := Some uri\<rparr>)
           else if \<not> se_find_class env then start_fail (-6) (s1\<lparr>js_node_uri := Some uri\<rparr>)
           else if \<not> se_global_ref env then start_fail (-7) (s1\<lparr>js_node_uri := Some uri\<rparr>)
           else jni_boot engine_of (env\<lparr>se_tun_start := 0 \<le> dup_fd\<rparr>)
             ((from_node_uri u)\<lparr>ni_pool_size := js_pool_size s1\<rparr>) (s1\<lparr>js_node_uri := Some uri\<rparr>))"
        unfolding jni_start_def if_not_P [OF idle'] by (simp add: Some Inr Let_def s1_def)
      have m: "rt_abs rt3 = s1\<lparr>js_node_uri := Some uri\<rparr>" "js_pool_size (rn_jni rt2) = js_pool_size s1"
        by (simp_all add: rt3_def rt2_def rt1_def s1_def rt_abs_def with_jni_def)
      have f: "rt_abs (with_jni (js_started_update (\<lambda>_. False)) rt3) = snd (start_fail c (s1\<lparr>js_node_uri := Some uri\<rparr>))"
        "rt_wf (with_jni (js_started_update (\<lambda>_. False)) rt3)" for c
        using wf by (simp_all add: m(1) [symmetric] start_fail_def rt_abs_def rt_wf_def with_jni_def)
      show ?thesis
        using f boot_refines [OF wf, of env dup_fd pw "(from_node_uri u)\<lparr>ni_pool_size := js_pool_size s1\<rparr>"]
        unfolding s a m(2) by (simp add: m(1))
    qed
  qed
qed

lemma stop_refines: "rt_abs (snd (rt_stop locked rt)) = jni_stop (rt_abs rt) \<and> rt_wf (snd (rt_stop locked rt))"
  by (simp add: rt_stop_def jni_stop_def rt_abs_def rt_wf_def with_jni_def split: prod.splits)

lemma set_node_refines:
  assumes "rt_wf rt"
  shows "rt_abs (snd (rt_set_node locked parse uri rt)) = snd (jni_set_node parse engine_of uri (rt_abs rt))
    \<and> rt_wf (snd (rt_set_node locked parse uri rt))"
proof (cases "map_option parse uri")
  case None
  with assms show ?thesis by (simp add: rt_set_node_def jni_set_node_def)
next
  case (Some p)
  then obtain s where s: "uri = Some s" "parse s = p" by auto
  show ?thesis
  proof (cases p)
    case (Inl e)
    with s assms show ?thesis by (simp add: rt_set_node_def jni_set_node_def)
  next
    case (Inr u)
    show ?thesis
    proof (cases "running rt")
      case None
      with s Inr assms show ?thesis
        by (simp add: rt_set_node_def jni_set_node_def rt_abs_def rt_wf_def with_jni_def Let_def)
    next
      case (Some st)
      obtain r co where e: "engine_new ((from_node_uri u)\<lparr>ni_pool_size := js_pool_size (rn_jni rt)\<rparr>) (rn_core rt) = (r, co)"
        by fastforce
      have wf: "stack_wf st" using assms Some by (simp add: rt_wf_def)
      show ?thesis
        using s Inr Some e engine_of_cases [of _ "rn_core rt"] swapped wf
        by (cases r) (simp_all add: rt_set_node_def jni_set_node_def rt_abs_def rt_wf_def with_jni_def Let_def)
    qed
  qed
qed

lemma switch_refines:
  assumes "rt_wf rt" "running rt = Some st"
  shows "rt_abs (snd (rt_switch_engine_to locked parse uri rt)) = snd (switch_engine_to parse engine_of uri (rt_abs rt))
    \<and> rt_wf (snd (rt_switch_engine_to locked parse uri rt))"
proof (cases "parse uri")
  case (Inl e)
  with assms show ?thesis by (simp add: rt_switch_engine_to_def switch_engine_to_def)
next
  case (Inr u)
  obtain r co where e: "engine_new ((from_node_uri u)\<lparr>ni_pool_size := js_pool_size (rn_jni rt)\<rparr>) (rn_core rt) = (r, co)"
    by fastforce
  have wf: "stack_wf st" using assms by (simp add: rt_wf_def)
  show ?thesis
    using Inr assms(2) e engine_of_cases [of _ "rn_core rt"] swapped wf
    by (cases r) (simp_all add: rt_switch_engine_to_def switch_engine_to_def rt_abs_def rt_wf_def with_jni_def)
qed

lemma set_pool_size_refines:
  assumes "rt_wf rt"
  shows "rt_abs (snd (rt_set_pool_size n rt)) = snd (jni_set_pool_size engine_set_pool_size n (rt_abs rt))
    \<and> rt_wf (snd (rt_set_pool_size n rt))"
  using assms with_engine_current
  by (cases "running rt") (simp_all add: rt_set_pool_size_def jni_set_pool_size_def rt_abs_def rt_wf_def with_jni_def)

lemma rt_step_refines:
  assumes "rt_wf rt"
  shows "rt_abs (rt_step locked parse op rt) = abs_step parse op (rt_abs rt) \<and> rt_wf (rt_step locked parse op rt)"
proof (cases op)
  case (SwitchOp uri)
  show ?thesis
  proof (cases "running rt")
    case None
    with SwitchOp assms show ?thesis
      by (simp add: rt_switch_engine_to_def rt_abs_def split: sum.splits)
  next
    case (Some st)
    with SwitchOp switch_refines [OF assms Some] show ?thesis by (simp add: rt_abs_def)
  qed
qed (use assms start_refines stop_refines set_node_refines set_pool_size_refines in simp_all)


subsection \<open>Stopping and probing\<close>
lemma reset_core_clean:
  "mn_conns (co_monitor (reset_core co)) = [] \<and> co_dns_cache (reset_core co) = Map.empty"
  by (simp add: reset_core_def clear_direct_cache_def reset_session_def)

text \<open>After \<open>stop\<close> nothing runs, the descriptors of the stack are closed and the shared state is clean.\<close>

lemma rt_stop_clean:
  assumes "rt_stop locked rt = (dropped, rt')"
  shows "running rt' = None \<and> \<not> js_started (rn_jni rt') \<and> mn_conns (co_monitor (rn_core rt')) = []
    \<and> co_dns_cache (rn_core rt') = Map.empty \<and> (\<forall>st. dropped = Some st \<longrightarrow> ts_stopped st)"
  using assms reset_core_clean
  by (auto simp: rt_stop_def Let_def with_jni_def stop_def split: option.splits prod.splits if_splits)

lemma engine_new_shared:
  "co_udp_mux (snd (engine_new node co)) = ni_udp_mux node
   \<and> mn_conns (co_monitor (snd (engine_new node co))) = [] \<and> mn_recent (co_monitor (snd (engine_new node co))) = []
   \<and> co_dns_cache (snd (engine_new node co)) = Map.empty"
  by (simp add: engine_new_def from_config_def set_udp_mux_def reset_core_def clear_direct_cache_def reset_session_def)

text \<open>Testing the speed of another node (\<open>testNode\<close>, lib.rs; the watchdog's \<open>pick_best_node\<close> likewise)
makes an engine for it, and making an engine resets what all engines share: the test forgets the
live connections and recent requests of the running session and its direct DNS answers, and leaves
the process with the UDP multiplexing switch of the node that was tested.\<close>
theorem node_test_resets_session:
  assumes "parse uri = Inr u"
  shows "(let rt' = snd (rt_test_node parse dial (Some uri) timeout rt) in
      rn_jni rt' = rn_jni rt
      \<and> mn_conns (co_monitor (rn_core rt')) = [] \<and> mn_recent (co_monitor (rn_core rt')) = []
      \<and> co_dns_cache (rn_core rt') = Map.empty \<and> co_udp_mux (rn_core rt') = ni_udp_mux (from_node_uri u))
    \<and> co_udp_mux (snd (rt_pick_best_node parse dial [n, \<lparr>ne_uri = uri, ne_name = nm\<rparr>] co)) = ni_udp_mux (from_node_uri u)"
proof -
  obtain r co1 where e: "engine_new (from_node_uri u) (rn_core rt) = (r, co1)" by fastforce
  with engine_new_shared [of "from_node_uri u" "rn_core rt"]
  have c: "co_udp_mux co1 = ni_udp_mux (from_node_uri u)" "mn_conns (co_monitor co1) = []"
    "mn_recent (co_monitor co1) = []" "co_dns_cache co1 = Map.empty" by simp_all
  have "(let rt' = snd (rt_test_node parse dial (Some uri) timeout rt) in
      rn_jni rt' = rn_jni rt
      \<and> mn_conns (co_monitor (rn_core rt')) = [] \<and> mn_recent (co_monitor (rn_core rt')) = []
      \<and> co_dns_cache (rn_core rt') = Map.empty \<and> co_udp_mux (rn_core rt') = ni_udp_mux (from_node_uri u))"
    by (cases r) (simp_all add: rt_test_node_def e assms c)
  moreover have "co_udp_mux co'' = ni_udp_mux (from_node_uri u)" if "probe_candidate parse dial uri co' = (x, co'')" for co' x co''
    using that engine_new_shared [of "from_node_uri u" co'] assms
    by (auto simp: probe_candidate_def split: prod.splits sum.splits)
  ultimately show ?thesis by (auto simp: rt_pick_best_node_def split: prod.splits)
qed

definition plain_node :: node_uri where
  "plain_node = \<lparr>nu_password = ''p'', nu_host = ''h'', nu_port = 443, nu_sni = ''s'', nu_pool_size = None, nu_udp_mux = Some False\<rparr>"

definition busy_core :: core where
  "busy_core = fresh_core\<lparr>co_monitor := snd (record_conn_start 5 ''TCP'' ''a:443'' ''1.2.3.4'' ''r'' ''PROXY'' None monitor_init),
     co_udp_mux := True\<rparr>"

theorem node_test_resets_session_witness:
  "length (mn_conns (co_monitor busy_core)) = 1 \<and> co_udp_mux busy_core
   \<and> (let rt' = snd (rt_test_node (\<lambda>_. Inr plain_node) (\<lambda>_. None) (Some ''u'') 1000 (rt_init busy_core))
      in mn_conns (co_monitor (rn_core rt')) = [] \<and> \<not> co_udp_mux (rn_core rt'))"
  using node_test_resets_session [of "\<lambda>_. Inr plain_node" "''u''" plain_node "\<lambda>_. None" 1000 "rt_init busy_core"]
  by (simp add: busy_core_def record_conn_start_def monitor_init_def fresh_core_def Let_def from_node_uri_def plain_node_def)

end
