(* ===== verification/MirageStream.thy ===== *)
theory MirageStream
  imports RustStr
begin

text \<open>\<open>proxy/mirage_stream.rs\<close>: a tunnel, which sends and receives whole frames, as a stream of bytes.
A half that is busy has given itself away to a future; whether the future is done when it is
polled, and with what result, is an argument of each call. The frames still to be received are a
list beside the stream.\<close>

subsection \<open>Sources that lose nothing\<close>

text \<open>A step gives out bytes; \<open>pending\<close> is what the source still holds.\<close>

locale lossless =
  fixes step :: "'op \<Rightarrow> 's \<Rightarrow> bytes \<times> 's" and pending :: "'s \<Rightarrow> bytes"
  assumes step_lossless: "fst (step op s) @ pending (snd (step op s)) = pending s"
begin

fun outputs :: "'op list \<Rightarrow> 's \<Rightarrow> bytes \<times> 's" where
  "outputs [] s = ([], s)"
| "outputs (op # ops) s =
     (case step op s of (d, s1) \<Rightarrow> (case outputs ops s1 of (ds, s2) \<Rightarrow> (d @ ds, s2)))"

lemma outputs_lossless: "fst (outputs ops s) @ pending (snd (outputs ops s)) = pending s"
proof (induction ops arbitrary: s)
  case (Cons op ops)
  obtain d s1 where st: "step op s = (d, s1)" by fastforce
  obtain ds s2 where o: "outputs ops s1 = (ds, s2)" by fastforce
  from Cons.IH [of s1] step_lossless [of op s] st o show ?case by simp
qed simp

end

subsection \<open>The stream\<close>

datatype 'a poll_result = Done 'a | Broken_pipe string | Not_ready

record mirage_stream =
  ms_reading :: bool
  ms_writing :: "bytes option"
  ms_read_buf :: bytes
  ms_read_pos :: nat
  ms_sent :: bytes

definition from_tunnel :: mirage_stream where
  "from_tunnel = \<lparr>ms_reading = False, ms_writing = None, ms_read_buf = [], ms_read_pos = 0, ms_sent = []\<rparr>"

definition recv_err_to_eof_or_io :: "string \<Rightarrow> (string, bytes) result" where
  "recv_err_to_eof_or_io msg = (if contains_str ''close_notify'' msg then Inr [] else Inl msg)"

definition mapped :: "(string, bytes) result \<Rightarrow> (string, bytes) result" where
  "mapped r = (case r of Inl e \<Rightarrow> recv_err_to_eof_or_io e | Inr v \<Rightarrow> Inr v)"

definition serve :: "nat \<Rightarrow> mirage_stream \<Rightarrow> bytes \<times> mirage_stream" where
  "serve room s =
     (let remaining = drop (ms_read_pos s) (ms_read_buf s);
          n = min (length remaining) room
      in (take n remaining, s\<lparr>ms_read_pos := ms_read_pos s + n\<rparr>))"

definition poll_read :: "nat \<Rightarrow> bool \<Rightarrow> mirage_stream \<times> (string, bytes) result list
    \<Rightarrow> bytes poll_result \<times> mirage_stream \<times> (string, bytes) result list" where
  "poll_read room ready st =
     (case st of (s, frames) \<Rightarrow>
        if ms_read_pos s < length (ms_read_buf s) then
          (case serve room s of (d, s1) \<Rightarrow> (Done d, s1, frames))
        else if \<not> ready \<or> frames = [] then (Not_ready, s\<lparr>ms_reading := True\<rparr>, frames)
        else
          let s1 = s\<lparr>ms_reading := False\<rparr>
          in case mapped (hd frames) of
               Inl e \<Rightarrow> (Broken_pipe e, s1, tl frames)
             | Inr v \<Rightarrow>
                 if v = [] then (Done [], s1, tl frames)
                 else
                   (case serve room (s1\<lparr>ms_read_buf := v, ms_read_pos := 0\<rparr>) of
                      (d, s2) \<Rightarrow> (Done d, s2, tl frames)))"

text \<open>\<open>sent\<close> is the result of the future, when it is done.\<close>

definition poll_write :: "(string, unit) result option \<Rightarrow> bytes \<Rightarrow> mirage_stream \<Rightarrow> nat poll_result \<times> mirage_stream" where
  "poll_write sent dat s =
     (case ms_writing s of
        None \<Rightarrow> (Done (length dat), s\<lparr>ms_writing := Some dat\<rparr>)
      | Some d \<Rightarrow>
          (case sent of
             None \<Rightarrow> (Not_ready, s)
           | Some (Inl e) \<Rightarrow> (Broken_pipe e, s\<lparr>ms_writing := None\<rparr>)
           | Some (Inr u) \<Rightarrow> (Done (length dat), s\<lparr>ms_sent := ms_sent s @ d, ms_writing := Some dat\<rparr>)))"

definition poll_flush :: "(string, unit) result option \<Rightarrow> mirage_stream \<Rightarrow> unit poll_result \<times> mirage_stream" where
  "poll_flush sent s =
     (case ms_writing s of
        None \<Rightarrow> (Done (), s)
      | Some d \<Rightarrow>
          (case sent of
             None \<Rightarrow> (Not_ready, s)
           | Some (Inl e) \<Rightarrow> (Broken_pipe e, s\<lparr>ms_writing := None\<rparr>)
           | Some (Inr u) \<Rightarrow> (Done (), s\<lparr>ms_sent := ms_sent s @ d, ms_writing := None\<rparr>)))"

definition poll_shutdown :: "(string, unit) result option \<Rightarrow> mirage_stream \<Rightarrow> unit poll_result \<times> mirage_stream" where
  "poll_shutdown = poll_flush"

subsection \<open>Reading\<close>

fun frame_bytes :: "(string, bytes) result \<Rightarrow> bytes" where
  "frame_bytes (Inr v) = v"
| "frame_bytes (Inl e) = []"

definition unread :: "mirage_stream \<times> (string, bytes) result list \<Rightarrow> bytes" where
  "unread st = drop (ms_read_pos (fst st)) (ms_read_buf (fst st)) @ concat (map frame_bytes (snd st))"

fun read_op :: "nat \<times> bool \<Rightarrow> mirage_stream \<times> (string, bytes) result list
    \<Rightarrow> bytes \<times> mirage_stream \<times> (string, bytes) result list" where
  "read_op (room, ready) st =
     (case poll_read room ready st of
        (Done d, st') \<Rightarrow> (d, st')
      | (_, st') \<Rightarrow> ([], st'))"

lemma serve_split:
  "serve room s = (d, s') \<Longrightarrow> d @ drop (ms_read_pos s') (ms_read_buf s') = drop (ms_read_pos s) (ms_read_buf s)"
  by (auto simp: serve_def Let_def add.commute min_def) (metis append_take_drop_id drop_drop add.commute)

lemma read_op_lossless: "fst (read_op op st) @ unread (snd (read_op op st)) = unread st"
proof -
  obtain room ready where op: "op = (room, ready)" by fastforce
  obtain s frames where st: "st = (s, frames)" by fastforce
  consider (buffered) "ms_read_pos s < length (ms_read_buf s)"
    | (busy) "\<not> ms_read_pos s < length (ms_read_buf s)" "\<not> ready \<or> frames = []"
    | (frame) f fs where "\<not> ms_read_pos s < length (ms_read_buf s)" ready "frames = f # fs"
    by (cases frames) auto
  then show ?thesis
  proof cases
    case buffered
    obtain d s' where "serve room s = (d, s')" by fastforce
    from serve_split [OF this] this buffered show ?thesis
      by (simp add: op st poll_read_def unread_def append_assoc [symmetric] del: append_assoc)
  next
    case busy
    then show ?thesis by (auto simp: op st poll_read_def unread_def)
  next
    case frame
    have e: "drop (ms_read_pos s) (ms_read_buf s) = []" using frame(1) by simp
    obtain d s' where sv: "serve room (s\<lparr>ms_reading := False, ms_read_buf := frame_bytes f, ms_read_pos := 0\<rparr>) = (d, s')"
      by fastforce
    from serve_split [OF this] have "d @ drop (ms_read_pos s') (ms_read_buf s') = frame_bytes f" by simp
    with frame e sv show ?thesis
      by (cases f) (auto simp: op st poll_read_def unread_def Let_def mapped_def recv_err_to_eof_or_io_def
          append_assoc [symmetric] simp del: append_assoc)
  qed
qed

interpretation frame_reader: lossless read_op unread
  by unfold_locales (rule read_op_lossless)

text \<open>C30. Read as a stream (\<open>MirageStream\<close>, mirage_stream.rs), a tunnel gives the bytes of its frames
in order, none lost and none twice, whatever the reader's buffers, however often it is polled too
early, and across errors: what has been read, what is buffered and what the frames still to come
hold is always what there was to read.\<close>
theorem frames_read_as_stream:
  "fst (frame_reader.outputs ops (from_tunnel, frames)) @ unread (snd (frame_reader.outputs ops (from_tunnel, frames)))
     = concat (map frame_bytes frames)"
  using frame_reader.outputs_lossless [of ops "(from_tunnel, frames)"] by (simp add: unread_def from_tunnel_def)

text \<open>An empty frame reads as the end of the stream, though frames follow.\<close>

lemma empty_frame_is_eof:
  "poll_read room True (from_tunnel, Inr [] # frames) = (Done [], from_tunnel, frames)"
  by (simp add: poll_read_def from_tunnel_def mapped_def Let_def)

subsection \<open>Writing\<close>

datatype write_op = Write "(string, unit) result option" bytes | Flush "(string, unit) result option"

text \<open>A run with the bytes accepted so far.\<close>

fun write_step :: "write_op \<Rightarrow> bytes \<times> mirage_stream \<Rightarrow> bytes \<times> mirage_stream" where
  "write_step (Write r d) (acc, s) =
     (case poll_write r d s of (Done n, s') \<Rightarrow> (acc @ take n d, s') | (_, s') \<Rightarrow> (acc, s'))"
| "write_step (Flush r) (acc, s) = (acc, snd (poll_flush r s))"

fun fails :: "write_op \<Rightarrow> bool" where
  "fails (Write (Some (Inl e)) d) = True"
| "fails (Flush (Some (Inl e))) = True"
| "fails _ = False"

definition in_flight :: "mirage_stream \<Rightarrow> bytes" where
  "in_flight s = (case ms_writing s of None \<Rightarrow> [] | Some d \<Rightarrow> d)"

lemma write_step_order:
  assumes "acc = ms_sent s @ in_flight s" "\<not> fails op" "write_step op (acc, s) = (acc', s')"
  shows "acc' = ms_sent s' @ in_flight s'"
  using assms
  by (cases op rule: fails.cases)
    (auto simp: poll_write_def poll_flush_def in_flight_def split: option.splits sum.splits if_splits)

text \<open>Writes go out in order (\<open>poll_write\<close>, \<open>poll_flush\<close>, mirage_stream.rs): while no send fails, what
the tunnel has sent, followed by the one buffer under way, is exactly what was accepted; after a
flush that succeeds nothing is under way.\<close>
theorem writes_sent_in_order:
  assumes "list_all (\<lambda>op. \<not> fails op) ops" "fold write_step ops ([], from_tunnel) = (acc, s)"
  shows "acc = ms_sent s @ in_flight s \<and> (fst (poll_flush r s) = Done () \<longrightarrow> ms_sent (snd (poll_flush r s)) = acc)"
proof -
  have "acc = ms_sent s @ in_flight s" using assms
  proof (induction ops arbitrary: acc s rule: rev_induct)
    case Nil
    then show ?case by (auto simp: from_tunnel_def in_flight_def)
  next
    case (snoc op ops)
    obtain a t where p: "fold write_step ops ([], from_tunnel) = (a, t)" by fastforce
    with snoc write_step_order [of a t op acc s] show ?case by simp
  qed
  then show ?thesis by (auto simp: poll_flush_def in_flight_def split: option.splits sum.splits)
qed

theorem writes_sent_in_order_witness:
  "(let (acc, s) = fold write_step [Write None [1], Write None [2], Write (Some (Inr ())) [3, 4]] ([], from_tunnel)
    in acc = [1, 3, 4] \<and> ms_sent (snd (poll_flush (Some (Inr ())) s)) = [1, 3, 4])"
proof -
  let ?ops = "[Write None [1], Write None [2], Write (Some (Inr ())) [3, 4]]"
  have f: "fold write_step ?ops ([], from_tunnel) = ([1, 3, 4], from_tunnel\<lparr>ms_sent := [1], ms_writing := Some [3, 4]\<rparr>)"
    by (simp add: poll_write_def from_tunnel_def)
  show ?thesis
    using writes_sent_in_order [OF _ f, of "Some (Inr ())"] unfolding f by (simp add: poll_flush_def)
qed

end
