(* ===== verification/Control.thy ===== *)
theory Control
  imports Monitor
begin

text \<open>\<open>command_server.rs\<close>: the places for clients and the commands of one, and \<open>protect.rs\<close>: keeping
the program's own sockets out of the tunnel. JSON is read by a parameter.\<close>

subsection \<open>Places for clients\<close>

definition max_concurrent_clients :: nat where "max_concurrent_clients = 2"

text \<open>\<open>ACTIVE_CLIENTS\<close>, the clients that hold a guard, and those that have counted themselves and
must uncount themselves again (\<open>try_acquire\<close> is two operations).\<close>

record places =
  pl_active :: nat
  pl_held :: "nat list"
  pl_leaving :: "nat list"

definition places_init :: places where
  "places_init = \<lparr>pl_active = 0, pl_held = [], pl_leaving = []\<rparr>"

definition checked_decrement :: "nat \<Rightarrow> nat" where
  "checked_decrement x = (if 1 \<le> x then x - 1 else x)"

inductive place_step :: "places \<Rightarrow> places \<Rightarrow> bool" where
  acquired: "pl_active s < max_concurrent_clients \<Longrightarrow> c \<notin> set (pl_held s) \<Longrightarrow> c \<notin> set (pl_leaving s)
    \<Longrightarrow> place_step s (s\<lparr>pl_active := pl_active s + 1, pl_held := c # pl_held s\<rparr>)"
| refused: "\<not> pl_active s < max_concurrent_clients \<Longrightarrow> c \<notin> set (pl_held s) \<Longrightarrow> c \<notin> set (pl_leaving s)
    \<Longrightarrow> place_step s (s\<lparr>pl_active := pl_active s + 1, pl_leaving := c # pl_leaving s\<rparr>)"
| uncounted: "c \<in> set (pl_leaving s)
    \<Longrightarrow> place_step s (s\<lparr>pl_active := checked_decrement (pl_active s), pl_leaving := remove1 c (pl_leaving s)\<rparr>)"
| released: "c \<in> set (pl_held s)
    \<Longrightarrow> place_step s (s\<lparr>pl_active := checked_decrement (pl_active s), pl_held := remove1 c (pl_held s)\<rparr>)"

inductive_simps place_step_simps: "place_step s s'"
inductive_cases place_stepE: "place_step s s'"

definition places_ok :: "places \<Rightarrow> bool" where
  "places_ok s \<longleftrightarrow> pl_active s = length (pl_held s) + length (pl_leaving s)
     \<and> length (pl_held s) \<le> max_concurrent_clients"

lemma remove1_one: "c \<in> set xs \<Longrightarrow> length xs = Suc (length (remove1 c xs))"
  by (induction xs) auto

lemma place_step_ok: "place_step s s' \<Longrightarrow> places_ok s \<Longrightarrow> places_ok s'"
  by (erule place_stepE) (auto simp: places_ok_def checked_decrement_def dest!: remove1_one)

lemma places_reachable: "place_step\<^sup>*\<^sup>* places_init s \<Longrightarrow> places_ok s"
proof (induction rule: rtranclp_induct)
  case base
  show ?case by (simp add: places_ok_def places_init_def max_concurrent_clients_def)
next
  case (step s s')
  then show ?case by (simp add: place_step_ok)
qed

text \<open>At most two clients are served at a time, in every interleaving, and none of those refused
stays counted.\<close>

lemma clients_bounded:
  assumes "place_step\<^sup>*\<^sup>* places_init s"
  shows "length (pl_held s) \<le> 2 \<and> (pl_leaving s = [] \<longrightarrow> pl_active s = length (pl_held s))"
  using places_reachable [OF assms] by (auto simp: places_ok_def max_concurrent_clients_def)

subsection \<open>The commands of a client\<close>

text \<open>\<open>handle_client\<close>: what arrives, and the ticks of its two timers. \<open>read_line\<close> is a branch of a
\<open>select\<close>: at a tick what it has read of a line is gone, and \<open>line_buf\<close> is cleared.\<close>

record command =
  cm_action :: "string option"
  cm_id :: "u64 option"

datatype client_event = Bytes string | StatsTick | RequestsTick

datatype client_out = Stats | RecentRequests | Pong | CloseResult u64 bool

record client =
  cl_partial :: string
  cl_out :: "client_out list"
  cl_monitor :: monitor

text \<open>The trimmed line is read by \<open>read\<close>.\<close>

definition run_command :: "(string \<Rightarrow> command option) \<Rightarrow> string \<Rightarrow> client \<Rightarrow> client" where
  "run_command read line c =
     (case read line of
        None \<Rightarrow> c
      | Some cmd \<Rightarrow>
          (let action = (case cm_action cmd of Some a \<Rightarrow> a | None \<Rightarrow> '''')
           in if action = ''ping'' then c\<lparr>cl_out := cl_out c @ [Pong]\<rparr>
              else if action = ''close_connection'' then
                (case cm_id cmd of
                   None \<Rightarrow> c
                 | Some i \<Rightarrow>
                     (case close_connection i (cl_monitor c) of
                        (ok, m) \<Rightarrow> c\<lparr>cl_monitor := m, cl_out := cl_out c @ [CloseResult i ok]\<rparr>))
              else c))"

fun take_bytes :: "(string \<Rightarrow> command option) \<Rightarrow> string \<Rightarrow> client \<Rightarrow> client" where
  "take_bytes read [] c = c"
| "take_bytes read (b # bs) c =
     (if b = CHR 0x0A then take_bytes read bs (run_command read (cl_partial c) (c\<lparr>cl_partial := []\<rparr>))
      else take_bytes read bs (c\<lparr>cl_partial := cl_partial c @ [b]\<rparr>))"

fun client_step :: "(string \<Rightarrow> command option) \<Rightarrow> client_event \<Rightarrow> client \<Rightarrow> client" where
  "client_step read (Bytes bs) c = take_bytes read bs c"
| "client_step read StatsTick c = c\<lparr>cl_partial := [], cl_out := cl_out c @ [Stats]\<rparr>"
| "client_step read RequestsTick c = c\<lparr>cl_partial := [], cl_out := cl_out c @ [RecentRequests]\<rparr>"

lemma take_bytes_line:
  "CHR 0x0A \<notin> set bs \<Longrightarrow> take_bytes read (bs @ CHR 0x0A # rest) c
     = take_bytes read rest (run_command read (cl_partial c @ bs) (c\<lparr>cl_partial := []\<rparr>))"
  by (induction bs arbitrary: c) auto

lemma run_command_partial [simp]: "cl_partial (run_command read line c) = cl_partial c"
  by (auto simp: run_command_def Let_def split: option.splits prod.splits)

text \<open>A line that arrives whole is run.\<close>

lemma whole_line_runs:
  "CHR 0x0A \<notin> set bs \<Longrightarrow> cl_partial c = [] \<Longrightarrow>
     client_step read (Bytes (bs @ [CHR 0x0A])) c = run_command read bs (c\<lparr>cl_partial := []\<rparr>)"
  by (simp add: take_bytes_line)

text \<open>A command that arrives in two pieces around a tick of either timer (\<open>handle_client\<close>,
command_server.rs) is lost: its first piece is forgotten and its second read as a line of its own,
so that a request to close a connection has no effect and gets no answer.\<close>
theorem split_command_lost:
  assumes "CHR 0x0A \<notin> set (p @ q)" "read q = None" "cl_partial c = []"
  shows "(let c' = fold (client_step read) [Bytes p, StatsTick, Bytes (q @ [CHR 0x0A])] c
          in cl_monitor c' = cl_monitor c \<and> cl_out c' = cl_out c @ [Stats])"
proof -
  have p: "cl_monitor (take_bytes read p c) = cl_monitor c \<and> cl_out (take_bytes read p c) = cl_out c"
    if "CHR 0x0A \<notin> set p" for p c using that by (induction p arbitrary: c) auto
  show ?thesis using assms p [of p c] by (simp add: take_bytes_line run_command_def)
qed

definition demo_read :: "string \<Rightarrow> command option" where
  "demo_read line = (if line = ''{close 7}'' then Some \<lparr>cm_action = Some ''close_connection'', cm_id = Some 7\<rparr> else None)"

theorem split_command_lost_witness:
  "demo_read (''{clo'' @ ''se 7}'') \<noteq> None
   \<and> cl_out (fold (client_step demo_read) [Bytes ''{clo'', StatsTick, Bytes (''se 7}'' @ [CHR 0x0A])]
       \<lparr>cl_partial = [], cl_out = [], cl_monitor = monitor_init\<rparr>) = [Stats]"
  using split_command_lost [of "''{clo''" "''se 7}''" demo_read "\<lparr>cl_partial = [], cl_out = [], cl_monitor = monitor_init\<rparr>"]
  by (simp add: demo_read_def Let_def del: fold.simps)

subsection \<open>Protecting sockets\<close>

record protection =
  pr_callback :: "nat option"
  pr_handle :: u64

definition protection_init :: protection where
  "protection_init = \<lparr>pr_callback = None, pr_handle = 0\<rparr>"

datatype protect_call = BindToNetwork u64 int | Callback nat int

definition set_active_network_handle :: "u64 \<Rightarrow> protection \<Rightarrow> protection" where
  "set_active_network_handle h p = p\<lparr>pr_handle := h\<rparr>"

text \<open>\<open>OnceLock::set\<close>: the first one stays.\<close>

definition set_protect_callback :: "nat \<Rightarrow> protection \<Rightarrow> protection" where
  "set_protect_callback f p = (if pr_callback p = None then p\<lparr>pr_callback := Some f\<rparr> else p)"

text \<open>\<open>bind h fd\<close> is the result of \<open>android_setsocknetwork\<close>, \<open>None\<close> when there is no such function.\<close>

definition bind_socket_to_network :: "(u64 \<Rightarrow> int \<Rightarrow> int option) \<Rightarrow> u64 \<Rightarrow> int \<Rightarrow> protection
    \<Rightarrow> bool \<times> protect_call list \<times> protection" where
  "bind_socket_to_network bind h fd p =
     (case bind h fd of
        None \<Rightarrow> (False, [], p)
      | Some ret \<Rightarrow>
          if ret \<noteq> 0 then (False, [BindToNetwork h fd], p\<lparr>pr_handle := 0\<rparr>)
          else (True, [BindToNetwork h fd], p))"

definition protect :: "(u64 \<Rightarrow> int \<Rightarrow> int option) \<Rightarrow> int \<Rightarrow> protection \<Rightarrow> protect_call list \<times> protection" where
  "protect bind fd p =
     (case (if pr_handle p \<noteq> 0 then snd (bind_socket_to_network bind (pr_handle p) fd p) else ([], p)) of
        (calls, p') \<Rightarrow>
          (calls @ (case pr_callback p of Some f \<Rightarrow> [Callback f fd] | None \<Rightarrow> []), p'))"

fun protect_all :: "(u64 \<Rightarrow> int \<Rightarrow> int option) \<Rightarrow> int list \<Rightarrow> protection \<Rightarrow> protect_call list \<times> protection" where
  "protect_all bind [] p = ([], p)"
| "protect_all bind (fd # fds) p =
     (case protect bind fd p of
        (calls, p') \<Rightarrow> (case protect_all bind fds p' of (calls', p'') \<Rightarrow> (calls @ calls', p'')))"

fun failed_bind :: "(u64 \<Rightarrow> int \<Rightarrow> int option) \<Rightarrow> protect_call \<Rightarrow> bool" where
  "failed_bind bind (BindToNetwork h fd) = (bind h fd \<noteq> Some 0)"
| "failed_bind bind (Callback f fd) = False"

fun callback_fd :: "protect_call \<Rightarrow> int list" where
  "callback_fd (Callback f fd) = [fd]"
| "callback_fd (BindToNetwork h fd) = []"

lemma protect_cases:
  "protect bind fd p =
     (if pr_handle p = 0 \<or> bind (pr_handle p) fd = None then
        ((case pr_callback p of Some f \<Rightarrow> [Callback f fd] | None \<Rightarrow> []), p)
      else (BindToNetwork (pr_handle p) fd # (case pr_callback p of Some f \<Rightarrow> [Callback f fd] | None \<Rightarrow> []),
            if bind (pr_handle p) fd = Some 0 then p else p\<lparr>pr_handle := 0\<rparr>))"
  by (auto simp: protect_def bind_socket_to_network_def split: option.splits)

lemma protect_all_no_handle:
  "pr_handle p = 0 \<Longrightarrow> filter (failed_bind bind) (fst (protect_all bind fds p)) = []
     \<and> pr_handle (snd (protect_all bind fds p)) = 0"
proof (induction fds arbitrary: p)
  case (Cons fd fds)
  obtain calls r where c: "protect_all bind fds p = (calls, r)" by fastforce
  with Cons.IH [OF Cons.prems] Cons.prems show ?case
    by (cases "pr_callback p") (simp_all add: protect_cases)
qed simp

text \<open>Every socket is protected (\<open>protect\<close>, protect.rs): once a callback is registered each socket
reaches the first one registered, in order, whatever binding to the physical network does; and a
network handle that has become invalid is used for one socket at most, until the next is set.\<close>
theorem every_socket_protected:
  assumes "pr_callback p = Some f"
  shows "concat (map callback_fd (fst (protect_all bind fds (set_protect_callback g p)))) = fds
    \<and> length (filter (failed_bind bind) (fst (protect_all bind fds p))) \<le> 1
    \<and> pr_callback (snd (protect_all bind fds p)) = Some f"
proof -
  have g: "set_protect_callback g p = p" using assms by (simp add: set_protect_callback_def)
  show ?thesis unfolding g using assms
  proof (induction fds arbitrary: p)
    case (Cons fd fds)
    obtain calls q where c: "protect bind fd p = (calls, q)" by fastforce
    then have q: "pr_callback q = Some f" using Cons.prems by (auto simp: protect_cases split: if_splits)
    obtain calls' r where c': "protect_all bind fds q = (calls', r)" by fastforce
    from c Cons.prems have "concat (map callback_fd calls) = [fd]" by (auto simp: protect_cases split: if_splits)
    moreover have "length (filter (failed_bind bind) calls) = 0
        \<or> length (filter (failed_bind bind) calls) = 1 \<and> pr_handle q = 0"
      using c Cons.prems by (auto simp: protect_cases split: if_splits)
    ultimately show ?case
      using Cons.IH [OF q] protect_all_no_handle [of q bind fds] by (auto simp: c c')
  qed simp
qed

theorem every_socket_protected_witness:
  "concat (map callback_fd (fst (protect_all (\<lambda>h fd. Some 64) [5, 6] (set_protect_callback 2 \<lparr>pr_callback = Some 1, pr_handle = 9\<rparr>)))) = [5, 6]
   \<and> length (filter (failed_bind (\<lambda>h fd. Some 64)) (fst (protect_all (\<lambda>h fd. Some 64) [5, 6] \<lparr>pr_callback = Some 1, pr_handle = 9\<rparr>))) \<le> 1"
  using every_socket_protected [of "\<lparr>pr_callback = Some 1, pr_handle = 9\<rparr>" 1 "\<lambda>h fd. Some 64" "[5, 6]" 2] by simp


subsection \<open>The accept loop\<close>

text \<open>\<open>start_command_server\<close> after the socket has been bound: a connection with the user id of its other
end, if the system tells; an error of \<open>accept\<close>, followed by a wait in which the server may be stopped; a
client that leaves; the stop.\<close>

record command_bus =
  cb_open :: bool
  cb_places :: places
  cb_served :: "(nat \<times> nat) list"

datatype bus_event = Arrives nat "nat option" | AcceptFails bool | Leaves nat | StopBus

definition bus_start :: command_bus where
  "bus_start = \<lparr>cb_open = True, cb_places = places_init, cb_served = []\<rparr>"

definition try_acquire :: "nat \<Rightarrow> places \<Rightarrow> bool \<times> places" where
  "try_acquire c s =
     (if pl_active s < max_concurrent_clients
      then (True, s\<lparr>pl_active := pl_active s + 1, pl_held := c # pl_held s\<rparr>)
      else (False, s\<lparr>pl_active := checked_decrement (pl_active s + 1)\<rparr>))"

definition accept_client :: "nat \<Rightarrow> nat \<Rightarrow> nat option \<Rightarrow> command_bus \<Rightarrow> command_bus" where
  "accept_client my_uid c peer b =
     (case peer of
        None \<Rightarrow> b
      | Some uid \<Rightarrow>
          if uid \<noteq> my_uid then b
          else case try_acquire c (cb_places b) of
                 (True, p) \<Rightarrow> b\<lparr>cb_places := p, cb_served := cb_served b @ [(c, uid)]\<rparr>
               | (False, p) \<Rightarrow> b\<lparr>cb_places := p\<rparr>)"

definition bus_step :: "nat \<Rightarrow> bus_event \<Rightarrow> command_bus \<Rightarrow> command_bus" where
  "bus_step my_uid e b =
     (case e of
        Arrives c peer \<Rightarrow> if cb_open b then accept_client my_uid c peer b else b
      | AcceptFails stopped \<Rightarrow> if stopped then b\<lparr>cb_open := False\<rparr> else b
      | Leaves c \<Rightarrow>
          if c \<in> set (pl_held (cb_places b))
          then b\<lparr>cb_places := (cb_places b)\<lparr>pl_active := checked_decrement (pl_active (cb_places b)),
                                             pl_held := remove1 c (pl_held (cb_places b))\<rparr>\<rparr>
          else b
      | StopBus \<Rightarrow> b\<lparr>cb_open := False\<rparr>)"

text \<open>Numbers given to connections are new.\<close>

definition fresh_arrivals :: "bus_event list \<Rightarrow> bool" where
  "fresh_arrivals es \<longleftrightarrow> distinct (List.map_filter (\<lambda>e. case e of Arrives c p \<Rightarrow> Some c | _ \<Rightarrow> None) es)"

definition bus_inv :: "nat \<Rightarrow> command_bus \<Rightarrow> bool" where
  "bus_inv my_uid b \<longleftrightarrow> pl_active (cb_places b) = length (pl_held (cb_places b)) \<and> pl_leaving (cb_places b) = []
     \<and> length (pl_held (cb_places b)) \<le> max_concurrent_clients
     \<and> set (pl_held (cb_places b)) \<subseteq> fst ` set (cb_served b) \<and> snd ` set (cb_served b) \<subseteq> {my_uid}"

lemma bus_step_inv: "bus_inv my_uid b \<Longrightarrow> bus_inv my_uid (bus_step my_uid e b)"
proof (cases e)
  case (Arrives c peer)
  assume "bus_inv my_uid b"
  with Arrives show ?thesis
    by (auto simp: bus_step_def accept_client_def try_acquire_def bus_inv_def checked_decrement_def
        max_concurrent_clients_def split: option.split)
next
  case (Leaves c)
  assume i: "bus_inv my_uid b"
  show ?thesis
  proof (cases "c \<in> set (pl_held (cb_places b))")
    case True
    with remove1_one [OF True] set_remove1_subset [of c "pl_held (cb_places b)"] i Leaves show ?thesis
      by (auto simp: bus_step_def bus_inv_def checked_decrement_def)
  qed (use i Leaves in \<open>simp add: bus_step_def\<close>)
qed (auto simp: bus_step_def bus_inv_def)

interpretation bus: invariant_machine "bus_step my_uid" "bus_inv my_uid" for my_uid
  by unfold_locales (rule bus_step_inv)

lemma bus_step_shut: "\<not> cb_open b \<Longrightarrow> \<not> cb_open (bus_step my_uid e b) \<and> cb_served (bus_step my_uid e b) = cb_served b"
  by (simp add: bus_step_def split: bus_event.split)

lemma bus_shut: "\<not> cb_open b \<Longrightarrow> cb_served (fold (bus_step my_uid) es b) = cb_served b"
  by (induction es arbitrary: b) (simp_all add: bus_step_shut)

lemma bus_start_inv: "bus_inv my_uid bus_start"
  by (simp add: bus_inv_def bus_start_def places_init_def)



end
