(* ===== verification/UdpRelay.thy ===== *)
theory UdpRelay
  imports TcpRelay UdpMux
begin

text \<open>\<open>udp_flow_relay\<close> of \<open>tun/udp.rs\<close> from the point where a flow is to go through a tunnel, with the
writer and the tunnels of \<open>proxy/udp_mux.rs\<close> that the flows share. Times are milliseconds of one
clock; what is received when, and whether a send succeeds, is in the events.\<close>

definition udp_idle :: nat where "udp_idle = 60000"
definition first_downlink_timeout :: nat where "first_downlink_timeout = 8000"
definition mux_first_downlink :: nat where "mux_first_downlink = 8000"
definition mux_uplink_coalesce_cap :: nat where "mux_uplink_coalesce_cap = 16 * 1024"

subsection \<open>The shared writer\<close>

fun coalesce :: "nat \<Rightarrow> bytes \<Rightarrow> bytes list \<Rightarrow> bytes \<times> bytes list" where
  "coalesce cap batch [] = (batch, [])"
| "coalesce cap batch (b # q) = (if length batch < cap then coalesce cap (batch @ b) q else (batch, b # q))"

text \<open>One turn of the writer: the queue as it is when it wakes up, and whether the send succeeds. It
stops at the first failure.\<close>

fun writer_pump :: "(bytes list \<times> bool) list \<Rightarrow> bytes list \<Rightarrow> bytes list \<times> bytes list \<times> bool" where
  "writer_pump [] q = ([], q, True)"
| "writer_pump ((arrived, ok) # turns) q =
     (case q @ arrived of
        [] \<Rightarrow> writer_pump turns []
      | first # rest \<Rightarrow>
          (case coalesce mux_uplink_coalesce_cap first rest of
             (batch, q') \<Rightarrow>
               if ok then (case writer_pump turns q' of (bs, left, alive) \<Rightarrow> (batch # bs, left, alive))
               else ([], q', False)))"

lemma coalesce_concat: "coalesce cap batch q = (b, q') \<Longrightarrow> b @ concat q' = batch @ concat q"
  by (induction q arbitrary: batch) (auto split: if_splits)

lemma coalesce_bound:
  "coalesce cap batch q = (b, q') \<Longrightarrow> \<forall>f\<in>set q. length f \<le> m \<Longrightarrow> length batch \<le> max cap m + m
    \<Longrightarrow> length b \<le> max cap m + m"
  by (induction q arbitrary: batch) (auto split: if_splits)

lemma writer_pump_stream:
  "writer_pump turns q = (bs, left, True) \<Longrightarrow> concat bs @ concat left = concat q @ concat (concat (map fst turns))"
proof (induction turns q arbitrary: bs left rule: writer_pump.induct)
  case (2 arrived ok turns q)
  show ?case
  proof (cases "q @ arrived")
    case Nil
    with 2 show ?thesis by simp
  next
    case (Cons first rest)
    obtain batch q' where c: "coalesce mux_uplink_coalesce_cap first rest = (batch, q')" by fastforce
    obtain bs' left' alive where w: "writer_pump turns q' = (bs', left', alive)" by (metis surj_pair)
    from 2(3) Cons c w have e: "ok" "bs = batch # bs'" "left = left'" "alive" by (auto split: if_splits)
    with "2.IH"(2) [OF Cons c [symmetric]] w
    have "concat bs' @ concat left = concat q' @ concat (concat (map fst turns))" by simp
    with coalesce_concat [OF c] have "concat bs @ concat left = concat (first # rest) @ concat (concat (map fst turns))"
      by (simp add: e(2))
    also have "concat (first # rest) = concat q @ concat arrived" unfolding Cons [symmetric] by simp
    finally show ?thesis by simp
  qed
qed simp



subsection \<open>A flow over a shared tunnel\<close>

record mux_session =
  mx_sid :: u32
  mx_target :: "string option \<times> ip_addr"
  mx_port :: u16
  mx_started :: nat
  mx_got :: bool
  mx_until :: nat
  mx_sent :: u64
  mx_up :: u64
  mx_down :: u64
  mx_frames :: "bytes list"
  mx_ended :: "string option"

text \<open>The head of the loop: how long the next datagram is waited for.\<close>

definition mux_wait :: "nat \<Rightarrow> mux_session \<Rightarrow> mux_session" where
  "mux_wait now s =
     (let to = (if mx_got s then udp_idle else mux_first_downlink - (now - mx_started s))
      in if to = 0 then s\<lparr>mx_ended := Some ''First Downlink Timeout''\<rparr> else s\<lparr>mx_until := now + to\<rparr>)"

definition mux_session_start :: "u32 \<Rightarrow> string option \<Rightarrow> ip_addr \<Rightarrow> u16 \<Rightarrow> nat \<Rightarrow> mux_session" where
  "mux_session_start sid nm ip port now =
     mux_wait now
       \<lparr>mx_sid = sid, mx_target = (nm, ip), mx_port = port, mx_started = now, mx_got = False, mx_until = now,
        mx_sent = 0, mx_up = 0, mx_down = 0, mx_frames = [], mx_ended = None\<rparr>"

definition mux_frame_of :: "mux_session \<Rightarrow> bytes \<Rightarrow> bytes option" where
  "mux_frame_of s payload = mux_uplink_frame (mx_sid s, fst (mx_target s), snd (mx_target s), mx_port s, payload)"

text \<open>\<open>MuxTimer\<close> is the wait running out, \<open>MuxReply\<close> a datagram delivered by the demultiplexer.\<close>

datatype mux_event = MuxSend nat bytes bool | MuxTimer nat | MuxClosed | MuxReply nat | MuxAbort

fun mux_event_step :: "mux_event \<Rightarrow> mux_session \<Rightarrow> mux_session" where
  "mux_event_step (MuxSend now payload ok) s =
     (case mux_frame_of s payload of
        None \<Rightarrow> mux_wait now s
      | Some f \<Rightarrow>
          if ok then
            mux_wait now (s\<lparr>mx_frames := mx_frames s @ [f], mx_sent := mx_sent s + of_nat (length payload),
                            mx_up := mx_up s + of_nat (length payload)\<rparr>)
          else s\<lparr>mx_ended := Some ''Uplink Error''\<rparr>)"
| "mux_event_step (MuxTimer now) s = s\<lparr>mx_ended := Some ''Closed''\<rparr>"
| "mux_event_step MuxClosed s = s\<lparr>mx_ended := Some ''Closed''\<rparr>"
| "mux_event_step (MuxReply n) s = s\<lparr>mx_got := True, mx_down := mx_down s + of_nat n\<rparr>"
| "mux_event_step MuxAbort s = s\<lparr>mx_ended := Some ''Aborted''\<rparr>"

definition mux_session_step :: "mux_event \<Rightarrow> mux_session \<Rightarrow> mux_session" where
  "mux_session_step e s = (if mx_ended s \<noteq> None then s else mux_event_step e s)"

text \<open>What can happen when: the timer fires at the end of the wait.\<close>

fun mux_possible :: "mux_event \<Rightarrow> mux_session \<Rightarrow> bool" where
  "mux_possible (MuxTimer now) s = (mx_until s \<le> now)"
| "mux_possible (MuxSend now p ok) s = (now \<le> mx_until s)"
| "mux_possible _ s = True"

lemma mux_wait_simps [simp]:
  "mx_frames (mux_wait now s) = mx_frames s" "mx_got (mux_wait now s) = mx_got s"
  "mx_started (mux_wait now s) = mx_started s" "mux_frame_of (mux_wait now s) = mux_frame_of s"
  by (simp_all add: mux_wait_def Let_def mux_frame_of_def fun_eq_iff)

lemma replies_do_not_wait:
  "list_all (\<lambda>e. \<exists>n. e = MuxReply n) es \<Longrightarrow> mx_ended s = None \<Longrightarrow>
     mx_until (fold mux_session_step es s) = mx_until s \<and> mx_ended (fold mux_session_step es s) = None
     \<and> (es \<noteq> [] \<longrightarrow> mx_got (fold mux_session_step es s))
     \<and> (mx_got s \<longrightarrow> mx_got (fold mux_session_step es s))"
  by (induction es arbitrary: s) (auto simp: mux_session_step_def)

text \<open>A flow over a shared tunnel is closed although replies keep coming (\<open>udp_flow_relay\<close>, udp.rs):
the wait for the client's next datagram is fixed when it begins. A flow whose only datagram so far
went out within the first eight seconds is closed at their end, however many replies have arrived
meanwhile; later ones after sixty seconds without a datagram from the client.\<close>
theorem answered_flow_cut:
  assumes "s = mux_session_step (MuxSend now payload True) (mux_session_start sid nm ip port start)"
    and "start \<le> now" "now < start + mux_first_downlink" "list_all (\<lambda>e. \<exists>n. e = MuxReply n) replies" "replies \<noteq> []"
  shows "(let s' = fold mux_session_step replies s
          in mx_got s' \<and> mux_possible (MuxTimer (start + mux_first_downlink)) s'
             \<and> mx_ended (mux_session_step (MuxTimer (start + mux_first_downlink)) s') = Some ''Closed'')"
proof -
  define s0 where "s0 = mux_session_start sid nm ip port start"
  have s0: "mx_ended s0 = None" "mx_got s0 = False" "mx_started s0 = start"
    by (simp_all add: s0_def mux_session_start_def mux_wait_def Let_def mux_first_downlink_def)
  then have s: "mx_until s = start + mux_first_downlink" "mx_ended s = None"
    using assms(2,3) unfolding assms(1) s0_def [symmetric]
    by (auto simp: mux_session_step_def mux_wait_def Let_def split: option.splits)
  from replies_do_not_wait [OF assms(4) s(2)] assms(5) s(1)
  show ?thesis by (simp add: Let_def mux_session_step_def)
qed

theorem answered_flow_cut_witness:
  "mx_ended (fold mux_session_step [MuxSend 0 [1] True, MuxReply 1400, MuxReply 1400, MuxTimer 8000]
     (mux_session_start 1 None (V4 1) 53 0)) = Some ''Closed''
   \<and> mux_possible (MuxTimer 8000) (fold mux_session_step [MuxSend 0 [1] True, MuxReply 1400, MuxReply 1400]
     (mux_session_start 1 None (V4 1) 53 0))"
  using answered_flow_cut [OF refl, of 0 0 "[MuxReply 1400, MuxReply 1400]" "[1]" 1 None "V4 1" 53]
  by (simp add: mux_first_downlink_def Let_def)

subsection \<open>A flow over a tunnel of its own, and a direct flow\<close>

text \<open>The two halves of a flow that shares nothing (\<open>dn\<close> from the client, \<open>up\<close> to it): the datagrams
queued by the engine, the bytes of replies not decoded yet, what was sent and what was written to the
TUN, and the counters. \<open>ur_in_since\<close> is when the present wait for a reply began.\<close>

record udp_relay =
  ur_queue :: "bytes list"
  ur_out_open :: bool
  ur_in_open :: bool
  ur_in_since :: nat
  ur_got :: bool
  ur_acc :: bytes
  ur_sent :: u64
  ur_recv :: u64
  ur_conn_up :: u64
  ur_conn_down :: u64
  ur_wire :: "bytes list"
  ur_tun :: "bytes list"
  ur_monitor :: monitor
  ur_ended :: "(u64 \<times> u64 \<times> string) option"

definition udp_relay_start :: "nat \<Rightarrow> bytes list \<Rightarrow> monitor \<Rightarrow> udp_relay" where
  "udp_relay_start now queued mon =
     \<lparr>ur_queue = queued, ur_out_open = True, ur_in_open = True, ur_in_since = now, ur_got = False, ur_acc = [],
      ur_sent = 0, ur_recv = 0, ur_conn_up = 0, ur_conn_down = 0, ur_wire = [], ur_tun = [], ur_monitor = mon,
      ur_ended = None\<rparr>"

text \<open>\<open>UdpOut\<close> is a turn of the half from the client with the outcome of its send, \<open>UdpOutOver\<close> its idle
timeout; \<open>UdpIn\<close> is what a read of the other half returns, \<open>UdpInTimer\<close> its timeout, \<open>UdpInError\<close> its
failure.\<close>

datatype udp_event =
  UdpArrives bytes | UdpOut bool | UdpOutOver | UdpIn nat bytes | UdpInTimer nat | UdpInError | UdpAbort

definition out_closed :: "udp_relay \<Rightarrow> udp_relay" where
  "out_closed r = r\<lparr>ur_out_open := False, ur_queue := []\<rparr>"

definition udp_in_possible :: "udp_event \<Rightarrow> udp_relay \<Rightarrow> bool" where
  "udp_in_possible e r =
     (let due = ur_in_since r + (if ur_got r then udp_idle else first_downlink_timeout)
      in case e of UdpInTimer now \<Rightarrow> due \<le> now | UdpIn now _ \<Rightarrow> now \<le> due | _ \<Rightarrow> True)"

text \<open>Coalescing drains the channel; a datagram that gives no frame is dropped.\<close>

fun own_coalesce :: "(bytes \<Rightarrow> bytes option) \<Rightarrow> bytes \<Rightarrow> bytes list \<Rightarrow> bytes \<times> bytes list" where
  "own_coalesce build batch [] = (batch, [])"
| "own_coalesce build batch (p # q) =
     (if length batch < 16 * 1024
      then own_coalesce build (case build p of Some f \<Rightarrow> batch @ f | None \<Rightarrow> batch) q
      else (batch, p # q))"

definition own_out :: "(bytes \<Rightarrow> bytes option) \<Rightarrow> bool \<Rightarrow> udp_relay \<Rightarrow> udp_relay" where
  "own_out build ok r =
     (case ur_queue r of
        [] \<Rightarrow> r
      | payload # q \<Rightarrow>
          (case build payload of
             None \<Rightarrow> r\<lparr>ur_queue := q\<rparr>
           | Some f \<Rightarrow>
               (case own_coalesce build f q of
                  (batch, q') \<Rightarrow>
                    if ok then
                      r\<lparr>ur_queue := q', ur_wire := ur_wire r @ [batch], ur_sent := ur_sent r + of_nat (length payload),
                        ur_conn_up := ur_conn_up r + of_nat (length payload)\<rparr>
                    else out_closed r)))"

definition own_in :: "flow_key \<Rightarrow> nat \<Rightarrow> bytes \<Rightarrow> udp_relay \<Rightarrow> udp_relay" where
  "own_in key now chunk r =
     (case legacy_drain (ur_acc r @ chunk) of
        (payloads, rest) \<Rightarrow>
          let n = of_nat (sum_list (map length payloads))
          in r\<lparr>ur_got := True, ur_in_since := now, ur_acc := rest,
               ur_tun := ur_tun r @ concat (map (reply_packets key) (filter (\<lambda>p. p \<noteq> []) payloads)),
               ur_recv := ur_recv r + n, ur_conn_down := ur_conn_down r + n\<rparr>)"

definition direct_out :: "bool \<Rightarrow> udp_relay \<Rightarrow> udp_relay" where
  "direct_out ok r =
     (case ur_queue r of
        [] \<Rightarrow> r
      | payload # q \<Rightarrow>
          if ok then
            r\<lparr>ur_queue := q, ur_wire := ur_wire r @ [payload], ur_sent := ur_sent r + of_nat (length payload),
              ur_conn_up := ur_conn_up r + of_nat (length payload),
              ur_monitor := add_up (of_nat (length payload)) (ur_monitor r)\<rparr>
          else out_closed r)"

definition direct_in :: "flow_key \<Rightarrow> nat \<Rightarrow> bytes \<Rightarrow> udp_relay \<Rightarrow> udp_relay" where
  "direct_in key now payload r =
     r\<lparr>ur_in_since := now, ur_tun := ur_tun r @ reply_packets key payload,
       ur_recv := ur_recv r + of_nat (length payload), ur_conn_down := ur_conn_down r + of_nat (length payload),
       ur_monitor := add_down (of_nat (length payload)) (ur_monitor r)\<rparr>"

text \<open>The halves run beside each other (\<open>join!\<close>) until both have ended or the connection is cut.\<close>

definition udp_joined :: "udp_relay \<Rightarrow> udp_relay" where
  "udp_joined r =
     (if ur_out_open r \<or> ur_in_open r then r else r\<lparr>ur_ended := Some (ur_sent r, ur_recv r, ''Closed'')\<rparr>)"

definition udp_relay_step ::
    "(bool \<Rightarrow> udp_relay \<Rightarrow> udp_relay) \<Rightarrow> (nat \<Rightarrow> bytes \<Rightarrow> udp_relay \<Rightarrow> udp_relay) \<Rightarrow> udp_event \<Rightarrow> udp_relay \<Rightarrow> udp_relay" where
  "udp_relay_step out inn e r =
     (if ur_ended r \<noteq> None then r
      else case e of
        UdpArrives p \<Rightarrow> if ur_out_open r then r\<lparr>ur_queue := ur_queue r @ [p]\<rparr> else r
      | UdpOut ok \<Rightarrow> if ur_out_open r then udp_joined (out ok r) else r
      | UdpOutOver \<Rightarrow> udp_joined (out_closed r)
      | UdpIn now c \<Rightarrow> if ur_in_open r then inn now c r else r
      | UdpInTimer now \<Rightarrow> udp_joined (r\<lparr>ur_in_open := False\<rparr>)
      | UdpInError \<Rightarrow> udp_joined (r\<lparr>ur_in_open := False\<rparr>)
      | UdpAbort \<Rightarrow> r\<lparr>ur_ended := Some (ur_conn_up r, ur_conn_down r, ''Aborted'')\<rparr>)"

definition own_step :: "string option \<Rightarrow> ip_addr option \<Rightarrow> flow_key \<Rightarrow> udp_event \<Rightarrow> udp_relay \<Rightarrow> udp_relay" where
  "own_step nm ip key =
     udp_relay_step (own_out (build_frame nm ip (fk_dst_port key))) (own_in key)"

definition direct_step :: "flow_key \<Rightarrow> udp_event \<Rightarrow> udp_relay \<Rightarrow> udp_relay" where
  "direct_step key = udp_relay_step direct_out (direct_in key)"

lemmas udp_relay_defs = udp_relay_step_def udp_joined_def out_closed_def

text \<open>What arrived and what was received in a run, and whether every send went well.\<close>

fun arrived_of :: "udp_event list \<Rightarrow> bytes list" where
  "arrived_of [] = []"
| "arrived_of (UdpArrives p # es) = p # arrived_of es"
| "arrived_of (_ # es) = arrived_of es"

fun received_of :: "udp_event list \<Rightarrow> bytes list" where
  "received_of [] = []"
| "received_of (UdpIn now p # es) = p # received_of es"
| "received_of (_ # es) = received_of es"

fun running_event :: "udp_event \<Rightarrow> bool" where
  "running_event (UdpOut ok) = ok"
| "running_event (UdpArrives p) = True"
| "running_event (UdpIn now p) = True"
| "running_event _ = False"

definition frames_of :: "(bytes \<Rightarrow> bytes option) \<Rightarrow> bytes list \<Rightarrow> bytes" where
  "frames_of build ps = concat (List.map_filter build ps)"

lemma frames_of_simps [simp]:
  "frames_of build [] = []"
  "frames_of build (p # ps) = (case build p of Some f \<Rightarrow> f | None \<Rightarrow> []) @ frames_of build ps"
  "frames_of build (ps @ qs) = frames_of build ps @ frames_of build qs"
  by (auto simp: frames_of_def List.map_filter_def split: option.splits)

lemma own_coalesce_frames:
  "own_coalesce build batch q = (b, q') \<Longrightarrow> b @ frames_of build q' = batch @ frames_of build q"
  by (induction q arbitrary: batch) (auto split: if_splits option.splits)

lemma running_step:
  assumes "running_event e" "ur_ended r = None" "ur_out_open r" "ur_in_open r"
  shows "udp_relay_step out inn e r =
     (case e of UdpArrives p \<Rightarrow> r\<lparr>ur_queue := ur_queue r @ [p]\<rparr> | UdpOut ok \<Rightarrow> udp_joined (out True r)
      | UdpIn now c \<Rightarrow> inn now c r | _ \<Rightarrow> r)"
  using assms by (cases e) (auto simp: udp_relay_step_def)

lemma own_out_frame:
  "ur_ended (own_out build True r) = ur_ended r" "ur_out_open (own_out build True r) = ur_out_open r"
  "ur_in_open (own_out build True r) = ur_in_open r" "ur_acc (own_out build True r) = ur_acc r"
  "ur_tun (own_out build True r) = ur_tun r"
  by (simp_all add: own_out_def split: list.split option.split prod.split)

lemma own_out_frames:
  "concat (ur_wire (own_out build True r)) @ frames_of build (ur_queue (own_out build True r))
     = concat (ur_wire r) @ frames_of build (ur_queue r)"
proof (cases "ur_queue r")
  case (Cons p q)
  show ?thesis
  proof (cases "build p")
    case (Some f)
    obtain batch q' where c: "own_coalesce build f q = (batch, q')" by fastforce
    from own_coalesce_frames [OF c] show ?thesis by (simp add: own_out_def Cons Some c)
  qed (simp add: own_out_def Cons)
qed (simp add: own_out_def)

lemma own_in_frame:
  "ur_ended (own_in key now c r) = ur_ended r" "ur_out_open (own_in key now c r) = ur_out_open r"
  "ur_in_open (own_in key now c r) = ur_in_open r" "ur_wire (own_in key now c r) = ur_wire r"
  "ur_queue (own_in key now c r) = ur_queue r" "ur_acc (own_in key now c r) = snd (legacy_drain (ur_acc r @ c))"
  "ur_tun (own_in key now c r) = ur_tun r @ concat (map (reply_packets key)
     (filter (\<lambda>p. p \<noteq> []) (fst (legacy_drain (ur_acc r @ c)))))"
  by (simp_all add: own_in_def Let_def split: prod.split)

lemma own_run:
  assumes "list_all running_event es" "ur_ended r = None" "ur_out_open r" "ur_in_open r"
    and "legacy_drain (ur_acc r) = ([], ur_acc r)"
  shows "(let r' = fold (own_step nm ip key) es r; build = build_frame nm ip (fk_dst_port key)
          in concat (ur_wire r') @ frames_of build (ur_queue r')
               = concat (ur_wire r) @ frames_of build (ur_queue r @ arrived_of es)
             \<and> ur_tun r' = ur_tun r @ concat (map (reply_packets key)
                 (filter (\<lambda>p. p \<noteq> []) (fst (legacy_drain (ur_acc r @ concat (received_of es)))))))"
  using assms
proof (induction es arbitrary: r)
  case Nil
  then show ?case by simp
next
  case (Cons e es)
  note run = running_step [OF _ Cons.prems(2-4), of e]
  from Cons.prems(1) have later: "list_all running_event es" by simp
  show ?case
  proof (cases e)
    case (UdpArrives p)
    with Cons.IH [OF later, of "r\<lparr>ur_queue := ur_queue r @ [p]\<rparr>"] Cons.prems run show ?thesis
      by (simp add: own_step_def)
  next
    case (UdpOut ok)
    define r1 where "r1 = own_out (build_frame nm ip (fk_dst_port key)) True r"
    note f = own_out_frame [of "build_frame nm ip (fk_dst_port key)" r, folded r1_def]
    from UdpOut Cons.prems run f have "own_step nm ip key e r = r1"
      by (simp add: own_step_def udp_joined_def r1_def [symmetric])
    with Cons.IH [OF later, of r1] Cons.prems f UdpOut
      own_out_frames [of "build_frame nm ip (fk_dst_port key)" r, folded r1_def]
    show ?thesis by (simp add: Let_def)
  next
    case (UdpIn now c)
    note f = own_in_frame [of key now c r]
    have d: "legacy_drain (ur_acc (own_in key now c r)) = ([], ur_acc (own_in key now c r))"
      unfolding f by (rule legacy.drain_none [OF legacy.drain_rest])
    from UdpIn Cons.prems run have "own_step nm ip key e r = own_in key now c r" by (simp add: own_step_def)
    with Cons.IH [OF later _ _ _ d] Cons.prems f UdpIn
      legacy.drain_append [of "ur_acc r @ c" "concat (received_of es)"]
    show ?thesis by (simp add: Let_def)
  qed (use Cons.prems in simp_all)
qed

lemma own_drain_empty: "legacy_drain [] = ([], [])"
  by (subst legacy_drain.simps) (simp add: parse_udp_frame_payload_def take_frame_def)

text \<open>A flow over a tunnel of its own (\<open>udp_flow_relay\<close>, udp.rs) forwards faithfully for as long as no
send fails and no wait runs out: the bytes given to the tunnel with those of the datagrams still queued
are the frames of all datagrams, in order, however they are coalesced; and the TUN is given a reply packet
for each non-empty datagram in the bytes received, in order, however these were cut up.\<close>
theorem own_tunnel_faithful:
  assumes "list_all running_event es" "r = fold (own_step nm ip key) es (udp_relay_start now queued mon)"
  shows "concat (ur_wire r) @ frames_of (build_frame nm ip (fk_dst_port key)) (ur_queue r)
           = frames_of (build_frame nm ip (fk_dst_port key)) (queued @ arrived_of es)
         \<and> ur_tun r = concat (map (reply_packets key) (filter (\<lambda>p. p \<noteq> []) (fst (legacy_drain (concat (received_of es))))))"
  using own_run [OF assms(1), of "udp_relay_start now queued mon" nm ip key]
  unfolding assms(2) by (simp add: udp_relay_start_def own_drain_empty Let_def)

definition dns_key :: flow_key where
  "dns_key = \<lparr>fk_src = V4 1, fk_src_port = 4000, fk_dst = V4 0x08080808, fk_dst_port = 53\<rparr>"

theorem own_tunnel_faithful_witness:
  "concat (ur_wire (fold (own_step None (Some (V4 0x08080808)) dns_key) [UdpArrives [1], UdpArrives [2], UdpOut True]
      (udp_relay_start 0 [] monitor_init)))
     = [0, 8, 1, 8, 8, 8, 8, 0, 53, 1, 0, 8, 1, 8, 8, 8, 8, 0, 53, 2]"
proof -
  let ?es = "[UdpArrives [1], UdpArrives [2], UdpOut True]"
  let ?b = "build_frame None (Some (V4 0x08080808)) 53"
  have b: "?b [1] = Some [0, 8, 1, 8, 8, 8, 8, 0, 53, 1]" "?b [2] = Some [0, 8, 1, 8, 8, 8, 8, 0, 53, 2]" by (simp_all add: build_frame_def be16_def be32_def)
  have q: "ur_queue (fold (own_step None (Some (V4 0x08080808)) dns_key) ?es (udp_relay_start 0 [] monitor_init)) = []"
    by (simp add: own_step_def udp_relay_defs udp_relay_start_def own_out_def dns_key_def b)
  from own_tunnel_faithful [OF _ refl, of ?es None "Some (V4 0x08080808)" dns_key 0 "[]" monitor_init] q show ?thesis
    by (simp add: dns_key_def b)
qed

subsection \<open>Counting\<close>

definition sent_counted :: "udp_relay \<Rightarrow> bool" where
  "sent_counted r \<longleftrightarrow> ur_sent r = of_nat (sum_list (map length (ur_wire r))) \<and> ur_conn_up r = ur_sent r"

lemma udp_direct_run:
  assumes "list_all running_event es" "ur_ended r = None" "ur_out_open r" "ur_in_open r" "sent_counted r"
  shows "(let r' = fold (direct_step key) es r
          in ur_wire r' @ ur_queue r' = ur_wire r @ ur_queue r @ arrived_of es
             \<and> ur_tun r' = ur_tun r @ concat (map (reply_packets key) (received_of es))
             \<and> ur_recv r' = ur_recv r + of_nat (sum_list (map length (received_of es)))
             \<and> sent_counted r')"
  using assms
proof (induction es arbitrary: r)
  case Nil
  then show ?case by simp
next
  case (Cons e es)
  define r1 where "r1 = direct_step key e r"
  have r1: "r1 = (case e of UdpArrives p \<Rightarrow> r\<lparr>ur_queue := ur_queue r @ [p]\<rparr> | UdpOut ok \<Rightarrow> udp_joined (direct_out True r)
      | UdpIn now c \<Rightarrow> direct_in key now c r | _ \<Rightarrow> r)"
    using running_step Cons.prems unfolding r1_def direct_step_def by simp
  have open1: "ur_ended r1 = None" "ur_out_open r1" "ur_in_open r1"
    using Cons.prems by (auto simp: r1 direct_out_def direct_in_def udp_joined_def split: udp_event.splits list.splits)
  have one: "ur_wire r1 @ ur_queue r1 = ur_wire r @ ur_queue r @ arrived_of [e]"
      "ur_tun r1 = ur_tun r @ concat (map (reply_packets key) (received_of [e]))"
      "ur_recv r1 = ur_recv r + of_nat (sum_list (map length (received_of [e])))"
      "sent_counted r1"
    using Cons.prems
    by (auto simp: sent_counted_def r1 direct_out_def direct_in_def udp_joined_def algebra_simps split: udp_event.splits list.splits)
  have parts: "arrived_of (e # es) = arrived_of [e] @ arrived_of es" "received_of (e # es) = received_of [e] @ received_of es"
    by (cases e; simp)+
  from Cons.prems(1) have "list_all running_event es" by simp
  from Cons.IH [OF this open1 one(4)] one(1-3) show ?case
    unfolding parts by (simp add: r1_def [symmetric] Let_def)
qed

text \<open>A direct UDP flow (\<open>udp_flow_direct\<close>, udp.rs) forwards and counts exactly for as long as no send
fails and no wait runs out: the datagrams sent and those still queued are those that arrived, in order;
every datagram received becomes the reply packet of the flow; and both counters are the bytes of the
payloads.\<close>
theorem direct_flow_exact:
  assumes "list_all running_event es" "r = fold (direct_step key) es (udp_relay_start now queued mon)"
  shows "ur_wire r @ ur_queue r = queued @ arrived_of es
         \<and> ur_tun r = concat (map (reply_packets key) (received_of es))
         \<and> ur_sent r = of_nat (sum_list (map length (ur_wire r)))
         \<and> ur_recv r = of_nat (sum_list (map length (received_of es)))"
  using udp_direct_run [OF assms(1), of "udp_relay_start now queued mon" key]
  unfolding assms(2) by (simp add: udp_relay_start_def sent_counted_def Let_def)

theorem direct_flow_exact_witness:
  "ur_sent (fold (direct_step dns_key) [UdpArrives [1, 2], UdpArrives [3], UdpOut True, UdpOut True]
      (udp_relay_start 0 [] monitor_init)) = 3"
proof -
  let ?es = "[UdpArrives [1, 2], UdpArrives [3], UdpOut True, UdpOut True]"
  have "ur_wire (fold (direct_step dns_key) ?es (udp_relay_start 0 [] monitor_init)) = [[1, 2], [3]]"
    by (simp add: direct_step_def udp_relay_defs udp_relay_start_def direct_out_def)
  with direct_flow_exact [OF _ refl, of ?es dns_key 0 "[]" monitor_init] show ?thesis by simp
qed

text \<open>A flow over a tunnel of its own counts the first datagram of every batch only.\<close>

lemma own_batch_counted_once:
  assumes "ur_queue r = p # q" "build p = Some f" "own_coalesce build f q = (batch, q')"
  shows "ur_sent (own_out build True r) = ur_sent r + of_nat (length p)"
  using assms by (simp add: own_out_def)

text \<open>Once eight seconds have gone without a reply, replies are no longer read, while the other half goes
on sending for as long as the client does.\<close>

lemma late_replies_unread:
  assumes "ur_in_open r = False" "ur_ended r = None" "ur_out_open r"
  shows "own_step nm ip key (UdpIn now c) r = r"
    and "own_step nm ip key (UdpOut True) r = own_out (build_frame nm ip (fk_dst_port key)) True r"
  using assms
  by (auto simp: own_step_def udp_relay_step_def udp_joined_def own_out_def split: list.splits option.splits prod.splits)

subsection \<open>The tunnels of a pool\<close>

text \<open>\<open>MuxSet\<close>: the slots hold the numbers of their tunnels; which tunnels live, the hash of a flow and
what creating a tunnel over the pool gives are arguments (the hasher of the standard library and the
network). The registry has a set for every pool that is still held (\<open>pool_held\<close>).\<close>

record mux_set =
  ms_pool :: nat
  ms_slots :: "nat option list"

definition slot_index :: "(flow_key \<Rightarrow> nat) \<Rightarrow> flow_key \<Rightarrow> nat \<Rightarrow> nat" where
  "slot_index hash key num_slots = hash key mod max 1 num_slots"

definition mux_set_new :: "nat \<Rightarrow> nat \<Rightarrow> mux_set" where
  "mux_set_new pool k = \<lparr>ms_pool = pool, ms_slots = replicate (max 1 k) None\<rparr>"

definition mux_set_get :: "(flow_key \<Rightarrow> nat) \<Rightarrow> (nat \<Rightarrow> bool) \<Rightarrow> (nat \<Rightarrow> bool) \<Rightarrow> nat option \<Rightarrow> flow_key \<Rightarrow> mux_set
    \<Rightarrow> nat option \<times> mux_set" where
  "mux_set_get hash pool_held tunnel_alive created key ms =
     (if \<not> pool_held (ms_pool ms) then (None, ms)
      else let idx = slot_index hash key (length (ms_slots ms));
               make = (case created of
                         None \<Rightarrow> (None, ms)
                       | Some t \<Rightarrow> (Some t, ms\<lparr>ms_slots := (ms_slots ms)[idx := Some t]\<rparr>))
           in case ms_slots ms ! idx of
                Some t \<Rightarrow> if tunnel_alive t then (Some t, ms) else make
              | None \<Rightarrow> make)"

definition get_mux_tunnel :: "(flow_key \<Rightarrow> nat) \<Rightarrow> (nat \<Rightarrow> bool) \<Rightarrow> (nat \<Rightarrow> bool) \<Rightarrow> nat option \<Rightarrow> nat \<Rightarrow> nat \<Rightarrow> flow_key
    \<Rightarrow> (nat \<times> mux_set) list \<Rightarrow> nat option \<times> (nat \<times> mux_set) list" where
  "get_mux_tunnel hash pool_held tunnel_alive created tunnels pool key reg =
     (let reg = filter (\<lambda>(_, ms). pool_held (ms_pool ms)) reg;
          ms = (case map_of reg pool of Some ms \<Rightarrow> ms | None \<Rightarrow> mux_set_new pool tunnels)
      in case mux_set_get hash pool_held tunnel_alive created key ms of
           (t, ms') \<Rightarrow> (t, AList.update pool ms' reg))"

definition registry_inv :: "(nat \<times> mux_set) list \<Rightarrow> bool" where
  "registry_inv reg \<longleftrightarrow> distinct (map fst reg) \<and> (\<forall>(p, ms) \<in> set reg. ms_pool ms = p \<and> ms_slots ms \<noteq> [])"

lemma slot_in_range: "slots \<noteq> [] \<Longrightarrow> slot_index hash key (length slots) < length slots"
  by (cases slots) (simp_all add: slot_index_def)

lemma mux_set_get_pool: "mux_set_get hash held alive created key ms = (t, ms') \<Longrightarrow>
    ms_pool ms' = ms_pool ms \<and> length (ms_slots ms') = length (ms_slots ms)"
  by (auto simp: mux_set_get_def Let_def split: if_splits option.splits)

lemma mux_set_get_stable:
  assumes "mux_set_get hash held alive created key ms = (Some t, ms')" "ms_slots ms \<noteq> []"
    and "alive' t" "held' (ms_pool ms)"
  shows "mux_set_get hash held' alive' created' key ms' = (Some t, ms')"
  using assms slot_in_range [OF assms(2), of hash key]
  by (auto simp: mux_set_get_def Let_def split: if_splits option.splits)

lemma registry_keeps:
  assumes "registry_inv reg" "get_mux_tunnel hash held alive created tunnels pool key reg = (t, reg')"
  shows "registry_inv reg'"
proof -
  define reg1 where "reg1 = filter (\<lambda>(_, ms). held (ms_pool ms)) reg"
  define ms where "ms = (case map_of reg1 pool of Some ms \<Rightarrow> ms | None \<Rightarrow> mux_set_new pool tunnels)"
  have i1: "registry_inv reg1" using assms(1) by (auto simp: registry_inv_def reg1_def distinct_map_filter)
  then have m: "ms_pool ms = pool" "ms_slots ms \<noteq> []"
    by (auto simp: ms_def mux_set_new_def registry_inv_def max_def dest!: map_of_SomeD split: option.splits)
  obtain ms' where g: "mux_set_get hash held alive created key ms = (t, ms')" "reg' = AList.update pool ms' reg1"
    using assms(2) by (auto simp: get_mux_tunnel_def Let_def reg1_def [symmetric] ms_def [symmetric] split: prod.splits)
  from mux_set_get_pool [OF g(1)] m have "ms_pool ms' = pool" "ms_slots ms' \<noteq> []" by auto
  with i1 show ?thesis
    unfolding registry_inv_def g(2) using distinct_update [of reg1 pool ms'] by (auto dest!: set_updateD)
qed

definition tunnel_of :: "(flow_key \<Rightarrow> nat) \<Rightarrow> nat \<Rightarrow> flow_key \<Rightarrow> (nat \<times> mux_set) list \<Rightarrow> nat option" where
  "tunnel_of hash pool key reg =
     (case map_of reg pool of None \<Rightarrow> None | Some ms \<Rightarrow> ms_slots ms ! slot_index hash key (length (ms_slots ms)))"

lemma get_mux_set:
  assumes "registry_inv reg" "get_mux_tunnel hash held alive created n pool key reg = (t, reg')"
  obtains ms ms' where "map_of reg' pool = Some ms'" "mux_set_get hash held alive created key ms = (t, ms')"
    "ms_pool ms = pool" "ms_slots ms \<noteq> []"
    "\<And>m. map_of reg pool = Some m \<Longrightarrow> held pool \<Longrightarrow> ms = m"
    "\<And>p m. p \<noteq> pool \<Longrightarrow> map_of reg p = Some m \<Longrightarrow> held p \<Longrightarrow> map_of reg' p = Some m"
proof -
  define reg1 where "reg1 = filter (\<lambda>(_, ms). held (ms_pool ms)) reg"
  define ms where "ms = (case map_of reg1 pool of Some ms \<Rightarrow> ms | None \<Rightarrow> mux_set_new pool n)"
  have i1: "registry_inv reg1" using assms(1) by (auto simp: registry_inv_def reg1_def distinct_map_filter)
  then have m: "ms_pool ms = pool" "ms_slots ms \<noteq> []"
    by (auto simp: ms_def mux_set_new_def registry_inv_def max_def dest!: map_of_SomeD split: option.splits)
  have kept: "map_of reg1 p = Some m" if "map_of reg p = Some m" "held p" for p m
  proof -
    from that(1) have "(p, m) \<in> set reg" by (rule map_of_SomeD)
    moreover from this assms(1) have "ms_pool m = p" by (auto simp: registry_inv_def)
    ultimately have "(p, m) \<in> set reg1" using that(2) by (auto simp: reg1_def)
    with i1 show ?thesis by (simp add: registry_inv_def)
  qed
  obtain ms' where g: "mux_set_get hash held alive created key ms = (t, ms')" "reg' = AList.update pool ms' reg1"
    using assms(2) by (auto simp: get_mux_tunnel_def Let_def reg1_def [symmetric] ms_def [symmetric] split: prod.splits)
  show thesis
  proof (rule that [of ms' ms])
    show "map_of reg' pool = Some ms'" unfolding g(2) by (simp add: update_conv')
    show "ms = m" if "map_of reg pool = Some m" "held pool" for m using kept [OF that] by (simp add: ms_def)
    show "map_of reg' p = Some m" if "p \<noteq> pool" "map_of reg p = Some m" "held p" for p m
      using kept [OF that(2,3)] that(1) unfolding g(2) by (simp add: update_conv')
  qed (use g m in auto)
qed

text \<open>A slot changes only when its tunnel is dead.\<close>

lemma get_keeps_tunnel:
  assumes "registry_inv reg" "tunnel_of hash pool key reg = Some t" "held pool" "alive t"
    and "get_mux_tunnel hash held alive created n pool' key' reg = (t', reg')"
  shows "tunnel_of hash pool key reg' = Some t"
proof -
  obtain m where m: "map_of reg pool = Some m" "ms_slots m ! slot_index hash key (length (ms_slots m)) = Some t"
    using assms(2) by (auto simp: tunnel_of_def split: option.splits)
  obtain ms ms' where g: "map_of reg' pool' = Some ms'" "mux_set_get hash held alive created key' ms = (t', ms')"
    "ms_pool ms = pool'" "ms_slots ms \<noteq> []" "\<And>m. map_of reg pool' = Some m \<Longrightarrow> held pool' \<Longrightarrow> ms = m"
    "\<And>p m. p \<noteq> pool' \<Longrightarrow> map_of reg p = Some m \<Longrightarrow> held p \<Longrightarrow> map_of reg' p = Some m"
    using get_mux_set [OF assms(1,5)] by metis
  show ?thesis
  proof (cases "pool = pool'")
    case False
    with g(6) [OF _ m(1) assms(3)] m(2) show ?thesis by (simp add: tunnel_of_def)
  next
    case True
    with g(5) m(1) assms(3) have ms: "ms = m" by simp
    have "ms_slots ms' ! slot_index hash key (length (ms_slots m)) = Some t"
    proof (cases "slot_index hash key' (length (ms_slots m)) = slot_index hash key (length (ms_slots m))")
      case True
      then show ?thesis using g(2) m(2) assms(4) unfolding ms
        by (auto simp: mux_set_get_def Let_def split: if_splits)
    next
      case False
      then show ?thesis using g(2) m(2) unfolding ms
        by (auto simp: mux_set_get_def Let_def split: if_splits option.splits)
    qed
    moreover from mux_set_get_pool [OF g(2)] have "length (ms_slots ms') = length (ms_slots m)" by (simp add: ms)
    ultimately show ?thesis using g(1) True by (simp add: tunnel_of_def)
  qed
qed

record mux_call =
  mc_held :: "nat \<Rightarrow> bool"
  mc_alive :: "nat \<Rightarrow> bool"
  mc_created :: "nat option"
  mc_tunnels :: nat
  mc_pool :: nat
  mc_key :: flow_key

definition mux_call :: "(flow_key \<Rightarrow> nat) \<Rightarrow> mux_call \<Rightarrow> (nat \<times> mux_set) list \<Rightarrow> nat option \<times> (nat \<times> mux_set) list" where
  "mux_call hash c = get_mux_tunnel hash (mc_held c) (mc_alive c) (mc_created c) (mc_tunnels c) (mc_pool c) (mc_key c)"

lemma calls_keep_tunnel:
  assumes "registry_inv reg" "tunnel_of hash pool key reg = Some t"
    and "list_all (\<lambda>c. mc_held c pool \<and> mc_alive c t) calls"
  shows "registry_inv (fold (\<lambda>c r. snd (mux_call hash c r)) calls reg)
     \<and> tunnel_of hash pool key (fold (\<lambda>c r. snd (mux_call hash c r)) calls reg) = Some t"
  using assms
proof (induction calls arbitrary: reg)
  case (Cons c calls)
  obtain t' reg' where g: "mux_call hash c reg = (t', reg')" by fastforce
  with Cons.prems have "registry_inv reg'" "tunnel_of hash pool key reg' = Some t"
    using registry_keeps [OF Cons.prems(1) g [unfolded mux_call_def]]
      get_keeps_tunnel [OF Cons.prems(1,2) _ _ g [unfolded mux_call_def]] by auto
  with Cons.IH [of reg'] Cons.prems(3) g show ?case by simp
qed simp

text \<open>A flow stays with its tunnel (\<open>get_mux_tunnel\<close>, udp_mux.rs): while the tunnel a flow was given lives
and its pool is held, a later call for the flow gives the same tunnel, whatever calls for any flows and pools
come between, and whatever number of tunnels has been configured meanwhile.\<close>
theorem flow_keeps_its_tunnel:
  assumes "registry_inv reg" "mux_call hash c reg = (Some t, reg')"
    and "list_all (\<lambda>d. mc_held d (mc_pool c) \<and> mc_alive d t) (calls @ [d])" "mc_pool d = mc_pool c" "mc_key d = mc_key c"
  shows "fst (mux_call hash d (fold (\<lambda>c r. snd (mux_call hash c r)) calls reg')) = Some t"
proof -
  note c = assms(2) [unfolded mux_call_def]
  obtain ms ms' where g: "map_of reg' (mc_pool c) = Some ms'"
      "mux_set_get hash (mc_held c) (mc_alive c) (mc_created c) (mc_key c) ms = (Some t, ms')" "ms_slots ms \<noteq> []"
    using get_mux_set [OF assms(1) c] by metis
  have "tunnel_of hash (mc_pool c) (mc_key c) reg' = Some t"
    using g slot_in_range [OF g(3), of hash "mc_key c"]
    by (auto simp: tunnel_of_def mux_set_get_def Let_def split: if_splits option.splits)
  define r where "r = fold (\<lambda>c r. snd (mux_call hash c r)) calls reg'"
  from calls_keep_tunnel [OF registry_keeps [OF assms(1) c] \<open>tunnel_of _ _ _ _ = _\<close>, of calls] assms(3)
  have r: "registry_inv r" and t: "tunnel_of hash (mc_pool c) (mc_key c) r = Some t" by (simp_all add: r_def)
  obtain t' r' where d: "get_mux_tunnel hash (mc_held d) (mc_alive d) (mc_created d) (mc_tunnels d) (mc_pool c) (mc_key c) r = (t', r')"
    by fastforce
  obtain m where m: "map_of r (mc_pool c) = Some m" "ms_slots m ! slot_index hash (mc_key c) (length (ms_slots m)) = Some t"
    using t by (auto simp: tunnel_of_def split: option.splits)
  obtain ms2 ms2' where "mux_set_get hash (mc_held d) (mc_alive d) (mc_created d) (mc_key c) ms2 = (t', ms2')"
      "ms_pool ms2 = mc_pool c" "ms2 = m"
    using get_mux_set [OF r d] m(1) assms(3) unfolding list_all_append list.pred_inject(2) by metis
  with m assms(3) have "t' = Some t" by (auto simp: mux_set_get_def Let_def split: if_splits)
  with d assms(4,5) show ?thesis unfolding r_def [symmetric] by (simp add: mux_call_def)
qed

theorem flow_keeps_its_tunnel_witness:
  "fst (mux_call (\<lambda>k. unat (fk_src_port k))
      \<lparr>mc_held = \<lambda>_. True, mc_alive = \<lambda>_. True, mc_created = Some 9, mc_tunnels = 8, mc_pool = 1, mc_key = dns_key\<rparr>
      (fold (\<lambda>c r. snd (mux_call (\<lambda>k. unat (fk_src_port k)) c r))
        [\<lparr>mc_held = \<lambda>_. True, mc_alive = \<lambda>_. True, mc_created = Some 8, mc_tunnels = 8, mc_pool = 2, mc_key = dns_key\<rparr>]
        [(1, \<lparr>ms_pool = 1, ms_slots = [Some 7, None]\<rparr>)])) = Some 7"
proof -
  let ?hash = "\<lambda>k. unat (fk_src_port k)"
  let ?c = "\<lparr>mc_held = \<lambda>_. True, mc_alive = \<lambda>_. True, mc_created = Some 7, mc_tunnels = 2, mc_pool = 1, mc_key = dns_key\<rparr>"
  have i: "registry_inv []" by (simp add: registry_inv_def)
  have "mux_set_new 1 2 = \<lparr>ms_pool = 1, ms_slots = [None, None]\<rparr>" by (simp add: mux_set_new_def numeral_2_eq_2)
  moreover have "slot_index ?hash dns_key (Suc (Suc 0)) = 0" by (simp add: slot_index_def dns_key_def flip: numeral_2_eq_2)
  ultimately have g: "mux_set_get ?hash (\<lambda>_. True) (\<lambda>_. True) (Some 7) dns_key (mux_set_new (Suc 0) 2)
      = (Some 7, \<lparr>ms_pool = 1, ms_slots = [Some 7, None]\<rparr>)"
    by (simp add: mux_set_get_def)
  have c: "mux_call ?hash ?c [] = (Some 7, [(1, \<lparr>ms_pool = 1, ms_slots = [Some 7, None]\<rparr>)])"
    by (simp add: mux_call_def get_mux_tunnel_def g)
  from flow_keeps_its_tunnel [OF i c, of "[\<lparr>mc_held = \<lambda>_. True, mc_alive = \<lambda>_. True, mc_created = Some 8, mc_tunnels = 8,
      mc_pool = 2, mc_key = dns_key\<rparr>]" "\<lparr>mc_held = \<lambda>_. True, mc_alive = \<lambda>_. True, mc_created = Some 9, mc_tunnels = 8,
      mc_pool = 1, mc_key = dns_key\<rparr>"]
  show ?thesis by simp
qed

subsection \<open>Whole flows\<close>

text \<open>A UDP flow from the decision on: what the tunnels and the pool give is an argument, the events are
those of the relay it comes to. A refused flow is recorded and closed, so is one whose tunnel cannot be
had.\<close>

datatype udp_end = UdpRefused string | UdpOpen | UdpClosed string

record udp_times =
  ut_asked :: u64
  ut_finished :: u64

definition shown_target :: "flow_key \<Rightarrow> string option \<Rightarrow> string" where
  "shown_target key nm = target_name (fk_dst key, fk_dst_port key) nm"

definition udp_blocked :: "udp_times \<Rightarrow> flow_key \<Rightarrow> string option \<Rightarrow> string \<Rightarrow> monitor \<Rightarrow> monitor" where
  "udp_blocked ut key nm rule mon =
     (let target = (case nm of Some d \<Rightarrow> d | None \<Rightarrow> target_name (fk_dst key, fk_dst_port key) None);
          (cid, mon) = record_conn_start (ut_asked ut) ''UDP'' target (show_ip (fk_dst key)) rule ''BLOCK'' None mon
      in record_conn_close (ut_finished ut) cid 0 0 ''Blocked'' mon)"

definition mux_finish :: "udp_times \<Rightarrow> u64 \<Rightarrow> mux_session \<Rightarrow> monitor \<Rightarrow> udp_end \<times> monitor" where
  "mux_finish ut cid s mon =
     (case mx_ended s of
        None \<Rightarrow> (UdpOpen, mon)
      | Some reason \<Rightarrow> (UdpClosed reason, record_conn_close (ut_finished ut) cid (mx_sent s) (mx_down s) reason mon))"

definition udp_relay_finish :: "udp_times \<Rightarrow> u64 \<Rightarrow> udp_relay \<Rightarrow> udp_end \<times> monitor" where
  "udp_relay_finish ut cid r =
     (case ur_ended r of
        None \<Rightarrow> (UdpOpen, ur_monitor r)
      | Some (sent, recv, reason) \<Rightarrow>
          (UdpClosed reason, record_conn_close (ut_finished ut) cid sent recv reason (ur_monitor r)))"

text \<open>What the way through a tunnel finds: the shared tunnel given by \<open>get_mux_tunnel\<close> with the state of
its session table, or the tunnel of the pool and whether the byte that opens it could be sent.\<close>

datatype udp_path =
  SharedTunnel "mux_tunnel option" "mux_event list"
| OwnTunnel bool bool "udp_event list"

definition udp_proxy :: "udp_times \<Rightarrow> nat \<Rightarrow> flow_key \<Rightarrow> string option \<Rightarrow> string \<Rightarrow> bytes list \<Rightarrow> udp_path \<Rightarrow> monitor
    \<Rightarrow> udp_end \<times> monitor" where
  "udp_proxy ut now key nm rule queued path mon =
     (let ip = (if nm = None then Some (fk_dst key) else None);
          shown = (if fake_ip_addr (fk_dst key) then fake_shown else show_ip (fk_dst key));
          (cid, mon) = record_conn_start (ut_asked ut) ''UDP'' (shown_target key nm) shown rule ''PROXY'' None mon;
          refused = (\<lambda>reason. (UdpRefused reason, record_conn_close (ut_finished ut) cid 0 0 reason mon))
      in case path of
           SharedTunnel None evs \<Rightarrow> refused ''Mux Connect Failed''
         | SharedTunnel (Some t) evs \<Rightarrow>
             (case alloc_sid t of
                (sid, t') \<Rightarrow>
                  (case try_register sid key (Some 0) t' of
                     None \<Rightarrow> refused ''Mux Sid Limit Reached''
                   | Some t'' \<Rightarrow>
                       mux_finish ut cid
                         (fold mux_session_step evs (mux_session_start sid nm (fk_dst key) (fk_dst_port key) now)) mon))
         | OwnTunnel got opened evs \<Rightarrow>
             if \<not> got then refused ''Tunnel Pool Empty''
             else if \<not> opened then refused ''Handshake Failed''
             else udp_relay_finish ut cid (fold (own_step nm ip key) evs (udp_relay_start now queued mon)))"

text \<open>A direct flow from the address decided on; without a socket nothing is recorded.\<close>

definition udp_direct :: "udp_times \<Rightarrow> nat \<Rightarrow> flow_key \<Rightarrow> ip_addr \<Rightarrow> string option \<Rightarrow> string \<Rightarrow> bytes list \<Rightarrow> bool
    \<Rightarrow> udp_event list \<Rightarrow> monitor \<Rightarrow> udp_end \<times> monitor" where
  "udp_direct ut now key target_ip nm rule queued bound evs mon =
     (if \<not> bound then (UdpRefused [], mon)
      else let (cid, mon) = record_conn_start (ut_asked ut) ''UDP'' (target_name (target_ip, fk_dst_port key) nm)
                              (show_ip target_ip) rule ''DIRECT'' None mon
           in udp_relay_finish ut cid (fold (direct_step key) evs (udp_relay_start now queued mon)))"

datatype udp_course = Refuse | Relayed udp_path | Dialled ip_addr bool "udp_event list"

fun udp_flow :: "udp_times \<Rightarrow> nat \<Rightarrow> flow_key \<Rightarrow> string option \<Rightarrow> string \<Rightarrow> bytes list \<Rightarrow> udp_course \<Rightarrow> monitor
    \<Rightarrow> udp_end \<times> monitor" where
  "udp_flow ut now key nm rule queued Refuse mon = (UdpRefused ''Blocked'', udp_blocked ut key nm rule mon)"
| "udp_flow ut now key nm rule queued (Relayed path) mon = udp_proxy ut now key nm rule queued path mon"
| "udp_flow ut now key nm rule queued (Dialled ip bound evs) mon =
     udp_direct ut now key ip nm rule queued bound evs mon"

lemma udp_step_conns:
  "mn_conns (ur_monitor (own_step nm ip key e r)) = mn_conns (ur_monitor r)"
  "mn_conns (ur_monitor (direct_step key e r)) = mn_conns (ur_monitor r)"
  by (auto simp: own_step_def direct_step_def udp_relay_defs own_out_def own_in_def direct_out_def direct_in_def
      add_up_def add_down_def Let_def split: udp_event.split list.split option.split prod.split)

lemma udp_run_conns:
  "mn_conns (ur_monitor (fold (own_step nm ip key) es r)) = mn_conns (ur_monitor r)"
  "mn_conns (ur_monitor (fold (direct_step key) es r)) = mn_conns (ur_monitor r)"
  by (induction es arbitrary: r) (simp_all add: udp_step_conns)

lemma udp_finish_conns:
  assumes "udp_relay_finish ut cid r = (end', mon')" "end' \<noteq> UdpOpen"
  shows "mn_conns mon' = AList.delete cid (mn_conns (ur_monitor r))"
  using assms by (auto simp: udp_relay_finish_def split: option.splits)

lemma mux_finish_conns:
  assumes "mux_finish ut cid s mon = (end', mon')" "end' \<noteq> UdpOpen"
  shows "mn_conns mon' = AList.delete cid (mn_conns mon)"
  using assms by (auto simp: mux_finish_def split: option.splits)

text \<open>C32. No UDP flow is left in the table of live connections (\<open>udp_flow_relay\<close>, \<open>udp_flow_direct\<close>,
udp.rs): whichever way it goes, over a shared tunnel, one of its own, directly or nowhere, and however
that fails, a flow that ends leaves no connection in the table that was not there before it.\<close>
theorem udp_flows_closed:
  assumes "udp_flow ut now key nm rule queued course mon = (end', mon')" "end' \<noteq> UdpOpen"
  shows "fst ` set (mn_conns mon') \<subseteq> fst ` set (mn_conns mon)"
proof (cases course)
  case Refuse
  then have "mon' = udp_blocked ut key nm rule mon" using assms(1) by simp
  moreover obtain cid mon1 where s: "record_conn_start (ut_asked ut) ''UDP''
      (case nm of Some d \<Rightarrow> d | None \<Rightarrow> target_name (fk_dst key, fk_dst_port key) None)
      (show_ip (fk_dst key)) rule ''BLOCK'' None mon = (cid, mon1)" by fastforce
  ultimately have "mn_conns mon' = AList.delete cid (mn_conns mon1)" by (simp add: udp_blocked_def s Let_def)
  with record_close_keys [OF s] show ?thesis .
next
  case (Relayed path)
  obtain cid mon1 where s: "record_conn_start (ut_asked ut) ''UDP'' (shown_target key nm)
      (if fake_ip_addr (fk_dst key) then fake_shown else show_ip (fk_dst key)) rule ''PROXY'' None mon = (cid, mon1)"
    by fastforce
  have "mn_conns mon' = AList.delete cid (mn_conns mon1)"
  proof (cases path)
    case (SharedTunnel t evs)
    with Relayed assms s show ?thesis
      by (auto simp: udp_proxy_def Let_def split: option.splits prod.splits dest: mux_finish_conns)
  next
    case (OwnTunnel got opened evs)
    with Relayed assms s show ?thesis
      by (auto simp: udp_proxy_def Let_def udp_run_conns udp_relay_start_def split: if_splits dest!: udp_finish_conns)
  qed
  with record_close_keys [OF s] show ?thesis .
next
  case (Dialled ip bound evs)
  show ?thesis
  proof (cases bound)
    case True
    obtain cid mon1 where s: "record_conn_start (ut_asked ut) ''UDP'' (target_name (ip, fk_dst_port key) nm)
        (show_ip ip) rule ''DIRECT'' None mon = (cid, mon1)" by fastforce
    have "mn_conns mon' = AList.delete cid (mn_conns mon1)"
      using Dialled True s assms by (auto simp: udp_direct_def udp_run_conns udp_relay_start_def dest!: udp_finish_conns)
    with record_close_keys [OF s] show ?thesis .
  next
    case False
    with Dialled assms show ?thesis by (simp add: udp_direct_def)
  qed
qed

theorem udp_flows_closed_witness:
  "mn_conns (snd (udp_flow \<lparr>ut_asked = 1, ut_finished = 9\<rparr> 0 dns_key None ''rule'' [] (Relayed (OwnTunnel True True
      [UdpArrives [1], UdpOut True, UdpAbort])) monitor_init)) = []"
proof -
  let ?o = "udp_flow \<lparr>ut_asked = 1, ut_finished = 9\<rparr> 0 dns_key None ''rule'' [] (Relayed (OwnTunnel True True
      [UdpArrives [1], UdpOut True, UdpAbort])) monitor_init"
  have b: "build_frame None (Some (V4 0x08080808)) 53 [1] = Some [0, 8, 1, 8, 8, 8, 8, 0, 53, 1]"
    by (simp add: build_frame_def be16_def be32_def)
  have "fk_dst dns_key = V4 0x08080808" by (simp add: dns_key_def)
  moreover have "ur_ended (fold (own_step None (Some (V4 0x08080808)) dns_key) [UdpArrives [1], UdpOut True, UdpAbort]
      (udp_relay_start 0 [] m)) = Some (1, 0, ''Aborted'')" for m
    by (simp add: own_step_def udp_relay_defs udp_relay_start_def own_out_def b dns_key_def)
  ultimately have "fst ?o = UdpClosed ''Aborted''"
    by (simp add: udp_proxy_def udp_relay_finish_def Let_def del: fold.simps fold_simps split: prod.split)
  with udp_flows_closed [of "\<lparr>ut_asked = 1, ut_finished = 9\<rparr>" 0 dns_key None "''rule''" "[]"
      "Relayed (OwnTunnel True True [UdpArrives [1], UdpOut True, UdpAbort])" monitor_init "fst ?o" "snd ?o"]
  show ?thesis by (simp add: monitor_init_def)
qed

end
