(* ===== verification/Ja4.thy ===== *)
theory Ja4
  imports ClientHello Dns
begin

text \<open>\<open>ja4\<close> of \<open>crypto/tls_raw.rs\<close>: the JA4 fingerprint of a ClientHello record, by which the imitation
is judged. SHA-256 is the parameter \<open>sha\<close>; a read out of range, which ends the process, is \<open>None\<close>.\<close>

subsection \<open>Reading the record\<close>

definition is_grease_val :: "u16 \<Rightarrow> bool" where
  "is_grease_val v \<longleftrightarrow> v AND 0x0f0f = 0x0a0a \<and> drop_bit 8 v = v AND 0xff"

definition at8 :: "bytes \<Rightarrow> nat \<Rightarrow> u8 option" where
  "at8 ch i = (if i < length ch then Some (ch ! i) else None)"

definition at16 :: "bytes \<Rightarrow> nat \<Rightarrow> u16 option" where
  "at16 ch i = (if i + 1 < length ch then Some (of_be16 (ch ! i) (ch ! (i + 1))) else None)"

fun at16s :: "bytes \<Rightarrow> nat \<Rightarrow> nat \<Rightarrow> u16 list option" where
  "at16s ch i 0 = Some []"
| "at16s ch i (Suc n) =
     (case at16 ch i of
        None \<Rightarrow> None
      | Some w \<Rightarrow> map_option (\<lambda>ws. w # ws) (at16s ch (i + 2) n))"

text \<open>The 16-bit numbers in the first \<open>n\<close> bytes, as far as there are any.\<close>

fun pairs16 :: "nat \<Rightarrow> bytes \<Rightarrow> u16 list" where
  "pairs16 n (a # b # r) = (if 2 \<le> n then of_be16 a b # pairs16 (n - 2) r else [])"
| "pairs16 n _ = []"

record ja4_state =
  ja_exts :: "u16 list"
  ja_sni :: bool
  ja_alpn :: "string option"
  ja_sigalgs :: "u16 list"
  ja_ver :: u16

definition raise_ver :: "u16 \<Rightarrow> u16 \<Rightarrow> u16" where
  "raise_ver v best = (if \<not> is_grease_val v \<and> best < v then v else best)"

definition ja4_ext :: "u16 \<times> bytes \<Rightarrow> ja4_state \<Rightarrow> ja4_state" where
  "ja4_ext e st =
     (case e of (et, data) \<Rightarrow>
        if is_grease_val et then st
        else
          let st = st\<lparr>ja_exts := ja_exts st @ [et]\<rparr>
          in if et = 0x0000 then st\<lparr>ja_sni := True\<rparr>
             else if et = 0x0010 \<and> 3 \<le> length data then
               (let pl = unat (data ! 2)
                in if 3 + pl \<le> length data
                   then st\<lparr>ja_alpn := Some (utf8_lossy (map chr_of (take pl (drop 3 data))))\<rparr> else st)
             else if et = 0x002b \<and> data \<noteq> [] then
               st\<lparr>ja_ver := fold raise_ver (pairs16 (unat (hd data)) (tl data)) (ja_ver st)\<rparr>
             else if et = 0x000d \<and> 2 \<le> length data then
               st\<lparr>ja_sigalgs := ja_sigalgs st @ pairs16 (unat (of_be16 (data ! 0) (data ! 1))) (drop 2 data)\<rparr>
             else st)"

function ja4_loop :: "bytes \<Rightarrow> nat \<Rightarrow> nat \<Rightarrow> ja4_state \<Rightarrow> ja4_state option" where
  "ja4_loop ch end' i st =
     (if i < end' then
        (case (at16 ch i, at16 ch (i + 2)) of
           (Some et, Some le) \<Rightarrow>
             if length ch < i + 4 + unat le then None
             else ja4_loop ch end' (i + 4 + unat le) (ja4_ext (et, take (unat le) (drop (i + 4) ch)) st)
         | _ \<Rightarrow> None)
      else Some st)"
  by pat_completeness auto
termination
  by (relation "measure (\<lambda>(_, e, i, _). e - i)") auto

declare ja4_loop.simps [simp del]

definition ja4_start :: ja4_state where
  "ja4_start = \<lparr>ja_exts = [], ja_sni = False, ja_alpn = None, ja_sigalgs = [], ja_ver = 0x0303\<rparr>"

subsection \<open>Printing\<close>

definition hex_digit :: "nat \<Rightarrow> char" where
  "hex_digit n = ''0123456789abcdef'' ! n"

definition hex4 :: "u16 \<Rightarrow> string" where
  "hex4 w = map hex_digit [unat w div 4096, unat w div 256 mod 16, unat w div 16 mod 16, unat w mod 16]"

definition hex_bytes :: "bytes \<Rightarrow> string" where
  "hex_bytes bs = concat (map (\<lambda>b. [hex_digit (unat b div 16), hex_digit (unat b mod 16)]) bs)"

definition two_digits :: "nat \<Rightarrow> string" where
  "two_digits n = (if n < 10 then ''0'' @ show_nat n else show_nat n)"

fun commas :: "string list \<Rightarrow> string" where
  "commas [] = []"
| "commas [s] = s"
| "commas (s # ss) = s @ '','' @ commas ss"

definition h12 :: "(bytes \<Rightarrow> bytes) \<Rightarrow> string \<Rightarrow> string" where
  "h12 sha s = hex_bytes (take 6 (sha (bytes_of s)))"

definition ja4_ver :: "u16 \<Rightarrow> string" where
  "ja4_ver v = (if v = 0x0304 then ''13'' else if v = 0x0303 then ''12'' else if v = 0x0302 then ''11''
     else if v = 0x0301 then ''10'' else ''00'')"

definition ja4_alpn :: "string option \<Rightarrow> string" where
  "ja4_alpn a = (case a of
       Some (c # cs) \<Rightarrow> push_latin1 (byte_of c) @ push_latin1 (byte_of (last (c # cs)))
     | _ \<Rightarrow> ''00'')"

definition ja4_print :: "(bytes \<Rightarrow> bytes) \<Rightarrow> u16 list \<Rightarrow> ja4_state \<Rightarrow> string" where
  "ja4_print sha ciphers st =
     (let a = ''t'' @ ja4_ver (ja_ver st) @ (if ja_sni st then ''d'' else ''i'')
            @ two_digits (min (length ciphers) 99) @ two_digits (min (length (ja_exts st)) 99)
            @ ja4_alpn (ja_alpn st);
          b = h12 sha (commas (map hex4 (sort ciphers)));
          es = sort (filter (\<lambda>e. e \<noteq> 0x0000 \<and> e \<noteq> 0x0010) (ja_exts st));
          c = h12 sha (commas (map hex4 es) @ ''_'' @ commas (map hex4 (ja_sigalgs st)))
      in a @ ''_'' @ b @ ''_'' @ c)"

definition ja4 :: "(bytes \<Rightarrow> bytes) \<Rightarrow> bytes \<Rightarrow> string option" where
  "ja4 sha ch =
     (case at8 ch 43 of None \<Rightarrow> None | Some sid \<Rightarrow>
        let i = 44 + unat sid
        in case at16 ch i of None \<Rightarrow> None | Some cl \<Rightarrow>
          case at16s ch (i + 2) ((unat cl + 1) div 2) of None \<Rightarrow> None | Some cs \<Rightarrow>
            let ciphers = filter (\<lambda>c. \<not> is_grease_val c) cs; i = i + 2 + unat cl
            in case at8 ch i of None \<Rightarrow> None | Some cm \<Rightarrow>
              let i = i + 1 + unat cm
              in case at16 ch i of None \<Rightarrow> None | Some el \<Rightarrow>
                map_option (ja4_print sha ciphers) (ja4_loop ch (i + 2 + unat el) (i + 2) ja4_start))"

subsection \<open>The fingerprint of a hello as it is laid out\<close>

definition ja4_of :: "(bytes \<Rightarrow> bytes) \<Rightarrow> bytes \<Rightarrow> (u16 \<times> bytes) list \<Rightarrow> string" where
  "ja4_of sha suites es =
     ja4_print sha (filter (\<lambda>c. \<not> is_grease_val c) (pairs16 (length suites) suites)) (fold ja4_ext es ja4_start)"

lemma at16_be16: "at16 (pre @ be16 w @ rest) (length pre) = Some w"
  by (simp add: at16_def be16_def nth_append of_be16_be16)

lemma at16_be16': "k = length pre \<Longrightarrow> at16 (pre @ be16 w @ rest) k = Some w"
  using at16_be16 by simp

lemma at8_at: "k = length pre \<Longrightarrow> at8 (pre @ [b] @ rest) k = Some b"
  by (simp add: at8_def)

lemma at16s_pairs: "even (length s) \<Longrightarrow> at16s (pre @ s @ rest) (length pre) (length s div 2) = Some (pairs16 (length s) s)"
proof (induction s arbitrary: pre rule: induct_list012)
  case (3 x y r)
  from 3(1) [of "pre @ [x, y]"] 3(3) show ?case by (simp add: at16_def nth_append)
qed simp_all

lemma ja4_loop_exts:
  assumes "\<forall>e\<in>set es. length (snd e) < 65536"
  shows "ja4_loop (pre @ concat (map enc_ext es) @ rest) (length pre + length (concat (map enc_ext es))) (length pre) st
     = Some (fold ja4_ext es st)"
  using assms
proof (induction es arbitrary: pre st)
  case Nil
  then show ?case by (simp add: ja4_loop.simps)
next
  case (Cons e es)
  obtain t b where e: "e = (t, b)" by fastforce
  have u: "unat (of_nat (length b) :: u16) = length b" using Cons.prems by (simp add: e unat_of_nat)
  let ?ch = "pre @ concat (map enc_ext (e # es)) @ rest"
  have 1: "at16 ?ch (length pre) = Some t"
    using at16_be16 [of pre t] by (simp add: e enc_ext_def)
  have 2: "at16 ?ch (length pre + 2) = Some (of_nat (length b))"
    using at16_be16' [of "length pre + 2" "pre @ be16 t" "of_nat (length b)"] by (simp add: e enc_ext_def)
  have 3: "take (length b) (drop (length pre + 4) ?ch) = b" by (simp add: e enc_ext_def)
  have tail: "(t, drop 4 (enc_ext e)) = e" by (simp add: e enc_ext_def)
  have len: "length (enc_ext e) = 4 + length b" by (simp add: e enc_ext_def)
  from Cons.IH [of "pre @ enc_ext e" "ja4_ext e st"] Cons.prems
  show ?case
    by (subst ja4_loop.simps) (simp add: 1 [simplified] 2 [simplified] u tail len add.assoc)
qed

lemma ja4_hello:
  assumes "length head6 = 6" "length rnd = 32" "length sid < 256" "even (length suites)" "length suites < 65536"
    and "length cmps < 256" "\<forall>e\<in>set es. length (snd e) < 65536" "length (concat (map enc_ext es)) < 65536"
  shows "ja4 sha ([0x16, a, b] @ be16 n @ client_hello head6 rnd sid suites cmps es @ trail) = Some (ja4_of sha suites es)"
proof -
  let ?E = "concat (map enc_ext es)"
  define p1 where "p1 = [0x16, a, b] @ be16 n @ head6 @ rnd"
  define p2 where "p2 = p1 @ [of_nat (length sid)] @ sid"
  define p3 where "p3 = p2 @ be16 (of_nat (length suites))"
  define p4 where "p4 = p3 @ suites"
  define p5 where "p5 = p4 @ [of_nat (length cmps)] @ cmps"
  define p6 where "p6 = p5 @ be16 (of_nat (length ?E))"
  define ch where "ch = [0x16, a, b] @ be16 n @ client_hello head6 rnd sid suites cmps es @ trail"
  have ch: "ch = p6 @ ?E @ trail"
    by (simp add: ch_def p6_def p5_def p4_def p3_def p2_def p1_def client_hello_def)
  have l1: "length p1 = 43" using assms(1,2) by (simp add: p1_def)
  have l2: "length p2 = 44 + length sid" by (simp add: p2_def l1)
  have l3: "length p3 = 46 + length sid" by (simp add: p3_def l2)
  have l4: "length p4 = 46 + length sid + length suites" by (simp add: p4_def l3)
  have l5: "length p5 = 47 + length sid + length suites + length cmps" by (simp add: p5_def l4)
  have l6: "length p6 = 49 + length sid + length suites + length cmps" by (simp add: p6_def l5)
  have u: "unat (of_nat (length sid) :: u8) = length sid" "unat (of_nat (length suites) :: u16) = length suites"
      "unat (of_nat (length cmps) :: u8) = length cmps" "unat (of_nat (length ?E) :: u16) = length ?E"
    using assms by (simp_all add: unat_of_nat)
  have c1: "ch = p1 @ [of_nat (length sid)] @ (sid @ drop (length p2) ch)"
    by (simp add: ch p6_def p5_def p4_def p3_def p2_def)
  have c2: "ch = p2 @ be16 (of_nat (length suites)) @ drop (length p3) ch"
    by (simp add: ch p6_def p5_def p4_def p3_def)
  have c3: "ch = p3 @ suites @ drop (length p4) ch" by (simp add: ch p6_def p5_def p4_def)
  have c4: "ch = p4 @ [of_nat (length cmps)] @ (cmps @ drop (length p5) ch)" by (simp add: ch p6_def p5_def)
  have c5: "ch = p5 @ be16 (of_nat (length ?E)) @ drop (length p6) ch" by (simp add: ch p6_def)
  have 1: "at8 ch 43 = Some (of_nat (length sid))" by (subst c1) (rule at8_at [OF l1 [symmetric]])
  have 2: "at16 ch (44 + length sid) = Some (of_nat (length suites))" by (subst c2) (rule at16_be16' [OF l2 [symmetric]])
  have 3: "at16s ch (46 + length sid) ((length suites + 1) div 2) = Some (pairs16 (length suites) suites)"
  proof -
    have "(length suites + 1) div 2 = length suites div 2" using assms(4) by auto
    then show ?thesis by (subst c3) (simp add: l3 [symmetric] at16s_pairs assms(4))
  qed
  have 4: "at8 ch (46 + length sid + length suites) = Some (of_nat (length cmps))"
    by (subst c4) (rule at8_at [OF l4 [symmetric]])
  have 5: "at16 ch (47 + length sid + length suites + length cmps) = Some (of_nat (length ?E))"
    by (subst c5) (rule at16_be16' [OF l5 [symmetric]])
  have 6: "ja4_loop ch (49 + length sid + length suites + length cmps + length ?E) (49 + length sid + length suites + length cmps)
      ja4_start = Some (fold ja4_ext es ja4_start)"
    unfolding ch l6 [symmetric] by (rule ja4_loop_exts [OF assms(7)])
  show ?thesis unfolding ch_def [symmetric] ja4_of_def
    using 2 3 4 5 6 by (simp add: ja4_def 1 Let_def u add.assoc)
qed

text \<open>Only the type of a server name counts.\<close>

lemma ja4_sni_body: "ja4_ext (0, x) = ja4_ext (0, y)"
  by (simp add: ja4_ext_def fun_eq_iff)

text \<open>A replayed template has the JA4 fingerprint of the greeting it was captured from
(\<open>build_from_template\<close>, tls_raw.rs): whatever name, token and random are put in, the patched record and
the template have the same fingerprint.\<close>
theorem template_keeps_ja4:
  assumes "length rnd0 = 32" "length sid0 = 32" "length rnd = 32" "length sid = 32"
    and "even (length suites)" "length suites < 65536" "length cmps < 256" "length vs = 2"
    and "\<forall>e\<in>set (es1 @ es2). length (snd e) < 65536" "\<forall>e\<in>set es1. fst e \<noteq> 0" "length old < 65536"
    and "msg0 = client_hello ([1] @ be24 (of_nat (length msg0 - 4)) @ vs) rnd0 sid0 suites cmps (es1 @ (0, old) # es2)"
    and "msg1 = client_hello ([1] @ be24 (of_nat (length msg1 - 4)) @ vs) rnd sid suites cmps (es1 @ sni_ext h # es2)"
    and "length msg0 < 65536" "length msg1 < 65536"
  shows "\<exists>out. build_from_template ([0x16, a, b] @ be16 (of_nat (length msg0)) @ msg0 @ trail) (bytes_of h) sid rnd = Some out
    \<and> ja4 sha out = ja4 sha ([0x16, a, b] @ be16 (of_nat (length msg0)) @ msg0 @ trail)
    \<and> ja4 sha out \<noteq> None"
proof -
  have es1: "\<forall>(t, b)\<in>set es1. t \<noteq> 0 \<and> length b < 65536" using assms(9,10) by (simp add: case_prod_unfold)
  note patched = template_patched [OF assms(1-4,6-8) es1 assms(11-15), of a b trail]
  have h6: "length ([1] @ be24 x @ vs) = 6" for x using assms(8) by simp
  have lens: "length (concat (map enc_ext (es1 @ (0, old) # es2))) < 65536"
      "length (concat (map enc_ext (es1 @ sni_ext h # es2))) < 65536"
    using arg_cong [OF assms(12), of length] arg_cong [OF assms(13), of length] assms(14,15)
    by (simp_all add: client_hello_def)
  then have sni: "length (snd (sni_ext h)) < 65536" by (simp add: enc_ext_def)
  have "ja4 sha ([0x16, a, b] @ be16 n @ msg0 @ trail) = Some (ja4_of sha suites (es1 @ (0, old) # es2))" for n
    by (subst assms(12)) (rule ja4_hello [OF h6 assms(1) _ assms(5-7)], use assms(2,9,11) lens in auto)
  moreover have "ja4 sha ([0x16, a, b] @ be16 n @ msg1 @ trail) = Some (ja4_of sha suites (es1 @ sni_ext h # es2))" for n
    by (subst assms(13)) (rule ja4_hello [OF h6 assms(3) _ assms(5-7)], use assms(4,9) sni lens in auto)
  moreover have "ja4_of sha suites (es1 @ sni_ext h # es2) = ja4_of sha suites (es1 @ (0, old) # es2)"
    using ja4_sni_body [of "snd (sni_ext h)" old] by (simp add: ja4_of_def sni_ext_def)
  ultimately show ?thesis using patched by simp
qed

subsection \<open>The fingerprints of the three profiles\<close>

definition kept :: "(u16 \<times> bytes) list \<Rightarrow> (u16 \<times> bytes) list" where
  "kept es = filter (\<lambda>e. \<not> is_grease_val (fst e)) es"

definition of_type :: "u16 \<Rightarrow> (u16 \<times> bytes) list \<Rightarrow> (u16 \<times> bytes) list" where
  "of_type t es = filter (\<lambda>e. fst e = t) es"

lemma not_grease [simp]: "\<not> is_grease_val 0" "\<not> is_grease_val 0x10" "\<not> is_grease_val 0x2b" "\<not> is_grease_val 0xd"
  by (simp_all add: is_grease_val_def)

lemma ja4_ext_exts: "ja_exts (ja4_ext e st) = ja_exts st @ map fst (kept [e])"
  by (simp add: ja4_ext_def kept_def Let_def split: prod.split)

lemma ja4_ext_sni: "ja_sni (ja4_ext e st) = (ja_sni st \<or> fst e = 0)"
  by (auto simp: ja4_ext_def Let_def split: prod.split)

lemma ja4_ext_other:
  "fst e \<noteq> 0x10 \<Longrightarrow> ja_alpn (ja4_ext e st) = ja_alpn st"
  "fst e \<noteq> 0xd \<Longrightarrow> ja_sigalgs (ja4_ext e st) = ja_sigalgs st"
  "fst e \<noteq> 0x2b \<Longrightarrow> ja_ver (ja4_ext e st) = ja_ver st"
  by (auto simp: ja4_ext_def Let_def split: prod.split)

lemma ja4_ext_cong:
  "ja_alpn st = ja_alpn st' \<Longrightarrow> ja_alpn (ja4_ext e st) = ja_alpn (ja4_ext e st')"
  "ja_sigalgs st = ja_sigalgs st' \<Longrightarrow> ja_sigalgs (ja4_ext e st) = ja_sigalgs (ja4_ext e st')"
  "ja_ver st = ja_ver st' \<Longrightarrow> ja_ver (ja4_ext e st) = ja_ver (ja4_ext e st')"
  by (auto simp: ja4_ext_def Let_def split: prod.split)

text \<open>The state depends on the order of the extensions only where two have the same type.\<close>

lemma ja4_fold_exts: "ja_exts (fold ja4_ext es st) = ja_exts st @ map fst (kept es)"
  by (induction es arbitrary: st) (simp_all add: ja4_ext_exts kept_def)

lemma ja4_fold_sni: "ja_sni (fold ja4_ext es st) = (ja_sni st \<or> of_type 0 es \<noteq> [])"
  by (induction es arbitrary: st) (auto simp: ja4_ext_sni of_type_def)

lemma ja4_fold_alpn:
  "ja_alpn st = ja_alpn st' \<Longrightarrow> ja_alpn (fold ja4_ext es st) = ja_alpn (fold ja4_ext (of_type 0x10 es) st')"
proof (induction es arbitrary: st st')
  case (Cons e es)
  then show ?case using ja4_ext_other(1) [of e st] ja4_ext_cong(1) [OF Cons.prems, of e]
    by (cases "fst e = 0x10") (simp_all add: of_type_def)
qed (simp add: of_type_def)

lemma ja4_fold_sigalgs:
  "ja_sigalgs st = ja_sigalgs st' \<Longrightarrow> ja_sigalgs (fold ja4_ext es st) = ja_sigalgs (fold ja4_ext (of_type 0xd es) st')"
proof (induction es arbitrary: st st')
  case (Cons e es)
  then show ?case using ja4_ext_other(2) [of e st] ja4_ext_cong(2) [OF Cons.prems, of e]
    by (cases "fst e = 0xd") (simp_all add: of_type_def)
qed (simp add: of_type_def)

lemma ja4_fold_ver:
  "ja_ver st = ja_ver st' \<Longrightarrow> ja_ver (fold ja4_ext es st) = ja_ver (fold ja4_ext (of_type 0x2b es) st')"
proof (induction es arbitrary: st st')
  case (Cons e es)
  then show ?case using ja4_ext_other(3) [of e st] ja4_ext_cong(3) [OF Cons.prems, of e]
    by (cases "fst e = 0x2b") (simp_all add: of_type_def)
qed (simp add: of_type_def)

lemma of_type_single:
  assumes "mset es = mset es'" "distinct (map fst es')" "(t, b) \<in> set es'"
  shows "of_type t es = [(t, b)]"
proof -
  have "mset (of_type t es) = mset (of_type t es')" using assms(1) by (simp add: of_type_def)
  moreover have "of_type t es' = [(t, b)]" using assms(2,3)
    unfolding of_type_def by (induction es') (auto simp: filter_empty_conv image_iff)
  ultimately show ?thesis by simp
qed

text \<open>What a greeting shows when its extensions have different types.\<close>

lemma ja4_of_distinct:
  assumes "mset (kept es) = mset es'" "distinct (map fst es')"
    and "(0, n) \<in> set es'" "(0x10, al) \<in> set es'" "(0xd, sg) \<in> set es'" "(0x2b, sv) \<in> set es'"
  shows "ja4_of sha suites es = ja4_print sha (filter (\<lambda>c. \<not> is_grease_val c) (pairs16 (length suites) suites))
    \<lparr>ja_exts = map fst es', ja_sni = True, ja_alpn = ja_alpn (ja4_ext (0x10, al) ja4_start),
     ja_sigalgs = ja_sigalgs (ja4_ext (0xd, sg) ja4_start), ja_ver = ja_ver (ja4_ext (0x2b, sv) ja4_start)\<rparr>"
proof -
  have t: "of_type t es = of_type t (kept es)" if "\<not> is_grease_val t" for t
    using that unfolding of_type_def kept_def filter_filter by (intro filter_cong) auto
  note single = of_type_single [OF assms(1,2)]
  define st where "st = fold ja4_ext es ja4_start"
  have "ja_sni st" using single [OF assms(3)] t [of 0] by (simp add: st_def ja4_fold_sni)
  moreover have "ja_alpn st = ja_alpn (ja4_ext (0x10, al) ja4_start)"
    using single [OF assms(4)] t [of "0x10"] by (simp add: st_def ja4_fold_alpn [OF refl])
  moreover have "ja_sigalgs st = ja_sigalgs (ja4_ext (0xd, sg) ja4_start)"
    using single [OF assms(5)] t [of "0xd"] by (simp add: st_def ja4_fold_sigalgs [OF refl])
  moreover have "ja_ver st = ja_ver (ja4_ext (0x2b, sv) ja4_start)"
    using single [OF assms(6)] t [of "0x2b"] by (simp add: st_def ja4_fold_ver [OF refl])
  moreover have "mset (ja_exts st) = mset (map fst es')"
    using arg_cong [OF assms(1), of "image_mset fst"] by (simp add: st_def ja4_fold_exts ja4_start_def)
  moreover have "sort (filter P (ja_exts st)) = sort (filter P (map fst es'))" if "mset (ja_exts st) = mset (map fst es')" for P
    unfolding sorted_list_of_multiset_mset [symmetric] mset_filter that ..
  moreover have "length (ja_exts st) = length (map fst es')" if "mset (ja_exts st) = mset (map fst es')"
    by (rule mset_eq_length [OF that])
  ultimately show ?thesis unfolding ja4_of_def st_def [symmetric] by (simp add: ja4_print_def del: mset_map length_map)
qed

definition list_pair :: "u16 \<Rightarrow> bytes \<Rightarrow> u16 \<times> bytes" where
  "list_pair t l = (t, be16 (of_nat (length l)) @ l)"

definition chromium_pairs :: "chromium_draws \<Rightarrow> string \<Rightarrow> (u16 \<times> bytes) list" where
  "chromium_pairs d h =
     [(0x002b, [6] @ be16 (get_grease (cd_sv d)) @ be16 0x0304 @ be16 0x0303),
      (0xfe0d, ech_body 0x0001 (cd_cid d) (cd_enc d) 208 (cd_payload d)),
      (0x000b, ec_point_formats),
      (0x0017, []),
      list_pair 0x000a (be16 (get_grease (cd_groups d)) @ be16s chromium_groups),
      (0x002d, psk_modes),
      (0x0023, []),
      (0xff01, [0x00]),
      (0x0010, alpn),
      (0x0005, status_request),
      (0x0012, []),
      sni_ext h,
      (0x44cd, alps),
      (0x000d, sigalgs),
      list_pair 0x0033 (be16 (get_grease (cd_ks d)) @ be16 1 @ [0x00] @ be16 0x11EC @ be16 (of_nat hybrid_keyshare_len)
        @ mlkem768_valid_encap_key (cd_coeffs d) (cd_rho d) @ cd_x_hybrid d @ be16 0x001D @ be16 32 @ cd_x25519 d),
      (0x001b, cert_compress)]"

lemma list_ext_pair: "list_ext t l = enc_ext (list_pair t l)"
  by (simp add: list_ext_def list_pair_def ext_enc)

lemma chromium_middle_pairs: "chromium_middle d (bytes_of h) = map enc_ext (chromium_pairs d h)"
  by (simp add: chromium_middle_def chromium_pairs_def server_name_ext_enc supported_versions_ext_def ech_grease_ext_def
      supported_groups_ext_def key_share_ext_def list_ext_pair ext_enc)

lemma get_grease_grease: "i < 16 \<Longrightarrow> is_grease_val (get_grease i)"
proof -
  assume "i < 16"
  then have "get_grease i \<in> set grease_values"
    unfolding get_grease_def by (intro nth_mem) (simp add: grease_values_def)
  then show ?thesis by (auto simp: grease_values_def is_grease_val_def)
qed

lemma assembled_ja4:
  assumes "length rnd = 32" "length sid = 32" "even (length suites)" "length suites < 1000"
    and "\<forall>e\<in>set es. length (snd e) < 65536" "length (concat (map enc_ext es)) < 64000"
  shows "ja4 sha (assemble sid rnd suites (concat (map enc_ext es))) = Some (ja4_of sha suites es)"
proof -
  have h: "ja4 sha ([0x16, 3, 1] @ be16 n @ client_hello ([1] @ be24 x @ [3, 3]) rnd sid suites [0] es)
      = Some (ja4_of sha suites es)" for x n
    using ja4_hello [of "[1] @ be24 x @ [3, 3]" rnd sid suites "[0]" es sha 3 1 n "[]"] assms by simp
  show ?thesis by (subst assemble_hello [OF refl refl]) (rule h)
qed

lemma pairs16_be16s: "pairs16 (length (be16s ws)) (be16s ws) = ws"
  by (induction ws) (simp_all add: be16s_def be16_def of_be16_be16)

text \<open>What the sorted lists print to.\<close>

definition chromium_ja4 :: "(bytes \<Rightarrow> bytes) \<Rightarrow> string" where
  "chromium_ja4 sha =
     ''t13d1516h2_'' @ h12 sha ''002f,0035,009c,009d,1301,1302,1303,c013,c014,c02b,c02c,c02f,c030,cca8,cca9''
     @ ''_'' @ h12 sha (''0005,000a,000b,000d,0012,0017,001b,0023,002b,002d,0033,44cd,fe0d,ff01''
       @ ''_0904,0905,0906,0403,0804,0401,0503,0805,0501,0806,0601'')"

lemma pairs16_exact: "pairs16 n [] = []"
  by (cases n) simp_all

lemma alpn_h2: "ja_alpn (ja4_ext (0x10, alpn) ja4_start) = Some ''h2''"
proof -
  have "utf8_lossy ''h2'' = ''h2''" by (rule utf8_lossy_ascii) simp
  then show ?thesis by (simp add: ja4_ext_def alpn_def bytes_of_def chr_of_byte_of)
qed

lemma raise_versions: "is_grease_val g \<Longrightarrow> raise_ver g v = v" "raise_ver 0x0304 0x0303 = 0x0304" "raise_ver 0x0303 0x0304 = 0x0304"
  by (simp_all add: raise_ver_def is_grease_val_def)

lemma pairs16_be16: "2 \<le> n \<Longrightarrow> pairs16 n (be16 w @ r) = w # pairs16 (n - 2) r"
  by (simp add: be16_def of_be16_be16)

lemma chromium_ver:
  assumes "is_grease_val g"
  shows "ja_ver (ja4_ext (0x002b, [6] @ be16 g @ be16 0x0304 @ be16 0x0303) ja4_start) = 0x0304"
  using assms pairs16_be16 [of 2 "0x0303" "[]"]
  by (simp add: ja4_ext_def pairs16_be16 pairs16_exact raise_versions ja4_start_def)

lemma chromium_sigalgs:
  "map hex4 (ja_sigalgs (ja4_ext (0xd, sigalgs) ja4_start))
     = [''0904'', ''0905'', ''0906'', ''0403'', ''0804'', ''0401'', ''0503'', ''0805'', ''0501'', ''0806'', ''0601'']"
  by (simp add: ja4_ext_def sigalgs_def ja4_start_def of_be16_def hex4_def hex_digit_def)

lemma chromium_pairs_facts:
  "distinct (map fst (chromium_pairs d h))" "\<forall>e\<in>set (chromium_pairs d h). \<not> is_grease_val (fst e)"
  by (simp_all add: chromium_pairs_def list_pair_def sni_ext_def is_grease_val_def)

lemma chromium_print:
  "ja4_print sha chromium_ciphers
     \<lparr>ja_exts = map fst (chromium_pairs d h), ja_sni = True, ja_alpn = Some ''h2'',
      ja_sigalgs = ja_sigalgs (ja4_ext (0xd, sigalgs) ja4_start), ja_ver = 0x0304\<rparr> = chromium_ja4 sha"
proof -
  have c: "map hex4 (sort chromium_ciphers) = [''002f'', ''0035'', ''009c'', ''009d'', ''1301'', ''1302'', ''1303'',
      ''c013'', ''c014'', ''c02b'', ''c02c'', ''c02f'', ''c030'', ''cca8'', ''cca9'']"
    by (simp add: chromium_ciphers_def hex4_def hex_digit_def)
  have e: "map hex4 (sort (filter (\<lambda>e. e \<noteq> 0 \<and> e \<noteq> 0x10) (map fst (chromium_pairs d h))))
      = [''0005'', ''000a'', ''000b'', ''000d'', ''0012'', ''0017'', ''001b'', ''0023'', ''002b'', ''002d'', ''0033'',
         ''44cd'', ''fe0d'', ''ff01'']"
    by (simp add: chromium_pairs_def list_pair_def sni_ext_def hex4_def hex_digit_def)
  have p: "push_latin1 (byte_of CHR ''h'') = ''h''" "push_latin1 (byte_of CHR ''2'') = ''2''"
    by (rule push_latin1_ascii, simp)+
  have l: "length (map fst (chromium_pairs d h)) = 16" "length chromium_ciphers = 15"
    by (simp_all add: chromium_pairs_def chromium_ciphers_def)
  have n: "two_digits 15 = ''15''" "two_digits 16 = ''16''" by code_simp+
  show ?thesis
    unfolding ja4_print_def chromium_ja4_def Let_def ja4_state.simps l
    by (simp add: c e chromium_sigalgs ja4_ver_def ja4_alpn_def p n)
qed

lemma chromium_fingerprint:
  assumes "chromium_draws_ok d" "grease_ok [cd_cipher d, cd_sv d]" "length rnd = 32" "length sid = 32" "length h < 60000"
    and "build_chromium d (bytes_of h) sid rnd = Some r"
  shows "ja4 sha r = Some (chromium_ja4 sha)"
proof -
  define ps where "ps = shuffle (cd_shuffle d) (chromium_pairs d h)"
  define suites where "suites = be16s (get_grease (cd_cipher d) # chromium_ciphers)"
  have len: "length (chromium_pairs d h) = 16" by (simp add: chromium_pairs_def)
  have sh: "shuffle_draws (length (chromium_pairs d h)) (cd_shuffle d)"
    using assms(1) by (simp add: chromium_draws_ok_def len)
  have mid: "shuffle (cd_shuffle d) (chromium_middle d (bytes_of h)) = map enc_ext ps"
    unfolding chromium_middle_pairs ps_def by (rule shuffle_spec(2) [OF sh, symmetric])
  have ms: "mset ps = mset (chromium_pairs d h)" unfolding ps_def by (rule shuffle_spec(1) [OF sh])
  obtain g where g: "other_grease (get_grease (cd_first d)) (cd_last d) = Some g"
      "r = assemble sid rnd suites (concat (map enc_ext ((get_grease (cd_first d), []) # ps @ [(g, [0x00])])))"
    using assms(6) by (auto simp: build_chromium_def Let_def mid suites_def be16s_def ext_enc split: option.splits)
  let ?es = "(get_grease (cd_first d), []) # ps @ [(g, [0x00])]"
  have gr: "is_grease_val (get_grease (cd_first d))" "is_grease_val (get_grease (cd_cipher d))"
      "is_grease_val (get_grease (cd_sv d))"
    using assms(1,2) by (auto simp: chromium_draws_ok_def grease_ok_def get_grease_grease)
  have gl: "is_grease_val g"
    using g(1) assms(1) by (auto simp: other_grease_def find_Some_iff chromium_draws_ok_def grease_ok_def list_all_length
        get_grease_grease)
  have "set ps = set (chromium_pairs d h)" using ms by (rule mset_eq_setD)
  with chromium_pairs_facts(2) have k: "kept ?es = ps"
    using gr(1) gl by (simp add: kept_def filter_id_conv)
  have small: "\<forall>e\<in>set ?es. length (snd e) < 65536" "length (concat (map enc_ext ?es)) < 64000"
  proof -
    have all: "\<forall>e\<in>set (chromium_pairs d h). length (snd e) < 65536"
      and tot: "length (concat (map enc_ext (chromium_pairs d h))) < 2000 + length h"
      using assms(1,5) chromium_middle_facts(4) [OF assms(1), of h, unfolded chromium_middle_pairs]
      by (simp_all add: chromium_pairs_def list_pair_def sni_ext_def chromium_draws_ok_def hello_consts)
    from all \<open>set ps = _\<close> show "\<forall>e\<in>set ?es. length (snd e) < 65536" by simp
    have "length (concat (map enc_ext ps)) = length (concat (map enc_ext (chromium_pairs d h)))"
      by (rule length_concat_mset) (simp add: ms)
    with tot assms(5) show "length (concat (map enc_ext ?es)) < 64000" by (simp add: enc_ext_def)
  qed
  have suites: "filter (\<lambda>c. \<not> is_grease_val c) (pairs16 (length suites) suites) = chromium_ciphers"
    unfolding suites_def pairs16_be16s using gr(2) by (simp add: chromium_ciphers_def is_grease_val_def)
  have "ja4 sha r = Some (ja4_of sha suites ?es)" unfolding g(2)
    by (rule assembled_ja4 [OF assms(3,4) _ _ small]) (simp_all add: suites_def chromium_ciphers_def)
  also have "ja4_of sha suites ?es = chromium_ja4 sha"
    by (subst ja4_of_distinct [OF _ chromium_pairs_facts(1), where n = "snd (sni_ext h)" and al = alpn and sg = sigalgs
          and sv = "[6] @ be16 (get_grease (cd_sv d)) @ be16 0x0304 @ be16 0x0303"])
      (use k ms in \<open>simp_all add: suites chromium_print alpn_h2 chromium_ver [OF gr(3), simplified],
        simp_all add: chromium_pairs_def sni_ext_def\<close>)
  finally show ?thesis .
qed

definition firefox_pairs :: "firefox_draws \<Rightarrow> string \<Rightarrow> (u16 \<times> bytes) list" where
  "firefox_pairs d h =
     [sni_ext h,
      (0x0017, []),
      (0xff01, [0x00]),
      list_pair 0x000a (be16s firefox_groups),
      (0x000b, ec_point_formats),
      (0x0023, []),
      (0x0010, alpn),
      (0x0005, status_request),
      (0x0022, firefox_deleg_creds),
      (0x0012, []),
      list_pair 0x0033 (be16 0x11EC @ be16 (of_nat hybrid_keyshare_len) @ mlkem768_valid_encap_key (fd_coeffs d) (fd_rho d)
        @ fd_x_hybrid d @ be16 0x001D @ be16 32 @ fd_x25519 d @ be16 0x0017 @ be16 65 @ (fd_point d)[0 := 0x04]),
      (0x002b, [0x04, 0x03, 0x04, 0x03, 0x03]),
      (0x000d, firefox_sigalgs),
      (0x002d, psk_modes),
      (0x001c, [0x40, 0x01]),
      (0x001b, firefox_cert_compress),
      (0xfe0d, ech_body (if fd_coin d then 0x0001 else 0x0003) (fd_cid d) (fd_enc d) 239 (fd_payload d))]"

lemma build_firefox_pairs:
  "build_firefox d (bytes_of h) sid rnd =
     assemble sid rnd (be16s firefox_ciphers) (concat (map enc_ext (firefox_pairs d h)))"
  by (simp add: build_firefox_def Let_def firefox_pairs_def server_name_ext_enc ff_supported_groups_ext_def
      ff_key_share_ext_def ff_supported_versions_ext_def ff_ech_ext_def list_ext_pair ext_enc)

definition firefox_ja4 :: "(bytes \<Rightarrow> bytes) \<Rightarrow> string" where
  "firefox_ja4 sha =
     ''t13d1617h2_'' @ h12 sha ''002f,0035,009c,009d,1301,1302,1303,c00a,c013,c014,c02b,c02c,c02f,c030,cca8,cca9''
     @ ''_'' @ h12 sha (''0005,000a,000b,000d,0012,0017,001b,001c,0022,0023,002b,002d,0033,fe0d,ff01''
       @ ''_0403,0503,0603,0804,0805,0806,0401,0501,0601,0203,0201'')"

lemma firefox_pairs_facts:
  "distinct (map fst (firefox_pairs d h))" "kept (firefox_pairs d h) = firefox_pairs d h"
  by (simp_all add: firefox_pairs_def list_pair_def sni_ext_def is_grease_val_def kept_def)

lemma firefox_sigalg_list:
  "map hex4 (ja_sigalgs (ja4_ext (0xd, firefox_sigalgs) ja4_start))
     = [''0403'', ''0503'', ''0603'', ''0804'', ''0805'', ''0806'', ''0401'', ''0501'', ''0601'', ''0203'', ''0201'']"
  by (simp add: ja4_ext_def firefox_sigalgs_def ja4_start_def of_be16_def hex4_def hex_digit_def)

lemma firefox_ver: "ja_ver (ja4_ext (0x002b, [0x04, 0x03, 0x04, 0x03, 0x03]) ja4_start) = 0x0304"
  by (simp add: ja4_ext_def ja4_start_def of_be16_def raise_ver_def is_grease_val_def)

lemma firefox_print:
  "ja4_print sha firefox_ciphers
     \<lparr>ja_exts = map fst (firefox_pairs d h), ja_sni = True, ja_alpn = Some ''h2'',
      ja_sigalgs = ja_sigalgs (ja4_ext (0xd, firefox_sigalgs) ja4_start), ja_ver = 0x0304\<rparr> = firefox_ja4 sha"
proof -
  have c: "map hex4 (sort firefox_ciphers) = [''002f'', ''0035'', ''009c'', ''009d'', ''1301'', ''1302'', ''1303'',
      ''c00a'', ''c013'', ''c014'', ''c02b'', ''c02c'', ''c02f'', ''c030'', ''cca8'', ''cca9'']"
    by (simp add: firefox_ciphers_def hex4_def hex_digit_def)
  have e: "map hex4 (sort (filter (\<lambda>e. e \<noteq> 0 \<and> e \<noteq> 0x10) (map fst (firefox_pairs d h))))
      = [''0005'', ''000a'', ''000b'', ''000d'', ''0012'', ''0017'', ''001b'', ''001c'', ''0022'', ''0023'', ''002b'',
         ''002d'', ''0033'', ''fe0d'', ''ff01'']"
    by (simp add: firefox_pairs_def list_pair_def sni_ext_def hex4_def hex_digit_def)
  have p: "push_latin1 (byte_of CHR ''h'') = ''h''" "push_latin1 (byte_of CHR ''2'') = ''2''"
    by (rule push_latin1_ascii, simp)+
  have l: "length (map fst (firefox_pairs d h)) = 17" "length firefox_ciphers = 16"
    by (simp_all add: firefox_pairs_def firefox_ciphers_def)
  have n: "two_digits 16 = ''16''" "two_digits 17 = ''17''" by code_simp+
  show ?thesis
    unfolding ja4_print_def firefox_ja4_def Let_def ja4_state.simps l
    by (simp add: c e firefox_sigalg_list ja4_ver_def ja4_alpn_def p n)
qed

lemma firefox_fingerprint:
  assumes "firefox_draws_ok d" "length rnd = 32" "length sid = 32" "length h < 60000"
  shows "ja4 sha (build_firefox d (bytes_of h) sid rnd) = Some (firefox_ja4 sha)"
proof -
  have small: "\<forall>e\<in>set (firefox_pairs d h). length (snd e) < 65536" "length (concat (map enc_ext (firefox_pairs d h))) < 64000"
    using assms(1,4) by (simp_all add: firefox_pairs_def list_pair_def sni_ext_def firefox_draws_ok_def hello_consts enc_ext_def)
  have c: "filter (\<lambda>c. \<not> is_grease_val c) firefox_ciphers = firefox_ciphers"
    by (simp add: firefox_ciphers_def is_grease_val_def)
  have "ja4_of sha (be16s firefox_ciphers) (firefox_pairs d h) = firefox_ja4 sha"
    by (subst ja4_of_distinct [OF _ firefox_pairs_facts(1), where n = "snd (sni_ext h)" and al = alpn and sg = firefox_sigalgs
          and sv = "[0x04, 0x03, 0x04, 0x03, 0x03]"])
      (simp_all add: firefox_pairs_facts(2) pairs16_be16s [simplified] c firefox_print alpn_h2 firefox_ver,
        simp_all add: firefox_pairs_def sni_ext_def)
  then show ?thesis unfolding build_firefox_pairs
    by (subst assembled_ja4 [OF assms(2,3) _ _ small]) (simp_all add: firefox_ciphers_def)
qed

text \<open>C33. The imitated greetings have one JA4 fingerprint for each browser (\<open>build_chromium\<close>,
\<open>build_firefox\<close>, tls_raw.rs): whatever values are drawn for GREASE, keys and padding, in whatever order the
extensions are shuffled, and whatever name, token and random they carry, every Chromium greeting has the
first fingerprint below and every Firefox greeting the second.\<close>
theorem browsers_keep_their_ja4:
  assumes "chromium_draws_ok cd" "grease_ok [cd_cipher cd, cd_sv cd]" "firefox_draws_ok fd"
    and "length rnd = 32" "length sid = 32" "length h < 60000" "build_chromium cd (bytes_of h) sid rnd = Some r"
  shows "ja4 sha r = Some (''t13d1516h2_''
           @ h12 sha ''002f,0035,009c,009d,1301,1302,1303,c013,c014,c02b,c02c,c02f,c030,cca8,cca9'' @ ''_''
           @ h12 sha (''0005,000a,000b,000d,0012,0017,001b,0023,002b,002d,0033,44cd,fe0d,ff01''
             @ ''_0904,0905,0906,0403,0804,0401,0503,0805,0501,0806,0601''))
    \<and> ja4 sha (build_firefox fd (bytes_of h) sid rnd) = Some (''t13d1617h2_''
           @ h12 sha ''002f,0035,009c,009d,1301,1302,1303,c00a,c013,c014,c02b,c02c,c02f,c030,cca8,cca9'' @ ''_''
           @ h12 sha (''0005,000a,000b,000d,0012,0017,001b,001c,0022,0023,002b,002d,0033,fe0d,ff01''
             @ ''_0403,0503,0603,0804,0805,0806,0401,0501,0601,0203,0201''))"
  using chromium_fingerprint [OF assms(1,2,4-7)] firefox_fingerprint [OF assms(3-6)]
  unfolding chromium_ja4_def firefox_ja4_def by blast

theorem browsers_keep_their_ja4_witness:
  "map_option (take 10) (ja4 (\<lambda>b. take 6 b)
     (build_firefox (hd_firefox demo_hello_draws) (bytes_of ''a.cn'') (replicate 32 9) (replicate 32 1))) = Some ''t13d1617h2''"
proof -
  let ?d = "hd_chromium demo_hello_draws"
  have ok: "chromium_draws_ok ?d" "firefox_draws_ok (hd_firefox demo_hello_draws)"
    using demo_hello_draws_ok by (simp_all add: hello_draws_ok_def)
  have g: "grease_ok [cd_cipher ?d, cd_sv ?d]" by (simp add: demo_hello_draws_def grease_ok_def)
  have "other_grease (get_grease (cd_first ?d)) (cd_last ?d) = Some (get_grease 6)"
    by (simp add: demo_hello_draws_def other_grease_def get_grease_def grease_values_def)
  then obtain r where "build_chromium ?d (bytes_of ''a.cn'') (replicate 32 9) (replicate 32 1) = Some r"
    unfolding build_chromium_def Let_def by simp
  from browsers_keep_their_ja4 [OF ok(1) g ok(2) _ _ _ this, of "\<lambda>b. take 6 b"] show ?thesis by simp
qed

theorem template_keeps_ja4_witness:
  "ja4 (\<lambda>b. b) (the (build_from_template ([0x16, 3, 1] @ be16 93
       @ client_hello ([1] @ be24 89 @ [3, 3]) (replicate 32 1) (replicate 32 2) [0x13, 1] [0] [(10, [0]), (0, [1, 2, 3, 4, 5])] @ [7])
     (bytes_of ''b.cn'') (replicate 32 4) (replicate 32 3))) \<noteq> None"
proof -
  define m0 where "m0 = client_hello ([1] @ be24 89 @ [3, 3]) (replicate 32 1) (replicate 32 2) [0x13, 1] [0]
    ([(10, [0])] @ (0, [1, 2, 3, 4, 5]) # [])"
  define m1 where "m1 = client_hello ([1] @ be24 93 @ [3, 3]) (replicate 32 3) (replicate 32 4) [0x13, 1] [0]
    ([(10, [0])] @ sni_ext ''b.cn'' # [])"
  have l: "length m0 = 93" "length m1 = 97"
    by (simp_all add: m0_def m1_def client_hello_def enc_ext_def sni_ext_def)
  have "\<exists>out. build_from_template ([0x16, 3, 1] @ be16 (of_nat (length m0)) @ m0 @ [7]) (bytes_of ''b.cn'')
        (replicate 32 4) (replicate 32 3) = Some out
      \<and> ja4 (\<lambda>b. b) out = ja4 (\<lambda>b. b) ([0x16, 3, 1] @ be16 (of_nat (length m0)) @ m0 @ [7]) \<and> ja4 (\<lambda>b. b) out \<noteq> None"
    by (rule template_keeps_ja4 [where ?rnd0.0 = "replicate 32 1" and ?sid0.0 = "replicate 32 2"
        and suites = "[0x13, 1]" and cmps = "[0]" and vs = "[3, 3]" and ?es1.0 = "[(10, [0])]"
        and old = "[1, 2, 3, 4, 5]" and ?es2.0 = "[]" and ?msg1.0 = m1])
      (simp_all add: l, simp_all add: m0_def m1_def)
  then obtain r where "build_from_template ([0x16, 3, 1] @ be16 (of_nat (length m0)) @ m0 @ [7]) (bytes_of ''b.cn'')
      (replicate 32 4) (replicate 32 3) = Some r" "ja4 (\<lambda>b. b) r \<noteq> None" by blast
  then show ?thesis by (simp add: l) (simp add: m0_def)
qed

end
