(* ===== verification/Dial.thy ===== *)
theory Dial
  imports Handshake Outbound Packets TcpRelay
begin

text \<open>How the sockets of tunnels are made: \<open>handshake_over_tcp\<close> and \<open>handshake_over_underlying\<close> of
\<open>proxy/pool.rs\<close>, the dialling of the camouflage site in \<open>crypto/handshake_cache.rs\<close>, the congestion
control of \<open>proxy/brutal.rs\<close> and the descriptors \<open>proxy/tunnel.rs\<close> gives access to. The calls made to the
system are the result; what the system answers is the argument \<open>net_env\<close>.\<close>

subsection \<open>Calls to the system\<close>

datatype sock_call =
  OpenSock nat sock_addr
| KeepAlive nat
| SockOpt nat string nat
| Protected nat
| Congestion nat string
| BrutalParams nat u64 u32 "u64 option"
| ConnectTo nat sock_addr

datatype connect_answer = Answers | Refuses string | KeepsSilent

record net_env =
  ne_lookup :: "string \<Rightarrow> (string, sock_addr list) result"
  ne_open :: "sock_addr \<Rightarrow> (string, nat) result"
  ne_connect :: "sock_addr \<Rightarrow> connect_answer"
  ne_brutal :: "nat \<Rightarrow> bool"
  ne_nodelay :: "sock_addr \<Rightarrow> (string, unit) result"

datatype dial_error =
  LookupFailed string | SocketFailed string | ConnectFailed string | ConnectTimedOut | NoAddress | NoDelayFailed string

definition is_v4 :: "sock_addr \<Rightarrow> bool" where
  "is_v4 a = (case fst a of V4 _ \<Rightarrow> True | V6 _ \<Rightarrow> False)"

subsection \<open>Congestion control\<close>

definition cwnd_gain_x10 :: u32 where "cwnd_gain_x10 = 15"

definition apply_brutal :: "(nat \<Rightarrow> bool) \<Rightarrow> nat \<Rightarrow> u64 \<Rightarrow> sock_call list" where
  "apply_brutal accepted fd rate =
     (if accepted fd then [Congestion fd ''brutal'', BrutalParams fd rate cwnd_gain_x10 None]
      else [Congestion fd ''brutal''])"

definition set_brutal_on_listener :: "nat \<Rightarrow> sock_call list" where
  "set_brutal_on_listener fd = [Congestion fd ''brutal'']"

text \<open>The version of the kernel module is asked for once it has answered; the cache holds \<open>u32::MAX\<close>
until then.\<close>

definition brutal_module_version :: "(nat \<Rightarrow> u32 option) \<Rightarrow> nat \<Rightarrow> u32 \<Rightarrow> u32 \<times> u32" where
  "brutal_module_version getsockopt fd cached =
     (if cached \<noteq> - 1 then (cached, cached)
      else case getsockopt fd of Some v \<Rightarrow> (v, v) | None \<Rightarrow> (0, cached))"

definition group_id_for_ip :: "(ip_addr \<Rightarrow> u64) \<Rightarrow> ip_addr \<Rightarrow> u64" where
  "group_id_for_ip hash ip = (let i = hash ip in if i = 0 then 1 else i)"

text \<open>The group goes along only to a module of version 2 or later.\<close>

definition set_brutal_rate :: "(nat \<Rightarrow> u32 option) \<Rightarrow> nat \<Rightarrow> u64 \<Rightarrow> u64 \<Rightarrow> u32 \<Rightarrow> sock_call list \<times> u32" where
  "set_brutal_rate getsockopt fd rate group_id cached =
     (if group_id \<noteq> 0 then
        (case brutal_module_version getsockopt fd cached of
           (v, cached') \<Rightarrow> ([BrutalParams fd rate cwnd_gain_x10 (if 0x20000 \<le> v then Some group_id else None)], cached'))
      else ([BrutalParams fd rate cwnd_gain_x10 None], cached))"

text \<open>The monitor of one socket. A sample is whether the cookie of the descriptor is still the same, and
the total of retransmitted and of sent segments. More than five percent: the code divides in floating
point, and a quotient of two 32-bit numbers that is not five percent is further from it than the
rounding.\<close>

definition max_monitor_checks :: nat where "max_monitor_checks = 18"
definition min_segs_per_window :: u32 where "min_segs_per_window = 500"
definition stable_ok_checks :: nat where "stable_ok_checks = 6"

definition retrans_exceeds :: "u32 \<Rightarrow> u32 \<Rightarrow> bool" where
  "retrans_exceeds retrans segs \<longleftrightarrow> 5 * unat segs < 100 * unat retrans"

definition sat_sub32 :: "u32 \<Rightarrow> u32 \<Rightarrow> u32" where
  "sat_sub32 a b = (if b \<le> a then a - b else 0)"

datatype monitor_end = SocketGone | FellBack | StableLink | ChecksOver | StillWatching

fun fallback_monitor :: "nat \<Rightarrow> (u32 \<times> u32) option \<Rightarrow> nat \<Rightarrow> (bool \<times> (u32 \<times> u32) option) list \<Rightarrow> monitor_end" where
  "fallback_monitor 0 prev ok samples = ChecksOver"
| "fallback_monitor (Suc n) prev ok [] = StillWatching"
| "fallback_monitor (Suc n) prev ok ((same, info) # samples) =
     (if \<not> same then SocketGone
      else case info of
        None \<Rightarrow> SocketGone
      | Some (retrans, segs) \<Rightarrow>
          (case prev of
             None \<Rightarrow> fallback_monitor n (Some (retrans, segs)) ok samples
           | Some (retrans0, segs0) \<Rightarrow>
               let dr = sat_sub32 retrans retrans0; ds = sat_sub32 segs segs0
               in if ds < min_segs_per_window then fallback_monitor n (Some (retrans, segs)) ok samples
                  else if retrans_exceeds dr ds then FellBack
                  else if stable_ok_checks \<le> ok + 1 then StableLink
                  else fallback_monitor n (Some (retrans, segs)) (ok + 1) samples))"

text \<open>\<open>cookie\<close>: whether the system gives the descriptor's cookie at the start.\<close>

definition spawn_fallback_monitor :: "bool \<Rightarrow> (bool \<times> (u32 \<times> u32) option) list \<Rightarrow> monitor_end" where
  "spawn_fallback_monitor cookie samples =
     (if cookie then fallback_monitor max_monitor_checks None 0 samples else SocketGone)"

subsection \<open>Dialling\<close>

text \<open>What is done to a socket before it connects, in the order of the code.\<close>

definition prepare_socket :: "net_env \<Rightarrow> u64 option \<Rightarrow> nat \<Rightarrow> sock_addr \<Rightarrow> sock_call list" where
  "prepare_socket ne rate fd a =
     [KeepAlive fd, SockOpt fd ''TCP_KEEPIDLE'' 15, SockOpt fd ''TCP_KEEPINTVL'' 5, SockOpt fd ''TCP_KEEPCNT'' 3,
      SockOpt fd ''TCP_MAXSEG'' (if is_v4 a then 1360 else 1340), Protected fd]
     @ (case rate of None \<Rightarrow> [] | Some r \<Rightarrow> apply_brutal (ne_brutal ne) fd r)"

text \<open>A socket that cannot be made ends the dial at once; one that does not connect does not.\<close>

fun dial_addrs :: "(nat \<Rightarrow> sock_addr \<Rightarrow> sock_call list) \<Rightarrow> net_env \<Rightarrow> dial_error option \<Rightarrow> sock_addr list
    \<Rightarrow> sock_call list \<times> (dial_error, nat \<times> sock_addr) result" where
  "dial_addrs prep ne last_err [] = ([], Inl (case last_err of Some e \<Rightarrow> e | None \<Rightarrow> NoAddress))"
| "dial_addrs prep ne last_err (a # as) =
     (case ne_open ne a of
        Inl e \<Rightarrow> ([], Inl (SocketFailed e))
      | Inr fd \<Rightarrow>
          let calls = OpenSock fd a # prep fd a @ [ConnectTo fd a];
              further = (\<lambda>e. case dial_addrs prep ne (Some e) as of (cs, r) \<Rightarrow> (calls @ cs, r))
          in case ne_connect ne a of
               Answers \<Rightarrow> (calls, Inr (fd, a))
             | Refuses e \<Rightarrow> further (ConnectFailed e)
             | KeepsSilent \<Rightarrow> further ConnectTimedOut)"

definition v4_first :: "sock_addr list \<Rightarrow> sock_addr list" where
  "v4_first = sort_key (\<lambda>a. if is_v4 a then 0 else 1 :: nat)"

record brutal_state =
  bs_configured :: "u64 option"
  bs_current :: u64
  bs_base_rtt :: "u64 option"
  bs_active :: "nat list"

definition dial_rate :: "brutal_state \<Rightarrow> u64 option" where
  "dial_rate bs = map_option (\<lambda>_. bs_current bs) (bs_configured bs)"

definition dial_server :: "net_env \<Rightarrow> brutal_state \<Rightarrow> string \<Rightarrow> u16
    \<Rightarrow> sock_call list \<times> (dial_error, nat \<times> sock_addr) result" where
  "dial_server ne bs host port =
     (case ne_lookup ne (join_host_port host port) of
        Inl e \<Rightarrow> ([], Inl (LookupFailed e))
      | Inr addrs \<Rightarrow>
          (case dial_addrs (prepare_socket ne (dial_rate bs)) ne None (v4_first addrs) of
             (calls, Inl e) \<Rightarrow> (calls, Inl e)
           | (calls, Inr (fd, a)) \<Rightarrow>
               (case ne_nodelay ne a of
                  Inl e \<Rightarrow> (calls, Inl (NoDelayFailed e))
                | Inr _ \<Rightarrow> (calls, Inr (fd, a)))))"

text \<open>The camouflage site is dialled at the addresses in the order of the look-up.\<close>

definition dial_camouflage :: "net_env \<Rightarrow> string \<Rightarrow> sock_call list \<times> (dial_error, nat \<times> sock_addr) result" where
  "dial_camouflage ne host =
     (case ne_lookup ne (if CHR '':'' \<in> set host then host else host @ '':443'') of
        Inl e \<Rightarrow> ([], Inl (LookupFailed e))
      | Inr addrs \<Rightarrow> dial_addrs (\<lambda>fd a. [Protected fd]) ne None addrs)"

text \<open>The socket of a direct TCP connection (\<open>relay_direct\<close>, tcp.rs), up to the result that \<open>dial_direct\<close>
goes on from; a socket keeps silent for as long as \<open>connect_timeout\<close> of that theory.\<close>

definition direct_connect :: "net_env \<Rightarrow> bool \<Rightarrow> sock_addr \<Rightarrow> sock_call list \<times> dial_result" where
  "direct_connect ne wrote_first a =
     (case ne_open ne a of
        Inl e \<Rightarrow> ([], NoSocket)
      | Inr fd \<Rightarrow>
          (OpenSock fd a # prepare_socket ne None fd a @ [ConnectTo fd a],
           case ne_connect ne a of
             Answers \<Rightarrow> Connected wrote_first
           | Refuses e \<Rightarrow> TcpRelay.ConnectFailed
           | KeepsSilent \<Rightarrow> ConnectTimeout))"

text \<open>The leaf \<open>Direct\<close> of the outbounds (\<open>connect\<close>, outbound.rs) leaves it to the runtime's
\<open>TcpStream::connect\<close>, which tries the addresses in turn.\<close>

fun try_connect :: "net_env \<Rightarrow> dial_error option \<Rightarrow> sock_addr list
    \<Rightarrow> sock_call list \<times> (dial_error, nat \<times> sock_addr) result" where
  "try_connect ne last_err [] = ([], Inl (case last_err of Some e \<Rightarrow> e | None \<Rightarrow> NoAddress))"
| "try_connect ne last_err (a # as) =
     (case ne_open ne a of
        Inl e \<Rightarrow> try_connect ne (Some (SocketFailed e)) as
      | Inr fd \<Rightarrow>
          let further = (\<lambda>e. case try_connect ne (Some e) as of (cs, r) \<Rightarrow> (OpenSock fd a # ConnectTo fd a # cs, r))
          in case ne_connect ne a of
               Answers \<Rightarrow> ([OpenSock fd a, ConnectTo fd a], Inr (fd, a))
             | Refuses e \<Rightarrow> further (ConnectFailed e)
             | KeepsSilent \<Rightarrow> further ConnectTimedOut)"

definition leaf_dial :: "net_env \<Rightarrow> address \<Rightarrow> sock_call list \<times> (dial_error, nat \<times> sock_addr) result" where
  "leaf_dial ne target =
     (case target of
        Socket ip port scope \<Rightarrow> try_connect ne None [(ip, port)]
      | Domain h p \<Rightarrow>
          (case ne_lookup ne (join_host_port h p) of
             Inl e \<Rightarrow> ([], Inl (LookupFailed e))
           | Inr addrs \<Rightarrow> try_connect ne None addrs))"

text \<open>The handshake over what was dialled: \<open>flow a\<close> is what a connection to \<open>a\<close> delivers and how it ends.\<close>

datatype over_error = DialFailed dial_error | UnderlyingTimeout | UnderlyingFailed string | HandshakeFailed Handshake.connect_error

datatype tunnel_read = TcpRead nat | BoxedRead

definition handshake_over_tcp ::
    "'g record_env \<Rightarrow> kdf \<Rightarrow> 'k curve_ops \<Rightarrow> primitives \<Rightarrow> net_env \<Rightarrow> brutal_state \<Rightarrow> string \<Rightarrow> u16 \<Rightarrow> pool_config
     \<Rightarrow> dial_draws \<Rightarrow> (sock_addr \<Rightarrow> stream_end \<times> bytes)
     \<Rightarrow> sock_call list \<times> (over_error, tunnel_read \<times> crypto_reader \<times> 'g crypto_writer) result" where
  "handshake_over_tcp re kdf cv pr ne bs host port cfg dd flow =
     (case dial_server ne bs host port of
        (calls, Inl e) \<Rightarrow> (calls, Inl (DialFailed e))
      | (calls, Inr (fd, a)) \<Rightarrow>
          (case flow a of (e, inp) \<Rightarrow>
            (calls, case handshake_over re kdf cv pr cfg dd e inp of
                      Inl x \<Rightarrow> Inl (HandshakeFailed x)
                    | Inr pair \<Rightarrow> Inr (TcpRead fd, pair))))"

text \<open>\<open>below\<close>: the outbound below, which may take longer than the fifteen seconds allowed.\<close>

definition handshake_over_underlying ::
    "'g record_env \<Rightarrow> kdf \<Rightarrow> 'k curve_ops \<Rightarrow> primitives
     \<Rightarrow> (string \<Rightarrow> u16 \<Rightarrow> (string, stream_end \<times> bytes) result option) \<Rightarrow> string \<Rightarrow> u16 \<Rightarrow> pool_config \<Rightarrow> dial_draws
     \<Rightarrow> (over_error, tunnel_read \<times> crypto_reader \<times> 'g crypto_writer) result" where
  "handshake_over_underlying re kdf cv pr below host port cfg dd =
     (case below host port of
        None \<Rightarrow> Inl UnderlyingTimeout
      | Some (Inl e) \<Rightarrow> Inl (UnderlyingFailed e)
      | Some (Inr (e, inp)) \<Rightarrow>
          (case handshake_over re kdf cv pr cfg dd e inp of
             Inl x \<Rightarrow> Inl (HandshakeFailed x)
           | Inr pair \<Rightarrow> Inr (BoxedRead, pair)))"

subsection \<open>The descriptors of tunnels\<close>

datatype probe_answer = WouldBlock | ReadBytes nat | ReadError

definition try_read_probe :: "(nat \<Rightarrow> probe_answer) \<Rightarrow> tunnel_read \<Rightarrow> probe_answer" where
  "try_read_probe try_read r = (case r of TcpRead fd \<Rightarrow> try_read fd | BoxedRead \<Rightarrow> WouldBlock)"

definition raw_fd :: "tunnel_read \<Rightarrow> nat option" where
  "raw_fd r = (case r of TcpRead fd \<Rightarrow> Some fd | BoxedRead \<Rightarrow> None)"

definition is_stale :: "(nat \<Rightarrow> probe_answer) \<Rightarrow> tunnel_read \<Rightarrow> bool" where
  "is_stale try_read r \<longleftrightarrow> try_read_probe try_read r \<noteq> WouldBlock"

definition active_fd_guard :: "nat \<Rightarrow> brutal_state \<Rightarrow> brutal_state" where
  "active_fd_guard fd bs = bs\<lparr>bs_active := List.insert fd (bs_active bs)\<rparr>"

definition drop_fd_guard :: "nat \<Rightarrow> brutal_state \<Rightarrow> brutal_state" where
  "drop_fd_guard fd bs = bs\<lparr>bs_active := removeAll fd (bs_active bs)\<rparr>"

text \<open>All idle tunnels with a descriptor and all active ones are set to the new rate; the order of the
active ones is that of a hash set.\<close>

definition update_brutal_rate :: "(nat \<Rightarrow> u32 option) \<Rightarrow> u32 \<Rightarrow> u64 \<Rightarrow> tunnel_read list \<Rightarrow> brutal_state
    \<Rightarrow> sock_call list \<times> brutal_state" where
  "update_brutal_rate getsockopt cached new_rate idle bs =
     (let fds = List.map_filter raw_fd idle @ bs_active bs
      in (concat (map (\<lambda>fd. fst (set_brutal_rate getsockopt fd new_rate 0 cached)) fds), bs\<lparr>bs_current := new_rate\<rparr>))"

subsection \<open>Facts\<close>

text \<open>A descriptor is connected only after it has been protected since it was made.\<close>

fun guarded :: "nat list \<Rightarrow> sock_call list \<Rightarrow> bool" where
  "guarded safe [] = True"
| "guarded safe (OpenSock fd a # cs) = guarded (removeAll fd safe) cs"
| "guarded safe (Protected fd # cs) = guarded (fd # safe) cs"
| "guarded safe (ConnectTo fd a # cs) = (fd \<in> set safe \<and> guarded safe cs)"
| "guarded safe (_ # cs) = guarded safe cs"

lemma guarded_brutal: "guarded safe (apply_brutal acc fd r @ cs) = guarded safe cs"
  by (simp add: apply_brutal_def)

lemma dial_guarded:
  assumes "\<And>safe fd a cs. (\<And>safe'. fd \<in> set safe' \<Longrightarrow> guarded safe' cs) \<Longrightarrow> guarded safe (prep fd a @ cs)"
  shows "guarded safe (fst (dial_addrs prep ne le as))"
proof (induction as arbitrary: safe le)
  case (Cons a as)
  have g: "guarded safe (OpenSock fd a # prep fd a @ ConnectTo fd a # cs)"
    if "\<And>safe'. guarded safe' cs" for fd cs safe
    using that by (simp, intro assms) simp
  have further: "guarded safe (OpenSock fd a # prep fd a @ ConnectTo fd a # fst (dial_addrs prep ne le' as))" for fd le'
    by (rule g) (rule Cons.IH)
  show ?case using g [of "[]"] further
    by (auto simp: Let_def case_prod_beta split: sum.split connect_answer.split)
qed simp

lemma prepare_guarded:
  "(\<And>safe'. fd \<in> set safe' \<Longrightarrow> guarded safe' cs) \<Longrightarrow> guarded safe (prepare_socket ne rate fd a @ cs)"
  by (simp add: prepare_socket_def guarded_brutal split: option.split)

lemma server_guarded: "guarded [] (fst (dial_server ne bs host port))"
proof -
  have "guarded [] (fst (dial_addrs (prepare_socket ne (dial_rate bs)) ne None as))" for as
    by (rule dial_guarded) (rule prepare_guarded)
  then show ?thesis unfolding dial_server_def
    by (auto split: sum.split prod.split) (metis fst_conv)+
qed

lemma camouflage_guarded: "guarded [] (fst (dial_camouflage ne host))"
  unfolding dial_camouflage_def by (auto split: sum.split intro!: dial_guarded)

lemma direct_guarded: "guarded [] (fst (direct_connect ne w a))"
  by (auto simp: direct_connect_def intro!: prepare_guarded split: sum.split connect_answer.split)

text \<open>The direct leaf protects nothing: once it tries an address, it connects an unprotected socket.\<close>

lemma try_connect_unprotected:
  "guarded [] (fst (try_connect ne le as)) \<longleftrightarrow> (\<forall>a\<in>set as. \<nexists>fd. ne_open ne a = Inr fd)"
  by (induction as arbitrary: le) (auto split: sum.split connect_answer.split prod.split)

lemma direct_leaf_unprotected:
  "ne_open ne (ip, port) = Inr fd \<Longrightarrow> \<not> guarded [] (fst (leaf_dial ne (Socket ip port scope)))"
  by (auto simp: leaf_dial_def simp del: try_connect.simps simp: try_connect_unprotected)

text \<open>Where a dial ends, if sockets can be made: at the first address that answers, in the order tried.\<close>

definition connects :: "sock_call list \<Rightarrow> sock_addr list" where
  "connects cs = List.map_filter (\<lambda>c. case c of ConnectTo fd a \<Rightarrow> Some a | _ \<Rightarrow> None) cs"

lemma connects_simps [simp]:
  "connects [] = []" "connects (ConnectTo fd a # cs) = a # connects cs" "connects (OpenSock fd a # cs) = connects cs"
  "connects (cs @ ds) = connects cs @ connects ds"
  by (simp_all add: connects_def List.map_filter_def)

lemma connects_prepare [simp]: "connects (prepare_socket ne rate fd a) = []"
  by (simp add: connects_def List.map_filter_def prepare_socket_def apply_brutal_def split: option.split)

lemma dial_first:
  assumes "\<forall>a\<in>set as. \<exists>fd. ne_open ne a = Inr fd" "\<And>fd a. connects (prep fd a) = []"
  shows "(case find (\<lambda>a. ne_connect ne a = Answers) as of
       Some a \<Rightarrow> (\<exists>fd. ne_open ne a = Inr fd \<and> snd (dial_addrs prep ne le as) = Inr (fd, a))
         \<and> connects (fst (dial_addrs prep ne le as)) = takeWhile (\<lambda>a. ne_connect ne a \<noteq> Answers) as @ [a]
     | None \<Rightarrow> (\<exists>e. snd (dial_addrs prep ne le as) = Inl e) \<and> connects (fst (dial_addrs prep ne le as)) = as)"
  using assms(1)
proof (induction as arbitrary: le)
  case (Cons a as)
  then obtain fd where fd: "ne_open ne a = Inr fd" by auto
  have rest: "\<forall>a\<in>set as. \<exists>fd. ne_open ne a = Inr fd" using Cons.prems by simp
  show ?case
  proof (cases "ne_connect ne a")
    case Answers
    with fd assms(2) show ?thesis by simp
  next
    case (Refuses e)
    with fd assms(2) Cons.IH [OF rest, of "Some (ConnectFailed e)"] show ?thesis
      by (cases "find (\<lambda>a. ne_connect ne a = Answers) as") (auto simp: case_prod_beta)
  next
    case KeepsSilent
    with fd assms(2) Cons.IH [OF rest, of "Some ConnectTimedOut"] show ?thesis
      by (cases "find (\<lambda>a. ne_connect ne a = Answers) as") (auto simp: case_prod_beta)
  qed
qed simp

lemma insort_last:
  "\<forall>y\<in>set A. f y < f x \<Longrightarrow> \<forall>y\<in>set B. f x \<le> f y \<Longrightarrow> insort_key f x (A @ B) = A @ x # B" for f :: "'a \<Rightarrow> nat"
proof (induction A)
  case Nil
  then show ?case by (cases B) simp_all
qed auto

lemma v4_first_filter: "v4_first as = filter is_v4 as @ filter (\<lambda>a. \<not> is_v4 a) as"
proof (induction as)
  case (Cons a as)
  let ?key = "\<lambda>a. if is_v4 a then 0 else 1 :: nat"
  have "v4_first (a # as) = insort_key ?key a (v4_first as)" by (simp add: v4_first_def)
  also have "\<dots> = filter is_v4 (a # as) @ filter (\<lambda>a. \<not> is_v4 a) (a # as)"
  proof (cases "is_v4 a")
    case True
    with insort_last [of "[]" ?key a "filter is_v4 as @ filter (\<lambda>a. \<not> is_v4 a) as"] show ?thesis by (simp add: Cons.IH)
  next
    case False
    with insort_last [of "filter is_v4 as" ?key a "filter (\<lambda>a. \<not> is_v4 a) as"] show ?thesis by (simp add: Cons.IH)
  qed
  finally show ?case .
qed (simp add: v4_first_def)


definition demo_net :: net_env where
  "demo_net = \<lparr>ne_lookup = (\<lambda>_. Inr [(V6 1, 443), (V4 2, 443), (V4 3, 443)]), ne_open = (\<lambda>a. Inr 7),
     ne_connect = (\<lambda>a. if fst a = V4 2 then KeepsSilent else Answers), ne_brutal = (\<lambda>_. True),
     ne_nodelay = (\<lambda>_. Inr ())\<rparr>"


text \<open>The monitor of a socket gives up brutal for a bad window between two samples in a row.\<close>

definition bad_window :: "u32 \<times> u32 \<Rightarrow> u32 \<times> u32 \<Rightarrow> bool" where
  "bad_window before after \<longleftrightarrow>
     (let dr = sat_sub32 (fst after) (fst before); ds = sat_sub32 (snd after) (snd before)
      in 500 \<le> unat ds \<and> unat ds < 20 * unat dr)"

lemma bad_windowI:
  "\<not> ds < min_segs_per_window \<Longrightarrow> retrans_exceeds dr ds \<Longrightarrow> dr = sat_sub32 r1 r0 \<Longrightarrow> ds = sat_sub32 s1 s0
     \<Longrightarrow> bad_window (r0, s0) (r1, s1)"
  by (simp add: bad_window_def min_segs_per_window_def retrans_exceeds_def word_less_nat_alt not_less)

lemma fell_back_bad_window:
  "fallback_monitor n prev ok samples = FellBack \<Longrightarrow>
     \<exists>i w. i < n \<and> i < length samples \<and> samples ! i = (True, Some w)
       \<and> (case i of 0 \<Rightarrow> \<exists>v. prev = Some v \<and> bad_window v w
          | Suc j \<Rightarrow> \<exists>v. samples ! j = (True, Some v) \<and> bad_window v w)"
proof (induction n arbitrary: prev ok samples)
  case (Suc n)
  obtain retrans segs rest where s: "samples = (True, Some (retrans, segs)) # rest"
    using Suc.prems by (cases samples) (auto split: if_splits option.splits)
  have later: ?case if "fallback_monitor n (Some (retrans, segs)) ok' rest = FellBack" for ok'
  proof -
    from Suc.IH [OF that] obtain i w where i: "i < n" "i < length rest" "rest ! i = (True, Some w)"
      "case i of 0 \<Rightarrow> \<exists>v. Some (retrans, segs) = Some v \<and> bad_window v w
       | Suc j \<Rightarrow> \<exists>v. rest ! j = (True, Some v) \<and> bad_window v w" by blast
    from i show ?case by (intro exI [of _ "Suc i"] exI [of _ w]) (auto simp: s split: nat.splits)
  qed
  show ?case
  proof (cases prev)
    case None
    with Suc.prems s later show ?thesis by simp
  next
    case (Some p)
    obtain r0 s0 where p: "p = (r0, s0)" by fastforce
    show ?thesis
    proof (cases "bad_window (r0, s0) (retrans, segs)")
      case True
      with s Some p show ?thesis by (intro exI [of _ 0] exI [of _ "(retrans, segs)"]) simp
    next
      case False
      with Suc.prems s Some p obtain ok' where "fallback_monitor n (Some (retrans, segs)) ok' rest = FellBack"
        by (auto simp: Let_def dest: bad_windowI split: if_splits)
      then show ?thesis by (rule later)
    qed
  qed
qed simp

text \<open>Falling back from the fixed rate (\<open>spawn_fallback_monitor\<close>, brutal.rs): a socket is switched to
the ordinary congestion control only after two of its first eighteen samples, in a row, between which at
least 500 segments were sent and more than five percent of them retransmitted.\<close>
theorem falls_back_when_lossy:
  assumes "spawn_fallback_monitor cookie samples = FellBack"
  shows "\<exists>i v w. Suc i < 18 \<and> Suc i < length samples \<and> samples ! i = (True, Some v)
    \<and> samples ! Suc i = (True, Some w) \<and> bad_window v w"
proof -
  from assms have "fallback_monitor max_monitor_checks None 0 samples = FellBack"
    by (simp add: spawn_fallback_monitor_def split: if_splits)
  from fell_back_bad_window [OF this] obtain i w where i: "i < 18" "i < length samples" "samples ! i = (True, Some w)"
      "case i of 0 \<Rightarrow> \<exists>v. None = Some v \<and> bad_window v w
       | Suc j \<Rightarrow> \<exists>v. samples ! j = (True, Some v) \<and> bad_window v w"
    unfolding max_monitor_checks_def by blast
  then obtain j v where "i = Suc j" "samples ! j = (True, Some v)" "bad_window v w" by (cases i) auto
  with i(1-3) show ?thesis by blast
qed

theorem falls_back_when_lossy_witness:
  "\<exists>i v w. Suc i < 18 \<and> Suc i < length [(True, Some (0 :: u32, 10 :: u32)), (True, Some (60, 1010))]
    \<and> [(True, Some (0, 10)), (True, Some (60, 1010))] ! i = (True, Some v)
    \<and> [(True, Some (0, 10)), (True, Some (60, 1010))] ! Suc i = (True, Some w) \<and> bad_window v w"
proof (rule falls_back_when_lossy)
  have "fallback_monitor (Suc (Suc n)) None 0 [(True, Some (0, 10)), (True, Some (60, 1010))] = FellBack" for n
    by (simp add: min_segs_per_window_def sat_sub32_def retrans_exceeds_def)
  from this [of 16] show "spawn_fallback_monitor True [(True, Some (0, 10)), (True, Some (60, 1010))] = FellBack"
    by (simp add: spawn_fallback_monitor_def max_monitor_checks_def del: fallback_monitor.simps)
qed

end
