(* ===== verification/TunReader.thy ===== *)
theory TunReader
  imports TunStack
begin

text \<open>The thread of \<open>TunStack::start\<close> (\<open>tun/mod.rs\<close>) that reads the TUN descriptor: it waits for the
descriptor or the pipe by which \<open>stop\<close> wakes it, reads bursts of packets into the channel of the pump,
and closes its two descriptors at its end. What the system calls return is in the events.\<close>

record reader =
  rd_rfd :: int
  rd_pipe :: int
  rd_running :: bool
  rd_sent :: "bytes list"
  rd_closed :: "int list"

definition close_pipe :: "int \<Rightarrow> int list" where
  "close_pipe pipe = (if 0 \<le> pipe then [pipe] else [])"

text \<open>\<open>cur_fd\<close> is the descriptor of the stack when the thread starts, \<open>rfd\<close> what \<open>dup\<close> gives.\<close>

definition reader_start :: "int \<Rightarrow> int \<Rightarrow> int \<Rightarrow> reader" where
  "reader_start cur_fd rfd pipe =
     (if cur_fd < 0 \<or> rfd < 0
      then \<lparr>rd_rfd = -1, rd_pipe = pipe, rd_running = False, rd_sent = [], rd_closed = close_pipe pipe\<rparr>
      else \<lparr>rd_rfd = rfd, rd_pipe = pipe, rd_running = True, rd_sent = [], rd_closed = []\<rparr>)"

datatype read_answer = ReadPacket bytes | ReadEnd | ReadFails

text \<open>\<open>Polled input failed woken\<close>: readable, in an error state, and the pipe signalled.\<close>

datatype poll_answer = Interrupted | PollFails | Polled bool bool bool

text \<open>One turn of the loop: whether the stack has been stopped before the wait and after it, what the wait
and the reads return, and whether the pump still takes packets.\<close>

record turn =
  tn_stopped_before :: bool
  tn_poll :: poll_answer
  tn_stopped_after :: bool
  tn_pump :: bool
  tn_reads :: "read_answer list"

definition max_burst :: nat where "max_burst = 32"

fun burst :: "nat \<Rightarrow> bool \<Rightarrow> read_answer list \<Rightarrow> bytes list" where
  "burst (Suc n) pump (ReadPacket p # rs) = (if pump then p # burst n pump rs else [])"
| "burst _ _ _ = []"

definition reader_end :: "reader \<Rightarrow> reader" where
  "reader_end r = r\<lparr>rd_running := False, rd_closed := rd_closed r @ rd_rfd r # close_pipe (rd_pipe r)\<rparr>"

definition reader_turn :: "turn \<Rightarrow> reader \<Rightarrow> reader" where
  "reader_turn t r =
     (if \<not> rd_running r then r
      else if tn_stopped_before t then reader_end r
      else case tn_poll t of
        Interrupted \<Rightarrow> r
      | PollFails \<Rightarrow> reader_end r
      | Polled input failed woken \<Rightarrow>
          if tn_stopped_after t then reader_end r
          else if 0 \<le> rd_pipe r \<and> woken then reader_end r
          else if failed then reader_end r
          else if input then r\<lparr>rd_sent := rd_sent r @ burst max_burst (tn_pump t) (tn_reads t)\<rparr>
          else r)"

text \<open>The turns that do not end the thread, and what they pass on.\<close>

definition goes_on :: "int \<Rightarrow> turn \<Rightarrow> bool" where
  "goes_on pipe t \<longleftrightarrow> \<not> tn_stopped_before t
     \<and> (case tn_poll t of
          Interrupted \<Rightarrow> True
        | PollFails \<Rightarrow> False
        | Polled input failed woken \<Rightarrow> \<not> tn_stopped_after t \<and> \<not> (0 \<le> pipe \<and> woken) \<and> \<not> failed)"

definition passed_on :: "turn \<Rightarrow> bytes list" where
  "passed_on t = (case tn_poll t of
     Polled True _ _ \<Rightarrow> burst max_burst (tn_pump t) (tn_reads t) | _ \<Rightarrow> [])"

lemma reader_turn_cases:
  "rd_running r \<Longrightarrow> goes_on (rd_pipe r) t \<Longrightarrow> reader_turn t r = r\<lparr>rd_sent := rd_sent r @ passed_on t\<rparr>"
  "rd_running r \<Longrightarrow> \<not> goes_on (rd_pipe r) t \<Longrightarrow> reader_turn t r = reader_end r"
  "\<not> rd_running r \<Longrightarrow> reader_turn t r = r"
  by (auto simp: reader_turn_def goes_on_def passed_on_def split: poll_answer.split poll_answer.splits bool.splits)

lemma reader_stays: "\<not> rd_running r \<Longrightarrow> fold reader_turn ts r = r"
  by (induction ts) (simp_all add: reader_turn_cases(3))

lemma reader_run:
  assumes "rd_running r"
  shows "rd_sent (fold reader_turn ts r) = rd_sent r @ concat (map passed_on (takeWhile (goes_on (rd_pipe r)) ts))"
    and "rd_running (fold reader_turn ts r) = list_all (goes_on (rd_pipe r)) ts"
    and "rd_closed (fold reader_turn ts r)
      = rd_closed r @ (if list_all (goes_on (rd_pipe r)) ts then [] else rd_rfd r # close_pipe (rd_pipe r))"
  using assms
proof (induction ts arbitrary: r)
  case (Cons t ts)
  {
    case 1
    show ?case
    proof (cases "goes_on (rd_pipe r) t")
      case True
      with Cons.IH(1) [of "reader_turn t r"] 1 show ?thesis by (simp add: reader_turn_cases)
    next
      case False
      with 1 show ?thesis by (simp add: reader_turn_cases reader_stays reader_end_def)
    qed
  next
    case 2
    show ?case
    proof (cases "goes_on (rd_pipe r) t")
      case True
      with Cons.IH(2) [of "reader_turn t r"] 2 show ?thesis by (simp add: reader_turn_cases)
    next
      case False
      with 2 show ?thesis by (simp add: reader_turn_cases reader_stays reader_end_def)
    qed
  next
    case 3
    show ?case
    proof (cases "goes_on (rd_pipe r) t")
      case True
      with Cons.IH(3) [of "reader_turn t r"] 3 show ?thesis by (simp add: reader_turn_cases)
    next
      case False
      with 3 show ?thesis by (simp add: reader_turn_cases reader_stays reader_end_def)
    qed
  }
qed simp_all

lemma burst_prefix: "\<exists>rest. map ReadPacket (burst n pump rs) @ rest = rs"
  by (induction n pump rs rule: burst.induct) auto

lemma burst_length: "length (burst n pump rs) \<le> n"
  by (induction n pump rs rule: burst.induct) auto

text \<open>The reader thread (\<open>TunStack::start\<close>, mod.rs) passes packets on in the order it reads them, at most
32 of a turn, up to the first turn in which it finds the stack stopped, is woken by the pipe or meets an
error; then it is over, and its two descriptors are closed, once each; until then neither is.\<close>
theorem reader_in_order_closes_once:
  assumes "0 \<le> cur_fd" "0 \<le> rfd" "r = fold reader_turn ts (reader_start cur_fd rfd pipe)"
  shows "rd_sent r = concat (map passed_on (takeWhile (goes_on pipe) ts))
    \<and> (\<forall>t. length (passed_on t) \<le> 32 \<and> (\<exists>rest. map ReadPacket (passed_on t) @ rest = tn_reads t))
    \<and> rd_running r = list_all (goes_on pipe) ts
    \<and> rd_closed r = (if rd_running r then [] else rfd # (if 0 \<le> pipe then [pipe] else []))"
proof -
  have s: "rd_running (reader_start cur_fd rfd pipe)" "rd_pipe (reader_start cur_fd rfd pipe) = pipe"
      "rd_sent (reader_start cur_fd rfd pipe) = []" "rd_closed (reader_start cur_fd rfd pipe) = []"
      "rd_rfd (reader_start cur_fd rfd pipe) = rfd"
    using assms(1,2) by (simp_all add: reader_start_def)
  have p: "length (passed_on t) \<le> 32 \<and> (\<exists>rest. map ReadPacket (passed_on t) @ rest = tn_reads t)" for t
    using burst_length [of max_burst "tn_pump t" "tn_reads t"] burst_prefix [of max_burst "tn_pump t" "tn_reads t"]
    by (auto simp: passed_on_def max_burst_def split: poll_answer.split bool.split)
  note run = reader_run [OF s(1), of ts, unfolded s(2-5)]
  show ?thesis unfolding assms(3) run using p by (simp add: close_pipe_def)
qed

theorem reader_in_order_closes_once_witness:
  "rd_closed (fold reader_turn
     [\<lparr>tn_stopped_before = False, tn_poll = Polled True False False, tn_stopped_after = False, tn_pump = True,
       tn_reads = [ReadPacket [0x45], ReadFails]\<rparr>,
      \<lparr>tn_stopped_before = False, tn_poll = Polled False False True, tn_stopped_after = False, tn_pump = True,
       tn_reads = []\<rparr>] (reader_start 5 6 7)) = [6, 7]"
proof -
  define ts where "ts =
     [\<lparr>tn_stopped_before = False, tn_poll = Polled True False False, tn_stopped_after = False, tn_pump = True,
       tn_reads = [ReadPacket [0x45], ReadFails]\<rparr>,
      \<lparr>tn_stopped_before = False, tn_poll = Polled False False True, tn_stopped_after = False, tn_pump = True,
       tn_reads = []\<rparr>]"
  have "\<not> list_all (goes_on 7) ts" by (simp add: ts_def goes_on_def)
  with reader_in_order_closes_once [OF _ _ refl, of 5 6 ts 7] show ?thesis unfolding ts_def [symmetric] by simp
qed

end
