(* ===== verification/NativeApi.thy ===== *)
theory NativeApi
  imports Runtime Router Adaptive Control
begin

text \<open>All native methods of \<open>mirage-jni/src/lib.rs\<close> that read or change state, over the whole process:
the runtime of \<open>Runtime\<close> with the cells of \<open>direct.rs\<close>, \<open>geo.rs\<close>, \<open>failover.rs\<close>, \<open>adaptive_idle.rs\<close> and
\<open>protect.rs\<close> beside it. The texts made for the JVM are not modelled; a string that the JVM does not
give is \<open>None\<close>.\<close>

subsection \<open>The process\<close>

record 'r process =
  pc_runtime :: runtime
  pc_router :: "'r router"
  pc_geo :: "'r geo_store"
  pc_failover :: failover_state
  pc_profiles :: profiles
  pc_block_quic :: bool
  pc_protection :: protection
  pc_log_filter :: "string option"
  pc_nofile :: "nat \<times> nat"

definition process_init :: "core \<Rightarrow> nat \<times> nat \<Rightarrow> 'r process" where
  "process_init co nofile =
     \<lparr>pc_runtime = rt_init co, pc_router = router_init, pc_geo = geo_empty, pc_failover = failover_init,
      pc_profiles = [], pc_block_quic = True, pc_protection = protection_init, pc_log_filter = None,
      pc_nofile = nofile\<rparr>"

text \<open>What the libraries answer: the regular expressions, JSON, the time in which a node gives a tunnel,
the logging library, the system limits, and which pools are busy.\<close>

record 'r api_env =
  ae_locked :: "nat \<Rightarrow> bool"
  ae_parse :: uri_parser
  ae_dial :: "node_info \<Rightarrow> nat option"
  ae_re_compile :: "string \<Rightarrow> 'r option"
  ae_json_parse :: "string \<Rightarrow> json option"
  ae_json_print :: "json \<Rightarrow> string"
  ae_nodes :: "string \<Rightarrow> node_entry list option"
  ae_policy :: "string \<Rightarrow> failover_policy option"
  ae_log_default :: string
  ae_log_reload :: "string \<Rightarrow> bool"
  ae_setrlimit :: bool

definition on_runtime :: "(runtime \<Rightarrow> 'a \<times> runtime) \<Rightarrow> 'r process \<Rightarrow> 'a \<times> 'r process" where
  "on_runtime f p = (case f (pc_runtime p) of (a, rt) \<Rightarrow> (a, p\<lparr>pc_runtime := rt\<rparr>))"

definition on_monitor :: "(monitor \<Rightarrow> 'a \<times> monitor) \<Rightarrow> 'r process \<Rightarrow> 'a \<times> 'r process" where
  "on_monitor f =
     on_runtime (\<lambda>rt. case f (co_monitor (rn_core rt)) of
                        (a, m) \<Rightarrow> (a, rt\<lparr>rn_core := (rn_core rt)\<lparr>co_monitor := m\<rparr>\<rparr>))"

text \<open>\<open>jni_boundary!\<close>: a panic of the body is caught and gives the fallback; what the body had changed by
then stays changed.\<close>

definition jni_boundary :: "'a \<Rightarrow> ('r process \<Rightarrow> ('a \<times> 'r process) scan) \<Rightarrow> 'r process \<Rightarrow> 'a \<times> 'r process" where
  "jni_boundary fallback body p = (case body p of Got r \<Rightarrow> r | _ \<Rightarrow> (fallback, p))"

subsection \<open>Logging and limits\<close>

definition raise_nofile_limit :: "bool \<Rightarrow> nat \<times> nat \<Rightarrow> nat \<times> nat" where
  "raise_nofile_limit accepted limits =
     (case limits of (cur, hard) \<Rightarrow>
        let new = min (max cur 8192) hard
        in if new \<noteq> cur \<and> accepted then (new, hard) else (cur, hard))"

definition init_logging :: "'r api_env \<Rightarrow> 'r process \<Rightarrow> 'r process" where
  "init_logging ae p =
     (case pc_log_filter p of
        Some f \<Rightarrow> p
      | None \<Rightarrow> p\<lparr>pc_nofile := raise_nofile_limit (ae_setrlimit ae) (pc_nofile p),
                  pc_log_filter := Some (ae_log_default ae)\<rparr>)"

definition log_filter :: "string \<Rightarrow> string" where
  "log_filter level =
     (let l = ascii_lower level;
          of_level = (\<lambda>s. ''mirage_core='' @ s @ '',mirage_jni='' @ s)
      in if l \<in> {''trace'', ''debug'', ''warn'', ''error''} then of_level l else of_level ''info'')"

definition update_log_level :: "'r api_env \<Rightarrow> string \<Rightarrow> 'r process \<Rightarrow> bool \<times> 'r process" where
  "update_log_level ae level p =
     (let p = init_logging ae p; f = log_filter level
      in if ae_log_reload ae f then (True, p\<lparr>pc_log_filter := Some f\<rparr>) else (False, p))"

definition nt_set_log_level :: "'r api_env \<Rightarrow> string option \<Rightarrow> 'r process \<Rightarrow> bool \<times> 'r process" where
  "nt_set_log_level ae level p =
     (case level of None \<Rightarrow> (False, p) | Some l \<Rightarrow> update_log_level ae l p)"

definition nt_recent_logs :: "'r process \<Rightarrow> string list" where
  "nt_recent_logs p = recent_logs (co_monitor (rn_core (pc_runtime p)))"

definition nt_get_logs :: "'r process \<Rightarrow> string list \<times> 'r process" where
  "nt_get_logs = on_monitor drain_logs"

definition nt_clear_native_logs :: "'r process \<Rightarrow> bool \<times> 'r process" where
  "nt_clear_native_logs = on_monitor (\<lambda>m. (True, clear_logs m))"

subsection \<open>Starting\<close>

text \<open>\<open>start\<close> is the one of \<open>Runtime\<close>, after the logging has been set up; the callback for protecting
sockets is registered when the class of the JVM has been found, before the engine is made.\<close>

definition callbacks_set :: "'r api_env \<Rightarrow> start_env \<Rightarrow> runtime \<Rightarrow> bool" where
  "callbacks_set ae env rt \<longleftrightarrow>
     \<not> (js_started (rn_jni rt) \<and> running rt \<noteq> None)
     \<and> (case se_get_string env of None \<Rightarrow> False | Some uri \<Rightarrow> (case ae_parse ae uri of Inl e \<Rightarrow> False | Inr u \<Rightarrow> True))
     \<and> se_java_vm env \<and> se_find_class env \<and> se_global_ref env"

definition nt_start :: "'r api_env \<Rightarrow> start_env \<Rightarrow> int \<Rightarrow> int option \<Rightarrow> int \<Rightarrow> nat \<Rightarrow> 'r process \<Rightarrow> int \<times> 'r process" where
  "nt_start ae env dup_fd pipe_write pool_size callback p =
     (let p = init_logging ae p;
          p = (if callbacks_set ae env (pc_runtime p)
               then p\<lparr>pc_protection := set_protect_callback callback (pc_protection p)\<rparr> else p)
      in on_runtime (rt_start (ae_parse ae) env dup_fd pipe_write pool_size) p)"

definition nt_is_running :: "'r process \<Rightarrow> bool" where
  "nt_is_running p = js_started (rn_jni (pc_runtime p))"

definition nt_get_pool_size :: "'r process \<Rightarrow> int" where
  "nt_get_pool_size p = sint (of_nat (js_pool_size (rn_jni (pc_runtime p))) :: u32)"

text \<open>\<open>getStats\<close>: the counters, the two rates as quotients, and the numbers of open connections, flows
and queries, which live elsewhere.\<close>

definition nt_get_stats :: "nat \<Rightarrow> nat \<Rightarrow> nat \<Rightarrow> nat \<Rightarrow> 'r process
    \<Rightarrow> ((u64 \<times> u64 \<times> (u64 \<times> nat) \<times> (u64 \<times> nat)) \<times> nat \<times> nat \<times> nat) \<times> 'r process" where
  "nt_get_stats now tcp udp dns p =
     (case on_monitor (sample now) p of (s, p) \<Rightarrow> ((s, tcp, udp, dns), p))"

subsection \<open>Settings\<close>

definition nt_set_rules :: "'r api_env \<Rightarrow> string option \<Rightarrow> 'r process \<Rightarrow> bool \<times> 'r process" where
  "nt_set_rules ae raw p =
     (case raw of
        None \<Rightarrow> (False, p)
      | Some s \<Rightarrow>
          (case set_custom_rules (ae_re_compile ae) (ae_json_parse ae) (ae_json_print ae) s (pc_router p) of
             (ok, rt) \<Rightarrow> (ok, p\<lparr>pc_router := rt\<rparr>)))"

definition nt_reset_rule_hits :: "'r process \<Rightarrow> bool \<times> 'r process" where
  "nt_reset_rule_hits p = (True, p\<lparr>pc_router := (pc_router p)\<lparr>rt_hits := Map.empty\<rparr>\<rparr>)"

definition nt_set_node_list :: "'r api_env \<Rightarrow> string option \<Rightarrow> 'r process \<Rightarrow> bool \<times> 'r process" where
  "nt_set_node_list ae raw p =
     (case raw of
        None \<Rightarrow> (False, p)
      | Some s \<Rightarrow>
          (case set_node_list (ae_nodes ae) s (pc_failover p) of
             (n, f) \<Rightarrow> (n \<noteq> None, p\<lparr>pc_failover := f\<rparr>)))"

definition nt_set_failover_policy :: "'r api_env \<Rightarrow> string option \<Rightarrow> 'r process \<Rightarrow> bool \<times> 'r process" where
  "nt_set_failover_policy ae raw p =
     (case raw of
        None \<Rightarrow> (False, p)
      | Some s \<Rightarrow>
          (case set_policy (ae_policy ae) s (pc_failover p) of
             (ok, f) \<Rightarrow> (ok, p\<lparr>pc_failover := f\<rparr>)))"

definition nt_on_network_changed :: "int \<Rightarrow> bool \<Rightarrow> 'r process \<Rightarrow> 'r process" where
  "nt_on_network_changed net_handle has_internet p =
     p\<lparr>pc_failover := on_network_changed (of_int net_handle) has_internet (pc_failover p)\<rparr>"

definition nt_set_active_network :: "int \<Rightarrow> 'r process \<Rightarrow> 'r process" where
  "nt_set_active_network network_handle p =
     p\<lparr>pc_protection := set_active_network_handle (of_int network_handle) (pc_protection p)\<rparr>"

text \<open>The file of profiles: \<open>None\<close> is a path that cannot be read from the JVM; a file that is absent, that
cannot be read or that does not parse counts as no profiles.\<close>

datatype profile_file = Absent | Unreadable | Unparsable | Profiles "domain_profile list"

definition nt_load_traffic_profiles :: "profile_file option \<Rightarrow> 'r process \<Rightarrow> int \<times> 'r process" where
  "nt_load_traffic_profiles file p =
     (case file of
        None \<Rightarrow> (-1, p)
      | Some (Profiles loaded) \<Rightarrow>
          (case load_profiles loaded (pc_profiles p) of
             (n, ps) \<Rightarrow> (sint (of_nat n :: u32), p\<lparr>pc_profiles := ps\<rparr>))
      | Some _ \<Rightarrow> (0, p))"

text \<open>\<open>save_profiles_to_disk\<close> writes a second file and renames it; a write that fails may leave part of
the text there. The files are a map from their names; their contents, of the type \<open>'c\<close>, are what the JSON
library makes of a list of profiles.\<close>

datatype 'c save_answer = WriteFails "'c option" | RenameFails | Saved

definition save_profiles_to_disk ::
    "'c save_answer \<Rightarrow> (domain_profile list \<Rightarrow> 'c) \<Rightarrow> string \<Rightarrow> profiles \<Rightarrow> (string \<rightharpoonup> 'c) \<Rightarrow> bool \<times> (string \<rightharpoonup> 'c)" where
  "save_profiles_to_disk how print file_path ps files =
     (let tmp_path = file_path @ ''.tmp''; json_data = print (learned_profiles ps)
      in case how of
           WriteFails part \<Rightarrow> (False, case part of None \<Rightarrow> files | Some s \<Rightarrow> files(tmp_path \<mapsto> s))
         | RenameFails \<Rightarrow> (False, files(tmp_path \<mapsto> json_data))
         | Saved \<Rightarrow> (True, files(tmp_path := None, file_path \<mapsto> json_data)))"

definition read_profile_file :: "('c \<Rightarrow> domain_profile list option) \<Rightarrow> 'c option \<Rightarrow> profile_file" where
  "read_profile_file parse content =
     (case content of None \<Rightarrow> Absent | Some s \<Rightarrow> (case parse s of None \<Rightarrow> Unparsable | Some ps \<Rightarrow> Profiles ps))"

definition nt_set_block_quic :: "bool \<Rightarrow> 'r process \<Rightarrow> bool \<times> 'r process" where
  "nt_set_block_quic block p = (True, p\<lparr>pc_block_quic := block\<rparr>)"

text \<open>\<open>mode as u8\<close>.\<close>

definition nt_set_outbound_mode :: "int \<Rightarrow> 'r process \<Rightarrow> bool \<times> 'r process" where
  "nt_set_outbound_mode mode p = (True, p\<lparr>pc_router := (pc_router p)\<lparr>rt_mode := nat (mode mod 256)\<rparr>\<rparr>)"

definition nt_get_outbound_mode :: "'r process \<Rightarrow> int" where
  "nt_get_outbound_mode p = int (rt_mode (pc_router p))"

text \<open>\<open>loadGeoFiles\<close> with the contents of the files that could be read, and the counts it reports.\<close>

definition nt_load_geo_files :: "'r api_env \<Rightarrow> bytes option \<Rightarrow> bytes option \<Rightarrow> 'r process
    \<Rightarrow> (nat \<times> nat) option \<times> 'r process" where
  "nt_load_geo_files ae geosite geoip =
     jni_boundary None (\<lambda>p. case load_geo_files (ae_re_compile ae) geosite geoip of
         Got g \<Rightarrow> Got (Some (card (dom (gs_sites g)), card (dom (gs_ip_v4 g)) + card (dom (gs_ip_v6 g))), p\<lparr>pc_geo := g\<rparr>)
       | Crash \<Rightarrow> Crash
       | Fail \<Rightarrow> Fail)"

definition nt_is_udp_mux :: "'r process \<Rightarrow> bool" where
  "nt_is_udp_mux p = co_udp_mux (rn_core (pc_runtime p))"

definition nt_close_all_connections :: "'r process \<Rightarrow> nat \<times> 'r process" where
  "nt_close_all_connections = on_monitor close_all_connections"

subsection \<open>Any call\<close>

datatype native_call =
  Start start_env int "int option" int nat
| Stop
| SetNode "string option"
| TestNode "string option" int
| SetPoolSize int
| FlushPool
| LatencyMs
| ClearDnsCache
| CloseConnection int
| CloseAllConnections
| SetUdpMux bool
| SetDnsServers "string option" "string option"
| SetRules "string option"
| ResetRuleHits
| SetNodeList "string option"
| SetFailoverPolicy "string option"
| OnNetworkChanged int bool
| SetActiveNetwork int
| LoadTrafficProfiles "profile_file option"
| SetBlockQuic bool
| SetOutboundMode int
| LoadGeoFiles "bytes option" "bytes option"
| SetLogLevel "string option"
| GetLogs
| ClearNativeLogs
| GetStats nat

fun native_step :: "'r api_env \<Rightarrow> native_call \<Rightarrow> 'r process \<Rightarrow> 'r process" where
  "native_step ae (Start env dup_fd pipe_write n cb) p = snd (nt_start ae env dup_fd pipe_write n cb p)"
| "native_step ae Stop p = snd (on_runtime (rt_stop (ae_locked ae)) p)"
| "native_step ae (SetNode uri) p = snd (on_runtime (rt_set_node (ae_locked ae) (ae_parse ae) uri) p)"
| "native_step ae (TestNode uri ms) p = snd (on_runtime (rt_test_node (ae_parse ae) (ae_dial ae) uri ms) p)"
| "native_step ae (SetPoolSize n) p = snd (on_runtime (rt_set_pool_size n) p)"
| "native_step ae FlushPool p = snd (on_runtime (rt_flush_pool (ae_locked ae)) p)"
| "native_step ae LatencyMs p = snd (on_runtime rt_latency_ms p)"
| "native_step ae ClearDnsCache p = snd (on_runtime (\<lambda>rt. ((), rt_clear_dns_cache rt)) p)"
| "native_step ae (CloseConnection i) p = snd (on_runtime (rt_close_connection i) p)"
| "native_step ae CloseAllConnections p = snd (nt_close_all_connections p)"
| "native_step ae (SetUdpMux b) p = snd (on_runtime (\<lambda>rt. ((), rt_set_udp_mux b rt)) p)"
| "native_step ae (SetDnsServers d r) p = snd (on_runtime (rt_set_dns_servers d r) p)"
| "native_step ae (SetRules raw) p = snd (nt_set_rules ae raw p)"
| "native_step ae ResetRuleHits p = snd (nt_reset_rule_hits p)"
| "native_step ae (SetNodeList raw) p = snd (nt_set_node_list ae raw p)"
| "native_step ae (SetFailoverPolicy raw) p = snd (nt_set_failover_policy ae raw p)"
| "native_step ae (OnNetworkChanged h i) p = nt_on_network_changed h i p"
| "native_step ae (SetActiveNetwork h) p = nt_set_active_network h p"
| "native_step ae (LoadTrafficProfiles file) p = snd (nt_load_traffic_profiles file p)"
| "native_step ae (SetBlockQuic b) p = snd (nt_set_block_quic b p)"
| "native_step ae (SetOutboundMode m) p = snd (nt_set_outbound_mode m p)"
| "native_step ae (LoadGeoFiles s i) p = snd (nt_load_geo_files ae s i p)"
| "native_step ae (SetLogLevel l) p = snd (nt_set_log_level ae l p)"
| "native_step ae GetLogs p = snd (nt_get_logs p)"
| "native_step ae ClearNativeLogs p = snd (nt_clear_native_logs p)"
| "native_step ae (GetStats now) p = snd (on_monitor (sample now) p)"

subsection \<open>The settings in force\<close>

lemma on_runtime_keeps [simp]:
  "pc_router (snd (on_runtime f p)) = pc_router p" "pc_geo (snd (on_runtime f p)) = pc_geo p"
  "pc_failover (snd (on_runtime f p)) = pc_failover p" "pc_profiles (snd (on_runtime f p)) = pc_profiles p"
  "pc_block_quic (snd (on_runtime f p)) = pc_block_quic p" "pc_protection (snd (on_runtime f p)) = pc_protection p"
  "pc_log_filter (snd (on_runtime f p)) = pc_log_filter p" "pc_nofile (snd (on_runtime f p)) = pc_nofile p"
  "pc_runtime (snd (on_runtime f p)) = snd (f (pc_runtime p))"
  by (simp_all add: on_runtime_def split: prod.split)

lemma on_monitor_keeps [simp]:
  "pc_router (snd (on_monitor g p)) = pc_router p" "pc_geo (snd (on_monitor g p)) = pc_geo p"
  "pc_failover (snd (on_monitor g p)) = pc_failover p" "pc_profiles (snd (on_monitor g p)) = pc_profiles p"
  "pc_block_quic (snd (on_monitor g p)) = pc_block_quic p" "pc_protection (snd (on_monitor g p)) = pc_protection p"
  "pc_log_filter (snd (on_monitor g p)) = pc_log_filter p"
  "rn_direct_dns (pc_runtime (snd (on_monitor g p))) = rn_direct_dns (pc_runtime p)"
  "rn_remote_dns (pc_runtime (snd (on_monitor g p))) = rn_remote_dns (pc_runtime p)"
  "rn_jni (pc_runtime (snd (on_monitor g p))) = rn_jni (pc_runtime p)"
  "rn_core (pc_runtime (snd (on_monitor g p)))
     = (rn_core (pc_runtime p))\<lparr>co_monitor := snd (g (co_monitor (rn_core (pc_runtime p))))\<rparr>"
  by (simp_all add: on_monitor_def split: prod.split)

lemma init_logging_keeps [simp]:
  "pc_router (init_logging ae p) = pc_router p" "pc_geo (init_logging ae p) = pc_geo p"
  "pc_failover (init_logging ae p) = pc_failover p" "pc_profiles (init_logging ae p) = pc_profiles p"
  "pc_block_quic (init_logging ae p) = pc_block_quic p" "pc_protection (init_logging ae p) = pc_protection p"
  "pc_runtime (init_logging ae p) = pc_runtime p"
  by (simp_all add: init_logging_def split: option.split)

lemma with_jni_keeps [simp]:
  "rn_direct_dns (with_jni f rt) = rn_direct_dns rt" "rn_remote_dns (with_jni f rt) = rn_remote_dns rt"
  "rn_core (with_jni f rt) = rn_core rt" "rn_jni (with_jni f rt) = f (rn_jni rt)"
  by (simp_all add: with_jni_def)

text \<open>The DNS servers are set by one call only.\<close>

definition dns_servers :: "runtime \<Rightarrow> u32 \<times> ip_addr" where
  "dns_servers rt = (rn_direct_dns rt, rn_remote_dns rt)"

lemma dns_kept_boot: "dns_servers (snd (rt_boot env fd pw node rt)) = dns_servers rt"
  by (simp add: rt_boot_def dns_servers_def split: prod.split sum.split option.split)

lemma dns_kept:
  "dns_servers (snd (rt_start parse env fd pw n rt)) = dns_servers rt"
  "dns_servers (snd (rt_stop locked rt)) = dns_servers rt"
  "dns_servers (snd (rt_set_node locked parse uri rt)) = dns_servers rt"
  "dns_servers (snd (rt_test_node parse dial uri ms rt)) = dns_servers rt"
  "dns_servers (snd (rt_set_pool_size n rt)) = dns_servers rt"
  "dns_servers (snd (rt_flush_pool locked rt)) = dns_servers rt"
  "dns_servers (snd (rt_latency_ms rt)) = dns_servers rt"
  "dns_servers (rt_clear_dns_cache rt) = dns_servers rt"
  "dns_servers (snd (rt_close_connection i rt)) = dns_servers rt"
  "dns_servers (rt_set_udp_mux b rt) = dns_servers rt"
  subgoal
    by (simp add: rt_start_def Let_def dns_kept_boot split: option.split sum.split)
      (simp add: dns_servers_def)
  subgoal by (simp add: rt_stop_def Let_def dns_servers_def split: option.split prod.split)
  subgoal by (simp add: rt_set_node_def Let_def dns_servers_def split: option.split sum.split prod.split)
  subgoal by (simp add: rt_test_node_def Let_def dns_servers_def split: option.split sum.split prod.split)
  subgoal by (simp add: rt_set_pool_size_def dns_servers_def)
  subgoal by (simp add: rt_flush_pool_def dns_servers_def split: option.split)
  subgoal by (simp add: rt_latency_ms_def dns_servers_def split: option.split prod.split)
  subgoal by (simp add: rt_clear_dns_cache_def dns_servers_def split: option.split prod.split)
  subgoal by (simp add: rt_close_connection_def dns_servers_def split: prod.split)
  subgoal by (simp add: rt_set_udp_mux_def dns_servers_def)
  done

lemmas dns_each [simp] = dns_kept [unfolded dns_servers_def prod.inject]

text \<open>What each call sets, if it is accepted, and the last one of a run.\<close>

definition latest :: "('c \<Rightarrow> 'a option) \<Rightarrow> 'c list \<Rightarrow> 'a \<Rightarrow> 'a" where
  "latest f cs start = fold (\<lambda>c a. case f c of Some v \<Rightarrow> v | None \<Rightarrow> a) cs start"

lemma latest_run:
  assumes "\<And>c p. g (step c p) = (case f c of Some v \<Rightarrow> v | None \<Rightarrow> g p)"
  shows "g (fold step cs p) = latest f cs (g p)"
  unfolding latest_def by (induction cs arbitrary: p) (simp_all add: assms)

fun sets_rules :: "'r api_env \<Rightarrow> native_call \<Rightarrow> ('r composite_rule list \<times> rule_action) option" where
  "sets_rules ae (SetRules (Some s)) =
     map_option (\<lambda>v. (rt_rules (install_rules (ae_re_compile ae) v router_init),
                       rt_default_action (install_rules (ae_re_compile ae) v router_init)))
       (ae_json_parse ae (strip_and_inject_rules (ae_re_compile ae) (ae_json_parse ae) (ae_json_print ae) s))"
| "sets_rules ae _ = None"

fun sets_mode :: "native_call \<Rightarrow> nat option" where
  "sets_mode (SetOutboundMode m) = Some (nat (m mod 256))" | "sets_mode _ = None"

fun sets_nodes :: "'r api_env \<Rightarrow> native_call \<Rightarrow> node_entry list option" where
  "sets_nodes ae (SetNodeList (Some s)) = ae_nodes ae s" | "sets_nodes ae _ = None"

fun sets_policy :: "'r api_env \<Rightarrow> native_call \<Rightarrow> failover_policy option" where
  "sets_policy ae (SetFailoverPolicy (Some s)) = ae_policy ae s" | "sets_policy ae _ = None"

fun sets_quic :: "native_call \<Rightarrow> bool option" where
  "sets_quic (SetBlockQuic b) = Some b" | "sets_quic _ = None"

fun sets_geo :: "'r api_env \<Rightarrow> native_call \<Rightarrow> 'r geo_store option" where
  "sets_geo ae (LoadGeoFiles s i) = (case load_geo_files (ae_re_compile ae) s i of Got g \<Rightarrow> Some g | _ \<Rightarrow> None)"
| "sets_geo ae _ = None"

fun sets_direct_dns :: "native_call \<Rightarrow> u32 option" where
  "sets_direct_dns (SetDnsServers (Some d) (Some r)) = parse_ipv4 (trim d)" | "sets_direct_dns _ = None"

fun sets_remote_dns :: "native_call \<Rightarrow> ip_addr option" where
  "sets_remote_dns (SetDnsServers (Some d) (Some r)) = parse_ip (trim r)" | "sets_remote_dns _ = None"

fun sets_network :: "native_call \<Rightarrow> u64 option" where
  "sets_network (SetActiveNetwork h) = Some (of_int h)" | "sets_network _ = None"

lemmas native_setting_defs =
  nt_start_def nt_set_rules_def nt_reset_rule_hits_def nt_set_node_list_def nt_set_failover_policy_def
  nt_on_network_changed_def nt_set_active_network_def nt_load_traffic_profiles_def nt_set_block_quic_def
  nt_set_outbound_mode_def nt_load_geo_files_def jni_boundary_def nt_close_all_connections_def
  nt_set_log_level_def update_log_level_def nt_get_logs_def nt_clear_native_logs_def

lemmas native_splits = option.split prod.split profile_file.split scan.split

lemma step_mode: "rt_mode (pc_router (native_step ae c p)) = (case sets_mode c of Some v \<Rightarrow> v | None \<Rightarrow> rt_mode (pc_router p))"
  by (cases c; simp add: native_setting_defs Let_def set_custom_rules_def install_rules_def split: native_splits)

definition rules_in_force :: "'r process \<Rightarrow> 'r composite_rule list \<times> rule_action" where
  "rules_in_force p = (rt_rules (pc_router p), rt_default_action (pc_router p))"

lemma step_rules: "rules_in_force (native_step ae c p) = (case sets_rules ae c of Some v \<Rightarrow> v | None \<Rightarrow> rules_in_force p)"
  unfolding rules_in_force_def
  by (cases c; simp add: native_setting_defs Let_def set_custom_rules_def install_rules_def split: native_splits)

lemma step_nodes: "fo_nodes (pc_failover (native_step ae c p)) = (case sets_nodes ae c of Some v \<Rightarrow> v | None \<Rightarrow> fo_nodes (pc_failover p))"
  by (cases c; simp add: native_setting_defs Let_def set_node_list_def set_policy_def on_network_changed_def split: native_splits)

lemma step_policy: "fo_policy (pc_failover (native_step ae c p)) = (case sets_policy ae c of Some v \<Rightarrow> v | None \<Rightarrow> fo_policy (pc_failover p))"
  by (cases c; simp add: native_setting_defs Let_def set_node_list_def set_policy_def on_network_changed_def split: native_splits)

lemma step_quic: "pc_block_quic (native_step ae c p) = (case sets_quic c of Some v \<Rightarrow> v | None \<Rightarrow> pc_block_quic p)"
  by (cases c; simp add: native_setting_defs Let_def split: native_splits)

lemma step_geo: "pc_geo (native_step ae c p) = (case sets_geo ae c of Some v \<Rightarrow> v | None \<Rightarrow> pc_geo p)"
  by (cases c; simp add: native_setting_defs Let_def split: native_splits)

lemma step_network: "pr_handle (pc_protection (native_step ae c p)) = (case sets_network c of Some v \<Rightarrow> v | None \<Rightarrow> pr_handle (pc_protection p))"
  by (cases c; simp add: native_setting_defs Let_def set_protect_callback_def set_active_network_handle_def split: native_splits)

lemma step_dns:
  "rn_direct_dns (pc_runtime (native_step ae c p)) = (case sets_direct_dns c of Some v \<Rightarrow> v | None \<Rightarrow> rn_direct_dns (pc_runtime p))"
  "rn_remote_dns (pc_runtime (native_step ae c p)) = (case sets_remote_dns c of Some v \<Rightarrow> v | None \<Rightarrow> rn_remote_dns (pc_runtime p))"
  by (cases c; simp add: native_setting_defs Let_def rt_set_dns_servers_def split: native_splits)+


subsection \<open>What every call keeps\<close>

definition core_ok :: "core \<Rightarrow> bool" where
  "core_ok co \<longleftrightarrow> monitor_inv (co_monitor co) \<and> 1 \<le> co_udp_mux_tunnels co"

definition runtime_ok :: "runtime \<Rightarrow> bool" where
  "runtime_ok rt \<longleftrightarrow> rt_wf rt \<and> 0 < js_pool_size (rn_jni rt) \<and> core_ok (rn_core rt)"

definition process_ok :: "'r process \<Rightarrow> bool" where
  "process_ok p \<longleftrightarrow> runtime_ok (pc_runtime p) \<and> rt_mode (pc_router p) < 256 \<and> fst (pc_nofile p) \<le> snd (pc_nofile p)"

lemma monitor_inv_same:
  "monitor_inv m \<Longrightarrow> mn_conns m' = mn_conns m \<Longrightarrow> mn_recent m' = mn_recent m \<Longrightarrow> mn_next_id m' = mn_next_id m
     \<Longrightarrow> monitor_inv m'"
  by (simp add: monitor_inv_def)

lemma core_ok_monitor [simp]: "core_ok (co\<lparr>co_monitor := m\<rparr>) \<longleftrightarrow> monitor_inv m \<and> 1 \<le> co_udp_mux_tunnels co"
  by (simp add: core_ok_def)

lemma reset_session_inv: "monitor_inv (reset_session m)"
  by (simp add: monitor_inv_def reset_session_def recent_requests_cap_def)

lemma core_ok_simps [simp]:
  "core_ok co \<Longrightarrow> core_ok (reset_core co)" "core_ok (set_udp_mux b n co) \<longleftrightarrow> monitor_inv (co_monitor co)"
  "core_ok co \<Longrightarrow> core_ok (clear_direct_cache co)"
  by (simp_all add: core_ok_def reset_core_def clear_direct_cache_def set_udp_mux_def reset_session_inv)

lemma core_okD: "core_ok co \<Longrightarrow> monitor_inv (co_monitor co)" "core_ok co \<Longrightarrow> 1 \<le> co_udp_mux_tunnels co"
  by (simp_all add: core_ok_def)

lemma engine_new_ok: "core_ok co \<Longrightarrow> engine_new node co = (r, co') \<Longrightarrow> core_ok co'"
  by (auto simp: engine_new_def from_config_def core_okD split: prod.splits)

lemma reset_dns_ok: "core_ok co \<Longrightarrow> reset_dns_and_fake_ip (co, eng) = (co', eng') \<Longrightarrow> core_ok co'"
  by (auto simp: reset_dns_and_fake_ip_def)

lemma runtime_ok_core: "runtime_ok rt \<Longrightarrow> core_ok co \<Longrightarrow> runtime_ok (rt\<lparr>rn_core := co\<rparr>)"
  by (simp add: runtime_ok_def rt_wf_def)

lemma runtime_ok_dns [simp]:
  "runtime_ok (rt\<lparr>rn_direct_dns := d\<rparr>) = runtime_ok rt" "runtime_ok (rt\<lparr>rn_remote_dns := r\<rparr>) = runtime_ok rt"
  by (simp_all add: runtime_ok_def rt_wf_def)

text \<open>Where only the control plane moves, what it moves is named.\<close>

lemma runtime_ok_jni:
  assumes "runtime_ok rt" "0 < js_pool_size (f (rn_jni rt))"
    "\<And>st. js_runtime (f (rn_jni rt)) = Some st \<Longrightarrow> stack_wf st"
  shows "runtime_ok (with_jni f rt)"
  using assms by (auto simp: runtime_ok_def rt_wf_def with_jni_def split: option.split)

lemma runtime_okD:
  "runtime_ok rt \<Longrightarrow> rt_wf rt" "runtime_ok rt \<Longrightarrow> 0 < js_pool_size (rn_jni rt)" "runtime_ok rt \<Longrightarrow> core_ok (rn_core rt)"
  "runtime_ok rt \<Longrightarrow> running rt = Some st \<Longrightarrow> stack_wf st"
  by (simp_all add: runtime_ok_def rt_wf_def)

lemma runtime_okI: "rt_wf rt \<Longrightarrow> 0 < js_pool_size (rn_jni rt) \<Longrightarrow> core_ok (rn_core rt) \<Longrightarrow> runtime_ok rt"
  by (simp add: runtime_ok_def)

lemma runtime_ok_parts [simp]:
  "runtime_ok rt \<Longrightarrow> monitor_inv (co_monitor (rn_core rt))" "runtime_ok rt \<Longrightarrow> Suc 0 \<le> co_udp_mux_tunnels (rn_core rt)"
  "runtime_ok rt \<Longrightarrow> core_ok (rn_core rt)" "runtime_ok rt \<Longrightarrow> 0 < js_pool_size (rn_jni rt)"
  by (simp_all add: runtime_ok_def core_ok_def)

lemma stack_wf_keeps [simp]:
  "stack_wf (with_engine f st) = stack_wf st" "stack_wf (stack_flush_pool locked st) = stack_wf st"
  by (simp_all add: with_engine_def stack_flush_pool_def stack_wf_def)

lemma keeps_boot:
  assumes "runtime_ok rt"
  shows "runtime_ok (snd (rt_boot env fd pw node rt))"
proof -
  obtain r co where e: "engine_new node (rn_core rt) = (r, co)" by fastforce
  have co: "core_ok co" using engine_new_ok [OF runtime_okD(3) [OF assms] e] .
  have wf: "rt_wf (snd (rt_boot env fd pw node rt))" using boot_refines [OF runtime_okD(1) [OF assms]] by blast
  show ?thesis using assms co e
    by (intro runtime_okI wf) (auto simp: rt_boot_def split: sum.split option.split)
qed

lemma keeps_start:
  assumes "runtime_ok rt"
  shows "runtime_ok (snd (rt_start parse env fd pw n rt))"
proof -
  have fail: "runtime_ok (with_jni (js_started_update (\<lambda>_. b)) q)" if "runtime_ok q" for q b
    using that by (auto intro!: runtime_ok_jni simp: runtime_okD(4))
  have init: "runtime_ok (with_jni (js_started_update (\<lambda>_. True)) (rt\<lparr>rn_core := reset_core (rn_core rt)\<rparr>))"
    using assms by (intro fail runtime_ok_core) (simp_all add: runtime_okD)
  have size: "runtime_ok (with_jni (js_pool_size_update (\<lambda>_. nat n)) q)" if "0 < n" "runtime_ok q" for q
    using that by (auto intro!: runtime_ok_jni simp: runtime_okD(4))
  have uri: "runtime_ok (with_jni (js_node_uri_update (\<lambda>_. Some u)) q)" if "runtime_ok q" for q u
    using that by (auto intro!: runtime_ok_jni simp: runtime_okD(4))
  show ?thesis using assms unfolding rt_start_def
    by (simp add: Let_def init fail size uri keeps_boot split: option.split sum.split)
qed

lemma keeps_stop: "runtime_ok rt \<Longrightarrow> runtime_ok (snd (rt_stop locked rt))"
  using stop_refines [of locked rt]
  by (intro runtime_okI) (auto simp: rt_stop_def Let_def stop_def reset_dns_and_fake_ip_def split: option.split prod.split)

lemma keeps_set_node:
  assumes "runtime_ok rt"
  shows "runtime_ok (snd (rt_set_node locked parse uri rt))"
proof -
  have wf: "rt_wf (snd (rt_set_node locked parse uri rt))" using set_node_refines [OF runtime_okD(1) [OF assms]] by blast
  from assms show ?thesis
    by (intro runtime_okI wf)
      (auto simp: rt_set_node_def Let_def dest: engine_new_ok [OF runtime_okD(3)] split: option.split sum.split prod.split)
qed

lemma keeps_test_node: "runtime_ok rt \<Longrightarrow> runtime_ok (snd (rt_test_node parse dial uri ms rt))"
  by (auto simp: rt_test_node_def Let_def intro!: runtime_ok_core dest: engine_new_ok [OF runtime_okD(3)]
      split: option.split sum.split prod.split)

lemma keeps_pool_size: "runtime_ok rt \<Longrightarrow> runtime_ok (snd (rt_set_pool_size n rt))"
  using set_pool_size_refines [OF runtime_okD(1), of rt n]
  by (intro runtime_okI) (auto simp: rt_set_pool_size_def)

lemma keeps_flush: "runtime_ok rt \<Longrightarrow> runtime_ok (snd (rt_flush_pool locked rt))"
  by (auto simp: rt_flush_pool_def runtime_okD(4) intro!: runtime_ok_jni
      split: option.split)

lemma keeps_latency: "runtime_ok rt \<Longrightarrow> runtime_ok (snd (rt_latency_ms rt))"
  by (auto simp: rt_latency_ms_def runtime_okD(4) intro!: runtime_ok_jni
      split: option.split prod.split)

lemma keeps_clear_dns: "runtime_ok rt \<Longrightarrow> runtime_ok (rt_clear_dns_cache rt)"
  by (auto simp: rt_clear_dns_cache_def runtime_okD(4) intro!: runtime_ok_jni runtime_ok_core
      dest: reset_dns_ok [OF runtime_okD(3)] split: option.split prod.split)

lemma keeps_close_connection: "runtime_ok rt \<Longrightarrow> runtime_ok (snd (rt_close_connection i rt))"
  by (auto simp: rt_close_connection_def close_connection_def update_conn_inv core_okD
      intro!: runtime_ok_core split: prod.split)

lemma keeps_udp_mux: "runtime_ok rt \<Longrightarrow> runtime_ok (rt_set_udp_mux b rt)"
  by (auto simp: rt_set_udp_mux_def core_okD intro!: runtime_ok_core)

lemma keeps_dns_servers: "runtime_ok rt \<Longrightarrow> runtime_ok (snd (rt_set_dns_servers d r rt))"
  by (auto simp: rt_set_dns_servers_def Let_def runtime_ok_core runtime_okD split: option.split)

lemma close_all_inv: "monitor_inv m \<Longrightarrow> monitor_inv (snd (close_all_connections m))"
  by (auto simp: monitor_inv_def close_all_connections_def comp_def split_beta)

lemma log_and_sample_inv:
  "monitor_inv m \<Longrightarrow> monitor_inv (snd (drain_logs m))" "monitor_inv m \<Longrightarrow> monitor_inv (clear_logs m)"
  "monitor_inv m \<Longrightarrow> monitor_inv (snd (sample now m))"
proof -
  have "monitor_inv (m\<lparr>mn_samples := q\<rparr>) = monitor_inv m" "monitor_inv (m\<lparr>mn_logs := l\<rparr>) = monitor_inv m" for m q l
    by (simp_all add: monitor_inv_def)
  then show "monitor_inv m \<Longrightarrow> monitor_inv (snd (drain_logs m))" "monitor_inv m \<Longrightarrow> monitor_inv (clear_logs m)"
    "monitor_inv m \<Longrightarrow> monitor_inv (snd (sample now m))"
    by (simp_all add: drain_logs_def clear_logs_def sample_def Let_def split: prod.split)
qed

lemma on_monitor_ok:
  assumes "runtime_ok (pc_runtime p)" "\<And>m. monitor_inv m \<Longrightarrow> monitor_inv (snd (g m))"
  shows "runtime_ok (pc_runtime (snd (on_monitor g p)))"
proof -
  have "monitor_inv (snd (g (co_monitor (rn_core (pc_runtime p)))))" using assms by simp
  with assms(1) show ?thesis by (auto simp: on_monitor_def intro!: runtime_ok_core split: prod.split)
qed

lemma nofile_ok: "fst l \<le> snd l \<Longrightarrow> fst (raise_nofile_limit b l) \<le> snd (raise_nofile_limit b l)"
  by (auto simp: raise_nofile_limit_def Let_def split: prod.split)

lemma nofile_kept [simp]:
  "pc_nofile (snd (on_monitor g p)) = pc_nofile p"
  "pc_nofile (init_logging ae p) = (if pc_log_filter p = None then raise_nofile_limit (ae_setrlimit ae) (pc_nofile p) else pc_nofile p)"
  by (simp_all add: on_monitor_def init_logging_def split: option.split)

lemma native_runtime_ok: "runtime_ok (pc_runtime p) \<Longrightarrow> runtime_ok (pc_runtime (native_step ae c p))"
  by (cases c; simp add: native_setting_defs Let_def keeps_start keeps_stop keeps_set_node keeps_test_node
      keeps_pool_size keeps_flush keeps_latency keeps_clear_dns keeps_close_connection keeps_udp_mux keeps_dns_servers
      on_monitor_ok close_all_inv log_and_sample_inv split: native_splits)

lemma native_nofile_ok: "fst (pc_nofile p) \<le> snd (pc_nofile p) \<Longrightarrow> fst (pc_nofile (native_step ae c p)) \<le> snd (pc_nofile (native_step ae c p))"
  by (cases c; simp add: native_setting_defs Let_def nofile_ok split: native_splits)

lemma native_step_ok:
  assumes "process_ok p"
  shows "process_ok (native_step ae c p)"
proof -
  have "rt_mode (pc_router (native_step ae c p)) < 256"
    using assms by (cases c) (simp_all add: step_mode process_ok_def del: native_step.simps)
  then show ?thesis using assms native_runtime_ok [of p] native_nofile_ok [of p]
    by (simp add: process_ok_def del: native_step.simps)
qed

interpretation native: invariant_machine "native_step ae" process_ok for ae
  by unfold_locales (rule native_step_ok)

lemma process_init_ok: "core_ok co \<Longrightarrow> fst l \<le> snd l \<Longrightarrow> process_ok (process_init co l)"
  by (simp add: process_ok_def process_init_def runtime_ok_def rt_init_def rt_wf_def jni_init_def router_init_def)


definition quiet_env :: "unit api_env" where
  "quiet_env = \<lparr>ae_locked = (\<lambda>_. False), ae_parse = (\<lambda>_. Inr plain_node), ae_dial = (\<lambda>_. None), ae_re_compile = (\<lambda>_. None),
     ae_json_parse = (\<lambda>_. None), ae_json_print = (\<lambda>_. []), ae_nodes = (\<lambda>_. None), ae_policy = (\<lambda>_. None),
     ae_log_default = ''info'', ae_log_reload = (\<lambda>_. True), ae_setrlimit = True\<rparr>"


subsection \<open>Profiles on disk\<close>
lemma learned_set: "set (learned_profiles ps) = snd ` set ps" "length (learned_profiles ps) = length ps"
  by (simp_all add: learned_profiles_def)

lemma load_fold: "map_of (fold (\<lambda>p. AList.update (dp_domain p) p) xs ps) = map_of ps ++ map_of (rev (map (\<lambda>p. (dp_domain p, p)) xs))"
  by (induction xs arbitrary: ps) (simp_all add: update_conv')

lemma learned_map:
  assumes "profiles_inv ps"
  shows "map_of (rev (map (\<lambda>p. (dp_domain p, p)) (learned_profiles ps))) = map_of ps"
proof -
  have key: "dp_domain (snd x) = fst x" if "x \<in> set ps" for x
    using that assms by (cases x) (auto simp: profiles_inv_def profile_ok_def)
  have pairs: "map (\<lambda>p. (dp_domain p, p)) (map snd ps) = ps"
    using key by (simp add: map_idI)
  have mset: "mset (map (\<lambda>p. (dp_domain p, p)) (learned_profiles ps)) = mset ps"
    using arg_cong [OF pairs, of mset] by (simp add: learned_profiles_def multiset.map_comp)
  have d: "distinct (map fst (map (\<lambda>p. (dp_domain p, p)) (learned_profiles ps)))"
    using arg_cong [OF mset, of "image_mset fst"] assms
    by (simp add: profiles_inv_def flip: mset_map) (metis mset_eq_imp_distinct_iff)
  have s: "set (rev (map (\<lambda>p. (dp_domain p, p)) (learned_profiles ps))) = set ps"
    using mset_eq_setD [OF mset] by (simp only: set_rev)
  show ?thesis
    using d assms by (subst map_of_inject_set) (simp_all add: s profiles_inv_def rev_map [symmetric] del: set_rev set_map)
qed

text \<open>Learned profiles survive on disk (\<open>save_profiles_to_disk\<close>, \<open>load_profiles_from_disk\<close>,
adaptive_idle.rs): if the text of profiles reads back, a saved file loads to every profile that was held,
over those already there; and however a save fails, the file of the last one stays as it was.\<close>
theorem saved_profiles_load_back:
  assumes "profiles_inv ps" "\<And>l. parse (print l) = Some l"
  shows "(\<forall>how. snd (save_profiles_to_disk how print path ps files) path
        = (if how = Saved then Some (print (learned_profiles ps)) else files path))
    \<and> (let (n, p') = nt_load_traffic_profiles (Some (read_profile_file parse
               (snd (save_profiles_to_disk Saved print path ps files) path))) p
       in n = int (length ps) \<and> map_of (pc_profiles p') = map_of (pc_profiles p) ++ map_of ps)"
proof -
  have "length ps \<le> 512" using assms(1) by (simp add: profiles_inv_def max_profiles_capacity_def)
  then have "sint (of_nat (length ps) :: u32) = int (length ps)"
    by (simp add: signed_of_nat signed_take_bit_int_eq_self)
  then show ?thesis
    using load_fold [of "learned_profiles ps" "pc_profiles p"] learned_map [OF assms(1)] learned_set(2) [of ps]
    by (auto simp: save_profiles_to_disk_def read_profile_file_def assms(2) nt_load_traffic_profiles_def
        load_profiles_def Let_def split: save_answer.split option.split)
qed

definition one_profile :: profiles where
  "one_profile = [(''a'', profile_new ''a'' GeneralApi False 100 100 IdleTimeout)]"

lemma one_profile_inv: "profiles_inv one_profile"
proof -
  have "initial_category ''a'' = GeneralApi" by code_simp
  then show ?thesis
    by (simp add: profiles_inv_def one_profile_def max_profiles_capacity_def profile_ok_def profile_new_def default_idle_secs_def)
qed

theorem saved_profiles_load_back_witness:
  "(let (n, p') = nt_load_traffic_profiles (Some (read_profile_file Some
         (snd (save_profiles_to_disk Saved (\<lambda>l. l) ''f'' one_profile Map.empty) ''f''))) (process_init fresh_core (1, 1) :: unit process)
    in n = 1 \<and> map_of (pc_profiles p') ''a'' \<noteq> None)"
proof -
  have "length one_profile = 1" "pc_profiles (process_init fresh_core (1, 1) :: unit process) = []"
    "map_of one_profile ''a'' \<noteq> None" by (simp_all add: one_profile_def process_init_def)
  with saved_profiles_load_back [OF one_profile_inv, of Some "\<lambda>l. l" "''f''" Map.empty "process_init fresh_core (1, 1) :: unit process"]
  show ?thesis by (auto simp: Let_def case_prod_beta)
qed

subsection \<open>Panics and rejected settings\<close>

text \<open>A geo file that makes the loader panic leaves the data in place, and the call returns null.\<close>

lemma geo_panic_contained:
  "nt_load_geo_files ae (Some [0x0A, 0xFF, 0xFF, 0xFF, 0xFF, 0xFF, 0xFF, 0xFF, 0xFF, 0xFF, 0x01]) geoip p = (None, p)"
  by (simp add: nt_load_geo_files_def jni_boundary_def load_geo_files_def geo_length_wraps)

text \<open>A mode is cut to a byte: 258 is taken for the direct mode, and the call reports success.\<close>

lemma mode_truncated: "nt_set_outbound_mode 258 p = (True, p\<lparr>pc_router := (pc_router p)\<lparr>rt_mode := 2\<rparr>\<rparr>)"
  by (simp add: nt_set_outbound_mode_def)

text \<open>Servers that do not parse are ignored, and the call reports success.\<close>

lemma dns_text_ignored:
  "parse_ipv4 (trim d) = None \<Longrightarrow> parse_ip (trim r) = None \<Longrightarrow> rt_set_dns_servers (Some d) (Some r) rt = (True, rt)"
  by (simp add: rt_set_dns_servers_def)

end
