(* ===== verification/Spec2Isabelle.thy ===== *)
theory Spec2Isabelle
  imports FakeIp Failover Router Packets UdpFrames UdpMux Dns DnsFlight Sniffer FlowPath TlsSession HelloAuth Pool Handshake Adaptive TcpRelay Runtime MirageStream Control UdpRelay Ja4 Dial TunReader NativeApi
begin

text \<open>The native core of Mirage-android (\<open>src/native\<close>, Rust): a VPN client that takes the packets of
the phone from a TUN descriptor, ends their TCP and UDP flows in a user-mode stack and forwards them,
directly or through tunnels that look like TLS sessions with a camouflage site.

The parts and how they work together. A packet read from the TUN goes to the stack (\<open>tun/mod.rs\<close>),
which answers DNS queries itself (\<open>tun/dns.rs\<close>) with addresses of a reserved range that it can map
back to names (\<open>dns/fake_ip.rs\<close>), hands UDP datagrams to the UDP engine (\<open>tun/udp.rs\<close>) and gives TCP
connections a socket and a relay (\<open>tun/tcp.rs\<close>). For each flow the rule engine (\<open>direct.rs\<close>, \<open>geo.rs\<close>)
decides between refusing, dialling and tunnelling. Tunnels come from the outbounds of the engine
(\<open>engine.rs\<close>, \<open>proxy/outbound.rs\<close>) and their pools (\<open>proxy/pool.rs\<close>), which keep finished handshakes
(\<open>crypto/tls_raw.rs\<close>, \<open>hello_auth.rs\<close>, \<open>handshake_cache.rs\<close>, \<open>pfs.rs\<close>) in stock and send records
(\<open>crypto/aead.rs\<close>, \<open>cipher.rs\<close>). UDP flows share tunnels (\<open>proxy/udp_mux.rs\<close>). The native methods
(\<open>mirage-jni/src/lib.rs\<close>) start, stop and switch all this, and a watchdog changes nodes
(\<open>failover.rs\<close>). \<open>monitor.rs\<close> counts and records.

Theories, from the bottom. A file name without a directory is of \<open>mirage-core/src\<close>; the definitions
bear the names of the functions and types they model wherever HOL leaves them free, and each theory
opens with what it holds.

  \<^item> \<open>Prelude\<close>, \<open>RustStr\<close>, \<open>RustParse\<close>, \<open>NetTypes\<close>: bytes and machine integers, results, big-endian
    numbers, \<open>str\<close> and number parsing of the Rust library, addresses; the locale \<open>invariant_machine\<close>
    of state machines with an invariant, which every component with a run interprets. \<open>Ring\<close>: the
    locale of bounded queues that drop their oldest element.
  \<^item> \<open>FakeIp\<close>: the mapper, its file, and how long an address keeps its name. \<open>NodeUri\<close>: node URIs.
    \<open>NetClass\<close>, \<open>CnRanges\<close>: the classes of names and addresses of \<open>direct.rs\<close>. \<open>Geo\<close>: the two data
    files. \<open>Router\<close>: rules, decisions and the guard of upstream queries.
  \<^item> \<open>Packets\<close>: the packets written to the TUN. \<open>UdpFrames\<close>: the two frame formats over the locale
    \<open>frame_codec\<close>. \<open>UdpMux\<close>: one shared tunnel. \<open>Dns\<close>: the answerer; \<open>DnsFlight\<close>: its lookups at the same time. \<open>Sniffer\<close>: names in first bytes.
    \<open>FlowPath\<close>: what becomes of a routed flow, and the UDP engine's admission.
  \<^item> \<open>Cipher\<close>, \<open>TlsRecord\<close>, \<open>TlsSession\<close>: algorithms, the record layer, and what it promises.
    \<open>HelloAuth\<close>: session tokens and the replay cache. \<open>ClientHello\<close>: the imitated greetings, \<open>Ja4\<close>:
    the fingerprint by which they are judged.
    \<open>Flight\<close>: the forged answer of the server. \<open>Handshake\<close>: login, keys and negotiation.
    \<open>MirageStream\<close>: a tunnel as a stream of bytes.
  \<^item> \<open>Pool\<close>: the warm tunnels as a state machine of builder, manager and takers. \<open>Outbound\<close>: the tree
    of outbounds. \<open>Dial\<close>: the sockets below, their options, protection and addresses, and the congestion
    control of \<open>proxy/brutal.rs\<close>. \<open>Monitor\<close>, \<open>Adaptive\<close>: the records and the learned idle timeouts. \<open>Engine\<close>: one
    configuration with its outbounds and mapper.
  \<^item> \<open>TunDevice\<close>, \<open>TunStack\<close>: packet queues, dispatch, sockets, pump, and the life of the descriptors.
    \<open>TunReader\<close>: the thread that reads packets. \<open>TcpRelay\<close>, \<open>UdpRelay\<close>: connections and flows from the decision to their record.
  \<^item> \<open>Failover\<close>: the control plane over an abstract engine, and the watchdog. \<open>Runtime\<close>: the native
    methods over \<open>Engine\<close> and \<open>TunStack\<close>, which refine it. \<open>Control\<close>: the command socket and the
    protection of sockets. \<open>NativeApi\<close>: every native method over the whole process.

How the code is carried over. A struct is a record, an enum a datatype, an integer a word of its
width; arithmetic wraps where a release build wraps, and a slice out of range, which panics,
is a result of its own. A Rust string is the list of its UTF-8 bytes. The state behind a lock or in a
static is an argument and a result; an operation that holds its locks throughout is one step, and
operations that interleave are the events of a list, in any order. An \<open>async\<close> loop is a step function
over what it can be woken by: data, a timer, an end; \<open>possible\<close> predicates say when a timer can fire
where a fact depends on it. Clocks and random numbers are arguments. Loops that end are recursive
functions with a measure; a loop that draws again until its draws differ takes the list of draws and
is \<open>None\<close> while they last. There is no fuel elsewhere.

What stands outside is a parameter: the AEAD, HKDF, HMAC, SHA-256, Poly1305 and the curve; smoltcp's
views of packets and operations on sockets; JSON and regular expressions; Unicode lower case; the
system resolver; what a connection delivers. Facts that need something of a parameter state it as a
hypothesis (opening undoes sealing, for instance), and their witnesses instantiate it.

What the facts show. The mapper never confuses two names, survives its file, and keeps an address for
as long as its range lasts. LAN flows never leave; a flow to a fake address is dialled only at private
or Chinese addresses and its name reaches no resolver it should not. The range search is membership.
DNS answers map back, a name is asked for once at a time, and an answer shared or stored belongs to its
name. Packets read back with valid checksums. The record layer is a stream, across
padding, batching and a switch of algorithm, its sends return, and no nonce repeats. A token is
accepted once and a synchronised client at all; client and server end in step, and only after the
server has proved the key. Greetings keep the fingerprint they copy and fetched answers are read to
their end. A pool gives no tunnel twice. Outbound tables are built exactly when they can be, and loads
are shared evenly. Learned timeouts stay in range. Descriptors are closed once. Relays forward in
order, close as idle only what is idle, and leave no record behind; UDP datagrams arrive whatever the
batching. No socket is connected unprotected, apart from those of the direct outbound. The native
methods refine the control plane, keep the invariants of the process, and leave in force the settings
last accepted. Other facts pin behaviour that is a fault of the code: a timer inside a record loses
part of it, an answered UDP flow is cut, and those kept as lemmas beside their components.

Not modelled. \<open>direct_cn_ipv4.rs\<close> is a generated table and a parameter of the search.
\<open>decide_brutal_rate\<close>, which nothing calls, works on floating point numbers. \<open>debug_server.rs\<close> prints
state for a debug build. \<open>vendor\<close> is a copy of the upstream code that is not compiled. The texts that
native methods make of the state, and the callbacks into the JVM; the making of descriptors and pipes,
and smoltcp; binding the command socket; the look-up of the app behind a connection; and the Kotlin
application, apart from the URIs it writes.\<close>

end
